(* ===== verification/Prelude.thy ===== *)
theory Prelude
  imports Complex_Main
    "HOL-Library.List_Lexorder" "HOL-Library.Product_Lexorder"
    "HOL-Library.AList" "HOL-Library.Sublist" "HOL-Library.Multiset"
    "HOL-Library.Code_Target_Numeral"
begin

text \<open>
  Shared vocabulary of the development: Python strings as lists of code points, raised exceptions
  as the left summand of a result, \<open>dict\<close> and \<open>OrderedDict\<close> as association lists in insertion
  order, floats as reals with the special values the code tests for, and the three list loops the
  components keep writing (first-occurrence de-duplication, keep-the-best-per-key, stable sort by a
  tuple key).  Tuples and lists are compared lexicographically, as Python compares them, through
  the library orders of \<open>Product_Lexorder\<close> and \<open>List_Lexorder\<close>; \<open>sort_key\<close> is stable as
  \<open>list.sort\<close> is.
\<close>

named_theorems odict_simps \<open>lookups and lengths of ordered dictionaries after an update\<close>
named_theorems result_splits \<open>inversion of the result monad\<close>

section \<open>Strings and results\<close>

type_synonym pystr = "nat list"

definition asc :: "string \<Rightarrow> pystr" where
  "asc s = map of_char s"

lemma asc_Nil [simp]: "asc [] = []"
  by (simp add: asc_def)

lemma asc_eq_Nil [simp]: "asc s = [] \<longleftrightarrow> s = []"
  by (simp add: asc_def)

lemma asc_eq_iff [simp]: "asc s = asc t \<longleftrightarrow> s = t"
  by (simp add: asc_def inj_map_eq_map inj_of_char)

lemma length_asc [simp]: "length (asc s) = length s"
  by (simp add: asc_def)

datatype py_error =
    ValueError string
  | PinyinInputError string
  | IndexError string
  | KeyError
  | RuntimeError string
  | TypeError string
  | ProtocolError string
  | QwenImeWireError string
  | QwenImeProtocolError string
  | CandidatePageError string
  | CandidatePageTimeout string
  | UnicodeError
  | EOFError
  | BackendFailure

type_synonym 'a result = "py_error + 'a"

fun rbind :: "'a result \<Rightarrow> ('a \<Rightarrow> 'b result) \<Rightarrow> 'b result" where
  "rbind (Inl e) f = Inl e"
| "rbind (Inr x) f = f x"

definition require :: "bool \<Rightarrow> py_error \<Rightarrow> unit result" where
  "require b e = (if b then Inr () else Inl e)"

lemma rbind_Inr_iff [result_splits]: "rbind m f = Inr y \<longleftrightarrow> (\<exists>x. m = Inr x \<and> f x = Inr y)"
  by (cases m) auto

lemma rbind_Inl_iff [result_splits]:
  "rbind m f = Inl e \<longleftrightarrow> m = Inl e \<or> (\<exists>x. m = Inr x \<and> f x = Inl e)"
  by (cases m) auto

lemma require_Inr_iff [result_splits, simp]: "require b e = Inr u \<longleftrightarrow> b"
  by (simp add: require_def)

lemma require_Inl_iff [result_splits, simp]: "require b e = Inl e' \<longleftrightarrow> \<not> b \<and> e = e'"
  by (auto simp add: require_def)

text \<open>A comprehension whose body may raise: the first error wins.\<close>

fun rmap :: "('a \<Rightarrow> 'b result) \<Rightarrow> 'a list \<Rightarrow> 'b list result" where
  "rmap f [] = Inr []"
| "rmap f (x # xs) = rbind (f x) (\<lambda>y. rbind (rmap f xs) (\<lambda>ys. Inr (y # ys)))"

lemma rmap_Inr_length: "rmap f xs = Inr ys \<Longrightarrow> length ys = length xs"
  by (induction xs arbitrary: ys) (auto simp: result_splits)

lemma rmap_Inr_nth:
  "rmap f xs = Inr ys \<Longrightarrow> i < length xs \<Longrightarrow> f (xs ! i) = Inr (ys ! i)"
  by (induction xs arbitrary: ys i) (auto simp: result_splits nth_Cons split: nat.splits)

lemma rmap_total: "(\<And>x. x \<in> set xs \<Longrightarrow> f x = Inr (g x)) \<Longrightarrow> rmap f xs = Inr (map g xs)"
  by (induction xs) auto

text \<open>Python slicing \<open>xs[:n]\<close> and \<open>xs[-n:]\<close> for a possibly negative bound.\<close>

definition py_take :: "int \<Rightarrow> 'a list \<Rightarrow> 'a list" where
  "py_take n xs = (if n < 0 then take (nat (int (length xs) + n)) xs else take (nat n) xs)"

lemma py_take_nonneg [simp]: "py_take (int n) xs = take n xs"
  by (simp add: py_take_def)

lemma length_py_take_le: "length (py_take n xs) \<le> length xs"
  by (auto simp: py_take_def)

lemma set_py_take: "set (py_take n xs) \<subseteq> set xs"
  by (auto simp: py_take_def dest: in_set_takeD)

text \<open>\<open>str.join\<close>, \<open>str.split\<close> on one separator code point, and \<open>str.replace\<close> of one code point.\<close>

fun join :: "pystr \<Rightarrow> pystr list \<Rightarrow> pystr" where
  "join sep [] = []"
| "join sep [x] = x"
| "join sep (x # y # xs) = x @ sep @ join sep (y # xs)"

fun split_on :: "nat \<Rightarrow> pystr \<Rightarrow> pystr list" where
  "split_on c [] = [[]]"
| "split_on c (x # xs) = (if x = c then [] # split_on c xs
     else (case split_on c xs of [] \<Rightarrow> [[x]] | w # ws \<Rightarrow> (x # w) # ws))"

lemma split_on_nonempty [simp]: "split_on c xs \<noteq> []"
  by (induction xs) (auto split: list.splits)

lemma split_on_word: "c \<notin> set w \<Longrightarrow> split_on c w = [w]"
  by (induction w) auto

lemma split_on_append: "c \<notin> set w \<Longrightarrow> split_on c (w @ c # rest) = w # split_on c rest"
  by (induction w) auto

lemma split_join: "xs \<noteq> [] \<Longrightarrow> \<forall>w \<in> set xs. c \<notin> set w \<Longrightarrow> split_on c (join [c] xs) = xs"
proof (induction "[c]" xs rule: join.induct)
  case (2 w)
  then show ?case by (simp add: split_on_word)
next
  case (3 x y xs)
  then show ?case by (simp add: split_on_append)
qed simp

section \<open>Floats\<close>

text \<open>
  Arithmetic on scores is real arithmetic; the values the code tests for explicitly
  (\<open>math.isnan\<close>, \<open>math.isfinite\<close>, \<open>-math.inf\<close>) are kept as constructors.
\<close>

datatype pyfloat = NaN | NInf | Fin real | PInf

fun isfinite :: "pyfloat \<Rightarrow> bool" where
  "isfinite (Fin _) = True"
| "isfinite _ = False"

fun fin_val :: "pyfloat \<Rightarrow> real" where
  "fin_val (Fin r) = r"
| "fin_val _ = 0"

fun float_gt :: "pyfloat \<Rightarrow> real \<Rightarrow> bool" where
  "float_gt (Fin r) x = (r > x)"
| "float_gt PInf x = True"
| "float_gt NInf x = False"
| "float_gt NaN x = False"

section \<open>Ordered dictionaries\<close>

type_synonym ('k, 'v) odict = "('k \<times> 'v) list"

text \<open>Assignment keeps the position of an existing key and appends a new one (\<open>AList.update\<close>).\<close>

abbreviation od_set :: "'k \<Rightarrow> 'v \<Rightarrow> ('k, 'v) odict \<Rightarrow> ('k, 'v) odict" where
  "od_set \<equiv> AList.update"

abbreviation od_del :: "'k \<Rightarrow> ('k, 'v) odict \<Rightarrow> ('k, 'v) odict" where
  "od_del \<equiv> AList.delete"

abbreviation od_keys :: "('k, 'v) odict \<Rightarrow> 'k list" where
  "od_keys d \<equiv> map fst d"

definition od_move_to_end :: "'k \<Rightarrow> ('k, 'v) odict \<Rightarrow> ('k, 'v) odict" where
  "od_move_to_end k d = (case map_of d k of None \<Rightarrow> d | Some v \<Rightarrow> od_del k d @ [(k, v)])"

text \<open>\<open>d[k] = v; d.move_to_end(k); while len(d) > cap: d.popitem(last=False)\<close>.\<close>

fun od_evict :: "nat \<Rightarrow> ('k, 'v) odict \<Rightarrow> ('k, 'v) odict" where
  "od_evict cap [] = []"
| "od_evict cap (x # d) = (if length (x # d) > cap then od_evict cap d else x # d)"

definition od_put :: "nat \<Rightarrow> 'k \<Rightarrow> 'v \<Rightarrow> ('k, 'v) odict \<Rightarrow> ('k, 'v) odict" where
  "od_put cap k v d = od_evict cap (od_move_to_end k (od_set k v d))"

definition od_ok :: "('k, 'v) odict \<Rightarrow> bool" where
  "od_ok d = distinct (od_keys d)"

lemma od_ok_Nil [simp]: "od_ok []"
  by (simp add: od_ok_def)

lemma od_ok_set [simp]: "od_ok d \<Longrightarrow> od_ok (od_set k v d)"
  by (simp add: od_ok_def distinct_update)

lemma od_ok_del [simp]: "od_ok d \<Longrightarrow> od_ok (od_del k d)"
  by (simp add: od_ok_def distinct_delete)

lemma set_od_del [simp]: "fst ` set (od_del k d) = fst ` set d - {k}"
  using delete_keys [of k d] by (metis list.set_map set_removeAll)

lemma set_od_set [simp]: "fst ` set (od_set k v d) = insert k (fst ` set d)"
  by (induction d) auto

lemma set_od_set_subset: "set (od_set k v d) \<subseteq> insert (k, v) (set d)"
  by (induction d) auto

lemma map_of_od_set [odict_simps]: "map_of (od_set k v d) j = (if j = k then Some v else map_of d j)"
  by (simp add: update_conv')

lemma map_of_od_del [odict_simps]: "map_of (od_del k d) j = (if j = k then None else map_of d j)"
  by (simp add: delete_conv')

lemma map_of_move [odict_simps]: "map_of (od_move_to_end k d) j = map_of d j"
  by (auto simp: od_move_to_end_def map_of_od_del map_add_def split: option.splits)

lemma od_ok_move [simp]: "od_ok d \<Longrightarrow> od_ok (od_move_to_end k d)"
  by (auto simp: od_move_to_end_def od_ok_def delete_keys distinct_removeAll split: option.splits)

lemma length_evict [simp]: "length (od_evict cap d) = min cap (length d)"
  by (induction d) auto

lemma od_evict_drop: "od_evict cap d = drop (length d - cap) d"
  by (induction d) (auto simp: Suc_diff_le)

lemma set_evict: "set (od_evict cap d) \<subseteq> set d"
  by (induction d) auto

lemma od_ok_evict [simp]: "od_ok d \<Longrightarrow> od_ok (od_evict cap d)"
  by (simp add: od_ok_def od_evict_drop drop_map [symmetric])

lemma map_of_evict: "od_ok d \<Longrightarrow> map_of (od_evict cap d) j = Some w \<Longrightarrow> map_of d j = Some w"
  by (meson map_of_SomeD map_of_is_SomeI od_ok_def set_evict subsetD)

lemma od_ok_put [simp]: "od_ok d \<Longrightarrow> od_ok (od_put cap k v d)"
  by (simp add: od_put_def)

lemma length_put: "length (od_put cap k v d) \<le> cap"
  by (simp add: od_put_def)

lemma move_set_last: "od_move_to_end k (od_set k v d) = od_del k (od_set k v d) @ [(k, v)]"
  by (simp add: od_move_to_end_def map_of_od_set)

lemma map_of_put_same [odict_simps]:
  assumes "od_ok d" "0 < cap"
  shows "map_of (od_put cap k v d) k = Some v"
proof -
  let ?m = "od_del k (od_set k v d) @ [(k, v)]"
  have "(k, v) \<in> set (od_put cap k v d)"
    using \<open>0 < cap\<close> by (simp add: od_put_def move_set_last od_evict_drop Suc_diff_le)
  then show ?thesis
    using od_ok_put [OF assms(1)] by (simp add: od_ok_def)
qed

lemma map_of_put_other:
  assumes "od_ok d" "map_of (od_put cap k v d) j = Some w" "j \<noteq> k"
  shows "map_of d j = Some w"
  using map_of_evict [of "od_move_to_end k (od_set k v d)" cap j w] assms
  by (simp add: od_put_def map_of_move map_of_od_set)

lemma set_od_move:
  assumes "od_ok d"
  shows "set (od_move_to_end k d) = set d"
proof -
  have "x \<in> set (od_move_to_end k d) \<longleftrightarrow> x \<in> set d" for x
    using map_of_eq_Some_iff [of "od_move_to_end k d" "fst x" "snd x"] map_of_eq_Some_iff [of d "fst x" "snd x"]
      od_ok_move [OF assms] assms by (simp add: od_ok_def map_of_move)
  then show ?thesis by blast
qed

lemma length_od_move: "od_ok d \<Longrightarrow> length (od_move_to_end k d) = length d"
  by (metis distinct_card distinct_map od_ok_def od_ok_move set_od_move)

lemma keys_put_subset: "fst ` set (od_put cap k v d) \<subseteq> insert k (fst ` set d)"
proof -
  have "set (od_put cap k v d) \<subseteq> set (od_del k (od_set k v d) @ [(k, v)])"
    unfolding od_put_def move_set_last by (rule set_evict)
  then have "fst ` set (od_put cap k v d) \<subseteq> fst ` set (od_del k (od_set k v d) @ [(k, v)])" by (rule image_mono)
  also have "\<dots> \<subseteq> insert k (fst ` set d)"
    using set_od_set_subset [of k v d] by auto
  finally show ?thesis .
qed

lemma od_set_append: "k \<notin> fst ` set d \<Longrightarrow> od_set k v d = d @ [(k, v)]"
  by (induction d) auto

lemma length_od_set_old: "k \<in> fst ` set d \<Longrightarrow> length (od_set k v d) = length d"
  by (induction d) auto

section \<open>First occurrence per key\<close>

text \<open>
  The loop \<open>for x in xs: if key(x) in seen: continue; seen.add(key(x)); out.append(x)\<close>.
\<close>

fun dedup_by :: "('a \<Rightarrow> 'k) \<Rightarrow> 'k list \<Rightarrow> 'a list \<Rightarrow> 'a list" where
  "dedup_by key seen [] = []"
| "dedup_by key seen (x # xs) =
     (if key x \<in> set seen then dedup_by key seen xs
      else x # dedup_by key (key x # seen) xs)"

lemma dedup_by_keys:
  "key ` set (dedup_by key seen xs) = key ` set xs - set seen"
proof (induction key seen xs rule: dedup_by.induct)
  case (2 key seen x xs)
  then show ?case by (cases "key x \<in> set seen") auto
qed simp

lemma set_dedup_by: "set (dedup_by key seen xs) \<subseteq> set xs"
  by (induction key seen xs rule: dedup_by.induct) auto

lemma distinct_dedup_by: "distinct (map key (dedup_by key seen xs))"
proof (induction key seen xs rule: dedup_by.induct)
  case (2 key seen x xs)
  show ?case
  proof (cases "key x \<in> set seen")
    case False
    have "key x \<notin> key ` set (dedup_by key (key x # seen) xs)"
      by (simp add: dedup_by_keys)
    with 2(2) [OF False] False show ?thesis by simp
  qed (use 2 in simp)
qed simp

lemma subseq_subset: "subseq xs ys \<Longrightarrow> set xs \<subseteq> set ys"
  by (induction rule: list_emb.induct) auto

lemma subseq_dedup_by: "subseq (dedup_by key seen xs) xs"
  by (induction key seen xs rule: dedup_by.induct) auto

lemma sorted_subseq: "subseq xs ys \<Longrightarrow> sorted_wrt r ys \<Longrightarrow> sorted_wrt r xs"
proof (induction rule: list_emb.induct)
  case (list_emb_Cons2 x y xs ys)
  then have "set xs \<subseteq> set ys" by (meson subseq_subset)
  with list_emb_Cons2 show ?case by auto
qed auto

lemma sorted_wrt_take: "sorted_wrt r xs \<Longrightarrow> sorted_wrt r (take n xs)"
  by (metis append_take_drop_id sorted_wrt_append)

text \<open>An element earlier in the input wins over a later one with the same key.\<close>

lemma dedup_by_first:
  assumes "x \<in> set (dedup_by key seen xs)"
  shows "\<exists>us vs. xs = us @ x # vs \<and> key x \<notin> key ` set us"
  using assms
proof (induction key seen xs rule: dedup_by.induct)
  case (2 key seen y xs)
  show ?case
  proof (cases "key y \<in> set seen \<or> x \<noteq> y")
    case True
    let ?seen = "if key y \<in> set seen then seen else key y # seen"
    from True 2(3) have x: "x \<in> set (dedup_by key ?seen xs)" by (auto split: if_splits)
    then have "key x \<in> key ` set xs - set ?seen" by (metis dedup_by_keys image_eqI)
    then have ne: "key x \<noteq> key y" by (auto split: if_splits)
    from x obtain us vs where "xs = us @ x # vs" "key x \<notin> key ` set us"
      using 2(1,2) by (auto split: if_splits)
    with ne show ?thesis by (intro exI [of _ "y # us"] exI [of _ vs]) auto
  next
    case False
    then show ?thesis by (intro exI [of _ "[]"] exI [of _ xs]) simp
  qed
qed simp

section \<open>Keep the best value per key\<close>

text \<open>
  The loop body \<open>old = d.get(k); if old is None or better(v, old): d[k] = v\<close>.
\<close>

definition best_put :: "('v \<Rightarrow> 'v \<Rightarrow> bool) \<Rightarrow> 'k \<Rightarrow> 'v \<Rightarrow> ('k, 'v) odict \<Rightarrow> ('k, 'v) odict" where
  "best_put better k v d =
     (case map_of d k of None \<Rightarrow> od_set k v d
      | Some old \<Rightarrow> if better v old then od_set k v d else d)"

lemma od_ok_best_put [simp]: "od_ok d \<Longrightarrow> od_ok (best_put better k v d)"
  by (simp add: best_put_def split: option.splits)

lemma keys_best_put [simp]: "fst ` set (best_put better k v d) = insert k (fst ` set d)"
proof (cases "map_of d k")
  case (Some old)
  then have "k \<in> fst ` set d" by (metis map_of_SomeD image_eqI fst_conv)
  with Some show ?thesis by (simp add: best_put_def insert_absorb)
qed (simp add: best_put_def)

lemma map_of_best_put:
  "map_of (best_put better k v d) j =
     (if j = k then (case map_of d k of None \<Rightarrow> Some v
                     | Some old \<Rightarrow> Some (if better v old then v else old))
      else map_of d j)"
  by (auto simp: best_put_def map_of_od_set split: option.splits)

lemma best_put_values:
  "map_of (best_put better k v d) j = Some w \<Longrightarrow> (j = k \<and> w = v) \<or> map_of d j = Some w"
  by (auto simp: map_of_best_put split: if_splits option.splits)

lemma set_best_put: "set (best_put better k v d) \<subseteq> insert (k, v) (set d)"
proof
  fix p
  assume p: "p \<in> set (best_put better k v d)"
  with set_od_set_subset [of k v d] show "p \<in> insert (k, v) (set d)"
    by (auto simp: best_put_def split: option.splits if_splits)
qed

text \<open>
  Folding \<open>best_put\<close> with a strict comparison of sort keys leaves at every key a value whose sort
  key is minimal among all values offered for it.
\<close>

fun best_fold :: "('a \<Rightarrow> 'k) \<Rightarrow> ('a \<Rightarrow> 'o::linorder) \<Rightarrow> 'a list \<Rightarrow> ('k, 'a) odict \<Rightarrow> ('k, 'a) odict" where
  "best_fold key ord [] d = d"
| "best_fold key ord (x # xs) d =
     best_fold key ord xs (best_put (\<lambda>new old. ord new < ord old) (key x) x d)"

lemma od_ok_best_fold: "od_ok d \<Longrightarrow> od_ok (best_fold key ord xs d)"
  by (induction xs arbitrary: d) auto

lemma best_fold_minimal:
  assumes "map_of (best_fold key ord xs d) k = Some w"
  shows "(w \<in> set xs \<and> key w = k \<or> map_of d k = Some w)
       \<and> (\<forall>x \<in> set xs. key x = k \<longrightarrow> ord w \<le> ord x)
       \<and> (\<forall>v. map_of d k = Some v \<longrightarrow> ord w \<le> ord v)"
  using assms
proof (induction xs arbitrary: d)
  case (Cons x xs)
  from Cons.IH [OF Cons.prems [simplified]] show ?case
    by (auto simp: map_of_best_put split: if_splits option.splits)
qed simp

lemma best_fold_keys: "fst ` set (best_fold key ord xs d) = key ` set xs \<union> fst ` set d"
  by (induction xs arbitrary: d) simp_all

section \<open>Sorting\<close>

lemma sorted_wrt_sort_key: "sorted_wrt (\<lambda>x y. f x \<le> f y) (sort_key f xs)"
  using sorted_sort_key [of f xs] by (simp add: sorted_map)

lemma sorted_le_last: "sorted xs \<Longrightarrow> x \<in> set xs \<Longrightarrow> x \<le> last xs"
  by (induction xs) auto

lemma sorted_wrt_le_nth:
  "sorted_wrt r xs \<Longrightarrow> i < j \<Longrightarrow> j < length xs \<Longrightarrow> r (xs ! i) (xs ! j)"
  by (rule sorted_wrt_nth_less)

end
