(* ===== verification/Bounded_Cache.thy ===== *)
theory Bounded_Cache
  imports Prelude
begin

text \<open>
  The contract that every size-bounded cache of the service offers its callers: the pipe server's
  context bindings and source revisions, the engine's query cache and retained snapshots, the page
  manager's root plans and the matcher's completed scans.  A client that only ever stores \<open>f k\<close>
  under \<open>k\<close> can rely on a hit being \<open>f k\<close>, whatever has been evicted in between.
\<close>

locale memo_cache =
  fixes put :: "'k \<Rightarrow> 'v \<Rightarrow> 'c \<Rightarrow> 'c"
    and get :: "'c \<Rightarrow> 'k \<Rightarrow> 'v option"
    and weight :: "'c \<Rightarrow> nat"
    and inv :: "'c \<Rightarrow> bool"
    and cap :: nat
  assumes inv_put: "inv c \<Longrightarrow> inv (put k v c)"
    and weight_put: "inv c \<Longrightarrow> weight c \<le> cap \<Longrightarrow> weight (put k v c) \<le> cap"
    and get_put_hit: "inv c \<Longrightarrow> get (put k v c) j = Some w \<Longrightarrow> (j = k \<and> w = v) \<or> get c j = Some w"
begin

fun put_all :: "('k \<times> 'v) list \<Rightarrow> 'c \<Rightarrow> 'c" where
  "put_all [] c = c"
| "put_all ((k, v) # kvs) c = put_all kvs (put k v c)"

lemma inv_put_all: "inv c \<Longrightarrow> inv (put_all kvs c)"
  by (induction kvs c rule: put_all.induct) (auto simp: inv_put)

lemma weight_put_all: "inv c \<Longrightarrow> weight c \<le> cap \<Longrightarrow> weight (put_all kvs c) \<le> cap"
  by (induction kvs c rule: put_all.induct) (auto simp: inv_put weight_put)

text \<open>Every hit was either there before or has been stored since.\<close>

lemma hit_origin:
  "inv c \<Longrightarrow> get (put_all kvs c) j = Some w \<Longrightarrow> (j, w) \<in> set kvs \<or> get c j = Some w"
  by (induction kvs c rule: put_all.induct) (auto simp: inv_put dest: get_put_hit)

lemma memo_sound:
  assumes "inv c" "\<And>j w. get c j = Some w \<Longrightarrow> w = f j" "\<And>k v. (k, v) \<in> set kvs \<Longrightarrow> v = f k"
    and "get (put_all kvs c) j = Some w"
  shows "w = f j"
  using hit_origin [OF assms(1,4)] assms(2,3) by blast

end

text \<open>
  A cache that always stores what it is given never shows an older value under the same key; the
  matcher, which declines oversized results, is only a \<open>memo_cache\<close>.
\<close>

locale bounded_cache = memo_cache +
  assumes get_put_new: "inv c \<Longrightarrow> get (put k v c) k = Some w \<Longrightarrow> w = v"
begin

lemma newest_wins:
  assumes "inv c" "get (put_all (kvs @ [(k, v)]) c) k = Some w"
  shows "w = v"
proof -
  have "put_all (kvs @ [(k, v)]) c = put k v (put_all kvs c)"
    by (induction kvs c rule: put_all.induct) auto
  with assms show ?thesis by (metis get_put_new inv_put_all)
qed

end

text \<open>The least-recently-stored dictionary of the Python sources satisfies the contract.\<close>

interpretation lru: bounded_cache "od_put cap" map_of length od_ok cap for cap :: nat
proof unfold_locales
  fix c :: "('a, 'b) odict" and k v j w
  assume c: "od_ok c"
  show "map_of (od_put cap k v c) j = Some w \<Longrightarrow> (j = k \<and> w = v) \<or> map_of c j = Some w"
  proof (cases "j = k")
    case True
    assume hit: "map_of (od_put cap k v c) j = Some w"
    then have "0 < cap" by (cases cap) (auto simp: od_put_def od_evict_drop)
    with hit True c show ?thesis by (simp add: map_of_put_same)
  qed (use c in \<open>auto dest: map_of_put_other\<close>)
  show "map_of (od_put cap k v c) k = Some w \<Longrightarrow> w = v"
  proof -
    assume hit: "map_of (od_put cap k v c) k = Some w"
    then have "0 < cap" by (cases cap) (auto simp: od_put_def od_evict_drop)
    with hit c show ?thesis by (simp add: map_of_put_same)
  qed
qed (simp_all add: length_put)

end
