(* ===== verification/Pinyin.thy ===== *)
theory Pinyin
  imports Prelude
begin

text \<open>
  Raw pinyin input, Han classification and the modern reading table: \<open>pinyin.py\<close>,
  \<open>modern_han.py\<close> and \<open>simplified_chinese.py\<close>.  Unicode normalisation and case mapping are the
  fields of a \<open>unicode_db\<close>; \<open>pypinyin.pinyin\<close> and \<open>zhconv.convert\<close> are arguments.
\<close>

section \<open>The Unicode database as a parameter\<close>

record unicode_db =
  nfkc :: "pystr \<Rightarrow> pystr"
  lower :: "pystr \<Rightarrow> pystr"
  casefold :: "pystr \<Rightarrow> pystr"
  isupper :: "nat \<Rightarrow> bool"
  islower :: "nat \<Rightarrow> bool"
  istitle :: "nat \<Rightarrow> bool"
  isdigit :: "nat \<Rightarrow> bool"

definition ascii_lower :: "nat \<Rightarrow> nat" where
  "ascii_lower c = (if 65 \<le> c \<and> c \<le> 90 then c + 32 else c)"

definition is_ascii :: "pystr \<Rightarrow> bool" where
  "is_ascii s = list_all (\<lambda>c. c < 128) s"

text \<open>What the Unicode standard fixes about ASCII text; nothing else of the database is assumed.\<close>

definition unicode_ascii :: "unicode_db \<Rightarrow> bool" where
  "unicode_ascii db \<longleftrightarrow>
     (\<forall>s. is_ascii s \<longrightarrow> nfkc db s = s \<and> lower db s = map ascii_lower s
          \<and> casefold db s = map ascii_lower s)
     \<and> (\<forall>c < 128. isupper db c = (65 \<le> c \<and> c \<le> 90) \<and> islower db c = (97 \<le> c \<and> c \<le> 122)
          \<and> \<not> istitle db c \<and> isdigit db c = (48 \<le> c \<and> c \<le> 57))"

definition ascii_db :: unicode_db where
  "ascii_db = \<lparr>nfkc = (\<lambda>s. s), lower = map ascii_lower, casefold = map ascii_lower,
     isupper = (\<lambda>c. 65 \<le> c \<and> c \<le> 90), islower = (\<lambda>c. 97 \<le> c \<and> c \<le> 122),
     istitle = (\<lambda>c. False), isdigit = (\<lambda>c. 48 \<le> c \<and> c \<le> 57)\<rparr>"

lemma unicode_ascii_db: "unicode_ascii ascii_db"
  by (simp add: unicode_ascii_def ascii_db_def)

definition py_isspace :: "nat \<Rightarrow> bool" where
  "py_isspace c \<longleftrightarrow> (9 \<le> c \<and> c \<le> 13) \<or> (28 \<le> c \<and> c \<le> 32) \<or> c = 133 \<or> c = 160 \<or> c = 5760
     \<or> (8192 \<le> c \<and> c \<le> 8202) \<or> c = 8232 \<or> c = 8233 \<or> c = 8239 \<or> c = 8287 \<or> c = 12288"

definition py_lstrip :: "pystr \<Rightarrow> pystr" where
  "py_lstrip s = dropWhile py_isspace s"

definition py_strip :: "pystr \<Rightarrow> pystr" where
  "py_strip s = rev (dropWhile py_isspace (rev (py_lstrip s)))"

section \<open>Parsing raw keys\<close>

abbreviation quote :: nat where
  "quote \<equiv> 39"

definition is_pinyin_key :: "nat \<Rightarrow> bool" where
  "is_pinyin_key c \<longleftrightarrow> (97 \<le> c \<and> c \<le> 122) \<or> c = quote"

fun contains_sub :: "pystr \<Rightarrow> pystr \<Rightarrow> bool" where
  "contains_sub p [] = (p = [])"
| "contains_sub p (x # xs) = (prefix p (x # xs) \<or> contains_sub p xs)"

record parsed_input =
  pi_raw :: pystr
  pi_compact :: pystr
  pi_boundaries :: "nat set"

definition normalize_input :: "unicode_db \<Rightarrow> pystr \<Rightarrow> pystr" where
  "normalize_input db raw =
     map (\<lambda>c. if c = 252 then 118 else c) (lower db (py_strip (nfkc db raw)))"

fun scan_input :: "pystr \<Rightarrow> pystr \<Rightarrow> nat set \<Rightarrow> pystr \<times> nat set" where
  "scan_input [] letters boundaries = (letters, boundaries)"
| "scan_input (c # cs) letters boundaries =
     (if c = quote then scan_input cs letters (insert (length letters) boundaries)
      else scan_input cs (letters @ [c]) boundaries)"

definition parse_raw_pinyin :: "unicode_db \<Rightarrow> pystr \<Rightarrow> parsed_input result" where
  "parse_raw_pinyin db raw =
     (let normalized = normalize_input db raw in
      if \<not> list_all is_pinyin_key normalized
      then Inl (PinyinInputError ''v0.1 accepts only ASCII a-z and apostrophe'')
      else if prefix [quote] normalized \<or> suffix [quote] normalized
              \<or> contains_sub [quote, quote] normalized
      then Inl (PinyinInputError ''apostrophes must separate non-empty syllable groups'')
      else let (letters, boundaries) = scan_input normalized [] {} in
           Inr \<lparr>pi_raw = normalized, pi_compact = letters, pi_boundaries = boundaries\<rparr>)"

definition normalize_raw_pinyin :: "unicode_db \<Rightarrow> pystr \<Rightarrow> pystr result" where
  "normalize_raw_pinyin db raw = rbind (parse_raw_pinyin db raw) (\<lambda>p. Inr (pi_compact p))"

text \<open>The two \<open>while\<close> loops of \<open>raw_characters_for_letters\<close>, each as the distance it advances.\<close>

fun advance_letters :: "pystr \<Rightarrow> nat \<Rightarrow> nat" where
  "advance_letters [] letters = 0"
| "advance_letters (c # cs) letters =
     (if letters = 0 then 0
      else Suc (advance_letters cs (if c \<noteq> quote then letters - 1 else letters)))"

fun advance_quotes :: "pystr \<Rightarrow> nat" where
  "advance_quotes [] = 0"
| "advance_quotes (c # cs) = (if c = quote then Suc (advance_quotes cs) else 0)"

definition raw_characters_for_letters :: "parsed_input \<Rightarrow> nat \<Rightarrow> nat" where
  "raw_characters_for_letters p letters =
     (if letters \<ge> length (pi_compact p) then length (pi_raw p)
      else let position = advance_letters (pi_raw p) letters
           in position + advance_quotes (drop position (pi_raw p)))"

section \<open>Han characters and readings\<close>

definition is_han_character :: "pystr \<Rightarrow> bool" where
  "is_han_character s = (case s of
       [c] \<Rightarrow> (0x3400 \<le> c \<and> c \<le> 0x4DBF) \<or> (0x4E00 \<le> c \<and> c \<le> 0x9FFF)
            \<or> (0xF900 \<le> c \<and> c \<le> 0xFAFF) \<or> (0x20000 \<le> c \<and> c \<le> 0x323AF)
     | _ \<Rightarrow> False)"

definition is_all_han :: "pystr \<Rightarrow> bool" where
  "is_all_han s \<longleftrightarrow> s \<noteq> [] \<and> list_all (\<lambda>c. is_han_character [c]) s"

type_synonym readings = "(nat, pystr list) odict"

definition is_ascii_alpha :: "nat \<Rightarrow> bool" where
  "is_ascii_alpha c \<longleftrightarrow> (65 \<le> c \<and> c \<le> 90) \<or> (97 \<le> c \<and> c \<le> 122)"

fun load_lines :: "pystr list \<Rightarrow> readings \<Rightarrow> readings result" where
  "load_lines [] acc = Inr acc"
| "load_lines (line # ls) acc =
     (case split_on 9 line of
        [chr, syllable] \<Rightarrow>
          (case chr of
             [c] \<Rightarrow>
               if \<not> is_ascii syllable \<or> syllable = [] \<or> \<not> list_all is_ascii_alpha syllable
               then Inl (ValueError ''Invalid modern pronunciation data'')
               else load_lines ls
                      (od_set c (case map_of acc c of None \<Rightarrow> [syllable] | Some vs \<Rightarrow> vs @ [syllable]) acc)
           | _ \<Rightarrow> Inl (ValueError ''Invalid modern pronunciation data''))
      | _ \<Rightarrow> Inl (ValueError ''unpack''))"

definition load_readings :: "pystr list \<Rightarrow> readings result" where
  "load_readings ls = rbind (load_lines ls [])
     (\<lambda>rs. Inr (map (\<lambda>(c, vs). (c, dedup_by (\<lambda>v. v) [] vs)) rs))"

definition is_modern_han :: "readings \<Rightarrow> pystr \<Rightarrow> bool" where
  "is_modern_han rs s \<longleftrightarrow> s \<noteq> [] \<and> list_all (\<lambda>c. map_of rs c \<noteq> None) s"

definition is_simplified_han :: "readings \<Rightarrow> (pystr \<Rightarrow> pystr) \<Rightarrow> pystr \<Rightarrow> bool" where
  "is_simplified_han rs convert s \<longleftrightarrow> is_all_han s \<and> is_modern_han rs s \<and> convert s = s"

fun replace_u_colon :: "pystr \<Rightarrow> pystr" where
  "replace_u_colon (a # b # cs) =
     (if a = 117 \<and> b = 58 then 118 # replace_u_colon cs else a # replace_u_colon (b # cs))"
| "replace_u_colon cs = cs"

definition normalize_syllable :: "unicode_db \<Rightarrow> pystr \<Rightarrow> pystr" where
  "normalize_syllable db v =
     replace_u_colon (map (\<lambda>c. if c = 252 then 118 else c) (lower db v))"

text \<open>The loop over \<open>zip(text, pinyin(text), strict=True)\<close>: \<open>None\<close> is the early \<open>return ()\<close>.\<close>

fun phrase_path :: "unicode_db \<Rightarrow> readings \<Rightarrow> pystr \<Rightarrow> pystr list list \<Rightarrow> pystr list \<Rightarrow> pystr list option result" where
  "phrase_path db rs [] [] path = Inr (Some path)"
| "phrase_path db rs (c # cs) (r # rest) path =
     (case map (normalize_syllable db) (filter (\<lambda>v. v \<noteq> []) r) of
        [] \<Rightarrow> Inr None
      | s # _ \<Rightarrow> (case map_of rs c of
            None \<Rightarrow> Inl KeyError
          | Some vs \<Rightarrow> if s \<in> set vs then phrase_path db rs cs rest (path @ [s]) else Inr None))"
| "phrase_path db rs [] (r # rest) path = Inl (ValueError ''zip() argument 2 is longer'')"
| "phrase_path db rs (c # cs) [] path = Inl (ValueError ''zip() argument 2 is shorter'')"

definition pronunciation_paths ::
  "unicode_db \<Rightarrow> readings \<Rightarrow> (pystr \<Rightarrow> pystr list list) \<Rightarrow> pystr \<Rightarrow> int \<Rightarrow> pystr list list result" where
  "pronunciation_paths db rs pinyin_lib s max_paths =
     (if \<not> is_all_han s \<or> \<not> is_modern_han rs s \<or> max_paths \<le> 0 then Inr []
      else if length s > 1
      then rbind (phrase_path db rs s (pinyin_lib s) [])
             (\<lambda>r. case r of None \<Rightarrow> Inr [] | Some path \<Rightarrow> Inr [path])
      else case map_of rs (hd s) of
             None \<Rightarrow> Inl KeyError
           | Some vs \<Rightarrow> Inr (map (\<lambda>v. [v]) (py_take max_paths vs)))"

definition concatenate_path :: "pystr list \<Rightarrow> pystr" where
  "concatenate_path path = concat path"

section \<open>The parser meets its specification\<close>

abbreviation letters_of :: "pystr \<Rightarrow> pystr" where
  "letters_of s \<equiv> filter (\<lambda>c. c \<noteq> quote) s"

fun quote_offsets :: "nat \<Rightarrow> pystr \<Rightarrow> nat set" where
  "quote_offsets n [] = {}"
| "quote_offsets n (c # cs) =
     (if c = quote then insert n (quote_offsets n cs) else quote_offsets (Suc n) cs)"

text \<open>A well-formed key sequence: letters, with single apostrophes strictly between letters.\<close>

fun well_quoted :: "pystr \<Rightarrow> bool" where
  "well_quoted [] = True"
| "well_quoted (c # cs) =
     (if c = quote then (case cs of [] \<Rightarrow> False | d # _ \<Rightarrow> d \<noteq> quote \<and> well_quoted cs)
      else well_quoted cs)"

definition valid_parsed :: "parsed_input \<Rightarrow> bool" where
  "valid_parsed p \<longleftrightarrow>
     list_all is_pinyin_key (pi_raw p) \<and> well_quoted (pi_raw p) \<and> \<not> prefix [quote] (pi_raw p)
     \<and> pi_compact p = letters_of (pi_raw p) \<and> pi_boundaries p = quote_offsets 0 (pi_raw p)"

text \<open>Rebuilding the raw keys from the compact letters and the boundary offsets.\<close>

fun unparse :: "nat \<Rightarrow> pystr \<Rightarrow> nat set \<Rightarrow> pystr" where
  "unparse i [] B = []"
| "unparse i (c # cs) B = (if i \<in> B then [quote] else []) @ c # unparse (Suc i) cs B"

lemma scan_input_eq:
  "scan_input s acc B = (acc @ letters_of s, B \<union> quote_offsets (length acc) s)"
  by (induction s acc B rule: scan_input.induct) auto

lemma well_quoted_iff:
  "well_quoted s \<longleftrightarrow> \<not> suffix [quote] s \<and> \<not> contains_sub [quote, quote] s"
proof (induction s)
  case (Cons c cs)
  then show ?case
    by (cases cs) (auto simp: suffix_Cons)
qed simp

lemma parse_raw_pinyin_valid:
  "parse_raw_pinyin db raw = Inr p \<Longrightarrow> valid_parsed p \<and> pi_raw p = normalize_input db raw"
  by (auto simp: parse_raw_pinyin_def valid_parsed_def Let_def scan_input_eq well_quoted_iff
      split: if_splits)

lemma quote_offsets_ge: "b \<in> quote_offsets n s \<Longrightarrow> n \<le> b"
  by (induction n s rule: quote_offsets.induct) (fastforce split: if_splits)+

lemma quote_offsets_le: "b \<in> quote_offsets n s \<Longrightarrow> b \<le> n + length (letters_of s)"
  by (induction n s rule: quote_offsets.induct) (fastforce split: if_splits)+

lemma quote_offsets_less:
  "well_quoted s \<Longrightarrow> b \<in> quote_offsets n s \<Longrightarrow> b < n + length (letters_of s)"
proof (induction n s rule: quote_offsets.induct)
  case (2 n c cs)
  then show ?case by (cases cs) (fastforce split: if_splits)+
qed simp

lemma quote_offsets_shift: "quote_offsets (m + n) s = (\<lambda>b. b + m) ` quote_offsets n s"
  by (induction n s rule: quote_offsets.induct) (auto simp flip: add_Suc_right)

lemma quote_offsets_append:
  "quote_offsets n (u @ v) = quote_offsets n u \<union> quote_offsets (n + length (letters_of u)) v"
  by (induction n u rule: quote_offsets.induct) auto

lemma unparse_cong: "(\<And>b. i \<le> b \<Longrightarrow> b \<in> B \<longleftrightarrow> b \<in> B') \<Longrightarrow> unparse i cs B = unparse i cs B'"
  by (induction i cs B rule: unparse.induct) auto

lemma unparse_letters: "well_quoted s \<Longrightarrow> unparse n (letters_of s) (quote_offsets n s) = s"
proof (induction s arbitrary: n rule: well_quoted.induct)
  case (2 c cs)
  show ?case
  proof (cases "c = quote")
    case False
    then have "n \<notin> quote_offsets (Suc n) cs" by (auto dest: quote_offsets_ge)
    with False 2 show ?thesis by simp
  next
    case True
    with 2(3) obtain d ds where cs: "cs = d # ds" and d: "d \<noteq> quote" and ok: "well_quoted cs"
      by (cases cs) auto
    have IH: "unparse n (letters_of cs) (quote_offsets n cs) = cs"
      using 2(1) [OF True cs] ok by blast
    have n: "n \<notin> quote_offsets (Suc n) ds" by (auto dest: quote_offsets_ge)
    have "unparse (Suc n) (letters_of ds) (insert n (quote_offsets (Suc n) ds))
        = unparse (Suc n) (letters_of ds) (quote_offsets (Suc n) ds)"
      by (rule unparse_cong) auto
    then show ?thesis using IH True cs d n by simp
  qed
qed simp

lemma letters_of_take_advance:
  "n \<le> length (letters_of s) \<Longrightarrow>
   letters_of (take (advance_letters s n) s) = take n (letters_of s)
   \<and> letters_of (drop (advance_letters s n) s) = drop n (letters_of s)"
proof (induction s n rule: advance_letters.induct)
  case (2 c cs letters)
  then show ?case by (cases letters) auto
qed simp

lemma drop_advance_quotes:
  "letters_of (drop (advance_quotes s) s) = letters_of s \<and> \<not> prefix [quote] (drop (advance_quotes s) s)"
  by (induction s) auto

lemma letters_of_take_quotes: "letters_of (take (advance_quotes s) s) = []"
  by (induction s) auto

lemma well_quoted_drop: "well_quoted s \<Longrightarrow> well_quoted (drop n s)"
proof (induction s arbitrary: n)
  case (Cons c cs)
  then show ?case by (cases n) (auto split: if_splits list.splits)
qed simp

text \<open>The split point that \<open>raw_characters_for_letters\<close> returns.\<close>

lemma raw_characters_split:
  assumes "valid_parsed p" "n \<le> length (pi_compact p)"
  defines "k \<equiv> raw_characters_for_letters p n"
  shows "k \<le> length (pi_raw p)"
    and "letters_of (take k (pi_raw p)) = take n (pi_compact p)"
    and "letters_of (drop k (pi_raw p)) = drop n (pi_compact p)"
    and "well_quoted (drop k (pi_raw p))"
    and "\<not> prefix [quote] (drop k (pi_raw p))"
proof -
  define s where "s = pi_raw p"
  have compact: "pi_compact p = letters_of s" and wq: "well_quoted s"
    using assms(1) by (auto simp: valid_parsed_def s_def)
  have all: "k \<le> length s \<and> letters_of (take k s) = take n (letters_of s)
     \<and> letters_of (drop k s) = drop n (letters_of s) \<and> \<not> prefix [quote] (drop k s)"
  proof (cases "n < length (letters_of s)")
    case True
    define a where "a = advance_letters s n"
    define q where "q = advance_quotes (drop a s)"
    have k: "k = a + q"
      using True by (simp add: k_def raw_characters_for_letters_def compact s_def [symmetric]
          a_def q_def Let_def)
    have a: "letters_of (take a s) = take n (letters_of s)"
      "letters_of (drop a s) = drop n (letters_of s)"
      using letters_of_take_advance [of n s] True by (simp_all add: a_def)
    have q: "letters_of (drop q (drop a s)) = letters_of (drop a s)" "\<not> prefix [quote] (drop q (drop a s))"
      using drop_advance_quotes [of "drop a s"] by (simp_all add: q_def)
    have tk: "take k s = take a s @ take q (drop a s)" and dk: "drop k s = drop q (drop a s)"
      by (simp_all add: k take_add add.commute)
    have "drop k s \<noteq> []" using a(2) q(1) dk True by auto
    then have "k \<le> length s" by simp
    with a q tk dk letters_of_take_quotes [of "drop a s"] show ?thesis by (simp add: q_def [symmetric])
  next
    case False
    then have "k = length s"
      by (simp add: k_def raw_characters_for_letters_def compact s_def [symmetric])
    with False show ?thesis by simp
  qed
  then show "k \<le> length (pi_raw p)" "letters_of (take k (pi_raw p)) = take n (pi_compact p)"
    "letters_of (drop k (pi_raw p)) = drop n (pi_compact p)" "\<not> prefix [quote] (drop k (pi_raw p))"
    by (simp_all add: compact s_def [symmetric])
  show "well_quoted (drop k (pi_raw p))" using wq by (simp add: s_def well_quoted_drop)
qed

lemma normalize_pinyin_keys:
  assumes "unicode_ascii db" "list_all is_pinyin_key s"
  shows "normalize_input db s = s"
proof -
  have key: "\<And>c. c \<in> set s \<Longrightarrow> is_pinyin_key c" using assms(2) by (simp add: list_all_iff)
  then have ascii: "is_ascii s" by (fastforce simp: is_ascii_def list_all_iff is_pinyin_key_def)
  have nospace: "\<And>c. c \<in> set s \<Longrightarrow> \<not> py_isspace c"
    using key by (fastforce simp: py_isspace_def is_pinyin_key_def)
  have strip: "py_strip s = s"
    using nospace by (simp add: py_strip_def py_lstrip_def dropWhile_eq_self_iff)
      (metis dropWhile_eq_self_iff hd_in_set list.set_sel(1) rev_rev_ident set_rev)
  have "map ascii_lower s = s" "map (\<lambda>c. if c = 252 then 118 else c) s = s"
    using key by (fastforce simp: ascii_lower_def is_pinyin_key_def intro: map_idI)+
  with assms(1) ascii strip show ?thesis
    by (simp add: normalize_input_def unicode_ascii_def)
qed

lemma parse_valid_keys:
  assumes "unicode_ascii db" "list_all is_pinyin_key s" "well_quoted s" "\<not> prefix [quote] s"
  shows "parse_raw_pinyin db s =
    Inr \<lparr>pi_raw = s, pi_compact = letters_of s, pi_boundaries = quote_offsets 0 s\<rparr>"
  using assms normalize_pinyin_keys [OF assms(1,2)]
  by (simp add: parse_raw_pinyin_def scan_input_eq well_quoted_iff)

section \<open>Properties\<close>



text \<open>
  Cutting the raw keys where \<open>raw_characters_for_letters\<close> says leaves a remainder that
  parses again, to exactly the letters and boundaries not yet consumed.
\<close>

theorem remaining_keys_reparse:
  assumes "unicode_ascii db" "parse_raw_pinyin db raw = Inr p" "n \<le> length (pi_compact p)"
  shows "\<exists>q. parse_raw_pinyin db (drop (raw_characters_for_letters p n) (pi_raw p)) = Inr q
     \<and> pi_compact q = drop n (pi_compact p)
     \<and> (\<lambda>b. b + n) ` pi_boundaries q = {b \<in> pi_boundaries p. n < b}"
proof -
  let ?k = "raw_characters_for_letters p n"
  let ?u = "take ?k (pi_raw p)" and ?v = "drop ?k (pi_raw p)"
  have v: "valid_parsed p" using parse_raw_pinyin_valid [OF assms(2)] by simp
  note split = raw_characters_split [OF v assms(3)]
  have keys: "list_all is_pinyin_key ?v"
    using v by (auto simp: valid_parsed_def list_all_iff dest: in_set_dropD)
  have offs: "pi_boundaries p = quote_offsets 0 (?u @ ?v)"
    using v by (simp add: valid_parsed_def)
  have len: "length (letters_of ?u) = n" using split(2) assms(3) by simp
  have "quote_offsets n ?v = (\<lambda>b. b + n) ` quote_offsets 0 ?v"
    using quote_offsets_shift [of n 0 ?v] by simp
  moreover have "b \<in> quote_offsets 0 ?u \<Longrightarrow> b \<le> n" for b
    using quote_offsets_le [of b 0 ?u] len by simp
  moreover have "0 \<notin> quote_offsets 0 ?v"
    using split(5) by (cases ?v) (auto dest: quote_offsets_ge)
  ultimately have "(\<lambda>b. b + n) ` quote_offsets 0 ?v = {b \<in> pi_boundaries p. n < b}"
    unfolding offs quote_offsets_append len
    by (auto simp: image_iff dest: quote_offsets_ge) (metis gr0I not_less)+
  with parse_valid_keys [OF assms(1) keys split(4,5)] split(3) show ?thesis by auto
qed

theorem remaining_keys_reparse_witness:
  "\<exists>q. parse_raw_pinyin ascii_db (asc ''an'') = Inr q \<and> pi_compact q = asc ''an''
     \<and> pi_boundaries q = {}"
proof -
  let ?p = "\<lparr>pi_raw = [120, 105, quote, 97, 110], pi_compact = asc ''xian'', pi_boundaries = {2}\<rparr>"
  have p: "parse_raw_pinyin ascii_db [120, 105, quote, 97, 110] = Inr ?p" by code_simp
  have n: "2 \<le> length (pi_compact ?p)" by simp
  have d: "drop (raw_characters_for_letters ?p 2) (pi_raw ?p) = asc ''an''"
    "drop 2 (pi_compact ?p) = asc ''an''" by code_simp+
  have e: "{b \<in> pi_boundaries ?p. 2 < b} = {}" by simp
  show ?thesis
    using remaining_keys_reparse [OF unicode_ascii_db p n] unfolding d e by simp
qed

end
