(* ===== verification/Pinyin_Index.thy ===== *)
theory Pinyin_Index
  imports Pinyin
begin

text \<open>
  The pronunciation index of \<open>index.py\<close>: the entry record and its construction checks, the rows the
  builder writes, the two tries the loader fills, exact-prefix lookup (\<open>compatible\<close>), the memoised
  query plan and the bounded abbreviation search (\<open>partial_matches\<close>).  The tokenizer and
  \<open>pypinyin\<close> are arguments of the builder; the SQLite table is the list of its rows.
\<close>

section \<open>Entries\<close>

record entry =
  e_token_id :: "int option"
  e_text :: pystr
  e_pinyin :: pystr
  e_syllable_path :: "pystr list"
  e_syllables :: int
  e_coverage :: bool
  e_token_path :: "int list"
  e_display_pinyin :: pystr
  e_normalized_text :: pystr

definition make_entry ::
  "unicode_db \<Rightarrow> int option \<Rightarrow> pystr \<Rightarrow> pystr \<Rightarrow> pystr list \<Rightarrow> int \<Rightarrow> bool \<Rightarrow> int list \<Rightarrow> entry result" where
  "make_entry db token_id txt pinyin syllable_path syllables coverage token_path =
     (let path = (case token_id of
                    Some t \<Rightarrow> if token_path = [] then [t] else token_path
                  | None \<Rightarrow> token_path) in
      if path = [] \<or> (\<exists>t \<in> set path. t < 0)
      then Inl (ValueError ''indexed pronunciation requires a nonempty token path'')
      else if token_id \<noteq> None \<and> path \<noteq> [the token_id]
      then Inl (ValueError ''single-token pronunciation requires its token id as the path'')
      else Inr \<lparr>e_token_id = token_id, e_text = txt, e_pinyin = pinyin,
                e_syllable_path = syllable_path, e_syllables = syllables, e_coverage = coverage,
                e_token_path = path, e_display_pinyin = join [quote] syllable_path,
                e_normalized_text = nfkc db txt\<rparr>)"

fun boundary_positions :: "nat \<Rightarrow> pystr list \<Rightarrow> nat list" where
  "boundary_positions position [] = []"
| "boundary_positions position (s # ss) =
     (position + length s) # boundary_positions (position + length s) ss"

definition entry_boundaries :: "entry \<Rightarrow> nat set" where
  "entry_boundaries e = set (boundary_positions 0 (e_syllable_path e))"

definition matched_syllables :: "entry \<Rightarrow> nat \<Rightarrow> nat" where
  "matched_syllables e raw_length =
     length (filter (\<lambda>b. b \<le> raw_length) (remdups (boundary_positions 0 (e_syllable_path e))))"

section \<open>Tries\<close>

datatype 'k trie = Node (children: "('k \<times> 'k trie) list") (terminals: "entry list")

abbreviation empty_trie :: "'k trie" where
  "empty_trie \<equiv> Node [] []"

fun trie_insert :: "'k list \<Rightarrow> entry \<Rightarrow> 'k trie \<Rightarrow> 'k trie" where
  "trie_insert [] e (Node cs ts) = Node cs (ts @ [e])"
| "trie_insert (k # ks) e (Node cs ts) =
     Node (od_set k (trie_insert ks e (case map_of cs k of None \<Rightarrow> empty_trie | Some t \<Rightarrow> t)) cs) ts"

section \<open>The index and its loader\<close>

type_synonym priority = "int \<times> int \<times> int \<times> int"

record query_group =
  g_priority :: priority
  g_entries :: "entry list"
  g_token_ids :: "int list option"

record pinyin_query_plan =
  plan_raw :: pystr
  plan_groups :: "query_group list"

record pinyin_index =
  ix_root :: "nat trie"
  ix_syllable_root :: "pystr trie"
  ix_syllables :: "pystr list"
  ix_query_plans :: "(pystr \<times> nat list, pinyin_query_plan) odict"

record row =
  r_token_id :: "int option"
  r_token_path :: "int list"
  r_text :: pystr
  r_pinyin :: pystr
  r_syllable_path :: pystr
  r_syllables :: int
  r_coverage :: int

definition empty_index :: pinyin_index where
  "empty_index = \<lparr>ix_root = empty_trie, ix_syllable_root = empty_trie, ix_syllables = [],
                  ix_query_plans = []\<rparr>"

definition add_entry :: "entry \<Rightarrow> pinyin_index \<Rightarrow> pinyin_index" where
  "add_entry e ix = ix\<lparr>
     ix_syllables := dedup_by (\<lambda>s. s) [] (ix_syllables ix @ e_syllable_path e),
     ix_root := trie_insert (e_pinyin e) e (ix_root ix),
     ix_syllable_root := trie_insert (e_syllable_path e) e (ix_syllable_root ix)\<rparr>"

definition row_entry :: "unicode_db \<Rightarrow> row \<Rightarrow> entry result" where
  "row_entry db r =
     (if r_token_path r = []
      then Inl (ValueError ''pinyin index contains an empty or invalid token path'')
      else make_entry db (r_token_id r) (r_text r) (r_pinyin r)
             (split_on quote (r_syllable_path r)) (r_syllables r) (r_coverage r \<noteq> 0)
             (r_token_path r))"

fun load_rows :: "unicode_db \<Rightarrow> (pystr \<Rightarrow> bool) \<Rightarrow> row list \<Rightarrow> pinyin_index \<Rightarrow> pinyin_index result" where
  "load_rows db simplified [] ix = Inr ix"
| "load_rows db simplified (r # rs) ix =
     (if \<not> simplified (r_text r) then load_rows db simplified rs ix
      else rbind (row_entry db r) (\<lambda>e. load_rows db simplified rs (add_entry e ix)))"

definition SCHEMA_VERSION :: int where
  "SCHEMA_VERSION = 5"

definition load_index ::
  "unicode_db \<Rightarrow> (pystr \<Rightarrow> bool) \<Rightarrow> int option \<Rightarrow> row list \<Rightarrow> pinyin_index result" where
  "load_index db simplified schema_version rs =
     (if schema_version \<noteq> Some SCHEMA_VERSION
      then Inl (RuntimeError ''pinyin index schema is incompatible; rebuild it'')
      else load_rows db simplified rs empty_index)"

section \<open>Lookup\<close>

fun compat_walk :: "pystr \<Rightarrow> nat trie \<Rightarrow> entry list \<Rightarrow> entry list \<times> nat trie option" where
  "compat_walk [] node results = (results, Some node)"
| "compat_walk (c # cs) node results =
     (let results' = results @ terminals node in
      case map_of (children node) c of
        None \<Rightarrow> (results', None)
      | Some n \<Rightarrow> compat_walk cs n results')"

fun trie_weight :: "'k trie \<Rightarrow> nat" where
  "trie_weight (Node cs ts) = Suc (2 * sum_list (map (\<lambda>c. trie_weight (snd c)) cs))"

lemma trie_weight_children: "trie_weight t = Suc (2 * sum_list (map (trie_weight \<circ> snd) (children t)))"
  by (cases t) (simp add: o_def)

lemma trie_weight_pos [simp]: "0 < trie_weight t"
  by (cases t) simp

text \<open>The explicit stack of the Python loops, with its top at the head.\<close>

function dfs_stack :: "'k trie list \<Rightarrow> entry list" where
  "dfs_stack [] = []"
| "dfs_stack (t # stack) = terminals t @ dfs_stack (rev (map snd (children t)) @ stack)"
  by pat_completeness auto
termination
proof (relation "measure (\<lambda>stack. sum_list (map trie_weight stack))")
  fix t :: "'k trie" and stack
  show "(rev (map snd (children t)) @ stack, t # stack) \<in> measure (\<lambda>stack. sum_list (map trie_weight stack))"
    by (simp add: trie_weight_children rev_map [symmetric] sum_list_rev)
qed simp

definition apply_explicit_boundaries :: "entry list \<Rightarrow> parsed_input \<Rightarrow> entry list" where
  "apply_explicit_boundaries entries parsed =
     filter (\<lambda>e. {b \<in> pi_boundaries parsed. b \<le> length (e_pinyin e)} \<subseteq> entry_boundaries e) entries"

definition compatible :: "nat trie \<Rightarrow> parsed_input \<Rightarrow> entry list" where
  "compatible rt parsed =
     (if pi_compact parsed = [] then []
      else case compat_walk (pi_compact parsed) rt [] of
             (results, None) \<Rightarrow> apply_explicit_boundaries results parsed
           | (results, Some node) \<Rightarrow> apply_explicit_boundaries (results @ dfs_stack [node]) parsed)"

section \<open>Query plans\<close>

definition entry_priority :: "pystr \<Rightarrow> entry \<Rightarrow> priority" where
  "entry_priority raw e =
     (if e_pinyin e = raw then 0 else 1,
      - int (min (length (e_pinyin e)) (length raw)),
      - int (matched_syllables e (length raw)),
      if e_coverage e then 1 else 0)"

fun group_entries :: "pystr \<Rightarrow> entry list \<Rightarrow> (priority, entry list) odict \<Rightarrow> (priority, entry list) odict" where
  "group_entries raw [] grouped = grouped"
| "group_entries raw (e # es) grouped =
     (let p = entry_priority raw e in
      group_entries raw es
        (od_set p (case map_of grouped p of None \<Rightarrow> [e] | Some xs \<Rightarrow> xs @ [e]) grouped))"

definition group_token_ids :: "entry list \<Rightarrow> int list result" where
  "group_token_ids es = rmap (\<lambda>e. case e_token_id e of
     Some t \<Rightarrow> Inr t | None \<Rightarrow> Inl (TypeError ''token id'')) es"

definition make_group :: "(priority, entry list) odict \<Rightarrow> priority \<Rightarrow> query_group result" where
  "make_group grouped p =
     (let es = the (map_of grouped p) in
      if snd (snd (snd p)) \<noteq> 0
      then Inr \<lparr>g_priority = p, g_entries = es, g_token_ids = None\<rparr>
      else rbind (group_token_ids es)
             (\<lambda>ids. Inr \<lparr>g_priority = p, g_entries = es, g_token_ids = Some ids\<rparr>))"

definition build_plan :: "nat trie \<Rightarrow> parsed_input \<Rightarrow> pinyin_query_plan result" where
  "build_plan rt parsed =
     (let grouped = group_entries (pi_compact parsed) (compatible rt parsed) [] in
      rbind (rmap (make_group grouped) (sort (od_keys grouped)))
        (\<lambda>gs. Inr \<lparr>plan_raw = pi_compact parsed, plan_groups = gs\<rparr>))"

definition plan_key :: "parsed_input \<Rightarrow> pystr \<times> nat list" where
  "plan_key parsed = (pi_compact parsed, sorted_list_of_set (pi_boundaries parsed))"

definition query_plan :: "pinyin_index \<Rightarrow> parsed_input \<Rightarrow> (pinyin_query_plan \<times> pinyin_index) result" where
  "query_plan ix parsed =
     (case map_of (ix_query_plans ix) (plan_key parsed) of
        Some plan \<Rightarrow> Inr (plan, ix)
      | None \<Rightarrow> rbind (build_plan (ix_root ix) parsed)
          (\<lambda>plan. Inr (plan, ix\<lparr>ix_query_plans := od_set (plan_key parsed) plan (ix_query_plans ix)\<rparr>)))"

fun prewarm_prefixes :: "unicode_db \<Rightarrow> nat list \<Rightarrow> pinyin_index \<Rightarrow> pinyin_index result" where
  "prewarm_prefixes db [] ix = Inr ix"
| "prewarm_prefixes db (c # cs) ix =
     rbind (parse_raw_pinyin db [c]) (\<lambda>p. rbind (query_plan ix p)
       (\<lambda>(_, ix'). prewarm_prefixes db cs ix'))"

section \<open>Abbreviated syllables\<close>

record index_match =
  im_entry :: entry
  im_consumed :: nat
  im_cost :: nat
  im_covers :: bool

type_synonym match_table = "(int option \<times> pystr \<times> nat, index_match) odict"

definition remember :: "entry \<Rightarrow> nat \<Rightarrow> nat \<Rightarrow> bool \<Rightarrow> match_table \<Rightarrow> match_table" where
  "remember e consumed cost covers matches =
     best_put (\<lambda>new old. (im_cost new, \<not> im_covers new) < (im_cost old, \<not> im_covers old))
       (e_token_id e, e_pinyin e, consumed)
       \<lparr>im_entry = e, im_consumed = consumed, im_cost = cost, im_covers = covers\<rparr> matches"

definition remember_all :: "entry list \<Rightarrow> nat \<Rightarrow> nat \<Rightarrow> bool \<Rightarrow> match_table \<Rightarrow> match_table" where
  "remember_all es consumed cost covers matches =
     fold (\<lambda>e. remember e consumed cost covers) es matches"

function remember_descendants ::
  "nat \<Rightarrow> nat \<Rightarrow> nat \<Rightarrow> pystr trie list \<Rightarrow> match_table \<Rightarrow> match_table" where
  "remember_descendants max_results position cost [] matches = matches"
| "remember_descendants max_results position cost (t # stack) matches =
     (if length matches < max_results
      then remember_descendants max_results position cost (rev (map snd (children t)) @ stack)
             (remember_all (terminals t) position cost True matches)
      else matches)"
  by pat_completeness auto
termination
proof (relation "measure (\<lambda>(_, _, _, stack, _). sum_list (map trie_weight stack))", simp)
  fix max_results position cost :: nat and t :: "pystr trie" and stack matches
  show "((max_results, position, cost, rev (map snd (children t)) @ stack,
          remember_all (terminals t) position cost True matches),
         (max_results, position, cost, t # stack, matches))
        \<in> measure (\<lambda>(_, _, _, stack, _). sum_list (map trie_weight stack))"
    by (simp add: trie_weight_children rev_map [symmetric] sum_list_rev)
qed

text \<open>
  A state carries the path of syllables to its node: the path identifies the node as \<open>id(node)\<close>
  does in the source.
\<close>

type_synonym partial_state = "pystr list \<times> pystr trie \<times> nat \<times> nat"

definition child_states ::
  "pystr \<Rightarrow> pystr list \<Rightarrow> nat \<Rightarrow> nat \<Rightarrow> pystr \<times> pystr trie \<Rightarrow> partial_state list" where
  "child_states raw path position cost = (\<lambda>(syllable, child).
     (let remaining = drop position raw in
      (if prefix syllable remaining
       then [(path @ [syllable], child, position + length syllable, cost)]
       else if prefix remaining syllable
       then [(path @ [syllable], child, length raw, cost)] else [])
      @ (if length syllable > 1 \<and> raw ! position = hd syllable
         then [(path @ [syllable], child, position + 1, cost + 1)] else [])))"

abbreviation state_weight :: "partial_state \<Rightarrow> nat" where
  "state_weight s \<equiv> trie_weight (fst (snd s))"

lemma weight_child_states:
  "sum_list (map state_weight (child_states raw path position cost c))
     \<le> 2 * trie_weight (snd c)"
  by (cases c) (simp add: child_states_def Let_def)

lemma weight_pushes:
  "sum_list (map state_weight
     (rev (concat (map (child_states raw path position cost) cs))))
   \<le> 2 * sum_list (map (trie_weight \<circ> snd) cs)"
proof (induction cs)
  case (Cons c cs)
  then show ?case
    using weight_child_states [of raw path position cost c] by (simp add: rev_map [symmetric] sum_list_rev)
qed simp

function partial_loop ::
  "pystr \<Rightarrow> nat \<Rightarrow> nat \<Rightarrow> partial_state list \<Rightarrow> (pystr list \<times> nat \<times> nat) list \<Rightarrow> nat \<Rightarrow> match_table
   \<Rightarrow> match_table" where
  "partial_loop raw max_results max_states [] visited states matches = matches"
| "partial_loop raw max_results max_states ((path, node, position, cost) # stack) visited states matches =
     (if states < max_states \<and> length matches < max_results then
        if (path, position, cost) \<in> set visited
        then partial_loop raw max_results max_states stack visited states matches
        else
          let visited' = (path, position, cost) # visited;
              matches' = remember_all (terminals node) position cost (position = length raw) matches
          in if position = length raw
             then partial_loop raw max_results max_states stack visited' (Suc states)
                    (remember_descendants max_results position cost [node] matches')
             else partial_loop raw max_results max_states
                    (rev (concat (map (child_states raw path position cost) (children node))) @ stack)
                    visited' (Suc states) matches'
      else matches)"
  by pat_completeness auto
termination
proof (relation "measure (\<lambda>(_, _, _, stack, _, _, _). sum_list (map state_weight stack))",
    goal_cases)
  case (4 raw max_results max_states path node position cost stack visited states matches visited' matches')
  show ?case
    using weight_pushes [of raw path position cost "children node"]
    by (simp add: trie_weight_children [of node])
qed simp_all

definition index_partial_matches ::
  "pystr trie \<Rightarrow> parsed_input \<Rightarrow> nat \<Rightarrow> nat \<Rightarrow> index_match list" where
  "index_partial_matches syllable_root parsed max_results max_states =
     (if pi_compact parsed = [] \<or> max_results = 0 \<or> max_states = 0 then []
      else sort_key (\<lambda>m. (\<not> im_covers m, im_cost m, - int (im_consumed m), e_coverage (im_entry m),
                        e_text (im_entry m), e_pinyin (im_entry m)))
             (map snd (partial_loop (pi_compact parsed) max_results max_states
                         [([], syllable_root, 0, 0)] [] 0 [])))"

section \<open>What a trie holds\<close>

fun trie_content :: "'k trie \<Rightarrow> ('k list \<times> entry) multiset" where
  "trie_content (Node cs ts) =
     image_mset (Pair []) (mset ts)
     + sum_list (map (\<lambda>c. image_mset (\<lambda>(p, e). (fst c # p, e)) (trie_content (snd c))) cs)"

fun trie_ok :: "'k trie \<Rightarrow> bool" where
  "trie_ok (Node cs ts) \<longleftrightarrow> od_ok cs \<and> list_all (\<lambda>c. trie_ok (snd c)) cs"

lemma sum_od_set:
  fixes g :: "'k \<times> 'v \<Rightarrow> 'm::cancel_comm_monoid_add"
  shows "sum_list (map g (od_set k v d)) + (case map_of d k of None \<Rightarrow> 0 | Some w \<Rightarrow> g (k, w))
       = sum_list (map g d) + g (k, v)"
  by (induction d) (auto simp: algebra_simps)

lemma content_insert: "trie_content (trie_insert p e t) = add_mset (p, e) (trie_content t)"
proof (induction p e t rule: trie_insert.induct)
  case (2 k ks e cs ts)
  let ?g = "\<lambda>c. image_mset (\<lambda>(p, e). (fst c # p, e)) (trie_content (snd c))"
  let ?old = "case map_of cs k of None \<Rightarrow> empty_trie | Some t \<Rightarrow> t"
  have "sum_list (map ?g (od_set k (trie_insert ks e ?old) cs))
      + (case map_of cs k of None \<Rightarrow> 0 | Some w \<Rightarrow> ?g (k, w))
      = sum_list (map ?g cs) + ?g (k, trie_insert ks e ?old)"
    by (rule sum_od_set)
  also have "?g (k, trie_insert ks e ?old)
      = add_mset (k # ks, e) (case map_of cs k of None \<Rightarrow> 0 | Some w \<Rightarrow> ?g (k, w))"
    using 2 by (simp split: option.split)
  finally have "sum_list (map ?g (od_set k (trie_insert ks e ?old) cs))
      = add_mset (k # ks, e) (sum_list (map ?g cs))"
    by simp
  then show ?case by simp
qed simp

lemma list_all_od_set:
  "list_all (\<lambda>c. P (snd c)) d \<Longrightarrow> P v \<Longrightarrow> list_all (\<lambda>c. P (snd c)) (od_set k v d)"
  by (induction d) auto

lemma trie_ok_lookup: "list_all (\<lambda>c. P (snd c)) cs \<Longrightarrow> map_of cs k = Some t \<Longrightarrow> P t"
  by (metis list_all_iff map_of_SomeD snd_conv)

lemma trie_ok_insert: "trie_ok t \<Longrightarrow> trie_ok (trie_insert p e t)"
proof (induction p e t rule: trie_insert.induct)
  case (2 k ks e cs ts)
  have "trie_ok (case map_of cs k of None \<Rightarrow> empty_trie | Some t \<Rightarrow> t)"
    using 2(2) by (auto split: option.split intro: trie_ok_lookup)
  with 2 show ?case by (simp add: list_all_od_set)
qed simp

text \<open>Only the child stored under a key contributes content starting with that key.\<close>

lemma sum_children_at:
  fixes f :: "'v \<Rightarrow> 'm::comm_monoid_add"
  assumes "od_ok cs"
  shows "sum_list (map (\<lambda>c. if fst c = k then f (snd c) else 0) cs)
       = (case map_of cs k of None \<Rightarrow> 0 | Some t \<Rightarrow> f t)"
  using assms
proof (induction cs)
  case (Cons c cs)
  then have "od_ok cs" "fst c \<notin> fst ` set cs" by (auto simp: od_ok_def)
  moreover have "map_of cs (fst c) = None" using \<open>fst c \<notin> fst ` set cs\<close> by (simp add: map_of_eq_None_iff)
  ultimately show ?case using Cons.IH by (cases c) auto
qed simp

lemma filter_content_children:
  assumes "\<And>p. P (k # p) \<longleftrightarrow> Q p" "\<And>k' p. k' \<noteq> k \<Longrightarrow> \<not> P (k' # p)" "od_ok cs"
  shows "image_mset snd (filter_mset (\<lambda>(p, e). P p)
            (sum_list (map (\<lambda>c. image_mset (\<lambda>(p, e). (fst c # p, e)) (trie_content (snd c))) cs)))
       = (case map_of cs k of None \<Rightarrow> {#}
          | Some t \<Rightarrow> image_mset snd (filter_mset (\<lambda>(p, e). Q p) (trie_content t)))"
proof -
  have one: "image_mset snd (filter_mset (\<lambda>(p, e). P p)
              (image_mset (\<lambda>(p, e). (fst c # p, e)) (trie_content (snd c))))
      = (if fst c = k then image_mset snd (filter_mset (\<lambda>(p, e). Q p) (trie_content (snd c))) else {#})"
    for c :: "'a \<times> 'a trie"
    using assms(1,2) by (auto simp: filter_mset_image_mset image_mset.compositionality o_def split_def
        intro!: image_mset_cong)
  have "image_mset snd (filter_mset (\<lambda>(p, e). P p)
            (sum_list (map (\<lambda>c. image_mset (\<lambda>(p, e). (fst c # p, e)) (trie_content (snd c))) cs)))
       = sum_list (map (\<lambda>c. if fst c = k then image_mset snd (filter_mset (\<lambda>(p, e). Q p) (trie_content (snd c)))
           else {#}) cs)"
    by (induction cs) (simp_all add: one)
  also have "\<dots> = (case map_of cs k of None \<Rightarrow> {#}
          | Some t \<Rightarrow> image_mset snd (filter_mset (\<lambda>(p, e). Q p) (trie_content t)))"
    by (rule sum_children_at [OF assms(3),
          of k "\<lambda>t. image_mset snd (filter_mset (\<lambda>(p, e). Q p) (trie_content t))"])
  finally show ?thesis .
qed

abbreviation entries_where :: "('k list \<Rightarrow> bool) \<Rightarrow> 'k trie \<Rightarrow> entry multiset" where
  "entries_where P t \<equiv> image_mset snd (filter_mset (\<lambda>(p, e). P p) (trie_content t))"

lemma compat_walk_spec:
  assumes "trie_ok t" "compat_walk raw t acc = (res, n)"
  shows "mset res = mset acc + entries_where (\<lambda>p. strict_prefix p raw) t
       \<and> (case n of None \<Rightarrow> {#} | Some node \<Rightarrow> image_mset snd (trie_content node)) = entries_where (prefix raw) t"
  using assms
proof (induction raw t acc arbitrary: res n rule: compat_walk.induct)
  case (1 node results)
  then show ?case by (auto simp: split_def)
next
  case (2 c cs node results)
  obtain kids ts where node: "node = Node kids ts" by (cases node)
  have ok: "od_ok kids" "list_all (\<lambda>c. trie_ok (snd c)) kids" using 2(2) node by auto
  have start: "filter_mset (\<lambda>x. case x of (p, e) \<Rightarrow> strict_prefix p (c # cs)) (image_mset (Pair []) (mset ts))
      = image_mset (Pair []) (mset ts)"
    by (auto simp: filter_mset_image_mset)
  have none: "filter_mset (\<lambda>x. case x of (p, e) \<Rightarrow> prefix (c # cs) p) (image_mset (Pair []) (mset ts)) = {#}"
    by (auto simp: filter_mset_image_mset)
  have sp: "entries_where (\<lambda>p. strict_prefix p (c # cs)) node = mset ts
      + (case map_of kids c of None \<Rightarrow> {#} | Some t \<Rightarrow> entries_where (\<lambda>p. strict_prefix p cs) t)"
    using filter_content_children [of "\<lambda>p. strict_prefix p (c # cs)" c "\<lambda>p. strict_prefix p cs" kids] ok(1)
    by (simp add: node start image_mset.compositionality o_def)
  have pr: "entries_where (prefix (c # cs)) node
      = (case map_of kids c of None \<Rightarrow> {#} | Some t \<Rightarrow> entries_where (prefix cs) t)"
    using filter_content_children [of "prefix (c # cs)" c "prefix cs" kids] ok(1)
    by (simp add: node none)
  show ?case
  proof (cases "map_of kids c")
    case None
    with 2(3) have "res = results @ ts" "n = None" by (auto simp: node)
    with None show ?thesis unfolding sp pr by simp
  next
    case (Some t)
    then have "trie_ok t" using ok(2) by (rule trie_ok_lookup [rotated])
    with 2(1) [of "results @ ts" t] 2(3) Some show ?thesis unfolding sp pr by (auto simp: node)
  qed
qed

lemma content_node: "image_mset snd (trie_content t)
    = mset (terminals t) + sum_list (map (\<lambda>c. image_mset snd (trie_content (snd c))) (children t))"
proof (cases t)
  case (Node cs ts)
  have "image_mset snd (sum_list (map (\<lambda>c. image_mset (\<lambda>(p, e). (fst c # p, e)) (trie_content (snd c))) cs))
      = sum_list (map (\<lambda>c. image_mset snd (trie_content (snd c))) cs)"
    by (induction cs) (simp_all add: image_mset.compositionality o_def split_def)
  with Node show ?thesis by (simp add: image_mset.compositionality o_def)
qed

lemma mset_dfs_stack: "mset (dfs_stack stack) = sum_list (map (\<lambda>t. image_mset snd (trie_content t)) stack)"
proof (induction stack rule: dfs_stack.induct)
  case (2 t stack)
  then show ?case
    by (simp add: content_node [of t] rev_map [symmetric] sum_list_rev o_def add.assoc)
qed simp

declare dfs_stack.simps [simp del]

definition boundary_compatible :: "parsed_input \<Rightarrow> entry \<Rightarrow> bool" where
  "boundary_compatible parsed e \<longleftrightarrow>
     {b \<in> pi_boundaries parsed. b \<le> length (e_pinyin e)} \<subseteq> entry_boundaries e"

text \<open>An entry is legal for the typed letters when either spells a prefix of the other.\<close>

definition legal_entry :: "parsed_input \<Rightarrow> entry \<Rightarrow> bool" where
  "legal_entry parsed e \<longleftrightarrow>
     (prefix (e_pinyin e) (pi_compact parsed) \<or> prefix (pi_compact parsed) (e_pinyin e))
     \<and> boundary_compatible parsed e"

definition keyed :: "(entry \<Rightarrow> 'k list) \<Rightarrow> 'k trie \<Rightarrow> bool" where
  "keyed f t \<longleftrightarrow> (\<forall>(p, e) \<in># trie_content t. p = f e)"

lemma keyed_empty [simp]: "keyed f empty_trie"
  by (simp add: keyed_def)

lemma keyed_insert [simp]: "keyed f t \<Longrightarrow> keyed f (trie_insert (f e) e t)"
  by (simp add: keyed_def content_insert)

lemma entries_where_keyed:
  assumes "keyed f t"
  shows "entries_where P t = filter_mset (\<lambda>e. P (f e)) (image_mset snd (trie_content t))"
proof -
  have "filter_mset (\<lambda>(p, e). P p) (trie_content t) = filter_mset (\<lambda>x. P (f (snd x))) (trie_content t)"
    using assms by (intro filter_mset_cong) (auto simp: keyed_def)
  then show ?thesis by (simp add: filter_mset_image_mset)
qed

lemma filter_mset_disj:
  "(\<And>x. \<not> (P x \<and> Q x)) \<Longrightarrow> filter_mset P M + filter_mset Q M = filter_mset (\<lambda>x. P x \<or> Q x) M"
  by (induction M) auto

lemma apply_boundaries_filter:
  "mset (apply_explicit_boundaries es parsed) = filter_mset (boundary_compatible parsed) (mset es)"
  by (simp add: apply_explicit_boundaries_def boundary_compatible_def [abs_def] mset_filter)

lemma compatible_mset:
  assumes "trie_ok rt" "keyed e_pinyin rt" "pi_compact parsed \<noteq> []"
  shows "mset (compatible rt parsed) = filter_mset (legal_entry parsed) (image_mset snd (trie_content rt))"
proof -
  obtain res n where w: "compat_walk (pi_compact parsed) rt [] = (res, n)" by fastforce
  let ?all = "image_mset snd (trie_content rt)"
  let ?found = "res @ (case n of None \<Rightarrow> [] | Some node \<Rightarrow> dfs_stack [node])"
  have "mset ?found = entries_where (\<lambda>p. strict_prefix p (pi_compact parsed)) rt
      + entries_where (prefix (pi_compact parsed)) rt"
    using compat_walk_spec [OF assms(1) w] by (auto simp: mset_dfs_stack split: option.splits)
  also have "\<dots> = filter_mset (\<lambda>e. strict_prefix (e_pinyin e) (pi_compact parsed)
       \<or> prefix (pi_compact parsed) (e_pinyin e)) ?all"
    unfolding entries_where_keyed [OF assms(2)] by (rule filter_mset_disj) (auto simp: strict_prefix_def)
  finally have "mset (apply_explicit_boundaries ?found parsed)
      = filter_mset (boundary_compatible parsed) (filter_mset (\<lambda>e. strict_prefix (e_pinyin e) (pi_compact parsed)
       \<or> prefix (pi_compact parsed) (e_pinyin e)) ?all)"
    by (simp only: apply_boundaries_filter)
  also have "\<dots> = filter_mset (legal_entry parsed) ?all"
    by (simp add: filter_filter_mset)
       (intro filter_mset_cong, auto simp: legal_entry_def strict_prefix_def)
  finally show ?thesis
    using w assms(3) by (auto simp: compatible_def split: option.splits)
qed

section \<open>Loading\<close>

definition index_ok :: "pinyin_index \<Rightarrow> bool" where
  "index_ok ix \<longleftrightarrow> trie_ok (ix_root ix) \<and> keyed e_pinyin (ix_root ix)
     \<and> trie_ok (ix_syllable_root ix) \<and> keyed e_syllable_path (ix_syllable_root ix)"

definition index_entries :: "pinyin_index \<Rightarrow> entry multiset" where
  "index_entries ix = image_mset snd (trie_content (ix_root ix))"

lemma index_ok_empty: "index_ok empty_index"
  by (simp add: index_ok_def empty_index_def)

lemma index_ok_add: "index_ok ix \<Longrightarrow> index_ok (add_entry e ix)"
  by (simp add: index_ok_def add_entry_def trie_ok_insert)

lemma index_entries_add: "index_entries (add_entry e ix) = add_mset e (index_entries ix)"
  by (simp add: index_entries_def add_entry_def content_insert)

lemma load_rows_spec:
  assumes "load_rows db simplified rs ix = Inr ix'" "index_ok ix"
  shows "\<exists>es. rmap (row_entry db) (filter (\<lambda>r. simplified (r_text r)) rs) = Inr es \<and> index_ok ix'
       \<and> ix_query_plans ix' = ix_query_plans ix \<and> index_entries ix' = mset es + index_entries ix"
  using assms
proof (induction db simplified rs ix arbitrary: ix' rule: load_rows.induct)
  case (2 db simplified r rs ix)
  show ?case
  proof (cases "simplified (r_text r)")
    case True
    then obtain e where e: "row_entry db r = Inr e" "load_rows db simplified rs (add_entry e ix) = Inr ix'"
      using 2(3) by (auto simp: result_splits)
    have "ix_query_plans (add_entry e ix) = ix_query_plans ix" by (simp add: add_entry_def)
    with 2(2) [of e] True e show ?thesis
      by (auto simp: index_ok_add [OF 2(4)] index_entries_add)
  qed (use 2 in simp)
qed simp

lemma load_index_spec:
  assumes "load_index db simplified v rs = Inr ix"
  shows "\<exists>es. rmap (row_entry db) (filter (\<lambda>r. simplified (r_text r)) rs) = Inr es \<and> index_ok ix
       \<and> ix_query_plans ix = [] \<and> index_entries ix = mset es"
  using load_rows_spec [of db simplified rs empty_index ix] assms index_ok_empty
  by (auto simp: load_index_def empty_index_def index_entries_def split: if_splits)

section \<open>Plans partition the legal entries by priority\<close>

lemma group_entries_lookup:
  "map_of (group_entries raw es grouped) p =
     (case (map_of grouped p, filter (\<lambda>e. entry_priority raw e = p) es) of
        (None, []) \<Rightarrow> None
      | (None, xs) \<Rightarrow> Some xs
      | (Some ys, xs) \<Rightarrow> Some (ys @ xs))"
  by (induction raw es grouped rule: group_entries.induct)
     (auto simp: Let_def map_of_od_set split: option.splits list.splits)

lemma od_ok_group_entries: "od_ok grouped \<Longrightarrow> od_ok (group_entries raw es grouped)"
  by (induction raw es grouped rule: group_entries.induct) (auto simp: Let_def)

lemma keys_group_entries:
  "fst ` set (group_entries raw es grouped) = entry_priority raw ` set es \<union> fst ` set grouped"
  by (induction raw es grouped rule: group_entries.induct) (auto simp: Let_def)

lemma grouped_entries:
  assumes "p \<in> entry_priority raw ` set es"
  shows "map_of (group_entries raw es []) p = Some (filter (\<lambda>e. entry_priority raw e = p) es)"
  using assms by (auto simp: group_entries_lookup filter_empty_conv split: list.splits)

lemma make_group_fields:
  "make_group grouped p = Inr g \<Longrightarrow> g_priority g = p \<and> g_entries g = the (map_of grouped p)
     \<and> (g_token_ids g = None \<longleftrightarrow> snd (snd (snd p)) \<noteq> 0)
     \<and> (\<forall>ids. g_token_ids g = Some ids \<longrightarrow> map Some ids = map e_token_id (g_entries g))"
proof -
  have ids: "group_token_ids es = Inr ids \<Longrightarrow> map Some ids = map e_token_id es" for es ids
    by (induction es arbitrary: ids) (auto simp: group_token_ids_def result_splits split: option.splits)
  assume "make_group grouped p = Inr g"
  then show ?thesis
    by (auto simp: make_group_def Let_def result_splits ids split: if_splits)
qed

lemma mset_concat_filters:
  assumes "distinct ps" "\<And>x. x \<in> set xs \<Longrightarrow> f x \<in> set ps"
  shows "mset (concat (map (\<lambda>p. filter (\<lambda>x. f x = p) xs) ps)) = mset xs"
  using assms(2)
proof (induction xs)
  case (Cons x xs)
  have "mset (concat (map (\<lambda>p. filter (\<lambda>y. f y = p) (x # xs)) ps))
      = mset (concat (map (\<lambda>p. filter (\<lambda>y. f y = p) xs) ps))
        + (if f x \<in> set ps then {#x#} else {#})"
    using assms(1) by (induction ps) auto
  with Cons show ?case by simp
qed (simp add: filter_False)

lemma build_plan_groups:
  assumes "build_plan rt parsed = Inr plan"
  shows "plan_raw plan = pi_compact parsed"
    and "sorted_wrt (<) (map g_priority (plan_groups plan))"
    and "g \<in> set (plan_groups plan) \<Longrightarrow>
      g_entries g = filter (\<lambda>e. entry_priority (pi_compact parsed) e = g_priority g) (compatible rt parsed)
      \<and> g_entries g \<noteq> []
      \<and> (g_token_ids g = None \<longleftrightarrow> snd (snd (snd (g_priority g))) \<noteq> 0)
      \<and> (\<forall>ids. g_token_ids g = Some ids \<longrightarrow> map Some ids = map e_token_id (g_entries g))"
    and "mset (concat (map g_entries (plan_groups plan))) = mset (compatible rt parsed)"
proof -
  let ?raw = "pi_compact parsed" and ?es = "compatible rt parsed"
  let ?grouped = "group_entries ?raw ?es []"
  let ?ps = "sort (od_keys ?grouped)"
  obtain gs where gs: "rmap (make_group ?grouped) ?ps = Inr gs"
    and plan: "plan = \<lparr>plan_raw = ?raw, plan_groups = gs\<rparr>"
    using assms by (auto simp: build_plan_def Let_def result_splits)
  show "plan_raw plan = ?raw" using plan by simp
  have dist: "distinct ?ps" using od_ok_group_entries [of "[]" ?raw ?es] by (simp add: od_ok_def)
  have keys: "set ?ps = entry_priority ?raw ` set ?es" using keys_group_entries [of ?raw ?es "[]"] by simp
  have nth: "\<And>i. i < length ?ps \<Longrightarrow> make_group ?grouped (?ps ! i) = Inr (gs ! i)" and len: "length gs = length ?ps"
    using rmap_Inr_nth [OF gs] rmap_Inr_length [OF gs] by auto
  have pri: "map g_priority gs = ?ps"
    using len make_group_fields [OF nth] by (intro nth_equalityI) auto
  have ent: "map g_entries gs = map (\<lambda>p. filter (\<lambda>e. entry_priority ?raw e = p) ?es) ?ps"
  proof (rule nth_equalityI)
    fix i
    assume "i < length (map g_entries gs)"
    then have i: "i < length ?ps" using len by simp
    then have "?ps ! i \<in> entry_priority ?raw ` set ?es" using keys nth_mem by blast
    with make_group_fields [OF nth [OF i]] i len show
      "map g_entries gs ! i = map (\<lambda>p. filter (\<lambda>e. entry_priority ?raw e = p) ?es) ?ps ! i"
      by (simp add: grouped_entries)
  qed (use len in simp)
  show "sorted_wrt (<) (map g_priority (plan_groups plan))"
    using dist plan pri by (simp add: strict_sorted_iff)
  show "mset (concat (map g_entries (plan_groups plan))) = mset ?es"
    using plan ent mset_concat_filters [OF dist, of ?es "entry_priority ?raw"] keys by simp
  assume "g \<in> set (plan_groups plan)"
  then obtain i where i: "i < length ?ps" "g = gs ! i" using plan len by (auto simp: in_set_conv_nth)
  then have p: "?ps ! i \<in> entry_priority ?raw ` set ?es" using keys nth_mem by blast
  show "g_entries g = filter (\<lambda>e. entry_priority ?raw e = g_priority g) ?es \<and> g_entries g \<noteq> []
      \<and> (g_token_ids g = None \<longleftrightarrow> snd (snd (snd (g_priority g))) \<noteq> 0)
      \<and> (\<forall>ids. g_token_ids g = Some ids \<longrightarrow> map Some ids = map e_token_id (g_entries g))"
    using make_group_fields [OF nth [OF i(1)]] i(2) grouped_entries [OF p] p
    by (auto simp: filter_empty_conv)
qed

definition plans_ok :: "pinyin_index \<Rightarrow> bool" where
  "plans_ok ix \<longleftrightarrow> (\<forall>parsed plan. finite (pi_boundaries parsed)
     \<and> map_of (ix_query_plans ix) (plan_key parsed) = Some plan
     \<longrightarrow> build_plan (ix_root ix) parsed = Inr plan)"

lemma compatible_key_cong:
  "pi_compact p = pi_compact q \<Longrightarrow> pi_boundaries p = pi_boundaries q \<Longrightarrow> compatible rt p = compatible rt q"
  by (auto simp: compatible_def apply_explicit_boundaries_def split: option.splits prod.splits)

lemma build_plan_key_cong:
  assumes "plan_key p = plan_key q" "finite (pi_boundaries p)" "finite (pi_boundaries q)"
  shows "build_plan rt p = build_plan rt q"
proof -
  have "pi_compact p = pi_compact q" "pi_boundaries p = pi_boundaries q"
    using assms sorted_list_of_set_inject by (auto simp: plan_key_def)
  then show ?thesis using compatible_key_cong [of p q rt] by (simp add: build_plan_def)
qed

lemma query_plan_sound:
  assumes "plans_ok ix" "finite (pi_boundaries parsed)" "query_plan ix parsed = Inr (plan, ix')"
  shows "build_plan (ix_root ix) parsed = Inr plan \<and> plans_ok ix' \<and> ix_root ix' = ix_root ix
       \<and> ix_syllable_root ix' = ix_syllable_root ix \<and> ix_syllables ix' = ix_syllables ix"
proof (cases "map_of (ix_query_plans ix) (plan_key parsed)")
  case None
  then have b: "build_plan (ix_root ix) parsed = Inr plan"
    and ix': "ix' = ix\<lparr>ix_query_plans := od_set (plan_key parsed) plan (ix_query_plans ix)\<rparr>"
    using assms(3) by (auto simp: query_plan_def result_splits)
  have "plans_ok ix'"
    unfolding plans_ok_def
  proof (intro allI impI, elim conjE)
    fix q pl
    assume "finite (pi_boundaries q)" "map_of (ix_query_plans ix') (plan_key q) = Some pl"
    then show "build_plan (ix_root ix') q = Inr pl"
      using assms(1,2) b build_plan_key_cong [of q parsed]
      by (auto simp: ix' map_of_od_set plans_ok_def split: if_splits)
  qed
  with b ix' show ?thesis by simp
qed (use assms in \<open>auto simp: query_plan_def plans_ok_def\<close>)

section \<open>Abbreviation search is sound\<close>

text \<open>
  How a sequence of syllables may spell the typed letters: each syllable is typed in full, or by its
  initial (which costs one), or the typed letters end inside it.
\<close>

inductive spells :: "pystr \<Rightarrow> pystr list \<Rightarrow> nat \<Rightarrow> nat \<Rightarrow> bool" for raw where
  start: "spells raw [] 0 0"
| full: "spells raw path pos cost \<Longrightarrow> pos < length raw \<Longrightarrow> prefix s (drop pos raw) \<Longrightarrow>
     spells raw (path @ [s]) (pos + length s) cost"
| unfinished: "spells raw path pos cost \<Longrightarrow> pos < length raw \<Longrightarrow> prefix (drop pos raw) s \<Longrightarrow>
     spells raw (path @ [s]) (length raw) cost"
| initial: "spells raw path pos cost \<Longrightarrow> pos < length raw \<Longrightarrow> 1 < length s \<Longrightarrow> raw ! pos = hd s \<Longrightarrow>
     spells raw (path @ [s]) (pos + 1) (cost + 1)"

lemma spells_bound: "spells raw path pos cost \<Longrightarrow> pos \<le> length raw"
  by (induction rule: spells.induct) (auto dest: prefix_length_le)

definition match_sound :: "pystr \<Rightarrow> index_match \<Rightarrow> bool" where
  "match_sound raw m \<longleftrightarrow>
     (\<exists>typed rest. e_syllable_path (im_entry m) = typed @ rest
        \<and> spells raw typed (im_consumed m) (im_cost m)
        \<and> (rest \<noteq> [] \<longrightarrow> im_consumed m = length raw)
        \<and> (im_covers m \<longleftrightarrow> im_consumed m = length raw))"

definition node_sound :: "pystr list \<Rightarrow> pystr trie \<Rightarrow> bool" where
  "node_sound path t \<longleftrightarrow> (\<forall>(p, e) \<in># trie_content t. e_syllable_path e = path @ p)"

abbreviation table_sound :: "pystr \<Rightarrow> match_table \<Rightarrow> bool" where
  "table_sound raw matches \<equiv> (\<forall>m \<in> snd ` set matches. match_sound raw m)"

lemma in_sum_mset_list: "x \<in># sum_list Ms \<longleftrightarrow> (\<exists>M \<in> set Ms. x \<in># M)"
  by (induction Ms) auto

lemma in_content_children:
  "c \<in> set (children t) \<Longrightarrow> (p, e) \<in># trie_content (snd c) \<Longrightarrow> (fst c # p, e) \<in># trie_content t"
proof (cases t)
  case (Node cs ts)
  assume "c \<in> set (children t)" "(p, e) \<in># trie_content (snd c)"
  then have "(fst c # p, e) \<in># sum_list (map (\<lambda>c. image_mset (\<lambda>(p, e). (fst c # p, e)) (trie_content (snd c))) cs)"
    by (simp add: Node in_sum_mset_list) (force simp: image_iff)
  with Node show ?thesis by simp
qed

lemma node_sound_child:
  assumes "node_sound path t" "c \<in> set (children t)"
  shows "node_sound (path @ [fst c]) (snd c)"
  unfolding node_sound_def
proof (clarify)
  fix p e
  assume "(p, e) \<in># trie_content (snd c)"
  from in_content_children [OF assms(2) this] assms(1) show "e_syllable_path e = (path @ [fst c]) @ p"
    by (auto simp: node_sound_def)
qed

lemma node_sound_terminal: "node_sound path t \<Longrightarrow> e \<in> set (terminals t) \<Longrightarrow> e_syllable_path e = path"
proof -
  assume "node_sound path t" "e \<in> set (terminals t)"
  moreover from this have "([], e) \<in># trie_content t" by (cases t) simp
  ultimately show ?thesis by (auto simp: node_sound_def)
qed

lemma table_sound_remember_all:
  assumes "table_sound raw matches" "\<And>e. e \<in> set es \<Longrightarrow>
    match_sound raw \<lparr>im_entry = e, im_consumed = pos, im_cost = cost, im_covers = covers\<rparr>"
  shows "table_sound raw (remember_all es pos cost covers matches)"
  using assms
proof (induction es arbitrary: matches)
  case (Cons e es)
  have "table_sound raw (remember e pos cost covers matches)"
    using Cons.prems set_best_put unfolding remember_def by fastforce
  with Cons show ?case by (simp add: remember_all_def)
qed (simp add: remember_all_def)

lemma table_sound_descendants:
  assumes "table_sound raw matches" "spells raw path (length raw) cost"
    "\<And>t. t \<in> set stack \<Longrightarrow> \<exists>more. node_sound (path @ more) t"
  shows "table_sound raw (remember_descendants n (length raw) cost stack matches)"
  using assms
proof (induction n "length raw" cost stack matches rule: remember_descendants.induct)
  case (2 n cost t stack matches)
  obtain more where t: "node_sound (path @ more) t" using 2(4) by auto
  have "table_sound raw (remember_all (terminals t) (length raw) cost True matches)"
    using 2(2) node_sound_terminal [OF t] 2(3)
    by (intro table_sound_remember_all) (auto simp: match_sound_def)
  moreover have "\<exists>more. node_sound (path @ more) u" if "u \<in> set (rev (map snd (children t)) @ stack)" for u
    using that 2(4) node_sound_child [OF t] by (auto; metis append_assoc snd_conv)
  ultimately show ?case using 2 by simp
qed simp

abbreviation states_sound :: "pystr \<Rightarrow> partial_state list \<Rightarrow> bool" where
  "states_sound raw stack \<equiv>
     (\<forall>(path, t, pos, cost) \<in> set stack. node_sound path t \<and> spells raw path pos cost)"

lemma child_states_sound:
  assumes "node_sound path t" "spells raw path pos cost" "pos < length raw" "c \<in> set (children t)"
  shows "states_sound raw (child_states raw path pos cost c)"
  using node_sound_child [OF assms(1,4)] assms(2,3) spells.initial [OF assms(2,3), of "fst c"]
  by (cases c) (auto simp: child_states_def Let_def intro: spells.full spells.unfinished)

lemma partial_loop_sound:
  assumes "table_sound raw matches" "states_sound raw stack"
  shows "table_sound raw (partial_loop raw n m stack visited states matches)"
  using assms
proof (induction raw n m stack visited states matches rule: partial_loop.induct)
  case (2 raw n m path node pos cost stack visited states matches)
  let ?matches' = "remember_all (terminals node) pos cost (pos = length raw) matches"
  have node: "node_sound path node" and sp: "spells raw path pos cost" using 2(5) by auto
  have m': "table_sound raw ?matches'"
    using 2(4) node_sound_terminal [OF node] sp
    by (intro table_sound_remember_all) (auto simp: match_sound_def)
  have desc: "table_sound raw (remember_descendants n (length raw) cost [node] ?matches')" if "pos = length raw"
  proof (rule table_sound_descendants [OF m'])
    show "spells raw path (length raw) cost" using sp that by simp
    show "\<exists>more. node_sound (path @ more) t" if "t \<in> set [node]" for t
      using node that by (auto intro: exI [of _ "[]"])
  qed
  have kids: "states_sound raw (rev (concat (map (child_states raw path pos cost) (children node))) @ stack)"
    if "pos \<noteq> length raw"
    using child_states_sound [OF node sp] spells_bound [OF sp] that 2(5) by fastforce
  show ?case
    using 2(1-3) 2(4,5) m' desc kids by (auto simp: Let_def)
qed simp

section \<open>Properties\<close>

lemma finite_parsed_boundaries: "parse_raw_pinyin db raw = Inr p \<Longrightarrow> finite (pi_boundaries p)"
proof -
  assume "parse_raw_pinyin db raw = Inr p"
  then have "pi_boundaries p = quote_offsets 0 (pi_raw p)"
    using parse_raw_pinyin_valid by (auto simp: valid_parsed_def)
  then have "pi_boundaries p \<subseteq> {..length (letters_of (pi_raw p))}"
    using quote_offsets_le [of _ 0 "pi_raw p"] by auto
  then show ?thesis by (rule finite_subset) simp
qed

definition demo_rows :: "row list" where
  "demo_rows = [
     \<lparr>r_token_id = Some 7, r_token_path = [7], r_text = [20808], r_pinyin = asc ''xian'',
      r_syllable_path = asc ''xian'', r_syllables = 1, r_coverage = 0\<rparr>,
     \<lparr>r_token_id = Some 9, r_token_path = [9], r_text = [35199, 23433], r_pinyin = asc ''xian'',
      r_syllable_path = [120, 105, 39, 97, 110], r_syllables = 2, r_coverage = 0\<rparr>]"

text \<open>
  Claim C7. Loading a table and looking up parsed keys returns, with multiplicity, exactly the
  loaded entries whose pinyin and the typed letters are prefixes of one another and whose syllable
  boundaries respect every typed apostrophe that falls inside them.
\<close>

theorem compatible_exact:
  assumes "load_index db simplified v rs = Inr ix"
    and "parse_raw_pinyin db raw = Inr p" and "pi_compact p \<noteq> []"
  shows "\<exists>es. rmap (row_entry db) (filter (\<lambda>r. simplified (r_text r)) rs) = Inr es
     \<and> mset (compatible (ix_root ix) p) = filter_mset (legal_entry p) (mset es)"
proof -
  obtain es where es: "rmap (row_entry db) (filter (\<lambda>r. simplified (r_text r)) rs) = Inr es"
    "index_ok ix" "index_entries ix = mset es"
    using load_index_spec [OF assms(1)] by blast
  with compatible_mset [of "ix_root ix" p] assms(3) show ?thesis
    by (auto simp: index_ok_def index_entries_def)
qed

definition demo_index :: pinyin_index where
  "demo_index = projr (load_index ascii_db (\<lambda>_. True) (Some 5) demo_rows)"

definition demo_keys :: parsed_input where
  "demo_keys = projr (parse_raw_pinyin ascii_db [120, 105, 39, 97, 110])"

lemma Inr_projr: "\<not> isl x \<Longrightarrow> x = Inr (projr x)"
  by (cases x) auto

lemma demo_index_load: "load_index ascii_db (\<lambda>_. True) (Some 5) demo_rows = Inr demo_index"
  unfolding demo_index_def by (rule Inr_projr) code_simp

lemma demo_keys_parse: "parse_raw_pinyin ascii_db [120, 105, 39, 97, 110] = Inr demo_keys"
  unfolding demo_keys_def by (rule Inr_projr) code_simp

theorem compatible_exact_witness:
  "load_index ascii_db (\<lambda>_. True) (Some 5) demo_rows = Inr demo_index
   \<and> parse_raw_pinyin ascii_db [120, 105, 39, 97, 110] = Inr demo_keys
   \<and> map e_token_id (compatible (ix_root demo_index) demo_keys) = [Some 9]
   \<and> (\<exists>es. mset (compatible (ix_root demo_index) demo_keys)
           = filter_mset (legal_entry demo_keys) (mset es))"
proof -
  have "pi_compact demo_keys \<noteq> []" by code_simp
  moreover have "map e_token_id (compatible (ix_root demo_index) demo_keys) = [Some 9]" by code_simp
  ultimately show ?thesis
    using compatible_exact [OF demo_index_load demo_keys_parse] demo_index_load demo_keys_parse by auto
qed

text \<open>
  Claim C24. A query plan, served from the plan cache or built afresh, lists its groups in strictly
  increasing priority, puts every legal entry into the group of its own priority exactly once, and
  carries the token ids of precisely the entries of its model groups.
\<close>

theorem query_plan_partition:
  assumes "plans_ok ix" and "parse_raw_pinyin db raw = Inr p"
    and "query_plan ix p = Inr (plan, ix')"
  shows "plans_ok ix' \<and> sorted_wrt (<) (map g_priority (plan_groups plan))
     \<and> mset (concat (map g_entries (plan_groups plan))) = mset (compatible (ix_root ix) p)
     \<and> (\<forall>g \<in> set (plan_groups plan).
           (\<forall>e \<in> set (g_entries g). entry_priority (pi_compact p) e = g_priority g)
           \<and> (\<forall>ids. g_token_ids g = Some ids \<longrightarrow> map Some ids = map e_token_id (g_entries g)))"
proof (intro conjI)
  from query_plan_sound [OF assms(1) finite_parsed_boundaries [OF assms(2)] assms(3)]
  have ok: "plans_ok ix'" and b: "build_plan (ix_root ix) p = Inr plan" by auto
  show "plans_ok ix'" by (rule ok)
  show "sorted_wrt (<) (map g_priority (plan_groups plan))"
    and "mset (concat (map g_entries (plan_groups plan))) = mset (compatible (ix_root ix) p)"
    using build_plan_groups [OF b] by auto
  show "\<forall>g \<in> set (plan_groups plan).
           (\<forall>e \<in> set (g_entries g). entry_priority (pi_compact p) e = g_priority g)
           \<and> (\<forall>ids. g_token_ids g = Some ids \<longrightarrow> map Some ids = map e_token_id (g_entries g))"
    using build_plan_groups(3) [OF b] by (auto simp: in_set_conv_nth)
qed

definition demo_plan :: "pinyin_query_plan \<times> pinyin_index" where
  "demo_plan = projr (query_plan demo_index demo_keys)"

theorem query_plan_partition_witness:
  "map g_priority (plan_groups (fst demo_plan)) = [(0, -4, -2, 0)]
   \<and> mset (concat (map g_entries (plan_groups (fst demo_plan))))
     = mset (compatible (ix_root demo_index) demo_keys)"
proof -
  have "query_plan demo_index demo_keys = Inr demo_plan"
    unfolding demo_plan_def by (rule Inr_projr) code_simp
  then have q: "query_plan demo_index demo_keys = Inr (fst demo_plan, snd demo_plan)" by simp
  have "plans_ok demo_index"
    using load_index_spec [OF demo_index_load] by (auto simp: plans_ok_def)
  note part = query_plan_partition [OF this demo_keys_parse q]
  have "map g_priority (plan_groups (fst demo_plan)) = [(0, -4, -2, 0)]" by code_simp
  with part show ?thesis by blast
qed

text \<open>
  Every match of the bounded abbreviation search is justified by the typed letters: its
  syllables spell the consumed letters in full, by initials (each costing one) or by an unfinished
  last syllable, further syllables are predicted only once all letters are consumed, and
  \<open>covers_input\<close> says exactly that they are.
\<close>

theorem partial_matches_sound:
  assumes "load_index db simplified v rs = Inr ix"
    and "m \<in> set (index_partial_matches (ix_syllable_root ix) parsed max_results max_states)"
  shows "match_sound (pi_compact parsed) m"
proof -
  have "index_ok ix" using load_index_spec [OF assms(1)] by blast
  then have "node_sound [] (ix_syllable_root ix)"
    by (auto simp: index_ok_def keyed_def node_sound_def)
  then have "table_sound (pi_compact parsed)
     (partial_loop (pi_compact parsed) max_results max_states [([], ix_syllable_root ix, 0, 0)] [] 0 [])"
    by (intro partial_loop_sound) (auto intro: spells.start)
  with assms(2) show ?thesis by (auto simp: index_partial_matches_def split: if_splits)
qed

definition demo_match :: index_match where
  "demo_match = hd (index_partial_matches (ix_syllable_root demo_index)
     (projr (parse_raw_pinyin ascii_db (asc ''xa''))) 10 10)"

theorem partial_matches_sound_witness:
  "im_cost demo_match = 1 \<and> im_covers demo_match \<and> match_sound (asc ''xa'') demo_match"
proof -
  let ?p = "projr (parse_raw_pinyin ascii_db (asc ''xa''))"
  have "index_partial_matches (ix_syllable_root demo_index) ?p 10 10 \<noteq> []" by code_simp
  then have "demo_match \<in> set (index_partial_matches (ix_syllable_root demo_index) ?p 10 10)"
    by (simp add: demo_match_def)
  from partial_matches_sound [OF demo_index_load this] have "match_sound (pi_compact ?p) demo_match" .
  moreover have "pi_compact ?p = asc ''xa''" "im_cost demo_match = 1" "im_covers demo_match" by code_simp+
  ultimately show ?thesis by simp
qed

end
