(* ===== verification/Ranker.thy ===== *)
theory Ranker
  imports Pinyin_Index
begin

text \<open>
  Candidates (\<open>candidate.py\<close>) and the ranking of an index query by model logits (\<open>ranker.py\<close>).
  \<open>numpy.argpartition\<close> is a parameter: which positions it selects is fixed only up to ties.
  Scores are the real values of the 32-bit logits; a token id indexes the vector as \<open>numpy\<close> does,
  negative ids from the end.
\<close>

record candidate =
  c_text :: pystr
  c_pinyin :: pystr
  c_consumed_keys :: nat
  c_score :: "real option"
  c_context_epoch :: int
  c_coverage :: bool
  c_completes_input :: bool
  c_syllables :: int
  c_token_id :: "int option"
  c_constraint_kind :: string
  c_script :: string
  c_model_score :: "real option"
  c_constraint_cost :: real
  c_language_prior :: real
  c_total_score :: real
  c_token_path :: "int list"
  c_ranking_tier :: int
  c_static_rank :: int
  c_predicted_syllables :: nat

definition rank_candidate :: "entry \<Rightarrow> parsed_input \<Rightarrow> pystr \<Rightarrow> real option \<Rightarrow> int \<Rightarrow> candidate" where
  "rank_candidate e parsed raw score context_epoch =
     (let consumed_letters = min (length raw) (length (e_pinyin e)) in
      \<lparr>c_text = e_text e, c_pinyin = e_display_pinyin e,
       c_consumed_keys = raw_characters_for_letters parsed consumed_letters, c_score = score,
       c_context_epoch = context_epoch, c_coverage = e_coverage e,
       c_completes_input = (e_pinyin e = raw), c_syllables = int (matched_syllables e (length raw)),
       c_token_id = e_token_id e, c_constraint_kind = ''pinyin'', c_script = ''han'',
       c_model_score = None, c_constraint_cost = 0, c_language_prior = 0, c_total_score = 0,
       c_token_path = [], c_ranking_tier = 0, c_static_rank = 0, c_predicted_syllables = 0\<rparr>)"

definition np_take :: "'a list \<Rightarrow> int \<Rightarrow> 'a result" where
  "np_take xs i =
     (if 0 \<le> i \<and> i < int (length xs) then Inr (xs ! nat i)
      else if i < 0 \<and> - i \<le> int (length xs) then Inr (xs ! nat (int (length xs) + i))
      else Inl (IndexError ''index is out of bounds''))"

type_synonym partition = "real list \<Rightarrow> nat \<Rightarrow> nat list"

definition select_ranked :: "partition \<Rightarrow> entry list \<Rightarrow> real list \<Rightarrow> nat \<Rightarrow> (entry \<times> real) list" where
  "select_ranked argpartition entries scores k =
     (let selected = (if k = length entries then [0..<length entries]
                      else take k (argpartition (map uminus scores) (k - 1)));
          selected = sort_key (\<lambda>i. - scores ! i) selected
      in map (\<lambda>i. (entries ! i, scores ! i)) selected)"

text \<open>The \<open>while True\<close> loop; its selection is never empty, since it starts at 64 or at all entries.\<close>

function rank_loop :: "partition \<Rightarrow> entry list \<Rightarrow> real list \<Rightarrow> int \<Rightarrow> nat \<Rightarrow> (entry \<times> real) list" where
  "rank_loop argpartition entries scores limit k =
     (let ranked = select_ranked argpartition entries scores k in
      if k \<ge> length entries \<or> k = 0 then ranked
      else if int (card (set (map (\<lambda>r. e_text (fst r)) ranked))) \<ge> limit then ranked
      else rank_loop argpartition entries scores limit (min (length entries) (k * 2)))"
  by pat_completeness auto
termination
  by (relation "measure (\<lambda>(p, es, ss, l, k). length es - k)") auto

declare rank_loop.simps [simp del]

definition rank_model_group ::
  "partition \<Rightarrow> entry list \<Rightarrow> int list \<Rightarrow> real list \<Rightarrow> int \<Rightarrow> (entry \<times> real) list result" where
  "rank_model_group argpartition entries token_ids logits limit =
     (if token_ids = [] then Inr []
      else if Max (insert 0 (set token_ids)) \<ge> int (length logits)
      then Inl (IndexError ''token id is outside logits length'')
      else rbind (rmap (np_take logits) token_ids) (\<lambda>scores.
             Inr (rank_loop argpartition entries scores limit
                    (min (length entries) (nat (max (limit * 8) 64))))))"

definition ranked_entries ::
  "partition \<Rightarrow> real list \<Rightarrow> int \<Rightarrow> query_group \<Rightarrow> (entry \<times> real option) list result" where
  "ranked_entries argpartition logits limit g = (case g_token_ids g of
       None \<Rightarrow> Inr (map (\<lambda>e. (e, None)) (g_entries g))
     | Some ids \<Rightarrow> rbind (rank_model_group argpartition (g_entries g) ids logits limit)
                     (\<lambda>rs. Inr (map (\<lambda>(e, s). (e, Some s)) rs)))"

abbreviation candidate_key :: "candidate \<Rightarrow> pystr \<times> nat" where
  "candidate_key c \<equiv> (c_text c, c_consumed_keys c)"

text \<open>
  The inner loop over ranked entries; the flag says that \<open>limit\<close> was reached and the function
  returned.  The set \<open>seen\<close> of the source always holds the keys of \<open>results\<close>.
\<close>

fun emit_ranked ::
  "parsed_input \<Rightarrow> pystr \<Rightarrow> int \<Rightarrow> int \<Rightarrow> pystr \<Rightarrow> (entry \<times> real option) list \<Rightarrow> candidate list
     \<Rightarrow> candidate list \<times> bool" where
  "emit_ranked parsed raw context_epoch limit after_text [] results = (results, False)"
| "emit_ranked parsed raw context_epoch limit after_text ((e, score) # rs) results =
     (if prefix (e_text e) after_text
      then emit_ranked parsed raw context_epoch limit after_text rs results
      else
        let candidate = rank_candidate e parsed raw score context_epoch in
        if candidate_key candidate \<in> candidate_key ` set results
        then emit_ranked parsed raw context_epoch limit after_text rs results
        else if int (length results) + 1 \<ge> limit then (results @ [candidate], True)
        else emit_ranked parsed raw context_epoch limit after_text rs (results @ [candidate]))"

fun rank_groups ::
  "partition \<Rightarrow> real list \<Rightarrow> parsed_input \<Rightarrow> pystr \<Rightarrow> int \<Rightarrow> int \<Rightarrow> pystr \<Rightarrow> query_group list \<Rightarrow> candidate list
     \<Rightarrow> candidate list result" where
  "rank_groups argpartition logits parsed raw context_epoch limit after_text [] results = Inr results"
| "rank_groups argpartition logits parsed raw context_epoch limit after_text (g # gs) results =
     rbind (ranked_entries argpartition logits limit g) (\<lambda>rs.
       case emit_ranked parsed raw context_epoch limit after_text rs results of
         (results, True) \<Rightarrow> Inr results
       | (results, False) \<Rightarrow>
           rank_groups argpartition logits parsed raw context_epoch limit after_text gs results)"

definition rank_candidates ::
  "unicode_db \<Rightarrow> partition \<Rightarrow> pinyin_index \<Rightarrow> pystr \<Rightarrow> real list \<Rightarrow> int \<Rightarrow> int \<Rightarrow> pystr
     \<Rightarrow> (candidate list \<times> pinyin_index) result" where
  "rank_candidates db argpartition ix raw_pinyin logits context_epoch limit after_text =
     rbind (parse_raw_pinyin db raw_pinyin) (\<lambda>parsed.
       let raw = pi_compact parsed in
       if raw = [] then Inr ([], ix)
       else rbind (query_plan ix parsed) (\<lambda>(plan, ix').
            rbind (rank_groups argpartition logits parsed raw context_epoch limit after_text (plan_groups plan) [])
              (\<lambda>results. Inr (results, ix'))))"

section \<open>Emission is de-duplication cut at the limit\<close>

definition offered :: "parsed_input \<Rightarrow> pystr \<Rightarrow> int \<Rightarrow> pystr \<Rightarrow> (entry \<times> real option) list \<Rightarrow> candidate list" where
  "offered parsed raw ep after_text rs =
     map (\<lambda>(e, score). rank_candidate e parsed raw score ep) (filter (\<lambda>(e, score). \<not> prefix (e_text e) after_text) rs)"

lemma offered_simps [simp]:
  "offered parsed raw ep a [] = []"
  "offered parsed raw ep a ((e, s) # rs) = (if prefix (e_text e) a then offered parsed raw ep a rs
     else rank_candidate e parsed raw s ep # offered parsed raw ep a rs)"
  "offered parsed raw ep a (rs @ rs') = offered parsed raw ep a rs @ offered parsed raw ep a rs'"
  by (simp_all add: offered_def)

lemma dedup_by_seen_cong: "set s = set s' \<Longrightarrow> dedup_by key s xs = dedup_by key s' xs"
proof (induction xs arbitrary: s s')
  case (Cons x xs)
  from Cons.IH [of s s'] Cons.IH [of "key x # s" "key x # s'"] Cons.prems show ?case by simp
qed simp

lemma dedup_by_append:
  "dedup_by key seen (xs @ ys) = dedup_by key seen xs @ dedup_by key (seen @ map key xs) ys"
proof (induction xs arbitrary: seen)
  case (Cons x xs)
  show ?case
  proof (cases "key x \<in> set seen")
    case True
    then have e: "set (seen @ map key (x # xs)) = set (seen @ map key xs)" by auto
    show ?thesis using Cons [of seen] True dedup_by_seen_cong [OF e, of key ys] by simp
  next
    case False
    have e: "set (seen @ map key (x # xs)) = set ((key x # seen) @ map key xs)" by auto
    show ?thesis using Cons [of "key x # seen"] False dedup_by_seen_cong [OF e, of key ys] by simp
  qed
qed simp

text \<open>\<open>out\<close> is \<open>all\<close> cut after \<open>n\<close> elements, and \<open>stop\<close> says whether the cut was reached.\<close>

definition cut_at :: "nat \<Rightarrow> 'a list \<Rightarrow> 'a list \<Rightarrow> bool \<Rightarrow> bool" where
  "cut_at n all_items out stop \<longleftrightarrow>
     out = take n all_items \<and> (stop \<longleftrightarrow> length out = n) \<and> (\<not> stop \<longrightarrow> out = all_items)"

abbreviation result_bound :: "int \<Rightarrow> nat" where
  "result_bound limit \<equiv> max 1 (nat limit)"

text \<open>
  What the loop has emitted so far is the de-duplicated prefix; it stops exactly when the bound is met.
\<close>

lemma emit_ranked_spec:
  assumes "emit_ranked parsed raw ep limit a rs results = (out, stop)"
    and "length results < result_bound limit"
  shows "cut_at (result_bound limit)
     (results @ dedup_by candidate_key (map candidate_key results) (offered parsed raw ep a rs)) out stop"
  using assms
proof (induction rs arbitrary: results)
  case Nil
  then show ?case by (auto simp: cut_at_def)
next
  case (Cons r rs)
  obtain e score where r: "r = (e, score)" by (cases r)
  let ?c = "rank_candidate e parsed raw score ep"
  consider (skip) "prefix (e_text e) a" | (dup) "\<not> prefix (e_text e) a" "candidate_key ?c \<in> candidate_key ` set results"
    | (new) "\<not> prefix (e_text e) a" "candidate_key ?c \<notin> candidate_key ` set results" by blast
  then show ?case
  proof cases
    case skip
    with Cons.IH [of results] Cons.prems show ?thesis unfolding r by simp
  next
    case dup
    then have "emit_ranked parsed raw ep limit a rs results = (out, stop)"
      using Cons.prems(1) unfolding r emit_ranked.simps Let_def by simp
    moreover have "dedup_by candidate_key (map candidate_key results) (offered parsed raw ep a ((e, score) # rs))
        = dedup_by candidate_key (map candidate_key results) (offered parsed raw ep a rs)"
      using dup by simp
    ultimately show ?thesis using Cons.IH [of results] Cons.prems(2) unfolding r by simp
  next
    case new
    have offered: "dedup_by candidate_key (map candidate_key results) (offered parsed raw ep a ((e, score) # rs))
        = ?c # dedup_by candidate_key (candidate_key ?c # map candidate_key results) (offered parsed raw ep a rs)"
      using new by simp
    have cong: "dedup_by candidate_key (candidate_key ?c # map candidate_key results) ys
        = dedup_by candidate_key (map candidate_key (results @ [?c])) ys" for ys
      by (rule dedup_by_seen_cong) simp
    show ?thesis
    proof (cases "int (length results) + 1 \<ge> limit")
      case True
      then have "result_bound limit = Suc (length results)" using Cons.prems(2) by auto
      moreover have "out = results @ [?c] \<and> stop"
        using Cons.prems(1) new True unfolding r emit_ranked.simps Let_def by simp
      ultimately show ?thesis unfolding r offered cut_at_def by simp
    next
      case False
      then have len: "length (results @ [?c]) < result_bound limit" by auto
      have "emit_ranked parsed raw ep limit a rs (results @ [?c]) = (out, stop)"
        using Cons.prems(1) new False unfolding r emit_ranked.simps Let_def by simp
      from Cons.IH [OF this len] show ?thesis unfolding r offered cong by simp
    qed
  qed
qed

lemma rank_groups_spec:
  assumes "rmap (ranked_entries p logits limit) gs = Inr ranks" "length results < result_bound limit"
  shows "rank_groups p logits parsed raw ep limit a gs results
     = Inr (take (result_bound limit)
         (results @ dedup_by candidate_key (map candidate_key results) (offered parsed raw ep a (concat ranks))))"
  using assms
proof (induction gs arbitrary: ranks results)
  case (Cons g gs)
  from Cons.prems(1) obtain rs ranks' where rs: "ranked_entries p logits limit g = Inr rs"
    and ranks': "rmap (ranked_entries p logits limit) gs = Inr ranks'" and ranks: "ranks = rs # ranks'"
    by (auto simp: result_splits)
  obtain out stop where em: "emit_ranked parsed raw ep limit a rs results = (out, stop)" by fastforce
  note spec = emit_ranked_spec [OF em Cons.prems(2), unfolded cut_at_def]
  let ?d = "dedup_by candidate_key (map candidate_key results) (offered parsed raw ep a rs)"
  show ?case
  proof (cases stop)
    case True
    then have "length (take (result_bound limit) (results @ ?d)) = result_bound limit" using spec by simp
    then have "take (result_bound limit) (results @ ?d @ ys) = take (result_bound limit) (results @ ?d)" for ys
      by (simp add: take_append) (auto simp: min_def split: if_splits)
    with True rs em spec ranks show ?thesis by (simp add: dedup_by_append)
  next
    case False
    then have out: "out = results @ ?d" using spec by blast
    then have short: "length out < result_bound limit"
      using spec False by (metis length_take min.cobounded2 nat_less_le)
    have "dedup_by candidate_key (map candidate_key out) ys
        = dedup_by candidate_key (map candidate_key results @ map candidate_key (offered parsed raw ep a rs)) ys" for ys
    proof (rule dedup_by_seen_cong)
      show "set (map candidate_key out) = set (map candidate_key results @ map candidate_key (offered parsed raw ep a rs))"
        using dedup_by_keys [of candidate_key "map candidate_key results" "offered parsed raw ep a rs"] out by auto
    qed
    with Cons.IH [OF ranks' short] False rs em out ranks show ?thesis by (simp add: dedup_by_append)
  qed
qed simp

section \<open>Selection takes the best\<close>

text \<open>What \<open>numpy.argpartition(keys, k)\<close> documents: a permutation with the k-th smallest in place.\<close>

definition partition_ok :: "partition \<Rightarrow> bool" where
  "partition_ok argpartition \<longleftrightarrow> (\<forall>keys k. k < length keys \<longrightarrow>
     distinct (argpartition keys k) \<and> set (argpartition keys k) = {..<length keys}
     \<and> (\<forall>i \<le> k. \<forall>j. k < j \<and> j < length keys \<longrightarrow> keys ! (argpartition keys k ! i) \<le> keys ! (argpartition keys k ! j)))"

text \<open>
  A ranking of a group lists distinct positions by descending score, and either lists them all or
  omits only positions that score no better, after at least \<open>limit\<close> different texts.
\<close>

definition ranking_ok :: "entry list \<Rightarrow> real list \<Rightarrow> int \<Rightarrow> (entry \<times> real) list \<Rightarrow> bool" where
  "ranking_ok entries scores limit rs \<longleftrightarrow> (\<exists>positions.
     rs = map (\<lambda>i. (entries ! i, scores ! i)) positions \<and> distinct positions \<and> set positions \<subseteq> {..<length entries}
     \<and> sorted_wrt (\<lambda>i j. scores ! i \<ge> scores ! j) positions
     \<and> (set positions = {..<length entries}
        \<or> (\<forall>i \<in> set positions. \<forall>j < length entries. j \<notin> set positions \<longrightarrow> scores ! j \<le> scores ! i)
          \<and> int (card (set (map (\<lambda>r. e_text (fst r)) rs))) \<ge> limit))"

definition selection :: "partition \<Rightarrow> entry list \<Rightarrow> real list \<Rightarrow> nat \<Rightarrow> nat list" where
  "selection argpartition entries scores k =
     sort_key (\<lambda>i. - scores ! i) (if k = length entries then [0..<length entries]
        else take k (argpartition (map uminus scores) (k - 1)))"

lemma select_ranked_selection:
  "select_ranked p entries scores k = map (\<lambda>i. (entries ! i, scores ! i)) (selection p entries scores k)"
  by (simp add: select_ranked_def selection_def Let_def)

lemma selection_spec:
  assumes "partition_ok p" "length scores = length entries" "0 < k" "k \<le> length entries"
  shows "distinct (selection p entries scores k)" "set (selection p entries scores k) \<subseteq> {..<length entries}"
    and "sorted_wrt (\<lambda>i j. scores ! i \<ge> scores ! j) (selection p entries scores k)"
    and "k = length entries \<Longrightarrow> set (selection p entries scores k) = {..<length entries}"
    and "\<forall>i \<in> set (selection p entries scores k). \<forall>j < length entries.
           j \<notin> set (selection p entries scores k) \<longrightarrow> scores ! j \<le> scores ! i"
proof -
  let ?n = "length entries"
  let ?sel = "selection p entries scores k"
  show "sorted_wrt (\<lambda>i j. scores ! i \<ge> scores ! j) ?sel"
    using sorted_wrt_sort_key [of "\<lambda>i. - scores ! i"] by (simp add: selection_def)
  show "k = ?n \<Longrightarrow> set ?sel = {..<?n}" by (auto simp: selection_def)
  have part: "distinct (p (map uminus scores) (k - 1))" "set (p (map uminus scores) (k - 1)) = {..<?n}"
    "\<And>i j. i \<le> k - 1 \<Longrightarrow> k - 1 < j \<Longrightarrow> j < ?n \<Longrightarrow>
       map uminus scores ! (p (map uminus scores) (k - 1) ! i) \<le> map uminus scores ! (p (map uminus scores) (k - 1) ! j)"
    if "k < ?n"
    using assms that by (auto simp: partition_ok_def)
  show "distinct ?sel" using part(1) assms(4) by (auto simp: selection_def intro: distinct_take)
  show "set ?sel \<subseteq> {..<?n}" using part(2) assms(4) by (auto simp: selection_def dest: in_set_takeD)
  show "\<forall>i \<in> set ?sel. \<forall>j < ?n. j \<notin> set ?sel \<longrightarrow> scores ! j \<le> scores ! i"
  proof (cases "k = ?n")
    case False
    then have k: "k < ?n" using assms(4) by simp
    let ?q = "p (map uminus scores) (k - 1)"
    have lq: "length ?q = ?n" using part(1,2) [OF k] by (metis card_lessThan distinct_card)
    show ?thesis
    proof (intro ballI allI impI)
      fix i j assume i: "i \<in> set ?sel" and j: "j < ?n" "j \<notin> set ?sel"
      from i False obtain a where a: "a < k" "?q ! a = i"
        using k lq by (auto simp: selection_def in_set_conv_nth)
      have "j \<in> set ?q" using part(2) [OF k] j by simp
      then obtain b where b: "b < ?n" "?q ! b = j" using lq by (auto simp: in_set_conv_nth)
      have "\<not> b < k" using j(2) b False k lq by (auto simp: selection_def in_set_conv_nth)
      then have "map uminus scores ! i \<le> map uminus scores ! j"
        using part(3) [OF k, of a b] a b assms(3) by auto
      moreover have "i < ?n" using part(2) [OF k] a lq k by (metis lessThan_iff nth_mem order_less_trans)
      ultimately show "scores ! j \<le> scores ! i" using j(1) assms(2) by simp
    qed
  qed (auto simp: selection_def)
qed

lemma rank_loop_ok:
  assumes "partition_ok p" "length scores = length entries" "0 < k" "k \<le> length entries"
  shows "ranking_ok entries scores limit (rank_loop p entries scores limit k)"
  using assms
proof (induction p entries scores limit k rule: rank_loop.induct)
  case (1 p entries scores limit k)
  note spec = selection_spec [OF "1.prems"]
  let ?rs = "select_ranked p entries scores k"
  consider "k \<ge> length entries" | "k < length entries" "int (card (set (map (\<lambda>r. e_text (fst r)) ?rs))) \<ge> limit"
    | "k < length entries" "\<not> int (card (set (map (\<lambda>r. e_text (fst r)) ?rs))) \<ge> limit"
    by linarith
  then show ?case
  proof cases
    case 1
    then have "rank_loop p entries scores limit k = ?rs" by (subst rank_loop.simps) (simp add: Let_def)
    with 1 spec "1.prems"(4) show ?thesis
      unfolding ranking_ok_def select_ranked_selection by (intro exI [of _ "selection p entries scores k"]) simp
  next
    case 2
    then have "rank_loop p entries scores limit k = ?rs" using "1.prems"(3) by (subst rank_loop.simps) (simp add: Let_def)
    with 2 spec show ?thesis
      unfolding ranking_ok_def select_ranked_selection by (intro exI [of _ "selection p entries scores k"]) simp
  next
    case 3
    then have "rank_loop p entries scores limit k = rank_loop p entries scores limit (min (length entries) (k * 2))"
      using "1.prems"(3) by (subst rank_loop.simps) (simp add: Let_def)
    moreover have "ranking_ok entries scores limit (rank_loop p entries scores limit (min (length entries) (k * 2)))"
      using 3 "1.prems" by (intro "1.IH" [OF refl]) auto
    ultimately show ?thesis by simp
  qed
qed

lemma rank_model_group_ok:
  assumes "partition_ok p" "rank_model_group p entries ids logits limit = Inr rs" "length ids = length entries"
  shows "\<exists>scores. rmap (np_take logits) ids = Inr scores \<and> ranking_ok entries scores limit rs"
proof (cases "ids = []")
  case True
  with assms show ?thesis by (auto simp: rank_model_group_def ranking_ok_def)
next
  case False
  with assms(2) obtain scores where scores: "rmap (np_take logits) ids = Inr scores"
    and rs: "rs = rank_loop p entries scores limit (min (length entries) (nat (max (limit * 8) 64)))"
    by (auto simp: rank_model_group_def result_splits split: if_splits)
  have "length scores = length entries" using rmap_Inr_length [OF scores] assms(3) by simp
  moreover have "0 < length entries" using False assms(3) by (cases entries) auto
  ultimately have "ranking_ok entries scores limit rs" unfolding rs by (intro rank_loop_ok assms(1)) auto
  with scores show ?thesis by blast
qed

section \<open>Properties\<close>

text \<open>
  Claim C8. Ranking is de-duplicated concatenation: for a parsed query whose groups all rank, the
  result is the first \<open>limit\<close> candidates (at least one) of the rankings of the plan's groups in
  priority order, without those the text after the caret already starts with and without repeats of
  a text and its consumed keys; and each model group's ranking is by descending logit and omits only
  entries that score no better.
\<close>

theorem ranking_is_exact:
  assumes "plans_ok ix" "partition_ok p" "parse_raw_pinyin db raw_pinyin = Inr parsed" "pi_compact parsed \<noteq> []"
    and "query_plan ix parsed = Inr (plan, ix')"
    and "rmap (ranked_entries p logits limit) (plan_groups plan) = Inr ranks"
  shows "rank_candidates db p ix raw_pinyin logits ep limit after_text
       = Inr (take (max 1 (nat limit)) (dedup_by (\<lambda>c. (c_text c, c_consumed_keys c)) []
                (offered parsed (pi_compact parsed) ep after_text (concat ranks))), ix')
     \<and> sorted_wrt (<) (map g_priority (plan_groups plan))
     \<and> (\<forall>i < length (plan_groups plan). \<forall>ids. g_token_ids (plan_groups plan ! i) = Some ids \<longrightarrow>
          (\<exists>scores rs. rmap (np_take logits) ids = Inr scores \<and> ranks ! i = map (\<lambda>(e, s). (e, Some s)) rs
             \<and> ranking_ok (g_entries (plan_groups plan ! i)) scores limit rs))"
proof (intro conjI allI impI)
  show "rank_candidates db p ix raw_pinyin logits ep limit after_text
       = Inr (take (max 1 (nat limit)) (dedup_by (\<lambda>c. (c_text c, c_consumed_keys c)) []
                (offered parsed (pi_compact parsed) ep after_text (concat ranks))), ix')"
    using rank_groups_spec [OF assms(6), of "[]"] assms(3-5) by (simp add: rank_candidates_def)
  note part = query_plan_sound [OF assms(1) finite_parsed_boundaries [OF assms(3)] assms(5)]
  then show "sorted_wrt (<) (map g_priority (plan_groups plan))" using build_plan_groups by blast
  fix i ids
  assume i: "i < length (plan_groups plan)" and ids: "g_token_ids (plan_groups plan ! i) = Some ids"
  from rmap_Inr_nth [OF assms(6) i] ids obtain rs where
    rs: "rank_model_group p (g_entries (plan_groups plan ! i)) ids logits limit = Inr rs"
    and ranks: "ranks ! i = map (\<lambda>(e, s). (e, Some s)) rs"
    by (auto simp: ranked_entries_def result_splits)
  have "map Some ids = map e_token_id (g_entries (plan_groups plan ! i))"
    using build_plan_groups(3) [of "ix_root ix" parsed plan "plan_groups plan ! i"] part i ids nth_mem [OF i] by blast
  then have "length ids = length (g_entries (plan_groups plan ! i))" by (metis length_map)
  from rank_model_group_ok [OF assms(2) rs this] ranks
  show "\<exists>scores rs. rmap (np_take logits) ids = Inr scores \<and> ranks ! i = map (\<lambda>(e, s). (e, Some s)) rs
             \<and> ranking_ok (g_entries (plan_groups plan ! i)) scores limit rs" by blast
qed

definition sorting_partition :: partition where
  "sorting_partition keys k = sort_key (\<lambda>i. keys ! i) [0..<length keys]"

lemma sorting_partition_ok: "partition_ok sorting_partition"
proof -
  have "keys ! (sorting_partition keys k ! i) \<le> keys ! (sorting_partition keys k ! j)"
    if "i \<le> k" "k < j" "j < length keys" for keys i j k
    using sorted_wrt_nth_less [OF sorted_wrt_sort_key [of "\<lambda>i. keys ! i" "[0..<length keys]"], of i j] that
    by (simp add: sorting_partition_def)
  then show ?thesis by (auto simp: partition_ok_def) (auto simp: sorting_partition_def)
qed

definition demo_ranks :: "(entry \<times> real option) list list" where
  "demo_ranks = projr (rmap (ranked_entries sorting_partition [0, 0, 0, 0, 0, 0, 0, 3, 0, 5] 5) (plan_groups (fst demo_plan)))"

theorem ranking_is_exact_witness:
  "rank_candidates ascii_db sorting_partition demo_index [120, 105, 39, 97, 110] [0, 0, 0, 0, 0, 0, 0, 3, 0, 5] 1 5 []
     = Inr (take 5 (dedup_by (\<lambda>c. (c_text c, c_consumed_keys c)) []
         (offered demo_keys (pi_compact demo_keys) 1 [] (concat demo_ranks))), snd demo_plan)
   \<and> map c_text (offered demo_keys (pi_compact demo_keys) 1 [] (concat demo_ranks)) = [[35199, 23433]]"
proof -
  have "\<not> isl (query_plan demo_index demo_keys)" by code_simp
  then have plan: "query_plan demo_index demo_keys = Inr (fst demo_plan, snd demo_plan)"
    unfolding demo_plan_def by (auto simp: isl_def split: sum.splits)
  have "\<not> isl (rmap (ranked_entries sorting_partition [0, 0, 0, 0, 0, 0, 0, 3, 0, 5] 5) (plan_groups (fst demo_plan)))"
    by code_simp
  then have ranks: "rmap (ranked_entries sorting_partition [0, 0, 0, 0, 0, 0, 0, 3, 0, 5] 5) (plan_groups (fst demo_plan))
      = Inr demo_ranks"
    unfolding demo_ranks_def by (rule Inr_projr)
  have plans: "plans_ok demo_index" using load_index_spec [OF demo_index_load] by (auto simp: plans_ok_def)
  have ne: "pi_compact demo_keys \<noteq> []" by code_simp
  have "map c_text (offered demo_keys (pi_compact demo_keys) 1 [] (concat demo_ranks)) = [[35199, 23433]]" by code_simp
  with ranking_is_exact [OF plans sorting_partition_ok demo_keys_parse ne plan ranks, of 1 "[]"]
  show ?thesis by (simp del: dedup_by.simps)
qed

end
