(* ===== verification/Script_Policy.thy ===== *)
theory Script_Policy
  imports Pinyin
begin

text \<open>
  Scripts of text and the context policy of \<open>unified.py\<close>: \<open>is_han\<close>, \<open>detect_script\<close> and
  \<open>ContextScriptPolicy\<close>.  Context kinds and script values are the strings of the source; ratios are
  exact quotients.
\<close>

section \<open>Scripts\<close>

datatype script = HAN | LATIN | MIXED | OTHER

fun script_value :: "script \<Rightarrow> string" where
  "script_value HAN = ''han''"
| "script_value LATIN = ''latin''"
| "script_value MIXED = ''mixed''"
| "script_value OTHER = ''other''"

text \<open>The constructor call \<open>Script(value)\<close>.\<close>

definition script_of :: "string \<Rightarrow> script result" where
  "script_of v = (if v = ''han'' then Inr HAN else if v = ''latin'' then Inr LATIN
     else if v = ''mixed'' then Inr MIXED else if v = ''other'' then Inr OTHER
     else Inl (ValueError ''not a valid Script''))"

lemma script_of_value [simp]: "script_of (script_value s) = Inr s"
  by (cases s) (simp_all add: script_of_def)

lemma script_of_Inr: "script_of v = Inr s \<longleftrightarrow> v = script_value s"
  by (cases s) (auto simp: script_of_def)

definition is_han :: "nat \<Rightarrow> bool" where
  "is_han c \<longleftrightarrow> (0x3400 \<le> c \<and> c \<le> 0x4DBF) \<or> (0x4E00 \<le> c \<and> c \<le> 0x9FFF) \<or> (0x20000 \<le> c \<and> c \<le> 0x3134F)"

definition contains_han :: "pystr \<Rightarrow> bool" where
  "contains_han s = list_ex is_han s"

definition detect_script :: "pystr \<Rightarrow> script" where
  "detect_script s =
     (let han = contains_han s; latin = list_ex is_ascii_alpha s in
      if han \<and> latin then MIXED else if han then HAN else if latin then LATIN else OTHER)"

section \<open>The context policy\<close>

record policy =
  stable_script :: "script option"
  cross_script_penalty :: real
  ambiguous_script_penalty :: real

definition new_policy :: "real \<Rightarrow> real \<Rightarrow> policy result" where
  "new_policy cross ambiguous =
     (if cross > 0 \<or> ambiguous > 0 then Inl (ValueError ''script penalties must not be positive'')
      else Inr \<lparr>stable_script = None, cross_script_penalty = cross, ambiguous_script_penalty = ambiguous\<rparr>)"

definition default_policy :: policy where
  "default_policy = \<lparr>stable_script = None, cross_script_penalty = -15/100, ambiguous_script_penalty = -5/100\<rparr>"

definition char_kind :: "nat \<Rightarrow> string option" where
  "char_kind c = (if is_han c then Some ''chinese'' else if is_ascii_alpha c then Some ''english'' else None)"

text \<open>The loop over the reversed text, with the run it is in.\<close>

fun decisive_run :: "pystr \<Rightarrow> string option \<Rightarrow> nat \<Rightarrow> string option" where
  "decisive_run [] current len = (if len \<ge> 2 then current else None)"
| "decisive_run (c # cs) current len =
     (let kind = char_kind c in
      if kind = None then (if len \<ge> 2 then current else decisive_run cs None 0)
      else if kind = current then decisive_run cs current (len + 1)
      else if len \<ge> 2 then current
      else decisive_run cs kind 1)"

definition nearest_decisive_run :: "pystr \<Rightarrow> string option" where
  "nearest_decisive_run s = decisive_run (rev s) None 0"

definition classify :: "pystr \<Rightarrow> string" where
  "classify before =
     (let bounded = drop (length before - 128) before;
          han_count = length (filter is_han bounded);
          latin_count = length (filter is_ascii_alpha bounded);
          counted = han_count + latin_count;
          english = latin_count \<ge> 8 \<and> real latin_count / real (max 1 counted) \<ge> 70 / 100;
          chinese = han_count \<ge> 2 \<and> real han_count / real (max 1 counted) \<ge> 30 / 100
      in case (if english \<and> chinese then nearest_decisive_run bounded else None) of
           Some nearest \<Rightarrow> nearest
         | None \<Rightarrow> if english then ''english'' else if chinese then ''chinese'' else ''ambiguous'')"

definition allows :: "string \<Rightarrow> script \<Rightarrow> bool" where
  "allows context_kind s = True"

definition str_isupper :: "unicode_db \<Rightarrow> pystr \<Rightarrow> bool" where
  "str_isupper db s \<longleftrightarrow> list_ex (isupper db) s \<and> list_all (\<lambda>c. \<not> islower db c \<and> \<not> istitle db c) s"

definition explicit_latin_shape :: "unicode_db \<Rightarrow> pystr \<Rightarrow> bool" where
  "explicit_latin_shape db raw_keys \<longleftrightarrow>
     list_ex (isupper db) raw_keys
     \<or> list_ex (\<lambda>c. isdigit db c \<or> c \<in> set (asc [CHR ''.'', CHR 0x27, CHR ''-''])) raw_keys
     \<or> (length raw_keys \<ge> 2 \<and> str_isupper db raw_keys)"

definition language_prior :: "unicode_db \<Rightarrow> policy \<Rightarrow> string \<Rightarrow> script \<Rightarrow> pystr \<Rightarrow> real" where
  "language_prior db p context_kind s raw_keys =
     (if context_kind = ''english''
      then (if s \<in> {LATIN, OTHER} then 0 else cross_script_penalty p)
      else if context_kind = ''chinese''
      then (if s \<noteq> LATIN then 0 else if explicit_latin_shape db raw_keys then 0 else cross_script_penalty p)
      else let preferred = (case stable_script p of None \<Rightarrow> HAN | Some t \<Rightarrow> t) in
           if s \<in> {OTHER, MIXED} \<or> s = preferred then 0 else ambiguous_script_penalty p)"

definition record_commit :: "policy \<Rightarrow> pystr \<Rightarrow> policy" where
  "record_commit p s =
     (let t = detect_script s in if t \<in> {HAN, LATIN} then p\<lparr>stable_script := Some t\<rparr> else p)"

section \<open>What the policy decides\<close>

lemma han_not_ascii: "is_han c \<Longrightarrow> \<not> is_ascii_alpha c"
  by (auto simp: is_han_def is_ascii_alpha_def)

text \<open>Two neighbouring letters of the same writing system.\<close>

definition like_pair :: "nat \<Rightarrow> nat \<Rightarrow> bool" where
  "like_pair a b \<longleftrightarrow> char_kind a \<noteq> None \<and> char_kind a = char_kind b"

definition has_pair :: "pystr \<Rightarrow> bool" where
  "has_pair s \<longleftrightarrow> (\<exists>us a b vs. s = us @ a # b # vs \<and> like_pair a b)"

fun first_pair :: "pystr \<Rightarrow> string option" where
  "first_pair (a # b # cs) = (if like_pair a b then char_kind a else first_pair (b # cs))"
| "first_pair _ = None"

lemma run_decided: "len \<ge> 2 \<Longrightarrow> decisive_run cs (Some k) len = Some k"
  by (induction cs "Some k" len rule: decisive_run.induct) (auto simp: Let_def)

lemma run_first_pair:
  "decisive_run cs None 0 = first_pair cs \<and> (\<forall>c. char_kind c \<noteq> None \<longrightarrow> decisive_run cs (char_kind c) 1 = first_pair (c # cs))"
proof (induction cs)
  case (Cons x xs)
  have "decisive_run (x # xs) None 0 = first_pair (x # xs)"
  proof (cases "char_kind x")
    case None
    have "first_pair (x # xs) = first_pair xs" using None by (cases xs) (auto simp: like_pair_def)
    with None Cons show ?thesis by (simp add: Let_def)
  next
    case (Some k)
    with Cons show ?thesis by (auto simp: Let_def)
  qed
  moreover have "decisive_run (x # xs) (char_kind c) 1 = first_pair (c # x # xs)" if "char_kind c \<noteq> None" for c
  proof (cases "char_kind x")
    case None
    have "first_pair (x # xs) = first_pair xs" using None by (cases xs) (auto simp: like_pair_def)
    with None Cons that show ?thesis by (auto simp: Let_def like_pair_def)
  next
    case (Some k)
    show ?thesis
    proof (cases "char_kind c = Some k")
      case True
      then show ?thesis using Some by (simp add: Let_def like_pair_def run_decided)
    next
      case False
      have "decisive_run xs (char_kind x) 1 = first_pair (x # xs)" using Cons Some by blast
      then show ?thesis using False Some that by (auto simp: Let_def like_pair_def)
    qed
  qed
  ultimately show ?case by blast
qed (auto split: option.splits)

lemma first_pair_None: "first_pair s = None \<longleftrightarrow> \<not> has_pair s"
proof (induction s rule: first_pair.induct)
  case (1 a b cs)
  have "has_pair (a # b # cs) \<longleftrightarrow> like_pair a b \<or> has_pair (b # cs)"
    unfolding has_pair_def by (auto simp: Cons_eq_append_conv) (metis append_Cons append_Nil)+
  with 1 show ?case by (auto simp: like_pair_def)
qed (auto simp: has_pair_def)

lemma first_pair_Some:
  "first_pair s = Some k \<Longrightarrow> \<exists>us a b vs. s = us @ a # b # vs \<and> like_pair a b \<and> char_kind a = Some k \<and> \<not> has_pair (us @ [a])"
proof (induction s rule: first_pair.induct)
  case (1 a b cs)
  show ?case
  proof (cases "like_pair a b")
    case True
    with 1(2) show ?thesis by (intro exI [of _ "[]"] exI [of _ a] exI [of _ b] exI [of _ cs]) (auto simp: has_pair_def)
  next
    case False
    then obtain us x y vs where u: "b # cs = us @ x # y # vs" "like_pair x y" "char_kind x = Some k" "\<not> has_pair (us @ [x])"
      using 1 by auto
    have "\<not> has_pair (a # us @ [x])"
    proof
      assume "has_pair (a # us @ [x])"
      then obtain ps c d qs where "a # us @ [x] = ps @ c # d # qs" "like_pair c d" unfolding has_pair_def by blast
      moreover from this have "ps \<noteq> []" using False u(1) by (cases us) (auto simp: hd_append split: if_splits)
      ultimately have "us @ [x] = tl ps @ c # d # qs" by (cases ps) auto
      with \<open>like_pair c d\<close> u(4) show False unfolding has_pair_def by blast
    qed
    with u show ?thesis by (intro exI [of _ "a # us"] exI [of _ x] exI [of _ y] exI [of _ vs]) auto
  qed
qed auto

lemma has_pair_rev: "has_pair (rev s) \<longleftrightarrow> has_pair s"
proof -
  have "has_pair s \<Longrightarrow> has_pair (rev s)" for s
    unfolding has_pair_def like_pair_def by (metis append.assoc append_Cons append_Nil rev.simps(2) rev_append)
  from this [of s] this [of "rev s"] show ?thesis by auto
qed

text \<open>
  When a context is both English and Chinese enough, the tie is broken by the last two
  neighbouring letters of one writing system: the kind returned is theirs, no like pair follows
  them, and there is no answer only when the text has no such pair.
\<close>

theorem nearest_run_is_last_pair:
  "(case nearest_decisive_run s of
      None \<Rightarrow> \<not> has_pair s
    | Some k \<Rightarrow> \<exists>us a b vs. s = us @ a # b # vs \<and> char_kind a = Some k \<and> char_kind b = Some k \<and> \<not> has_pair (b # vs))"
proof (cases "nearest_decisive_run s")
  case None
  then show ?thesis using run_first_pair [of "rev s"] first_pair_None [of "rev s"]
    by (simp add: nearest_decisive_run_def has_pair_rev)
next
  case (Some k)
  then have "first_pair (rev s) = Some k" using run_first_pair [of "rev s"] by (simp add: nearest_decisive_run_def)
  then obtain us b a vs where r: "rev s = us @ b # a # vs" "like_pair b a" "char_kind b = Some k" "\<not> has_pair (us @ [b])"
    using first_pair_Some by blast
  then have "s = rev vs @ a # b # rev us" by (metis append.assoc append_Cons append_Nil rev.simps(2) rev_append rev_rev_ident)
  moreover have "\<not> has_pair (b # rev us)" using r(4) has_pair_rev [of "us @ [b]"] by simp
  ultimately have "\<exists>us a b vs. s = us @ a # b # vs \<and> char_kind a = Some k \<and> char_kind b = Some k \<and> \<not> has_pair (b # vs)"
    using r(2,3) by (intro exI [of _ "rev vs"] exI [of _ a] exI [of _ b] exI [of _ "rev us"]) (auto simp: like_pair_def)
  then show ?thesis using Some by simp
qed

end
