(* ===== verification/Query_Variants.thy ===== *)
theory Query_Variants
  imports Pinyin
begin

text \<open>
  Fuzzy pinyin of \<open>unified.py\<close>: the alias table built from the syllables of the index and the bounded
  search that respells the typed letters as canonical syllables.  The search loop runs on an explicit
  stack that it sorts and cuts when it grows; it is a partial function, and returning at all is a
  theorem.
\<close>

section \<open>The alias table\<close>

definition PINYIN_INITIALS :: "pystr list" where
  "PINYIN_INITIALS = map asc [''zh'', ''ch'', ''sh'', ''b'', ''p'', ''m'', ''f'', ''d'', ''t'', ''n'', ''l'', ''g'',
     ''k'', ''h'', ''j'', ''q'', ''x'', ''r'', ''z'', ''c'', ''s'', ''y'', ''w'']"

definition FUZZY_INITIALS :: "(pystr \<times> pystr) list" where
  "FUZZY_INITIALS = map (\<lambda>(a, b). (asc a, asc b))
     [(''zh'', ''z''), (''ch'', ''c''), (''sh'', ''s''), (''n'', ''l''), (''f'', ''h'')]"

definition FUZZY_FINALS :: "(pystr \<times> pystr) list" where
  "FUZZY_FINALS = map (\<lambda>(a, b). (asc a, asc b)) [(''an'', ''ang''), (''en'', ''eng''), (''in'', ''ing'')]"

fun first_initial :: "pystr list \<Rightarrow> pystr \<Rightarrow> pystr \<times> pystr" where
  "first_initial [] syllable = ([], syllable)"
| "first_initial (i # is) syllable =
     (if prefix i syllable then (i, drop (length i) syllable) else first_initial is syllable)"

definition split_initial :: "pystr \<Rightarrow> pystr \<times> pystr" where
  "split_initial syllable = first_initial PINYIN_INITIALS syllable"

definition fuzzy_alternatives :: "pystr \<Rightarrow> (pystr \<times> pystr) list \<Rightarrow> (pystr \<times> nat) list" where
  "fuzzy_alternatives value pairs = (value, 0) # concat (map (\<lambda>(left, right).
     if value = left then [(right, 1)] else if value = right then [(left, 1)] else []) pairs)"

type_synonym alias_table = "(pystr, (pystr, nat) odict) odict"

definition add_alias :: "pystr \<Rightarrow> pystr \<Rightarrow> nat \<Rightarrow> alias_table \<Rightarrow> alias_table" where
  "add_alias canonical alias cost aliases =
     od_set alias (best_put (<) canonical cost (case map_of aliases alias of None \<Rightarrow> [] | Some d \<Rightarrow> d)) aliases"

definition add_syllable :: "pystr \<Rightarrow> alias_table \<Rightarrow> alias_table" where
  "add_syllable canonical aliases =
     (let (initial, final) = split_initial canonical in
      fold (\<lambda>(alias_initial, initial_cost).
        fold (\<lambda>(alias_final, final_cost).
          add_alias canonical (alias_initial @ alias_final) (initial_cost + final_cost))
        (fuzzy_alternatives final FUZZY_FINALS))
      (fuzzy_alternatives initial FUZZY_INITIALS) aliases)"

definition build_fuzzy_aliases :: "pystr list \<Rightarrow> (pystr, (pystr \<times> nat) list) odict" where
  "build_fuzzy_aliases syllables =
     map (\<lambda>(alias, values). (alias, sort_key (\<lambda>(s, c). (c, s)) values)) (fold add_syllable syllables [])"

section \<open>The bounded search\<close>

type_synonym respelling = "nat \<times> pystr \<times> nat"

definition extensions :: "(pystr, (pystr \<times> nat) list) odict \<Rightarrow> pystr \<Rightarrow> respelling \<Rightarrow> respelling list" where
  "extensions aliases raw = (\<lambda>(position, canonical, cost).
     concat (map (\<lambda>(alias, values).
       if prefix alias (drop position raw)
       then map (\<lambda>(syllable, c). (position + length alias, canonical @ syllable, cost + c)) values
       else []) aliases))"

definition cut_frontier :: "nat \<Rightarrow> respelling list \<Rightarrow> respelling list" where
  "cut_frontier limit frontier =
     (if length frontier > limit * 8
      then take (limit * 8) (sort_key (\<lambda>(position, canonical, cost). (cost, - int position, canonical)) frontier)
      else frontier)"

partial_function (option) variants_loop ::
  "(pystr, (pystr \<times> nat) list) odict \<Rightarrow> nat \<Rightarrow> pystr \<Rightarrow> respelling list \<Rightarrow> (pystr, nat) odict
     \<Rightarrow> (pystr, nat) odict option" where
  "variants_loop aliases limit raw frontier variants =
     (if frontier = [] then Some variants
      else if fst (last frontier) = length raw
      then variants_loop aliases limit raw (butlast frontier)
             (best_put (<) (fst (snd (last frontier))) (snd (snd (last frontier))) variants)
      else variants_loop aliases limit raw
             (cut_frontier limit (butlast frontier @ extensions aliases raw (last frontier))) variants)"

declare variants_loop.simps [code]

definition sorted_variants :: "nat \<Rightarrow> (pystr, nat) odict \<Rightarrow> (pystr \<times> nat) list" where
  "sorted_variants limit variants = take limit (sort_key (\<lambda>(v, c). (c, v)) variants)"

definition pinyin_query_variants ::
  "unicode_db \<Rightarrow> parsed_input \<Rightarrow> (pystr, (pystr \<times> nat) list) odict \<Rightarrow> nat
     \<Rightarrow> (parsed_input \<times> nat) list result option" where
  "pinyin_query_variants db parsed aliases limit =
     (case variants_loop aliases limit (pi_compact parsed) [(0, [], 0)] [(pi_raw parsed, 0)] of
        None \<Rightarrow> None
      | Some variants \<Rightarrow> Some (rmap (\<lambda>(v, c). rbind (parse_raw_pinyin db v) (\<lambda>p. Inr (p, c)))
                                 (sorted_variants limit variants)))"

section \<open>What the table relates\<close>

definition fuzzy_spelling :: "pystr \<Rightarrow> pystr \<Rightarrow> nat \<Rightarrow> bool" where
  "fuzzy_spelling alias syllable cost \<longleftrightarrow> (\<exists>i ci f cf.
     (i, ci) \<in> set (fuzzy_alternatives (fst (split_initial syllable)) FUZZY_INITIALS)
     \<and> (f, cf) \<in> set (fuzzy_alternatives (snd (split_initial syllable)) FUZZY_FINALS)
     \<and> alias = i @ f \<and> cost = ci + cf)"

lemma first_initial_append: "fst (first_initial is s) @ snd (first_initial is s) = s"
  by (induction "is" s rule: first_initial.induct) (auto simp: prefix_def)

lemma split_initial_append: "fst (split_initial s) @ snd (split_initial s) = s"
  by (simp add: split_initial_def first_initial_append)

lemma alternatives_zero: "(a, 0) \<in> set (fuzzy_alternatives v pairs) \<Longrightarrow> a = v"
  by (auto simp: fuzzy_alternatives_def split: if_splits)

lemma alternatives_nonempty:
  "([], c) \<in> set (fuzzy_alternatives v pairs) \<Longrightarrow> \<forall>(l, r) \<in> set pairs. l \<noteq> [] \<and> r \<noteq> [] \<Longrightarrow> v = []"
  by (auto simp: fuzzy_alternatives_def split: if_splits)

lemma fuzzy_pairs_nonempty:
  "\<forall>(l, r) \<in> set FUZZY_INITIALS. l \<noteq> [] \<and> r \<noteq> []" "\<forall>(l, r) \<in> set FUZZY_FINALS. l \<noteq> [] \<and> r \<noteq> []"
  by (simp_all add: FUZZY_INITIALS_def FUZZY_FINALS_def)

lemma fuzzy_spelling_zero: "fuzzy_spelling alias syllable 0 \<Longrightarrow> alias = syllable"
  unfolding fuzzy_spelling_def using alternatives_zero split_initial_append by (metis add_is_0)

lemma fuzzy_spelling_nonempty: "fuzzy_spelling [] syllable cost \<Longrightarrow> syllable = []"
  unfolding fuzzy_spelling_def
  using alternatives_nonempty [OF _ fuzzy_pairs_nonempty(1)] alternatives_nonempty [OF _ fuzzy_pairs_nonempty(2)]
    split_initial_append by (metis append_is_Nil_conv)

definition table_sound :: "pystr list \<Rightarrow> alias_table \<Rightarrow> bool" where
  "table_sound syllables aliases \<longleftrightarrow> (\<forall>(alias, values) \<in> set aliases. values \<noteq> [] \<and> (\<forall>(s, c) \<in> set values.
     s \<in> set syllables \<and> fuzzy_spelling alias s c))"

lemma best_put_nonempty: "best_put better k v d \<noteq> []"
  by (metis image_empty insert_not_empty keys_best_put list.set(1))

lemma sort_key_eq_Nil: "sort_key f xs = [] \<longleftrightarrow> xs = []"
  by (metis length_0_conv length_sort)

lemma table_sound_add:
  assumes "table_sound S aliases" "s \<in> set S" "fuzzy_spelling alias s c"
  shows "table_sound S (add_alias s alias c aliases)"
proof -
  let ?old = "case map_of aliases alias of None \<Rightarrow> [] | Some d \<Rightarrow> d"
  have "\<forall>(t, k) \<in> set ?old. t \<in> set S \<and> fuzzy_spelling alias t k"
  proof (cases "map_of aliases alias")
    case (Some d)
    have "\<forall>(t, k) \<in> set d. t \<in> set S \<and> fuzzy_spelling alias t k"
      using assms(1) map_of_SomeD [OF Some] unfolding table_sound_def by fastforce
    with Some show ?thesis by simp
  qed simp
  then have new: "\<forall>(t, k) \<in> set (best_put (<) s c ?old). t \<in> set S \<and> fuzzy_spelling alias t k"
    using set_best_put [of "(<)" s c ?old] assms(2,3) by blast
  show ?thesis
    unfolding table_sound_def add_alias_def
  proof (intro ballI)
    fix x
    assume "x \<in> set (od_set alias (best_put (<) s c ?old) aliases)"
    then have "x = (alias, best_put (<) s c ?old) \<or> x \<in> set aliases" using set_od_set_subset by fast
    then show "case x of (alias, values) \<Rightarrow> values \<noteq> [] \<and> (\<forall>(s, c) \<in> set values. s \<in> set S \<and> fuzzy_spelling alias s c)"
      using new best_put_nonempty [of "(<)" s c ?old] assms(1) unfolding table_sound_def by (elim disjE) (simp, blast)
  qed
qed

lemma table_sound_fold:
  assumes "\<And>x t. x \<in> set xs \<Longrightarrow> table_sound S t \<Longrightarrow> table_sound S (f x t)" "table_sound S t"
  shows "table_sound S (fold f xs t)"
  using assms by (induction xs arbitrary: t) auto

lemma table_sound_syllable:
  assumes "table_sound S aliases" "s \<in> set S"
  shows "table_sound S (add_syllable s aliases)"
proof -
  obtain i f where sp: "split_initial s = (i, f)" by (cases "split_initial s")
  have one: "table_sound S (add_alias s (a @ b) (x + y) t)"
    if "(a, x) \<in> set (fuzzy_alternatives i FUZZY_INITIALS)" "(b, y) \<in> set (fuzzy_alternatives f FUZZY_FINALS)"
      "table_sound S t" for a b x y t
  proof -
    have "fuzzy_spelling (a @ b) s (x + y)" using that unfolding fuzzy_spelling_def sp by auto
    then show ?thesis using table_sound_add that(3) assms(2) by blast
  qed
  show ?thesis
    unfolding add_syllable_def sp Let_def prod.case
    by (intro table_sound_fold assms(1)) (auto intro!: table_sound_fold one)
qed

lemma table_sound_syllables: "set ss \<subseteq> set S \<Longrightarrow> table_sound S (fold add_syllable ss [])"
proof (rule table_sound_fold)
  show "table_sound S []" by (simp add: table_sound_def)
qed (auto intro: table_sound_syllable)

lemma aliases_sound:
  assumes "(alias, values) \<in> set (build_fuzzy_aliases S)" "(s, c) \<in> set values"
  shows "s \<in> set S \<and> fuzzy_spelling alias s c"
proof -
  obtain vs where "(alias, vs) \<in> set (fold add_syllable S [])" "values = sort_key (\<lambda>(s, c). (c, s)) vs"
    using assms(1) by (auto simp: build_fuzzy_aliases_def)
  then show ?thesis using table_sound_syllables [of S S] assms(2) by (fastforce simp: table_sound_def)
qed


section \<open>The search returns\<close>

definition branching :: "(pystr, (pystr \<times> nat) list) odict \<Rightarrow> nat" where
  "branching aliases = sum_list (map (\<lambda>a. length (snd a)) aliases)"

definition respelling_weight :: "nat \<Rightarrow> pystr \<Rightarrow> respelling \<Rightarrow> nat" where
  "respelling_weight K raw r = Suc K ^ (length raw - fst r)"

abbreviation frontier_weight :: "nat \<Rightarrow> pystr \<Rightarrow> respelling list \<Rightarrow> nat" where
  "frontier_weight K raw fr \<equiv> sum_list (map (respelling_weight K raw) fr)"

lemma extensions_length: "length (extensions aliases raw r) \<le> branching aliases"
  by (induction aliases) (auto simp: extensions_def branching_def split: prod.splits)

lemma extensions_advance:
  assumes "x \<in> set (extensions aliases raw r)" "[] \<notin> set (od_keys aliases)" "fst r \<le> length raw"
  shows "fst r < fst x \<and> fst x \<le> length raw"
proof -
  obtain pos can cost where r: "r = (pos, can, cost)" by (cases r)
  with assms(1) obtain al vals where a: "(al, vals) \<in> set aliases" "prefix al (drop pos raw)" "fst x = pos + length al"
    by (auto simp: extensions_def split: if_splits)
  then have "al \<noteq> []" using assms(2) by force
  moreover have "length al \<le> length raw - pos" using prefix_length_le [OF a(2)] by simp
  ultimately show ?thesis using a(3) assms(3) by (auto simp: r)
qed

lemma sum_list_bounded: "\<forall>x \<in> set xs. f x \<le> (c :: nat) \<Longrightarrow> sum_list (map f xs) \<le> length xs * c"
  by (induction xs) (auto intro: add_mono)

lemma sum_list_take: "sum_list (map f (take n xs)) \<le> (sum_list (map f xs) :: nat)"
proof (induction xs arbitrary: n)
  case (Cons x xs)
  then show ?case by (cases n) auto
qed simp

lemma extensions_weight:
  assumes "[] \<notin> set (od_keys aliases)" "fst r < length raw"
  shows "frontier_weight (branching aliases) raw (extensions aliases raw r) < respelling_weight (branching aliases) raw r"
proof -
  let ?K = "branching aliases" and ?d = "length raw - fst r - 1"
  have "respelling_weight ?K raw x \<le> Suc ?K ^ ?d" if "x \<in> set (extensions aliases raw r)" for x
    using extensions_advance [OF that assms(1)] assms(2) by (auto simp: respelling_weight_def intro!: power_increasing)
  then have "frontier_weight ?K raw (extensions aliases raw r) \<le> length (extensions aliases raw r) * Suc ?K ^ ?d"
    by (intro sum_list_bounded ballI)
  also have "\<dots> \<le> ?K * Suc ?K ^ ?d" using extensions_length by simp
  also have "\<dots> < Suc ?K * Suc ?K ^ ?d" by simp
  also have "\<dots> = respelling_weight ?K raw r"
    using assms(2) by (simp add: respelling_weight_def Suc_diff_Suc flip: power_Suc)
  finally show ?thesis .
qed

lemma cut_frontier_weight: "frontier_weight K raw (cut_frontier limit fr) \<le> frontier_weight K raw fr"
proof -
  let ?s = "sort_key (\<lambda>(position, canonical, cost). (cost, - int position, canonical)) fr"
  have "frontier_weight K raw (take n ?s) \<le> frontier_weight K raw ?s" for n
    by (rule sum_list_take)
  moreover have "frontier_weight K raw ?s = frontier_weight K raw fr"
    by (simp flip: sum_mset_sum_list)
  ultimately show ?thesis by (simp add: cut_frontier_def)
qed

lemma cut_frontier_set: "set (cut_frontier limit fr) \<subseteq> set fr"
  by (auto simp: cut_frontier_def dest: in_set_takeD)

text \<open>A frontier entry spells its prefix of the typed letters out of alias and syllable pairs.\<close>

inductive respells :: "(pystr, (pystr \<times> nat) list) odict \<Rightarrow> pystr \<Rightarrow> respelling \<Rightarrow> bool" for aliases raw where
  respells_start: "respells aliases raw (0, [], 0)"
| respells_step: "respells aliases raw r \<Longrightarrow> fst r < length raw \<Longrightarrow> x \<in> set (extensions aliases raw r)
    \<Longrightarrow> respells aliases raw x"

definition variants_sound ::
  "(pystr, (pystr \<times> nat) list) odict \<Rightarrow> pystr \<Rightarrow> pystr \<Rightarrow> (pystr, nat) odict \<Rightarrow> bool" where
  "variants_sound aliases raw typed variants \<longleftrightarrow> od_ok variants
     \<and> (\<forall>v c. map_of variants v = Some c \<longrightarrow> (v = typed \<and> c = 0) \<or> respells aliases raw (length raw, v, c))
     \<and> map_of variants typed = Some 0"

lemma variants_loop_spec:
  assumes "[] \<notin> set (od_keys aliases)" "\<forall>r \<in> set frontier. fst r \<le> length raw \<and> respells aliases raw r"
    and "variants_sound aliases raw typed variants"
  shows "\<exists>final. variants_loop aliases limit raw frontier variants = Some final \<and> variants_sound aliases raw typed final"
  using assms(2,3)
proof (induction "frontier_weight (branching aliases) raw frontier" arbitrary: frontier variants rule: less_induct)
  case less
  show ?case
  proof (cases "frontier = []")
    case False
    let ?top = "last frontier" and ?rest = "butlast frontier"
    have fr: "frontier = ?rest @ [?top]" using False by simp
    have top: "fst ?top \<le> length raw" "respells aliases raw ?top" using less.prems(1) False by auto
    have rest: "\<forall>r \<in> set ?rest. fst r \<le> length raw \<and> respells aliases raw r"
      using less.prems(1) by (auto dest: in_set_butlastD)
    let ?K = "branching aliases"
    have weight: "frontier_weight ?K raw frontier = frontier_weight ?K raw ?rest + respelling_weight ?K raw ?top"
      by (subst fr) simp
    show ?thesis
    proof (cases "fst ?top = length raw")
      case True
      let ?new = "best_put (<) (fst (snd ?top)) (snd (snd ?top)) variants"
      have "?top = (length raw, fst (snd ?top), snd (snd ?top))" using True by (metis prod.collapse)
      then have "variants_sound aliases raw typed ?new"
        using less.prems(2) top(2) unfolding variants_sound_def
        by (auto simp: map_of_best_put split: if_splits option.splits)
      moreover have "frontier_weight ?K raw ?rest < frontier_weight ?K raw frontier"
        by (simp add: weight respelling_weight_def)
      ultimately show ?thesis
        using less.hyps [OF _ rest] False True by (subst variants_loop.simps) simp
    next
      case inner: False
      then have lt: "fst ?top < length raw" using top(1) by simp
      let ?ext = "extensions aliases raw ?top"
      let ?next = "cut_frontier limit (?rest @ ?ext)"
      have "frontier_weight ?K raw ?next < frontier_weight ?K raw frontier"
        using cut_frontier_weight [of ?K raw limit "?rest @ ?ext"] extensions_weight [OF assms(1) lt]
        by (simp add: weight)
      moreover have "\<forall>r \<in> set ?next. fst r \<le> length raw \<and> respells aliases raw r"
        using cut_frontier_set [of limit "?rest @ ?ext"] rest extensions_advance [OF _ assms(1) top(1)]
          respells_step [OF top(2) lt] by (auto dest!: subsetD)
      ultimately show ?thesis
        using less.hyps [OF _ _ less.prems(2)] False inner by (subst variants_loop.simps) simp
    qed
  qed (use less.prems in \<open>simp add: variants_loop.simps\<close>)
qed


section \<open>What a variant is\<close>

lemma extensions_split:
  assumes "x \<in> set (extensions aliases raw r)"
  shows "\<exists>alias values s c. (alias, values) \<in> set aliases \<and> (s, c) \<in> set values \<and> prefix alias (drop (fst r) raw)
     \<and> x = (fst r + length alias, fst (snd r) @ s, snd (snd r) + c)"
proof -
  obtain pos can cost where "r = (pos, can, cost)" by (cases r)
  with assms show ?thesis by (auto simp: extensions_def split: if_splits)
qed

lemma respells_parts:
  assumes "respells (build_fuzzy_aliases S) raw r"
  shows "fst r \<le> length raw \<and> (\<exists>parts. concat (map fst parts) = take (fst r) raw
     \<and> concat (map (\<lambda>p. fst (snd p)) parts) = fst (snd r) \<and> sum_list (map (\<lambda>p. snd (snd p)) parts) = snd (snd r)
     \<and> (\<forall>(alias, s, c) \<in> set parts. s \<in> set S \<and> fuzzy_spelling alias s c))"
  using assms
proof (induction rule: respells.induct)
  case respells_start
  then show ?case by (auto intro: exI [of _ "[]"])
next
  case (respells_step r x)
  obtain al vals s c where x: "(al, vals) \<in> set (build_fuzzy_aliases S)" "(s, c) \<in> set vals"
      "prefix al (drop (fst r) raw)" "x = (fst r + length al, fst (snd r) @ s, snd (snd r) + c)"
    using extensions_split [OF respells_step(3)] by blast
  obtain parts where p: "concat (map fst parts) = take (fst r) raw"
      "concat (map (\<lambda>p. fst (snd p)) parts) = fst (snd r)" "sum_list (map (\<lambda>p. snd (snd p)) parts) = snd (snd r)"
      "\<forall>(alias, s, c) \<in> set parts. s \<in> set S \<and> fuzzy_spelling alias s c"
    using respells_step(4) by blast
  have "take (fst x) raw = take (fst r) raw @ al" using x(3) by (auto simp: x(4) prefix_def take_add)
  moreover have "fst x \<le> length raw" using prefix_length_le [OF x(3)] respells_step(2) by (simp add: x(4))
  ultimately show ?case using p aliases_sound [OF x(1,2)]
    by (intro conjI exI [of _ "parts @ [(al, s, c)]"]) (auto simp: x(4))
qed

definition respelled :: "pystr list \<Rightarrow> pystr \<Rightarrow> pystr \<Rightarrow> nat \<Rightarrow> bool" where
  "respelled S raw v cost \<longleftrightarrow> (\<exists>parts. concat (map fst parts) = raw \<and> concat (map (\<lambda>p. fst (snd p)) parts) = v
     \<and> sum_list (map (\<lambda>p. snd (snd p)) parts) = cost
     \<and> (\<forall>(alias, s, c) \<in> set parts. s \<in> set S \<and> fuzzy_spelling alias s c))"

lemma respelled_zero: "respelled S raw v 0 \<Longrightarrow> v = raw"
proof -
  assume "respelled S raw v 0"
  then obtain parts where p: "concat (map fst parts) = raw" "concat (map (\<lambda>p. fst (snd p)) parts) = v"
      "sum_list (map (\<lambda>p. snd (snd p)) parts) = 0" "\<forall>(alias, s, c) \<in> set parts. s \<in> set S \<and> fuzzy_spelling alias s c"
    unfolding respelled_def by blast
  have "fst q = fst (snd q)" if "q \<in> set parts" for q
  proof -
    have "snd (snd q) = 0" using that p(3) by (auto simp: sum_list_eq_0_iff)
    moreover have "fuzzy_spelling (fst q) (fst (snd q)) (snd (snd q))" using that p(4) by (cases q) auto
    ultimately show ?thesis using fuzzy_spelling_zero by metis
  qed
  then have "map fst parts = map (\<lambda>p. fst (snd p)) parts" by simp
  with p(1,2) show ?thesis by simp
qed

lemma aliases_nonempty:
  assumes "[] \<notin> set S"
  shows "[] \<notin> set (od_keys (build_fuzzy_aliases S))"
proof
  assume "[] \<in> set (od_keys (build_fuzzy_aliases S))"
  then obtain vals where v: "([], vals) \<in> set (build_fuzzy_aliases S)" by auto
  then have "vals \<noteq> []"
    using table_sound_syllables [of S S] unfolding build_fuzzy_aliases_def table_sound_def
    by (auto simp: sort_key_eq_Nil)
  then obtain s c where "(s, c) \<in> set vals" by (cases vals) auto
  with aliases_sound [OF v] assms fuzzy_spelling_nonempty show False by metis
qed


lemma variants_found:
  assumes "[] \<notin> set S"
  shows "\<exists>final. variants_loop (build_fuzzy_aliases S) limit raw [(0, [], 0)] [(typed, 0)] = Some final
     \<and> variants_sound (build_fuzzy_aliases S) raw typed final"
proof -
  have "variants_sound (build_fuzzy_aliases S) raw typed [(typed, 0)]" by (simp add: variants_sound_def od_ok_def)
  then show ?thesis
    by (intro variants_loop_spec [OF aliases_nonempty [OF assms]]) (auto intro: respells_start)
qed

lemma sorted_variants_member:
  fixes f :: "'a \<Rightarrow> 'o::linorder"
  assumes "distinct xs" "sorted_wrt (\<lambda>x y. f x \<le> f y) xs" "x \<in> set xs" "card {y \<in> set xs. f y \<le> f x} \<le> n"
  shows "x \<in> set (take n xs)"
proof (rule ccontr)
  assume x: "x \<notin> set (take n xs)"
  then have "x \<in> set (drop n xs)" using assms(3) by (metis Un_iff append_take_drop_id set_append)
  then have "\<forall>y \<in> set (take n xs). f y \<le> f x"
    using assms(2) by (metis append_take_drop_id sorted_wrt_append)
  moreover have "length xs > n" using \<open>x \<in> set (drop n xs)\<close> by (metis drop_all emptyE empty_set leI)
  ultimately have "insert x (set (take n xs)) \<subseteq> {y \<in> set xs. f y \<le> f x}" using assms(3) by (auto dest: in_set_takeD)
  then have "card (insert x (set (take n xs))) \<le> card {y \<in> set xs. f y \<le> f x}" by (rule card_mono [rotated]) simp
  moreover have "card (insert x (set (take n xs))) = Suc n"
    using x assms(1) \<open>length xs > n\<close> by (simp add: distinct_card)
  ultimately show False using assms(4) by simp
qed

lemma typed_variant_kept:
  assumes "variants_sound (build_fuzzy_aliases S) raw typed variants" "2 \<le> limit"
  shows "(typed, 0) \<in> set (sorted_variants limit variants)"
proof -
  let ?f = "\<lambda>(v, c). (c, v :: pystr)" and ?xs = "sort_key (\<lambda>(v, c). (c, v)) variants"
  have ok: "od_ok variants" using assms(1) by (simp add: variants_sound_def)
  have zero: "v = typed \<or> v = raw" if "(v, 0) \<in> set variants" for v
  proof -
    have "map_of variants v = Some 0" using ok that by (simp add: od_ok_def map_of_is_SomeI)
    then have "v = typed \<or> respells (build_fuzzy_aliases S) raw (length raw, v, 0)"
      using assms(1) by (auto simp: variants_sound_def)
    then show ?thesis
      using respells_parts [of S raw "(length raw, v, 0)"] respelled_zero [of S raw v] by (auto simp: respelled_def)
  qed
  have "{y \<in> set ?xs. ?f y \<le> ?f (typed, 0)} \<subseteq> {(typed, 0), (raw, 0)}"
    using zero by (auto dest: zero)
  then have "card {y \<in> set ?xs. ?f y \<le> ?f (typed, 0)} \<le> card {(typed, 0 :: nat), (raw, 0)}" by (rule card_mono [rotated]) simp
  also have "\<dots> \<le> 2" by (simp add: card_insert_if)
  finally have "card {y \<in> set ?xs. ?f y \<le> ?f (typed, 0)} \<le> limit" using assms(2) by simp
  moreover have "(typed, 0) \<in> set ?xs" using assms(1) by (auto simp: variants_sound_def dest: map_of_SomeD)
  moreover have "distinct ?xs" using ok by (simp add: od_ok_def distinct_map)
  ultimately show ?thesis
    unfolding sorted_variants_def by (intro sorted_variants_member [where f = ?f] sorted_wrt_sort_key)
qed

text \<open>
  Claim C37. The respelling search always returns, even though it cuts its stack: with no empty
  syllable in the index every run ends, and it ends with at most \<open>limit\<close> queries ordered by
  cost, the typed spelling itself among them.  Every other query is a concatenation of index
  syllables whose fuzzy aliases concatenate to exactly the typed letters, at the sum of their costs.
\<close>

theorem query_variants_terminate:
  assumes "[] \<notin> set S" "2 \<le> limit"
  shows "\<exists>variants. variants_loop (build_fuzzy_aliases S) limit (pi_compact parsed) [(0, [], 0)] [(pi_raw parsed, 0)]
        = Some variants
     \<and> length (sorted_variants limit variants) \<le> limit
     \<and> sorted (map snd (sorted_variants limit variants))
     \<and> (pi_raw parsed, 0) \<in> set (sorted_variants limit variants)
     \<and> (\<forall>(v, cost) \<in> set (sorted_variants limit variants).
          (v = pi_raw parsed \<and> cost = 0) \<or> respelled S (pi_compact parsed) v cost)"
proof -
  let ?al = "build_fuzzy_aliases S" and ?raw = "pi_compact parsed" and ?typed = "pi_raw parsed"
  obtain final where f: "variants_loop ?al limit ?raw [(0, [], 0)] [(?typed, 0)] = Some final"
      "variants_sound ?al ?raw ?typed final"
    using variants_found [OF assms(1)] by blast
  have "sorted_wrt (\<lambda>x y. (\<lambda>(v, c). (c, v)) x \<le> (\<lambda>(v, c). (c, v)) y) (sorted_variants limit final)"
    unfolding sorted_variants_def by (intro sorted_wrt_take sorted_wrt_sort_key)
  then have "sorted_wrt (\<lambda>x y. snd x \<le> snd y) (sorted_variants limit final)"
    by (rule sorted_wrt_mono_rel [rotated]) (auto split: prod.splits)
  then have "sorted (map snd (sorted_variants limit final))" by (simp add: sorted_map)
  moreover have "(v = ?typed \<and> cost = 0) \<or> respelled S ?raw v cost" if "(v, cost) \<in> set (sorted_variants limit final)" for v cost
  proof -
    have "(v, cost) \<in> set final" using that unfolding sorted_variants_def by (metis in_set_takeD set_sort)
    then have "map_of final v = Some cost" using f(2) by (simp add: variants_sound_def od_ok_def map_of_is_SomeI)
    then have "(v = ?typed \<and> cost = 0) \<or> respells ?al ?raw (length ?raw, v, cost)"
      using f(2) by (simp add: variants_sound_def)
    then show ?thesis using respells_parts [of S ?raw "(length ?raw, v, cost)"] by (auto simp: respelled_def)
  qed
  moreover have "length (sorted_variants limit final) \<le> limit" by (simp add: sorted_variants_def)
  ultimately show ?thesis using f(1) typed_variant_kept [OF f(2) assms(2)] by blast
qed

definition demo_syllables :: "pystr list" where
  "demo_syllables = map asc [''zhan'', ''zang'', ''xi'']"

definition demo_typed :: parsed_input where
  "demo_typed = \<lparr>pi_raw = asc ''zan'', pi_compact = asc ''zan'', pi_boundaries = {}\<rparr>"

definition demo_variants :: "(pystr, nat) odict" where
  "demo_variants = the (variants_loop (build_fuzzy_aliases demo_syllables) 24 (asc ''zan'') [(0, [], 0)] [(asc ''zan'', 0)])"

theorem query_variants_terminate_witness:
  "sorted_variants 24 demo_variants = [(asc ''zan'', 0), (asc ''zang'', 1), (asc ''zhan'', 1)]
   \<and> variants_loop (build_fuzzy_aliases demo_syllables) 24 (asc ''zan'') [(0, [], 0)] [(asc ''zan'', 0)] = Some demo_variants"
proof -
  have "[] \<notin> set demo_syllables" by code_simp
  from query_variants_terminate [OF this, of 24 demo_typed]
  have "variants_loop (build_fuzzy_aliases demo_syllables) 24 (asc ''zan'') [(0, [], 0)] [(asc ''zan'', 0)] = Some demo_variants"
    by (auto simp: demo_typed_def demo_variants_def)
  moreover have "sorted_variants 24 demo_variants = [(asc ''zan'', 0), (asc ''zang'', 1), (asc ''zhan'', 1)]"
    by code_simp
  ultimately show ?thesis by blast
qed

end
