(* ===== verification/Pinyin_Constraint.thy ===== *)
theory Pinyin_Constraint
  imports Ranker Script_Policy Query_Variants
begin

text \<open>
  The pinyin half of \<open>unified.py\<close>: \<open>PinyinConstraint\<close> with its exact and fuzzy groups and the bounded
  fallback for abbreviated input.  The backend is its \<open>score_allowed_tokens\<close> at a fixed state, a
  function that may raise; scores are real.  The memo of query plans lives in the index, which is
  threaded through.
\<close>

type_synonym scorer = "int list \<Rightarrow> real list result"

text \<open>\<open>zip(xs, ys, strict=True)\<close>.\<close>

definition zip_strict :: "'a list \<Rightarrow> 'b list \<Rightarrow> ('a \<times> 'b) list result" where
  "zip_strict xs ys = (if length xs = length ys then Inr (zip xs ys)
     else Inl (ValueError ''zip() arguments have different lengths''))"

section \<open>Exact and fuzzy groups\<close>

definition covers_current_pinyin :: "parsed_input \<Rightarrow> entry \<Rightarrow> bool" where
  "covers_current_pinyin parsed e = prefix (pi_compact parsed) (e_pinyin e)"

text \<open>\<open>np.argsort(-scores, kind="stable")\<close>, then the entries at those positions.\<close>

definition rank_legal :: "entry list \<Rightarrow> real list \<Rightarrow> (entry \<times> real option) list result" where
  "rank_legal legal scores =
     rmap (\<lambda>i. if i < length legal then Inr (legal ! i, Some (scores ! i))
              else Inl (IndexError ''tuple index out of range''))
       (sort_key (\<lambda>i. - scores ! i) [0..<length scores])"

definition group_candidate ::
  "int \<Rightarrow> parsed_input \<Rightarrow> pystr \<Rightarrow> nat \<Rightarrow> entry \<Rightarrow> real \<Rightarrow> candidate" where
  "group_candidate epoch user raw fuzzy_cost e model_score =
     \<lparr>c_text = e_text e, c_pinyin = e_display_pinyin e, c_consumed_keys = length (pi_raw user),
      c_score = Some model_score, c_context_epoch = epoch, c_coverage = e_coverage e,
      c_completes_input = (e_pinyin e = raw), c_syllables = int (matched_syllables e (length raw)),
      c_token_id = e_token_id e, c_constraint_kind = ''pinyin'', c_script = script_value (detect_script (e_text e)),
      c_model_score = Some model_score, c_constraint_cost = - (8 / 100) * real fuzzy_cost,
      c_language_prior = 0, c_total_score = 0,
      c_token_path = (case e_token_id e of None \<Rightarrow> [] | Some t \<Rightarrow> [t]),
      c_ranking_tier = (if fuzzy_cost \<noteq> 0 then 2 + int fuzzy_cost else if e_pinyin e = raw then 0 else 1),
      c_static_rank = 0, c_predicted_syllables = 0\<rparr>"

definition emit_group ::
  "int \<Rightarrow> parsed_input \<Rightarrow> pystr \<Rightarrow> nat \<Rightarrow> pystr \<Rightarrow> (entry \<times> real option) list \<Rightarrow> candidate list" where
  "emit_group epoch user raw fuzzy_cost after_text ranked =
     concat (map (\<lambda>(e, model_score).
       if prefix (e_text e) after_text then []
       else case model_score of None \<Rightarrow> [] | Some s \<Rightarrow> [group_candidate epoch user raw fuzzy_cost e s]) ranked)"

definition group_candidates ::
  "scorer \<Rightarrow> int \<Rightarrow> pystr \<Rightarrow> parsed_input \<Rightarrow> parsed_input \<Rightarrow> nat \<Rightarrow> query_group \<Rightarrow> candidate list result" where
  "group_candidates score epoch after_text user query fuzzy_cost g =
     (let raw = pi_compact query; legal = filter (covers_current_pinyin query) (g_entries g) in
      if raw = [] \<or> legal = [] then Inr []
      else rbind (case g_token_ids g of
               None \<Rightarrow> Inr (map (\<lambda>e. (e, None)) legal)
             | Some _ \<Rightarrow> rbind (group_token_ids legal) (\<lambda>ids. rbind (score ids) (rank_legal legal)))
             (\<lambda>ranked. Inr (emit_group epoch user raw fuzzy_cost after_text ranked)))"

fun variant_candidates ::
  "scorer \<Rightarrow> int \<Rightarrow> pystr \<Rightarrow> parsed_input \<Rightarrow> (parsed_input \<times> nat) list \<Rightarrow> pinyin_index \<Rightarrow> candidate list
     \<Rightarrow> (candidate list \<times> pinyin_index) result" where
  "variant_candidates score epoch after_text user [] ix candidates = Inr (candidates, ix)"
| "variant_candidates score epoch after_text user ((query, fuzzy_cost) # variants) ix candidates =
     rbind (query_plan ix query) (\<lambda>(plan, ix).
     rbind (rmap (group_candidates score epoch after_text user query fuzzy_cost) (plan_groups plan)) (\<lambda>groups.
       variant_candidates score epoch after_text user variants ix (candidates @ concat groups)))"

section \<open>Abbreviated input\<close>

definition PARTIAL_BEAM_WIDTH :: nat where "PARTIAL_BEAM_WIDTH = 1"
definition PARTIAL_MAX_MODEL_TOKENS :: nat where "PARTIAL_MAX_MODEL_TOKENS = 1"
definition PARTIAL_MAX_HAN_CHARACTERS :: nat where "PARTIAL_MAX_HAN_CHARACTERS = 16"

record partial_path =
  pp_consumed_letters :: nat
  pp_text :: pystr
  pp_pinyin_path :: "pystr list"
  pp_token_path :: "int list"
  pp_score_sum :: real
  pp_abbreviation_cost :: nat

definition partial_path_key :: "partial_path \<Rightarrow> real \<times> nat \<times> nat \<times> pystr \<times> int list" where
  "partial_path_key p =
     (let normalized_score = pp_score_sum p / real (max 1 (length (pp_token_path p))) powr (7 / 10) in
      (- (normalized_score - 12 / 100 * real (pp_abbreviation_cost p)), pp_abbreviation_cost p,
       length (pp_token_path p), pp_text p, pp_token_path p))"

definition better_path :: "partial_path \<Rightarrow> partial_path \<Rightarrow> bool" where
  "better_path new old = (partial_path_key new < partial_path_key old)"

type_synonym partial_tables = "(pystr, partial_path) odict \<times> (nat \<times> pystr, partial_path) odict"

definition extend_path :: "partial_path \<Rightarrow> index_match \<Rightarrow> real \<Rightarrow> partial_path" where
  "extend_path path m token_score =
     \<lparr>pp_consumed_letters = pp_consumed_letters path + im_consumed m,
      pp_text = pp_text path @ e_text (im_entry m),
      pp_pinyin_path = pp_pinyin_path path @ e_syllable_path (im_entry m),
      pp_token_path = pp_token_path path @ [the (e_token_id (im_entry m))],
      pp_score_sum = pp_score_sum path + token_score,
      pp_abbreviation_cost = pp_abbreviation_cost path + im_cost m\<rparr>"

definition record_extension ::
  "pystr \<Rightarrow> partial_path \<Rightarrow> index_match \<times> real \<Rightarrow> partial_tables \<Rightarrow> partial_tables" where
  "record_extension raw path = (\<lambda>(m, token_score) (finished, active).
     let ext = extend_path path m token_score in
     if im_covers m then (best_put better_path (pp_text ext) ext finished, active)
     else if pp_consumed_letters ext < length raw
     then (finished, best_put better_path (pp_consumed_letters ext, pp_text ext) ext active)
     else (finished, active))"

definition partial_path_matches :: "pinyin_index \<Rightarrow> parsed_input \<Rightarrow> partial_path \<Rightarrow> index_match list" where
  "partial_path_matches ix remaining path =
     filter (\<lambda>m. \<not> e_coverage (im_entry m) \<and> e_token_id (im_entry m) \<noteq> None
         \<and> contains_han (e_text (im_entry m))
         \<and> length (pp_text path) + length (e_text (im_entry m)) \<le> PARTIAL_MAX_HAN_CHARACTERS)
       (index_partial_matches (ix_syllable_root ix) remaining 4096 8192)"

fun expand_paths ::
  "unicode_db \<Rightarrow> pinyin_index \<Rightarrow> scorer \<Rightarrow> pystr \<Rightarrow> partial_path list \<Rightarrow> partial_tables \<Rightarrow> partial_tables result" where
  "expand_paths db ix score raw [] tables = Inr tables"
| "expand_paths db ix score raw (path # paths) tables =
     rbind (parse_raw_pinyin db (drop (pp_consumed_letters path) raw)) (\<lambda>remaining.
       let matches = partial_path_matches ix remaining path in
       if matches = [] then expand_paths db ix score raw paths tables
       else rbind (score (map (\<lambda>m. the (e_token_id (im_entry m))) matches)) (\<lambda>scores.
            rbind (zip_strict matches scores) (\<lambda>scored.
              expand_paths db ix score raw paths (fold (record_extension raw path) scored tables))))"

fun partial_rounds ::
  "unicode_db \<Rightarrow> pinyin_index \<Rightarrow> scorer \<Rightarrow> pystr \<Rightarrow> nat \<Rightarrow> partial_path list \<Rightarrow> (pystr, partial_path) odict
     \<Rightarrow> (pystr, partial_path) odict result" where
  "partial_rounds db ix score raw 0 frontier finished = Inr finished"
| "partial_rounds db ix score raw (Suc depth) frontier finished =
     rbind (expand_paths db ix score raw frontier (finished, [])) (\<lambda>(finished, active).
       let frontier = take PARTIAL_BEAM_WIDTH (sort_key partial_path_key (map snd active)) in
       if frontier = [] then Inr finished else partial_rounds db ix score raw depth frontier finished)"

definition partial_candidate :: "int \<Rightarrow> parsed_input \<Rightarrow> partial_path \<Rightarrow> candidate" where
  "partial_candidate epoch parsed path =
     (let model_score = pp_score_sum path / real (length (pp_token_path path)) powr (7 / 10) in
      \<lparr>c_text = pp_text path, c_pinyin = join [quote] (pp_pinyin_path path),
       c_consumed_keys = length (pi_raw parsed), c_score = Some model_score, c_context_epoch = epoch,
       c_coverage = False, c_completes_input = True, c_syllables = int (length (pp_pinyin_path path)),
       c_token_id = Some (hd (pp_token_path path)), c_constraint_kind = ''partial_pinyin'',
       c_script = script_value (detect_script (pp_text path)), c_model_score = Some model_score,
       c_constraint_cost = - (12 / 100) * real (pp_abbreviation_cost path), c_language_prior = 0,
       c_total_score = 0, c_token_path = pp_token_path path, c_ranking_tier = 1, c_static_rank = 0,
       c_predicted_syllables = 0\<rparr>)"

definition start_path :: partial_path where
  "start_path = \<lparr>pp_consumed_letters = 0, pp_text = [], pp_pinyin_path = [], pp_token_path = [],
     pp_score_sum = 0, pp_abbreviation_cost = 0\<rparr>"

definition partial_candidates ::
  "unicode_db \<Rightarrow> pinyin_index \<Rightarrow> scorer \<Rightarrow> int \<Rightarrow> pystr \<Rightarrow> parsed_input \<Rightarrow> candidate list result" where
  "partial_candidates db ix score epoch after_text parsed =
     rbind (partial_rounds db ix score (pi_compact parsed) PARTIAL_MAX_MODEL_TOKENS [start_path] []) (\<lambda>finished.
       Inr (map (partial_candidate epoch parsed)
         (filter (\<lambda>path. \<not> prefix (pp_text path) after_text)
           (take 64 (sort_key (\<lambda>p. (pp_abbreviation_cost p, length (pp_token_path p), partial_path_key p))
             (map snd finished))))))"

section \<open>The constraint\<close>

definition QUERY_VARIANT_LIMIT :: nat where "QUERY_VARIANT_LIMIT = 24"

definition pinyin_candidates ::
  "unicode_db \<Rightarrow> scorer \<Rightarrow> int \<Rightarrow> pystr \<Rightarrow> pystr \<Rightarrow> pinyin_index \<Rightarrow> (candidate list \<times> pinyin_index) result option" where
  "pinyin_candidates db score epoch raw_keys after_text ix =
     (case parse_raw_pinyin db raw_keys of
        Inl _ \<Rightarrow> Some (Inr ([], ix))
      | Inr parsed \<Rightarrow>
          if pi_compact parsed = [] then Some (Inr ([], ix))
          else case pinyin_query_variants db parsed (build_fuzzy_aliases (ix_syllables ix)) QUERY_VARIANT_LIMIT of
            None \<Rightarrow> None
          | Some variants \<Rightarrow> Some (rbind variants (\<lambda>variants.
              rbind (variant_candidates score epoch after_text parsed variants ix []) (\<lambda>(candidates, ix).
                if candidates \<noteq> [] then Inr (candidates, ix)
                else rbind (partial_candidates db ix score epoch after_text parsed)
                       (\<lambda>partial. Inr (partial, ix))))))"


section \<open>What the constraint offers\<close>

text \<open>A query the variants search may have put in place of the typed one.\<close>

definition query_of :: "unicode_db \<Rightarrow> pinyin_index \<Rightarrow> parsed_input \<Rightarrow> parsed_input \<Rightarrow> nat \<Rightarrow> bool" where
  "query_of db ix parsed query cost \<longleftrightarrow> (\<exists>v. parse_raw_pinyin db v = Inr query
     \<and> ((v = pi_raw parsed \<and> cost = 0) \<or> respelled (ix_syllables ix) (pi_compact parsed) v cost))"

lemma variants_result:
  assumes "[] \<notin> set S" "pinyin_query_variants db parsed (build_fuzzy_aliases S) limit = Some (Inr qs)"
    "(q, c) \<in> set qs"
  shows "\<exists>v. parse_raw_pinyin db v = Inr q \<and> ((v = pi_raw parsed \<and> c = 0) \<or> respelled S (pi_compact parsed) v c)"
proof -
  let ?al = "build_fuzzy_aliases S" and ?raw = "pi_compact parsed" and ?typed = "pi_raw parsed"
  obtain final where f: "variants_loop ?al limit ?raw [(0, [], 0)] [(?typed, 0)] = Some final"
      "variants_sound ?al ?raw ?typed final"
    using variants_found [OF assms(1)] by blast
  have r: "rmap (\<lambda>(v, c). rbind (parse_raw_pinyin db v) (\<lambda>p. Inr (p, c))) (sorted_variants limit final) = Inr qs"
    using assms(2) f(1) by (simp add: pinyin_query_variants_def)
  obtain i where i: "i < length qs" "qs ! i = (q, c)" using assms(3) by (meson in_set_conv_nth)
  obtain v c' where v: "sorted_variants limit final ! i = (v, c')" by fastforce
  have len: "length qs = length (sorted_variants limit final)" by (rule rmap_Inr_length [OF r])
  from rmap_Inr_nth [OF r, of i] i v len have p: "parse_raw_pinyin db v = Inr q" "c' = c"
    by (auto simp: result_splits)
  have "(v, c) \<in> set (sorted_variants limit final)" using i(1) len v p(2) by (metis nth_mem)
  then have "(v, c) \<in> set final" unfolding sorted_variants_def by (metis in_set_takeD set_sort)
  then have "map_of final v = Some c" using f(2) by (simp add: variants_sound_def od_ok_def map_of_is_SomeI)
  then have "(v = ?typed \<and> c = 0) \<or> respells ?al ?raw (length ?raw, v, c)" using f(2) by (simp add: variants_sound_def)
  with p(1) show ?thesis using respells_parts [of S ?raw "(length ?raw, v, c)"] by (auto simp: respelled_def)
qed

lemma variants_return:
  "[] \<notin> set S \<Longrightarrow> \<exists>r. pinyin_query_variants db parsed (build_fuzzy_aliases S) limit = Some r"
  using variants_found [of S limit "pi_compact parsed" "pi_raw parsed"] by (auto simp: pinyin_query_variants_def)

text \<open>A candidate backed by an index entry that reads the whole query.\<close>

definition exact_or_fuzzy ::
  "unicode_db \<Rightarrow> pinyin_index \<Rightarrow> int \<Rightarrow> pystr \<Rightarrow> parsed_input \<Rightarrow> candidate \<Rightarrow> bool" where
  "exact_or_fuzzy db ix epoch after_text parsed c \<longleftrightarrow> (\<exists>query cost e s. query_of db ix parsed query cost
     \<and> e \<in># index_entries ix \<and> legal_entry query e \<and> prefix (pi_compact query) (e_pinyin e)
     \<and> \<not> prefix (e_text e) after_text \<and> c = group_candidate epoch parsed (pi_compact query) cost e s)"

definition abbreviated ::
  "pinyin_index \<Rightarrow> int \<Rightarrow> pystr \<Rightarrow> parsed_input \<Rightarrow> candidate \<Rightarrow> bool" where
  "abbreviated ix epoch after_text parsed c \<longleftrightarrow> (\<exists>m s. match_sound (pi_compact parsed) m \<and> im_covers m
     \<and> contains_han (e_text (im_entry m)) \<and> e_token_id (im_entry m) \<noteq> None \<and> \<not> e_coverage (im_entry m)
     \<and> \<not> prefix (e_text (im_entry m)) after_text
     \<and> c = partial_candidate epoch parsed (extend_path start_path m s))"

lemma rank_legal_entries:
  "rank_legal legal scores = Inr ranked \<Longrightarrow> (e, s) \<in> set ranked \<Longrightarrow> e \<in> set legal"
proof -
  assume r: "rank_legal legal scores = Inr ranked" and "(e, s) \<in> set ranked"
  then obtain i where i: "i < length ranked" "ranked ! i = (e, s)" by (meson in_set_conv_nth)
  note r' = r [unfolded rank_legal_def]
  from rmap_Inr_nth [OF r', of i] rmap_Inr_length [OF r'] i show ?thesis by (auto split: if_splits)
qed

lemma group_candidates_sound:
  assumes "group_candidates score epoch after_text user query cost g = Inr cs" "c \<in> set cs"
  shows "pi_compact query \<noteq> [] \<and> (\<exists>e s. e \<in> set (g_entries g) \<and> prefix (pi_compact query) (e_pinyin e) \<and> \<not> prefix (e_text e) after_text
     \<and> c = group_candidate epoch user (pi_compact query) cost e s)"
proof -
  let ?legal = "filter (covers_current_pinyin query) (g_entries g)"
  have ne: "\<not> (pi_compact query = [] \<or> ?legal = [])" using assms by (auto simp: group_candidates_def Let_def)
  from ne obtain ranked where r: "(case g_token_ids g of None \<Rightarrow> Inr (map (\<lambda>e. (e, None)) ?legal)
      | Some _ \<Rightarrow> rbind (group_token_ids ?legal) (\<lambda>ids. rbind (score ids) (rank_legal ?legal))) = Inr ranked"
      "cs = emit_group epoch user (pi_compact query) cost after_text ranked"
    using assms(1) unfolding group_candidates_def Let_def by (auto simp: result_splits simp del: filter_empty_conv)
  have sub: "e \<in> set ?legal" if "(e, s) \<in> set ranked" for e s
  proof (cases "g_token_ids g")
    case None
    with r(1) that show ?thesis by auto
  next
    case (Some ids)
    with r(1) obtain scores where "rank_legal ?legal scores = Inr ranked" by (auto simp: result_splits)
    from rank_legal_entries [OF this that] show ?thesis .
  qed
  from assms(2) r(2) obtain e s where "(e, Some s) \<in> set ranked" "\<not> prefix (e_text e) after_text"
      "c = group_candidate epoch user (pi_compact query) cost e s"
    by (auto simp: emit_group_def split: if_splits option.splits)
  with sub ne show ?thesis by (fastforce simp: covers_current_pinyin_def)
qed

lemma variant_candidates_sound:
  assumes "variant_candidates score epoch after_text parsed variants ix cs = Inr (out, ix')"
    and "plans_ok ix" "index_ok ix" "\<forall>(q, c) \<in> set variants. query_of db ix parsed q c"
    and "\<forall>c \<in> set cs. exact_or_fuzzy db ix epoch after_text parsed c"
  shows "(\<forall>c \<in> set out. exact_or_fuzzy db ix epoch after_text parsed c) \<and> plans_ok ix' \<and> index_ok ix'
     \<and> index_entries ix' = index_entries ix \<and> ix_syllable_root ix' = ix_syllable_root ix"
  using assms
proof (induction score epoch after_text parsed variants ix cs arbitrary: out ix' rule: variant_candidates.induct)
  case (2 score epoch after_text user query cost variants ix cs)
  obtain plan ix1 groups where p: "query_plan ix query = Inr (plan, ix1)"
      "rmap (group_candidates score epoch after_text user query cost) (plan_groups plan) = Inr groups"
      "variant_candidates score epoch after_text user variants ix1 (cs @ concat groups) = Inr (out, ix')"
    using 2(2) by (auto simp: result_splits)
  have q: "query_of db ix user query cost" using 2(5) by auto
  then have "finite (pi_boundaries query)" by (auto simp: query_of_def dest: finite_parsed_boundaries)
  from query_plan_sound [OF 2(3) this p(1)]
  have ix1: "build_plan (ix_root ix) query = Inr plan" "plans_ok ix1" "ix_root ix1 = ix_root ix"
      "ix_syllable_root ix1 = ix_syllable_root ix" "ix_syllables ix1 = ix_syllables ix" by auto
  have same: "index_ok ix1" "index_entries ix1 = index_entries ix"
      "exact_or_fuzzy db ix1 epoch after_text user = exact_or_fuzzy db ix epoch after_text user"
      "query_of db ix1 = query_of db ix"
    using 2(4) ix1 by (auto simp: index_ok_def index_entries_def exact_or_fuzzy_def fun_eq_iff query_of_def)
  have "exact_or_fuzzy db ix epoch after_text user c" if here: "c \<in> set (concat groups)" for c
  proof -
    obtain cs' where "cs' \<in> set groups" "c \<in> set cs'" using here by auto
    then obtain i where i: "i < length groups" "c \<in> set (groups ! i)" by (metis in_set_conv_nth)
    then have len: "i < length (plan_groups plan)" using rmap_Inr_length [OF p(2)] by simp
    from group_candidates_sound [OF rmap_Inr_nth [OF p(2) len] i(2)]
    obtain e s where ne: "pi_compact query \<noteq> []" and e: "e \<in> set (g_entries (plan_groups plan ! i))" "prefix (pi_compact query) (e_pinyin e)"
        "\<not> prefix (e_text e) after_text" "c = group_candidate epoch user (pi_compact query) cost e s" by blast
    have "g_entries (plan_groups plan ! i)
        = filter (\<lambda>e. entry_priority (pi_compact query) e = g_priority (plan_groups plan ! i)) (compatible (ix_root ix) query)"
      using build_plan_groups(3) [OF ix1(1)] len by simp
    then have "e \<in># mset (compatible (ix_root ix) query)" using e(1) by simp
    moreover have "mset (compatible (ix_root ix) query) = filter_mset (legal_entry query) (index_entries ix)"
      using compatible_mset [of "ix_root ix" query] 2(4) ne by (simp add: index_ok_def index_entries_def)
    ultimately have "e \<in># index_entries ix" "legal_entry query e" by auto
    with e q show ?thesis unfolding exact_or_fuzzy_def by blast
  qed
  then have "\<forall>c \<in> set (cs @ concat groups). exact_or_fuzzy db ix1 epoch after_text user c"
    using 2(6) same(3) by auto
  from 2(1) [OF p(3) ix1(2) same(1) _ this] 2(5) same ix1(4) show ?case by auto
qed simp


text \<open>The compact letters parse to themselves.\<close>

lemma well_quoted_letters: "quote \<notin> set s \<Longrightarrow> well_quoted s"
  by (induction s) auto

lemma reparse_compact:
  assumes "unicode_ascii db" "parse_raw_pinyin db raw = Inr p"
  shows "\<exists>q. parse_raw_pinyin db (pi_compact p) = Inr q \<and> pi_compact q = pi_compact p"
proof -
  have v: "valid_parsed p" using parse_raw_pinyin_valid [OF assms(2)] by simp
  then have "list_all is_pinyin_key (pi_compact p)" "quote \<notin> set (pi_compact p)"
    by (auto simp: valid_parsed_def list_all_iff)
  moreover from this have "\<not> prefix [quote] (pi_compact p)" "letters_of (pi_compact p) = pi_compact p"
    by (auto simp: prefix_def filter_id_conv)
  ultimately show ?thesis using parse_valid_keys [OF assms(1), of "pi_compact p"] well_quoted_letters by auto
qed

text \<open>With one model token per path every finished path extends the start path by one match.\<close>

definition one_match :: "pystr \<Rightarrow> partial_path \<Rightarrow> bool" where
  "one_match raw path \<longleftrightarrow> (\<exists>m s. match_sound raw m \<and> im_covers m \<and> contains_han (e_text (im_entry m))
     \<and> e_token_id (im_entry m) \<noteq> None \<and> \<not> e_coverage (im_entry m) \<and> path = extend_path start_path m s)"

lemma index_matches_sound:
  assumes "index_ok ix" "m \<in> set (index_partial_matches (ix_syllable_root ix) parsed max_results max_states)"
  shows "match_sound (pi_compact parsed) m"
proof -
  have "node_sound [] (ix_syllable_root ix)"
    using assms(1) by (auto simp: index_ok_def keyed_def node_sound_def)
  then have "Pinyin_Index.table_sound (pi_compact parsed)
     (partial_loop (pi_compact parsed) max_results max_states [([], ix_syllable_root ix, 0, 0)] [] 0 [])"
    by (intro partial_loop_sound) (auto intro: spells.start)
  with assms(2) show ?thesis by (auto simp: index_partial_matches_def split: if_splits)
qed

lemma record_extensions_sound:
  assumes "\<forall>(m, s) \<in> set scored. match_sound raw m \<and> contains_han (e_text (im_entry m))
      \<and> e_token_id (im_entry m) \<noteq> None \<and> \<not> e_coverage (im_entry m)"
    and "\<forall>p \<in> snd ` set (fst tables). one_match raw p"
  shows "\<forall>p \<in> snd ` set (fst (fold (record_extension raw start_path) scored tables)). one_match raw p"
  using assms
proof (induction scored arbitrary: tables)
  case (Cons ms scored)
  obtain m s where ms: "ms = (m, s)" by (cases ms)
  obtain fin act where t: "tables = (fin, act)" by (cases tables)
  let ?ext = "extend_path start_path m s"
  have "im_covers m \<Longrightarrow> one_match raw ?ext" using Cons.prems(1) by (auto simp: one_match_def ms)
  then have "\<forall>p \<in> snd ` set (fst (record_extension raw start_path ms tables)). one_match raw p"
    using Cons.prems(2) set_best_put [of better_path "pp_text ?ext" ?ext fin]
    by (auto simp: record_extension_def ms t Let_def)
  then show ?case using Cons by simp
qed simp

lemma partial_candidates_sound:
  assumes "partial_candidates db ix score epoch after_text parsed = Inr cs" "index_ok ix"
    and "unicode_ascii db" "parse_raw_pinyin db raw_keys = Inr parsed"
  shows "\<forall>c \<in> set cs. abbreviated ix epoch after_text parsed c"
proof -
  let ?raw = "pi_compact parsed"
  obtain finished where f: "partial_rounds db ix score ?raw 1 [start_path] [] = Inr finished"
      and cs: "cs = map (partial_candidate epoch parsed) (filter (\<lambda>path. \<not> prefix (pp_text path) after_text)
           (take 64 (sort_key (\<lambda>p. (pp_abbreviation_cost p, length (pp_token_path p), partial_path_key p)) (map snd finished))))"
    using assms(1) by (auto simp: partial_candidates_def PARTIAL_MAX_MODEL_TOKENS_def result_splits)
  then obtain active where e: "expand_paths db ix score ?raw [start_path] ([], []) = Inr (finished, active)"
    by (auto simp: result_splits Let_def split: if_splits)
  have "\<forall>p \<in> snd ` set finished. one_match ?raw p"
  proof -
    obtain rem where r: "parse_raw_pinyin db ?raw = Inr rem"
      using e by (auto simp: result_splits start_path_def)
    show ?thesis
    proof (cases "partial_path_matches ix rem start_path = []")
      case True
      then show ?thesis using e r by (auto simp: start_path_def Let_def)
    next
      case False
      with e r obtain scored scores where z: "zip_strict (partial_path_matches ix rem start_path) scores = Inr scored"
          "fold (record_extension ?raw start_path) scored ([], []) = (finished, active)"
        by (auto simp: start_path_def Let_def result_splits)
      have "pi_compact rem = ?raw" using reparse_compact [OF assms(3,4)] r by simp
      then have "\<forall>(m, s) \<in> set scored. match_sound ?raw m \<and> contains_han (e_text (im_entry m))
          \<and> e_token_id (im_entry m) \<noteq> None \<and> \<not> e_coverage (im_entry m)"
        using z(1) index_matches_sound [OF assms(2), of _ rem]
        by (auto simp: zip_strict_def partial_path_matches_def split: if_splits dest!: set_zip_leftD)
      from record_extensions_sound [OF this, of "([], [])"] z(2) show ?thesis by simp
    qed
  qed
  then show ?thesis
    unfolding cs
  proof (intro ballI)
    fix c
    assume "c \<in> set (map (partial_candidate epoch parsed) (filter (\<lambda>path. \<not> prefix (pp_text path) after_text)
           (take 64 (sort_key (\<lambda>p. (pp_abbreviation_cost p, length (pp_token_path p), partial_path_key p)) (map snd finished)))))"
    then obtain p where p: "p \<in> snd ` set finished" "\<not> prefix (pp_text p) after_text" "c = partial_candidate epoch parsed p"
      by (auto dest!: in_set_takeD)
    then have "one_match ?raw p" using \<open>\<forall>p \<in> snd ` set finished. one_match ?raw p\<close> by blast
    then obtain m s where m: "match_sound ?raw m" "im_covers m" "contains_han (e_text (im_entry m))"
        "e_token_id (im_entry m) \<noteq> None" "\<not> e_coverage (im_entry m)" "p = extend_path start_path m s"
      unfolding one_match_def by blast
    moreover have "pp_text p = e_text (im_entry m)" by (simp add: m(6) extend_path_def start_path_def)
    ultimately show "abbreviated ix epoch after_text parsed c" unfolding abbreviated_def using p(2,3) by metis
  qed
qed


lemma variant_queries:
  assumes "[] \<notin> set (ix_syllables ix)"
    and "pinyin_query_variants db parsed (build_fuzzy_aliases (ix_syllables ix)) limit = Some (Inr qs)" "(q, c) \<in> set qs"
  shows "query_of db ix parsed q c"
  using variants_result [OF assms] by (auto simp: query_of_def)

text \<open>
  Claim C15. The pinyin constraint always answers, and what it answers is legal.  Either every
  candidate is an index entry whose reading the typed keys (or a fuzzy respelling of them, at its
  cost) begin, or there was none and every candidate is an abbreviated reading that consumes all the
  letters.  No candidate under-covers the input or repeats text that already follows the caret, and
  all of them consume exactly the typed keys.
\<close>

theorem pinyin_candidates_legal:
  assumes "index_ok ix" "plans_ok ix" "[] \<notin> set (ix_syllables ix)" "unicode_ascii db"
    and "parse_raw_pinyin db raw_keys = Inr parsed"
  shows "\<exists>r. pinyin_candidates db score epoch raw_keys after_text ix = Some r
     \<and> (\<forall>cs ix'. r = Inr (cs, ix') \<longrightarrow>
          ((\<forall>c \<in> set cs. exact_or_fuzzy db ix epoch after_text parsed c)
           \<or> (\<forall>c \<in> set cs. abbreviated ix epoch after_text parsed c))
        \<and> (\<forall>c \<in> set cs. c_consumed_keys c = length (pi_raw parsed) \<and> \<not> prefix (c_text c) after_text)
        \<and> plans_ok ix')"
proof (cases "pi_compact parsed = []")
  case False
  obtain vr where v: "pinyin_query_variants db parsed (build_fuzzy_aliases (ix_syllables ix)) QUERY_VARIANT_LIMIT = Some vr"
    using variants_return [OF assms(3)] by blast
  let ?r = "rbind vr (\<lambda>variants.
              rbind (variant_candidates score epoch after_text parsed variants ix []) (\<lambda>(candidates, ix).
                if candidates \<noteq> [] then Inr (candidates, ix)
                else rbind (partial_candidates db ix score epoch after_text parsed) (\<lambda>partial. Inr (partial, ix))))"
  have "((\<forall>c \<in> set cs. exact_or_fuzzy db ix epoch after_text parsed c)
           \<or> (\<forall>c \<in> set cs. abbreviated ix epoch after_text parsed c)) \<and> plans_ok ix'" if r: "?r = Inr (cs, ix')" for cs ix'
  proof -
    obtain qs out ix1 where q: "vr = Inr qs" "variant_candidates score epoch after_text parsed qs ix [] = Inr (out, ix1)"
        "(if out \<noteq> [] then Inr (out, ix1) else rbind (partial_candidates db ix1 score epoch after_text parsed)
           (\<lambda>partial. Inr (partial, ix1))) = Inr (cs, ix')"
      using r by (auto simp: result_splits)
    have "\<forall>(q, c) \<in> set qs. query_of db ix parsed q c" using variant_queries [OF assms(3)] v q(1) by blast
    from variant_candidates_sound [OF q(2) assms(2,1) this]
    have s: "\<forall>c \<in> set out. exact_or_fuzzy db ix epoch after_text parsed c" "plans_ok ix1" "index_ok ix1" by auto
    show ?thesis
    proof (cases "out = []")
      case True
      then have "partial_candidates db ix1 score epoch after_text parsed = Inr cs" "ix' = ix1"
        using q(3) by (auto simp: result_splits)
      then show ?thesis using partial_candidates_sound [OF _ s(3) assms(4,5)] s(2)
        by (auto simp: abbreviated_def)
    qed (use q(3) s in auto)
  qed
  moreover have "c_consumed_keys c = length (pi_raw parsed) \<and> \<not> prefix (c_text c) after_text"
    if "exact_or_fuzzy db ix epoch after_text parsed c \<or> abbreviated ix epoch after_text parsed c" for c
    using that by (auto simp: exact_or_fuzzy_def abbreviated_def group_candidate_def partial_candidate_def Let_def
        extend_path_def start_path_def)
  moreover have "pinyin_candidates db score epoch raw_keys after_text ix = Some ?r"
    using False assms(5) v by (simp add: pinyin_candidates_def)
  ultimately show ?thesis by blast
qed (use assms in \<open>simp add: pinyin_candidates_def\<close>)


definition demo_candidates :: "(candidate list \<times> pinyin_index) result" where
  "demo_candidates = the (pinyin_candidates ascii_db (\<lambda>ids. Inr (map real_of_int ids)) 3 (asc ''xian'') [] demo_index)"

theorem pinyin_candidates_legal_witness:
  "map (\<lambda>c. (c_text c, c_ranking_tier c)) (fst (projr demo_candidates)) = [([35199, 23433], 0), ([20808], 0)]
   \<and> plans_ok (snd (projr demo_candidates))
   \<and> list_all (\<lambda>c. c_consumed_keys c = 4) (fst (projr demo_candidates))"
proof -
  have ix: "index_ok demo_index" "plans_ok demo_index"
    using load_index_spec [OF demo_index_load] by (auto simp: plans_ok_def)
  have syl: "[] \<notin> set (ix_syllables demo_index)" by code_simp
  define p where "p = projr (parse_raw_pinyin ascii_db (asc ''xian''))"
  have p: "parse_raw_pinyin ascii_db (asc ''xian'') = Inr p"
    unfolding p_def by (rule Inr_projr) code_simp
  have "length (pi_raw p) = 4" unfolding p_def by code_simp
  moreover obtain r where r: "pinyin_candidates ascii_db (\<lambda>ids. Inr (map real_of_int ids)) 3 (asc ''xian'') [] demo_index = Some r"
      "\<And>cs ix'. r = Inr (cs, ix') \<Longrightarrow> (\<forall>c \<in> set cs. c_consumed_keys c = length (pi_raw p)) \<and> plans_ok ix'"
    using pinyin_candidates_legal [OF ix syl unicode_ascii_db p, of "\<lambda>ids. Inr (map real_of_int ids)" 3 "[]"] by blast
  moreover have "demo_candidates = Inr (projr demo_candidates)" by (rule Inr_projr) code_simp
  then have "r = Inr (fst (projr demo_candidates), snd (projr demo_candidates))" using r(1) by (simp add: demo_candidates_def)
  moreover have "map (\<lambda>c. (c_text c, c_ranking_tier c)) (fst (projr demo_candidates)) = [([35199, 23433], 0), ([20808], 0)]"
    by code_simp
  ultimately show ?thesis unfolding list_all_iff by metis
qed

end
