(* ===== verification/Latin_Prefix.thy ===== *)
theory Latin_Prefix
  imports Pinyin_Constraint
begin

text \<open>
  Latin completions from the model vocabulary: \<open>LatinPrefixConstraint\<close> of \<open>unified.py\<close> and
  \<open>NeuralLatinPrefixConstraint\<close> of \<open>neural_latin.py\<close>.  The tokenizer is its vocabulary size, its
  special ids and its one-token decode.
\<close>

record tokenizer =
  tk_size :: nat
  tk_special_ids :: "nat list"
  tk_decode :: "nat \<Rightarrow> pystr"

text \<open>\<open>re.compile(r"^[A-Za-z][A-Za-z0-9.'-]*$").fullmatch\<close>.\<close>

definition is_latin_char :: "nat \<Rightarrow> bool" where
  "is_latin_char c \<longleftrightarrow> is_ascii_alpha c \<or> (48 \<le> c \<and> c \<le> 57) \<or> c = 46 \<or> c = 39 \<or> c = 45"

definition latin_prefix :: "pystr \<Rightarrow> bool" where
  "latin_prefix s = (case s of [] \<Rightarrow> False | c # cs \<Rightarrow> is_ascii_alpha c \<and> list_all is_latin_char cs)"

record latin_completion =
  lc_text :: pystr
  lc_token_path :: "int list"
  lc_constraint_cost :: real

definition completion :: "pystr \<Rightarrow> nat \<Rightarrow> latin_completion" where
  "completion s token_id = \<lparr>lc_text = s, lc_token_path = [int token_id], lc_constraint_cost = 0\<rparr>"

definition usable_text :: "pystr \<Rightarrow> bool" where
  "usable_text s \<longleftrightarrow> \<not> (s = [] \<or> length s > 48 \<or> \<not> latin_prefix s \<or> contains_han s)"

fun tokenizer_completions :: "tokenizer \<Rightarrow> nat list \<Rightarrow> (pystr \<times> nat) list \<Rightarrow> latin_completion list" where
  "tokenizer_completions tk [] seen = []"
| "tokenizer_completions tk (token_id # ids) seen =
     (if token_id \<in> set (tk_special_ids tk) then tokenizer_completions tk ids seen
      else
        let root_text = py_lstrip (tk_decode tk token_id) in
        if \<not> usable_text root_text then tokenizer_completions tk ids seen
        else if (root_text, token_id) \<in> set seen then tokenizer_completions tk ids seen
        else completion root_text token_id # tokenizer_completions tk ids ((root_text, token_id) # seen))"

definition from_tokenizer :: "tokenizer \<Rightarrow> latin_completion list" where
  "from_tokenizer tk = tokenizer_completions tk [0..<tk_size tk] []"

section \<open>Word-internal fragments\<close>

record neural_latin =
  nl_completions :: "latin_completion list"
  nl_continuation_fragments :: "(int, pystr) odict"

text \<open>
  The constructor filters the fragments it is given; without any it takes the one-token completions
  (a later completion with the same token overwrites an earlier one, as the dictionary does).
\<close>

definition fragment_ok :: "pystr \<Rightarrow> bool" where
  "fragment_ok s \<longleftrightarrow> s \<noteq> [] \<and> latin_prefix s \<and> \<not> contains_han s"

definition default_fragments :: "latin_completion list \<Rightarrow> (int, pystr) odict" where
  "default_fragments completions = fold (\<lambda>c d.
     case lc_token_path c of
       [t] \<Rightarrow> if latin_prefix (lc_text c) \<and> \<not> contains_han (lc_text c) then od_set t (lc_text c) d else d
     | _ \<Rightarrow> d) completions []"

definition new_neural_latin :: "latin_completion list \<Rightarrow> (int, pystr) odict option \<Rightarrow> neural_latin" where
  "new_neural_latin completions fragments =
     \<lparr>nl_completions = completions,
      nl_continuation_fragments =
        filter (\<lambda>(t, s). fragment_ok s)
          (case fragments of None \<Rightarrow> default_fragments completions | Some fs \<Rightarrow> fs)\<rparr>"

fun tokenizer_fragments :: "tokenizer \<Rightarrow> nat list \<Rightarrow> (pystr \<times> nat) list \<Rightarrow> (int, pystr) odict \<Rightarrow> (int, pystr) odict" where
  "tokenizer_fragments tk [] seen fragments = fragments"
| "tokenizer_fragments tk (token_id # ids) seen fragments =
     (if token_id \<in> set (tk_special_ids tk) then tokenizer_fragments tk ids seen fragments
      else
        let decoded = tk_decode tk token_id; root_text = py_lstrip decoded in
        if \<not> usable_text root_text then tokenizer_fragments tk ids seen fragments
        else if (root_text, token_id) \<in> set seen then tokenizer_fragments tk ids seen fragments
        else tokenizer_fragments tk ids ((root_text, token_id) # seen)
               (if decoded = root_text \<and> latin_prefix decoded then od_set (int token_id) decoded fragments
                else fragments))"

definition neural_latin_from_tokenizer :: "tokenizer \<Rightarrow> neural_latin" where
  "neural_latin_from_tokenizer tk =
     new_neural_latin (from_tokenizer tk) (Some (tokenizer_fragments tk [0..<tk_size tk] [] []))"

section \<open>Candidates\<close>

definition latin_compatible :: "unicode_db \<Rightarrow> pystr \<Rightarrow> latin_completion \<Rightarrow> bool" where
  "latin_compatible db raw_keys c \<longleftrightarrow> prefix (casefold db raw_keys) (casefold db (lc_text c))
     \<and> \<not> contains_han (lc_text c) \<and> length (lc_token_path c) \<le> 4 \<and> length (lc_text c) \<le> 48"

definition first_token :: "latin_completion \<Rightarrow> int result" where
  "first_token c = (case lc_token_path c of [] \<Rightarrow> Inl (IndexError ''tuple index out of range'') | t # _ \<Rightarrow> Inr t)"

definition latin_candidate :: "unicode_db \<Rightarrow> int \<Rightarrow> pystr \<Rightarrow> latin_completion \<times> real \<Rightarrow> candidate" where
  "latin_candidate db epoch raw_keys = (\<lambda>(c, first_score).
     let model_score = first_score / real (length (lc_token_path c)) powr (7 / 10) in
     \<lparr>c_text = lc_text c, c_pinyin = [], c_consumed_keys = length raw_keys, c_score = Some model_score,
      c_context_epoch = epoch, c_coverage = False,
      c_completes_input = (casefold db (lc_text c) = casefold db raw_keys), c_syllables = 0,
      c_token_id = Some (hd (lc_token_path c)), c_constraint_kind = ''latin_prefix'',
      c_script = script_value (detect_script (lc_text c)), c_model_score = Some model_score,
      c_constraint_cost = lc_constraint_cost c, c_language_prior = 0, c_total_score = 0,
      c_token_path = lc_token_path c, c_ranking_tier = 0, c_static_rank = 0, c_predicted_syllables = 0\<rparr>)"

definition latin_candidates ::
  "unicode_db \<Rightarrow> latin_completion list \<Rightarrow> scorer \<Rightarrow> int \<Rightarrow> pystr \<Rightarrow> candidate list result" where
  "latin_candidates db completions score epoch raw_keys =
     (if \<not> latin_prefix raw_keys then Inr []
      else
        let matching = filter (latin_compatible db raw_keys) completions in
        rbind (rmap first_token matching) (\<lambda>first_token_ids.
        rbind (if first_token_ids = [] then Inr [] else score first_token_ids) (\<lambda>first_scores.
        rbind (zip_strict matching first_scores) (\<lambda>scored.
          Inr (map (latin_candidate db epoch raw_keys) scored)))))"

section \<open>What the vocabulary yields\<close>

lemma completions_spec:
  "distinct ids \<Longrightarrow> \<forall>(s, t) \<in> set seen. t \<notin> set ids \<Longrightarrow>
     tokenizer_completions tk ids seen
     = map (\<lambda>t. completion (py_lstrip (tk_decode tk t)) t)
         (filter (\<lambda>t. t \<notin> set (tk_special_ids tk) \<and> usable_text (py_lstrip (tk_decode tk t))) ids)"
  by (induction tk ids seen rule: tokenizer_completions.induct) (fastforce simp: Let_def)+

lemma latin_prefix_start: "latin_prefix s \<Longrightarrow> s \<noteq> [] \<and> py_lstrip s = s \<and> \<not> contains_han s"
proof -
  assume "latin_prefix s"
  then obtain c cs where s: "s = c # cs" "is_ascii_alpha c" "list_all is_latin_char cs"
    by (auto simp: latin_prefix_def split: list.splits)
  have "\<not> py_isspace c" using s(2) by (auto simp: is_ascii_alpha_def py_isspace_def)
  moreover have "\<not> is_han d" if "is_latin_char d" for d
    using that by (auto simp: is_latin_char_def is_han_def is_ascii_alpha_def)
  moreover have "\<not> is_han c" using s(2) han_not_ascii by blast
  ultimately show ?thesis using s by (auto simp: py_lstrip_def contains_han_def list_ex_iff list_all_iff)
qed

lemma usable_text_iff: "usable_text s \<longleftrightarrow> latin_prefix s \<and> length s \<le> 48"
  using latin_prefix_start by (auto simp: usable_text_def)

lemma fragments_spec:
  "distinct ids \<Longrightarrow> \<forall>(s, t) \<in> set seen. t \<notin> set ids \<Longrightarrow>
     map_of (tokenizer_fragments tk ids seen fs) (int t)
     = (if t \<in> set ids \<and> t \<notin> set (tk_special_ids tk) \<and> usable_text (tk_decode tk t)
        then Some (tk_decode tk t) else map_of fs (int t))"
proof (induction ids arbitrary: seen fs)
  case (Cons u ids)
  let ?d = "tk_decode tk u"
  let ?fs = "if ?d = py_lstrip ?d \<and> latin_prefix ?d then od_set (int u) ?d fs else fs"
  have fresh: "(py_lstrip ?d, u) \<notin> set seen" and s: "\<forall>(s, t) \<in> set seen. t \<notin> set ids" using Cons.prems(2) by auto
  moreover have "\<forall>(s, t) \<in> set ((py_lstrip ?d, u) # seen). t \<notin> set ids" using s Cons.prems(1) by simp
  moreover have "distinct ids" using Cons.prems(1) by simp
  ultimately have ih: "map_of (tokenizer_fragments tk ids seen fs) (int t)
       = (if t \<in> set ids \<and> t \<notin> set (tk_special_ids tk) \<and> usable_text (tk_decode tk t)
          then Some (tk_decode tk t) else map_of fs (int t))"
     "map_of (tokenizer_fragments tk ids ((py_lstrip ?d, u) # seen) ?fs) (int t)
       = (if t \<in> set ids \<and> t \<notin> set (tk_special_ids tk) \<and> usable_text (tk_decode tk t)
          then Some (tk_decode tk t) else map_of ?fs (int t))"
    using Cons.IH by blast+
  have strip: "usable_text ?d \<longleftrightarrow> usable_text (py_lstrip ?d) \<and> ?d = py_lstrip ?d \<and> latin_prefix ?d"
    using latin_prefix_start [of ?d] by (auto simp: usable_text_iff)
  show ?case
  proof (cases "u \<in> set (tk_special_ids tk) \<or> \<not> usable_text (py_lstrip ?d)")
    case True
    then have "tokenizer_fragments tk (u # ids) seen fs = tokenizer_fragments tk ids seen fs" by (auto simp: Let_def)
    moreover have "u \<in> set (tk_special_ids tk) \<or> \<not> usable_text ?d" using True strip by blast
    ultimately show ?thesis using ih(1) by auto
  next
    case False
    then have "tokenizer_fragments tk (u # ids) seen fs = tokenizer_fragments tk ids ((py_lstrip ?d, u) # seen) ?fs"
      using fresh by (simp add: Let_def)
    then show ?thesis using ih(2) False strip Cons.prems(1) by (auto simp: map_of_od_set)
  qed
qed simp

lemma all_od_set: "\<forall>x \<in> set d. P (snd x) \<Longrightarrow> P v \<Longrightarrow> \<forall>x \<in> set (od_set k v d). P (snd x)"
  using set_od_set_subset [of k v d] by (metis in_mono insertE snd_conv)

lemma fragments_usable:
  "\<forall>x \<in> set fs. fragment_ok (snd x) \<Longrightarrow> \<forall>x \<in> set (tokenizer_fragments tk ids seen fs). fragment_ok (snd x)"
proof (induction ids arbitrary: seen fs)
  case (Cons u ids)
  let ?d = "tk_decode tk u"
  let ?fs = "if ?d = py_lstrip ?d \<and> latin_prefix ?d then od_set (int u) ?d fs else fs"
  have "fragment_ok ?d" if "latin_prefix ?d" using latin_prefix_start [OF that] that by (simp add: fragment_ok_def)
  then have fs: "\<forall>x \<in> set ?fs. fragment_ok (snd x)"
    using Cons.prems all_od_set [of fs fragment_ok ?d "int u"] by presburger
  consider "tokenizer_fragments tk (u # ids) seen fs = tokenizer_fragments tk ids seen fs"
    | "tokenizer_fragments tk (u # ids) seen fs = tokenizer_fragments tk ids ((py_lstrip ?d, u) # seen) ?fs"
    by (simp only: tokenizer_fragments.simps Let_def) metis
  then show ?case
  proof cases
    case 1
    show ?thesis unfolding 1 by (rule Cons.IH [OF Cons.prems])
  next
    case 2
    show ?thesis unfolding 2 by (rule Cons.IH [OF fs])
  qed
qed simp

text \<open>
  The Latin constraint built from the tokenizer keeps word boundaries.  A token continues a
  word exactly when its own decode, unstripped, is a Latin fragment of at most 48 characters, and
  the user-visible completions are, in id order, the left-trimmed decodes of the ordinary tokens
  that are such fragments.
\<close>

theorem neural_latin_vocabulary:
  "nl_completions (neural_latin_from_tokenizer tk) = map (\<lambda>t. completion (py_lstrip (tk_decode tk t)) t)
      (filter (\<lambda>t. t \<notin> set (tk_special_ids tk) \<and> latin_prefix (py_lstrip (tk_decode tk t))
          \<and> length (py_lstrip (tk_decode tk t)) \<le> 48) [0..<tk_size tk])
   \<and> (\<forall>t s. map_of (nl_continuation_fragments (neural_latin_from_tokenizer tk)) (int t) = Some s \<longleftrightarrow>
        t < tk_size tk \<and> t \<notin> set (tk_special_ids tk) \<and> s = tk_decode tk t \<and> latin_prefix s \<and> length s \<le> 48)"
proof -
  let ?fs = "tokenizer_fragments tk [0..<tk_size tk] [] []"
  have all: "map_of ?fs (int t) = (if t < tk_size tk \<and> t \<notin> set (tk_special_ids tk) \<and> usable_text (tk_decode tk t)
      then Some (tk_decode tk t) else None)" for t
    using fragments_spec [of "[0..<tk_size tk]" "[]" tk "[]" t] by simp
  have "\<forall>x \<in> set ?fs. fragment_ok (snd x)" by (rule fragments_usable) simp
  then have keep: "filter (\<lambda>(t, s). fragment_ok s) ?fs = ?fs" by (simp add: filter_id_conv split_def)
  have "from_tokenizer tk = map (\<lambda>t. completion (py_lstrip (tk_decode tk t)) t)
      (filter (\<lambda>t. t \<notin> set (tk_special_ids tk) \<and> latin_prefix (py_lstrip (tk_decode tk t))
          \<and> length (py_lstrip (tk_decode tk t)) \<le> 48) [0..<tk_size tk])"
    using completions_spec [of "[0..<tk_size tk]" "[]" tk] by (simp add: from_tokenizer_def usable_text_iff)
  then show ?thesis
    by (auto simp: neural_latin_from_tokenizer_def new_neural_latin_def keep all usable_text_iff)
qed

end
