(* ===== verification/Unified.thy ===== *)
theory Unified
  imports Latin_Prefix
begin

text \<open>
  Ranking and the query of \<open>UnifiedConstraintEngine\<close> (\<open>unified.py\<close>).  The two constraints are
  functions of the state, the keys and the text after the caret; each may raise.
\<close>

section \<open>Ranking\<close>

definition literal_candidate :: "pystr \<Rightarrow> int \<Rightarrow> candidate" where
  "literal_candidate raw_keys epoch =
     \<lparr>c_text = raw_keys, c_pinyin = [], c_consumed_keys = length raw_keys, c_score = None,
      c_context_epoch = epoch, c_coverage = True, c_completes_input = True, c_syllables = 0,
      c_token_id = None, c_constraint_kind = ''literal'', c_script = script_value (detect_script raw_keys),
      c_model_score = None, c_constraint_cost = -1000000, c_language_prior = 0, c_total_score = 0,
      c_token_path = [], c_ranking_tier = 1000000, c_static_rank = 0, c_predicted_syllables = 0\<rparr>"

text \<open>The first loop: a candidate is priced, or left out when the policy does not allow its script.\<close>

definition price_candidate ::
  "unicode_db \<Rightarrow> policy \<Rightarrow> string \<Rightarrow> pystr \<Rightarrow> candidate \<Rightarrow> candidate list result" where
  "price_candidate db p context_kind raw_keys c =
     rbind (script_of (c_script c)) (\<lambda>s.
       if \<not> allows context_kind s then Inr []
       else let prior = language_prior db p context_kind s raw_keys;
                model_score = (case c_model_score c of None \<Rightarrow> 0 | Some m \<Rightarrow> m)
            in Inr [c\<lparr>c_language_prior := prior, c_total_score := model_score + c_constraint_cost c + prior\<rparr>])"

definition script_tier :: "string \<Rightarrow> candidate \<Rightarrow> nat" where
  "script_tier context_kind c =
     (if context_kind = ''english'' then (if c_script c = script_value LATIN then 0 else 1)
      else (if c_script c = script_value HAN then 0 else 1))"

definition unified_key :: "string \<Rightarrow> candidate \<Rightarrow> bool \<times> nat \<times> int \<times> real \<times> int \<times> pystr \<times> int list" where
  "unified_key context_kind c =
     (c_constraint_kind c = ''literal'', script_tier context_kind c, c_ranking_tier c, - c_total_score c,
      - int (c_consumed_keys c), c_text c, c_token_path c)"

definition same_commit :: "unicode_db \<Rightarrow> candidate \<Rightarrow> pystr \<times> nat" where
  "same_commit db c = (nfkc db (c_text c), c_consumed_keys c)"

text \<open>The second loop stops right after an append that reaches the limit.\<close>

fun take_unique :: "unicode_db \<Rightarrow> int \<Rightarrow> (pystr \<times> nat) list \<Rightarrow> candidate list \<Rightarrow> candidate list" where
  "take_unique db limit seen [] = []"
| "take_unique db limit seen (c # cs) =
     (if same_commit db c \<in> set seen then take_unique db limit seen cs
      else c # (if int (length seen) + 1 \<ge> limit then []
                else take_unique db limit (same_commit db c # seen) cs))"

definition rank_unified_candidates ::
  "unicode_db \<Rightarrow> candidate list \<Rightarrow> string \<Rightarrow> pystr \<Rightarrow> policy \<Rightarrow> int \<Rightarrow> candidate list result" where
  "rank_unified_candidates db candidates context_kind raw_keys p limit =
     rbind (rmap (price_candidate db p context_kind raw_keys) candidates) (\<lambda>priced.
       Inr (take_unique db limit [] (sort_key (unified_key context_kind) (concat priced))))"

section \<open>The engine\<close>

type_synonym 's constraint = "'s \<Rightarrow> pystr \<Rightarrow> pystr \<Rightarrow> candidate list result"

record 's unified_engine =
  ue_epoch :: "'s \<Rightarrow> int"
  ue_latest_state :: "'s option"
  ue_pinyin_constraint :: "'s constraint option"
  ue_latin_prefix_constraint :: "'s constraint"
  ue_script_policy :: policy

definition state_or_latest :: "'s unified_engine \<Rightarrow> 's option \<Rightarrow> 's option" where
  "state_or_latest en state = (case state of None \<Rightarrow> ue_latest_state en | Some s \<Rightarrow> Some s)"

definition is_model_literal :: "unicode_db \<Rightarrow> pystr \<Rightarrow> candidate \<Rightarrow> bool" where
  "is_model_literal db raw_keys c \<longleftrightarrow> c_model_score c \<noteq> None
     \<and> casefold db (nfkc db (c_text c)) = casefold db (nfkc db raw_keys) \<and> c_consumed_keys c = length raw_keys"

definition unified_query ::
  "unicode_db \<Rightarrow> 's unified_engine \<Rightarrow> pystr \<Rightarrow> pystr \<Rightarrow> 's option \<Rightarrow> pystr \<Rightarrow> int \<Rightarrow> candidate list result" where
  "unified_query db en before raw_keys state after_text limit =
     (if raw_keys = [] then Inr []
      else case state_or_latest en state of
        None \<Rightarrow> Inr (if latin_prefix raw_keys then [literal_candidate raw_keys 0] else [])
      | Some s \<Rightarrow>
          rbind (case ue_pinyin_constraint en of None \<Rightarrow> Inr [] | Some f \<Rightarrow> f s raw_keys after_text) (\<lambda>pinyin.
          rbind (ue_latin_prefix_constraint en s raw_keys after_text) (\<lambda>latin.
            let candidates = filter (\<lambda>c. c_model_score c \<noteq> None) (pinyin @ latin);
                model_has_exact_literal = list_ex (is_model_literal db raw_keys) candidates;
                reserve_literal = latin_prefix raw_keys \<and> \<not> model_has_exact_literal \<and> limit > 0;
                kind = classify before;
                p = ue_script_policy en
            in rbind (rank_unified_candidates db candidates kind raw_keys p
                        (if reserve_literal then max 0 (limit - 1) else limit)) (\<lambda>ranked.
               rbind (if reserve_literal
                      then rank_unified_candidates db [literal_candidate raw_keys (ue_epoch en s)] kind raw_keys p 1
                      else Inr []) (\<lambda>literal.
                 Inr (py_take limit (ranked @ literal)))))))"

definition query_pinyin ::
  "unicode_db \<Rightarrow> 's unified_engine \<Rightarrow> pystr \<Rightarrow> pystr \<Rightarrow> 's option \<Rightarrow> pystr \<Rightarrow> int \<Rightarrow> candidate list result" where
  "query_pinyin db en before raw_keys state after_text limit =
     (case (state_or_latest en state, ue_pinyin_constraint en) of
        (Some s, Some f) \<Rightarrow>
          if raw_keys = [] then Inr []
          else rbind (f s raw_keys after_text) (\<lambda>candidates.
               rbind (rmap (\<lambda>c. script_of (c_script c)) candidates) (\<lambda>scripts.
                 rank_unified_candidates db (filter (\<lambda>c. c_script c = script_value HAN) candidates)
                   (classify before) raw_keys (ue_script_policy en) limit))
      | _ \<Rightarrow> Inr [])"

section \<open>Ranking is selection\<close>

lemma take_unique_dedup:
  "int (length seen) < max 1 limit \<Longrightarrow>
     take_unique db limit seen cs = take (nat (max 1 limit) - length seen) (dedup_by (same_commit db) seen cs)"
proof (induction db limit seen cs rule: take_unique.induct)
  case (2 db limit seen c cs)
  show ?case
  proof (cases "same_commit db c \<in> set seen")
    case False
    show ?thesis
    proof (cases "int (length seen) + 1 \<ge> limit")
      case True
      then have "nat (max 1 limit) - length seen = 1" using 2(3) by auto
      then show ?thesis using False True by simp
    next
      case inner: False
      then have "nat (max 1 limit) - length seen = Suc (nat (max 1 limit) - length (same_commit db c # seen))"
        by auto
      then show ?thesis using False inner 2 by simp
    qed
  qed (use 2 in simp)
qed simp


lemma sorted_dedup_by:
  fixes f :: "'a \<Rightarrow> 'b::linorder"
  shows "sorted (map f xs) \<Longrightarrow> sorted (map f (dedup_by key seen xs))"
  using sorted_subseq [OF subseq_map [OF subseq_dedup_by]] .

text \<open>In a sorted list the representative that survives is a least one of its class.\<close>

lemma dedup_by_least:
  fixes f :: "'a \<Rightarrow> 'b::linorder"
  assumes "sorted (map f xs)" "x \<in> set xs" "key x \<notin> set seen"
  shows "\<exists>d \<in> set (dedup_by key seen xs). key d = key x \<and> f d \<le> f x"
  using assms
proof (induction key seen xs rule: dedup_by.induct)
  case (2 key seen y ys)
  show ?case
  proof (cases "key y \<in> set seen")
    case True
    then have "x \<in> set ys" using 2(4,5) by auto
    then show ?thesis using 2(1) [OF True] 2(3,5) True by simp
  next
    case False
    show ?thesis
    proof (cases "key x = key y")
      case True
      then show ?thesis using False 2(3,4) by auto
    next
      case other: False
      then have "x \<in> set ys" using 2(4) by auto
      then show ?thesis using 2(2) [OF False] 2(3,5) other False by auto
    qed
  qed
qed simp

text \<open>A prefix of a sorted, deduplicated list: what is missing is dominated.\<close>

lemma best_first:
  fixes f :: "'a \<Rightarrow> 'b::linorder"
  assumes out: "out = take n (dedup_by key [] (sort_key f xs))" and x: "x \<in> set xs"
  shows "(\<exists>d \<in> set out. key d = key x \<and> f d \<le> f x) \<or> (length out = n \<and> (\<forall>d \<in> set out. f d \<le> f x))"
proof -
  let ?all = "dedup_by key [] (sort_key f xs)"
  have s: "sorted (map f ?all)" by (rule sorted_dedup_by) simp
  obtain d where d: "d \<in> set ?all" "key d = key x" "f d \<le> f x"
    using dedup_by_least [of f "sort_key f xs" x key "[]"] x by auto
  show ?thesis
  proof (cases "d \<in> set out")
    case False
    then have d': "d \<in> set (drop n ?all)" using d(1) out by (metis UnE append_take_drop_id set_append)
    then have "length out = n" using out by (cases "n \<le> length ?all") auto
    moreover have "f e \<le> f d" if "e \<in> set out" for e
    proof -
      have "sorted (map f (take n ?all) @ map f (drop n ?all))" using s by (metis append_take_drop_id map_append)
      then show ?thesis using that d' out by (auto simp: sorted_append)
    qed
    ultimately show ?thesis using d(3) by force
  qed (use d in blast)
qed

lemma rmap_concat_members:
  "rmap f xs = Inr yss \<Longrightarrow> y \<in> set (concat yss) \<longleftrightarrow> (\<exists>x \<in> set xs. \<exists>ys. f x = Inr ys \<and> y \<in> set ys)"
  by (induction xs arbitrary: yss) (auto simp: result_splits)

lemma price_candidate_single: "price_candidate db p kind raw c = Inr xs \<Longrightarrow> \<exists>c'. xs = [c']"
  by (auto simp: price_candidate_def allows_def Let_def result_splits)

lemma rank_unified_spec:
  assumes "rank_unified_candidates db cs kind raw p limit = Inr out"
  shows "\<exists>priced. rmap (price_candidate db p kind raw) cs = Inr priced
    \<and> out = take (nat (max 1 limit)) (dedup_by (same_commit db) [] (sort_key (unified_key kind) (concat priced)))"
  using assms take_unique_dedup [of "[]" limit]
  by (auto simp: rank_unified_candidates_def result_splits)

text \<open>
  Claim C14. The unified ranking is an exact selection.  What it returns is sorted by the ranking key
  (the structural tiers decide before any score), names no commit twice (equal NFKC text and
  consumed keys), is made only of priced input candidates, and holds at most the limit (one, for a
  limit below one); every input candidate is represented by one that is no worse under the same
  commit, or the list is full of candidates that are no worse.
\<close>

theorem unified_ranking_is_selection:
  assumes "rank_unified_candidates db cs kind raw p limit = Inr out"
  shows "sorted (map (unified_key kind) out) \<and> distinct (map (same_commit db) out)
    \<and> int (length out) \<le> max 1 limit
    \<and> (\<forall>d \<in> set out. \<exists>c \<in> set cs. price_candidate db p kind raw c = Inr [d])
    \<and> (\<forall>c \<in> set cs. \<exists>c'. price_candidate db p kind raw c = Inr [c']
        \<and> ((\<exists>d \<in> set out. same_commit db d = same_commit db c' \<and> unified_key kind d \<le> unified_key kind c')
         \<or> (int (length out) = max 1 limit \<and> (\<forall>d \<in> set out. unified_key kind d \<le> unified_key kind c'))))"
proof -
  obtain priced where priced: "rmap (price_candidate db p kind raw) cs = Inr priced"
    and out: "out = take (nat (max 1 limit))
        (dedup_by (same_commit db) [] (sort_key (unified_key kind) (concat priced)))"
    using rank_unified_spec [OF assms] by blast
  let ?all = "dedup_by (same_commit db) [] (sort_key (unified_key kind) (concat priced))"
  have "sorted (map (unified_key kind) ?all)" by (rule sorted_dedup_by) simp
  then have s: "sorted (map (unified_key kind) out)" unfolding out take_map [symmetric] by (rule sorted_wrt_take)
  have "distinct (map (same_commit db) ?all)" by (rule distinct_dedup_by)
  then have d: "distinct (map (same_commit db) out)" unfolding out take_map [symmetric] by (rule distinct_take)
  have len: "int (length out) \<le> max 1 limit" unfolding out by simp
  have sub: "set out \<subseteq> set (concat priced)"
    using set_dedup_by [of "same_commit db" "[]" "sort_key (unified_key kind) (concat priced)"] set_take_subset
    unfolding out by (metis dual_order.trans set_sort)
  have from_input: "\<exists>c \<in> set cs. price_candidate db p kind raw c = Inr [d]" if d: "d \<in> set out" for d
  proof -
    obtain c ys where "c \<in> set cs" "price_candidate db p kind raw c = Inr ys" "d \<in> set ys"
      using rmap_concat_members [OF priced, of d] d sub by blast
    then show ?thesis using price_candidate_single by fastforce
  qed
  have beaten: "\<exists>c'. price_candidate db p kind raw c = Inr [c']
        \<and> ((\<exists>d \<in> set out. same_commit db d = same_commit db c' \<and> unified_key kind d \<le> unified_key kind c')
         \<or> (int (length out) = max 1 limit \<and> (\<forall>d \<in> set out. unified_key kind d \<le> unified_key kind c')))"
    if c: "c \<in> set cs" for c
  proof -
    obtain ys where ys: "price_candidate db p kind raw c = Inr ys"
      using rmap_Inr_nth [OF priced] c by (metis in_set_conv_nth)
    then obtain c' where c': "price_candidate db p kind raw c = Inr [c']" using price_candidate_single by blast
    moreover have "c' \<in> set [c']" by simp
    ultimately have "c' \<in> set (concat priced)" using rmap_concat_members [OF priced, of c'] c by blast
    from best_first [OF out this] show ?thesis using c' by force
  qed
  show ?thesis using s d len from_input beaten by blast
qed


definition priced_literal :: "unicode_db \<Rightarrow> policy \<Rightarrow> string \<Rightarrow> pystr \<Rightarrow> int \<Rightarrow> candidate" where
  "priced_literal db p kind raw epoch =
     (let l = literal_candidate raw epoch; s = detect_script raw; prior = language_prior db p kind s raw
      in l\<lparr>c_language_prior := prior, c_total_score := c_constraint_cost l + prior\<rparr>)"

lemma price_literal: "price_candidate db p kind raw (literal_candidate raw epoch) = Inr [priced_literal db p kind raw epoch]"
  by (simp add: price_candidate_def literal_candidate_def priced_literal_def allows_def Let_def)

lemma rank_literal:
  "rank_unified_candidates db [literal_candidate raw epoch] kind raw p 1 = Inr [priced_literal db p kind raw epoch]"
  by (simp add: rank_unified_candidates_def price_literal)

lemma price_keeps_score:
  "price_candidate db p kind raw c = Inr [d] \<Longrightarrow> c_model_score d = c_model_score c"
  by (auto simp: price_candidate_def Let_def result_splits split: if_splits)

lemma ranked_scored:
  assumes "rank_unified_candidates db cs kind raw p limit = Inr out" "\<forall>c \<in> set cs. c_model_score c \<noteq> None"
  shows "\<forall>d \<in> set out. c_model_score d \<noteq> None"
proof
  fix d assume d: "d \<in> set out"
  obtain priced where priced: "rmap (price_candidate db p kind raw) cs = Inr priced"
    and out: "out = take (nat (max 1 limit))
        (dedup_by (same_commit db) [] (sort_key (unified_key kind) (concat priced)))"
    using rank_unified_spec [OF assms(1)] by blast
  have "d \<in> set (concat priced)"
    using d set_dedup_by [of "same_commit db" "[]" "sort_key (unified_key kind) (concat priced)"]
    unfolding out by (metis in_mono in_set_takeD set_sort)
  then obtain c ys where c: "c \<in> set cs" "price_candidate db p kind raw c = Inr ys" "d \<in> set ys"
    using rmap_concat_members [OF priced, of d] by blast
  then have "price_candidate db p kind raw c = Inr [d]" using price_candidate_single by fastforce
  then show "c_model_score d \<noteq> None" using price_keeps_score assms(2) c(1) by metis
qed

lemma ranked_length:
  "rank_unified_candidates db cs kind raw p limit = Inr out \<Longrightarrow> int (length out) \<le> max 1 limit"
  using rank_unified_spec by fastforce

text \<open>
  Claim C38. What the user typed can always be committed, and only last.  With two or more slots the
  query shows at most that many candidates; every one but the reserved literal carries a model
  score; and when the keys look Latin and no model candidate is exactly them, the last one is the
  priced literal, with exactly one slot spent on it.
\<close>

theorem literal_reserved:
  assumes state: "state_or_latest en state = Some s" and raw: "raw \<noteq> []" and limit: "limit \<ge> 2"
    and pinyin: "(case ue_pinyin_constraint en of None \<Rightarrow> Inr [] | Some f \<Rightarrow> f s raw after) = Inr ps"
    and latin: "ue_latin_prefix_constraint en s raw after = Inr ls"
    and out: "unified_query db en before raw state after limit = Inr out"
  shows "int (length out) \<le> limit
    \<and> (if latin_prefix raw \<and> \<not> (\<exists>c \<in> set (ps @ ls). is_model_literal db raw c)
       then \<exists>ranked. out = ranked @ [priced_literal db (ue_script_policy en) (classify before) raw (ue_epoch en s)]
              \<and> (\<forall>c \<in> set ranked. c_model_score c \<noteq> None)
       else \<forall>c \<in> set out. c_model_score c \<noteq> None)"
proof -
  let ?cs = "filter (\<lambda>c. c_model_score c \<noteq> None) (ps @ ls)"
  let ?lit = "priced_literal db (ue_script_policy en) (classify before) raw (ue_epoch en s)"
  let ?reserve = "latin_prefix raw \<and> \<not> (\<exists>c \<in> set (ps @ ls). is_model_literal db raw c)"
  define R where "R \<longleftrightarrow> ?reserve"
  have "list_ex (is_model_literal db raw) ?cs \<longleftrightarrow> (\<exists>c \<in> set (ps @ ls). is_model_literal db raw c)"
    by (auto simp: list_ex_iff is_model_literal_def)
  then have exact: "latin_prefix raw \<and> \<not> list_ex (is_model_literal db raw) ?cs \<and> limit > 0 \<longleftrightarrow> R"
    using limit by (simp add: R_def)
  let ?bound = "if R then max 0 (limit - 1) else limit"
  have "unified_query db en before raw state after limit =
    rbind (rank_unified_candidates db ?cs (classify before) raw (ue_script_policy en) ?bound) (\<lambda>ranked.
      rbind (Inr (if R then [?lit] else [])) (\<lambda>literal. Inr (py_take limit (ranked @ literal))))"
    by (cases R)
       (simp_all only: unified_query_def raw state pinyin latin if_False option.case rbind.simps Let_def exact
         rank_literal if_True)
  then have e: "Inr out = rbind (rank_unified_candidates db ?cs (classify before) raw (ue_script_policy en) ?bound)
      (\<lambda>ranked. rbind (Inr (if R then [?lit] else [])) (\<lambda>literal. Inr (py_take limit (ranked @ literal))))"
    unfolding out .
  obtain ranked where ranked: "rank_unified_candidates db ?cs (classify before) raw (ue_script_policy en) ?bound = Inr ranked"
    using e by (cases "rank_unified_candidates db ?cs (classify before) raw (ue_script_policy en) ?bound") simp_all
  have o: "out = py_take limit (ranked @ (if R then [?lit] else []))"
    using e unfolding ranked rbind.simps by (rule sum.inject(2) [THEN iffD1])
  have scored: "\<forall>d \<in> set ranked. c_model_score d \<noteq> None" by (rule ranked_scored [OF ranked]) auto
  have len: "int (length ranked) \<le> ?bound" using ranked_length [OF ranked] limit by (auto split: if_splits)
  have "int (length (ranked @ (if R then [?lit] else []))) \<le> limit" using len limit by (auto split: if_splits)
  then have all: "out = ranked @ (if R then [?lit] else [])" using limit unfolding o py_take_def by simp
  have "int (length out) \<le> limit" unfolding all by fact
  then show ?thesis using scored all unfolding R_def by (cases ?reserve) auto
qed


section \<open>Concrete inputs\<close>

definition scored_candidate :: "pystr \<Rightarrow> string \<Rightarrow> nat \<Rightarrow> real \<Rightarrow> candidate" where
  "scored_candidate s sc n score = (literal_candidate s 7)\<lparr>c_consumed_keys := n, c_script := sc, c_constraint_kind := ''pinyin'',
     c_model_score := Some score, c_constraint_cost := 0, c_ranking_tier := 0\<rparr>"

definition no_candidates :: "unit \<Rightarrow> pystr \<Rightarrow> pystr \<Rightarrow> candidate list result" where
  "no_candidates s raw after = Inr []"

definition one_candidate :: "unit \<Rightarrow> pystr \<Rightarrow> pystr \<Rightarrow> candidate list result" where
  "one_candidate s raw after = Inr [scored_candidate (asc ''nice'') ''latin'' 2 (-1)]"

definition epoch_7 :: "unit \<Rightarrow> int" where
  "epoch_7 s = 7"

definition small_engine :: "unit unified_engine" where
  "small_engine = \<lparr>ue_epoch = epoch_7, ue_latest_state = Some (), ue_pinyin_constraint = Some no_candidates,
     ue_latin_prefix_constraint = one_candidate, ue_script_policy = default_policy\<rparr>"

definition three_candidates :: "candidate list" where
  "three_candidates = [scored_candidate (asc ''ni'') ''latin'' 2 (-1), scored_candidate [0x4F60] ''han'' 2 (-2),
     scored_candidate [0x4F60] ''han'' 2 (-3)]"

lemma map_sum_Inr: "map_sum id f r = Inr y \<Longrightarrow> \<exists>x. r = Inr x \<and> f x = y"
  by (cases r) auto

lemma ranked_three:
  "map_sum id (map c_text) (rank_unified_candidates Pinyin.ascii_db three_candidates ''ambiguous'' (asc ''ni'') default_policy 5)
   = Inr [[0x4F60], asc ''ni'']"
  by code_simp

lemma small_query:
  "map_sum id (map c_text) (unified_query Pinyin.ascii_db small_engine [] (asc ''ni'') None [] 5) = Inr [asc ''nice'', asc ''ni'']"
  by code_simp


theorem unified_ranking_is_selection_witness:
  "\<exists>out. map c_text out = [[0x4F60], asc ''ni''] \<and> sorted (map (unified_key ''ambiguous'') out)
     \<and> distinct (map (same_commit Pinyin.ascii_db) out)
     \<and> set (map c_text three_candidates) \<subseteq> set (map c_text out)"
proof -
  obtain out where out: "rank_unified_candidates Pinyin.ascii_db three_candidates ''ambiguous'' (asc ''ni'') default_policy 5 = Inr out"
    and shown: "map c_text out = [[0x4F60], asc ''ni'']"
    using map_sum_Inr [OF ranked_three] by (elim exE conjE)
  have "set (map c_text three_candidates) \<subseteq> set (map c_text out)"
    unfolding shown by (simp add: three_candidates_def scored_candidate_def literal_candidate_def)
  moreover note unified_ranking_is_selection [OF out]
  ultimately show ?thesis using shown by (intro exI [of _ out] conjI) (assumption | elim conjE)+
qed

theorem literal_reserved_witness:
  "\<exists>ranked. unified_query Pinyin.ascii_db small_engine [] (asc ''ni'') None [] 5
     = Inr (ranked @ [priced_literal Pinyin.ascii_db default_policy (classify []) (asc ''ni'') 7])
     \<and> list_all (\<lambda>c. c_model_score c \<noteq> None) ranked"
proof -
  obtain out where out: "unified_query Pinyin.ascii_db small_engine [] (asc ''ni'') None [] 5 = Inr out"
    using map_sum_Inr [OF small_query] by blast
  have cond: "latin_prefix (asc ''ni'') \<and> \<not> (\<exists>c \<in> set ([] @ [scored_candidate (asc ''nice'') ''latin'' 2 (-1)]).
      is_model_literal Pinyin.ascii_db (asc ''ni'') c)"
    by code_simp
  have state: "state_or_latest small_engine None = Some ()" by (simp add: state_or_latest_def small_engine_def)
  have ps: "(case ue_pinyin_constraint small_engine of None \<Rightarrow> Inr [] | Some f \<Rightarrow> f () (asc ''ni'') []) = Inr []"
    by (simp add: small_engine_def no_candidates_def)
  have ls: "ue_latin_prefix_constraint small_engine () (asc ''ni'') [] = Inr [scored_candidate (asc ''nice'') ''latin'' 2 (-1)]"
    by (simp add: small_engine_def one_candidate_def)
  have en: "ue_script_policy small_engine = default_policy" "ue_epoch small_engine () = 7"
    by (simp_all add: small_engine_def epoch_7_def)
  have two: "(5::int) \<ge> 2" and some: "asc ''ni'' \<noteq> []" by (simp_all add: asc_def)
  note spec = literal_reserved [OF state some two ps ls out, THEN conjunct2, unfolded if_P [OF cond] en]
  then obtain ranked where "out = ranked @ [priced_literal Pinyin.ascii_db default_policy (classify []) (asc ''ni'') 7]"
    "\<forall>c \<in> set ranked. c_model_score c \<noteq> None" by blast
  with out show ?thesis unfolding list_all_iff by blast
qed

end
