(* ===== verification/Beam.thy ===== *)
theory Beam
  imports Pinyin_Index
begin

text \<open>
  Constrained beam search (\<open>beam.py\<close>).  The model behind \<open>BranchingBackend\<close>, the constraint index
  and the tokenizer's \<open>encode\<close> are arguments; the backend's own state is threaded through its calls,
  and a call may raise.  \<open>SerialReplayBackend\<close> is the memoising adapter around a path evaluator.
\<close>

definition BEAM_WIDTH :: nat where "BEAM_WIDTH = 4"
definition MAX_MODEL_TOKENS :: nat where "MAX_MODEL_TOKENS = 4"
definition MAX_HAN_CHARACTERS :: nat where "MAX_HAN_CHARACTERS = 12"

record 's beam_step =
  bs_state :: 's
  bs_log_probs :: "pyfloat list"

record beam_candidate =
  bc_text :: pystr
  bc_pinyin :: pystr
  bc_consumed_keys :: nat
  bc_score :: real
  bc_token_ids :: "int list"
  bc_syllables :: nat
  bc_exact_pinyin :: bool

section \<open>The replay backend\<close>

type_synonym evaluator = "int list \<Rightarrow> pyfloat list result"
type_synonym replay_cache = "(int list, pyfloat list) odict"

definition replay_step :: "evaluator \<Rightarrow> int list \<Rightarrow> replay_cache \<Rightarrow> (int list beam_step \<times> replay_cache) result" where
  "replay_step ev token_ids cache =
     (case map_of cache token_ids of
        Some log_probs \<Rightarrow> Inr (\<lparr>bs_state = token_ids, bs_log_probs = log_probs\<rparr>, cache)
      | None \<Rightarrow> rbind (ev token_ids) (\<lambda>log_probs.
          Inr (\<lparr>bs_state = token_ids, bs_log_probs = log_probs\<rparr>, od_set token_ids log_probs cache)))"

definition replay_root :: "evaluator \<Rightarrow> replay_cache \<Rightarrow> (int list beam_step \<times> replay_cache) result" where
  "replay_root ev = replay_step ev []"

definition replay_advance ::
  "evaluator \<Rightarrow> int list \<Rightarrow> int \<Rightarrow> replay_cache \<Rightarrow> (int list beam_step \<times> replay_cache) result" where
  "replay_advance ev parent token_id = replay_step ev (parent @ [token_id])"

section \<open>Paths and extensions\<close>

text \<open>
  \<open>_Path\<close>, and \<open>_ScoredExtension\<close>, which is the path it would become with the parent's step in
  place of its own.
\<close>

record 's beam_path =
  bp_token_ids :: "int list"
  bp_text :: pystr
  bp_compact :: pystr
  bp_syllable_path :: "pystr list"
  bp_score :: real
  bp_step :: "'s beam_step"

record 's extension =
  ex_parent :: "'s beam_path"
  ex_token_id :: int
  ex_token_ids :: "int list"
  ex_text :: pystr
  ex_compact :: pystr
  ex_syllable_path :: "pystr list"
  ex_score :: real

definition remaining_input :: "unicode_db \<Rightarrow> parsed_input \<Rightarrow> nat \<Rightarrow> parsed_input result" where
  "remaining_input db parsed consumed_letters =
     parse_raw_pinyin db (drop (raw_characters_for_letters parsed consumed_letters) (pi_raw parsed))"

definition log_probability :: "pyfloat list \<Rightarrow> int \<Rightarrow> pyfloat result" where
  "log_probability log_probs token_id =
     (if token_id < 0 \<or> token_id \<ge> int (length log_probs)
      then Inl (IndexError ''token id is outside backend log-probability vector'')
      else let v = log_probs ! nat token_id in
           if v = NaN \<or> float_gt v (1 / 1000000)
           then Inl (ValueError ''backend must return normalized next-token log probabilities'')
           else Inr v)"

definition is_canonical :: "(pystr \<Rightarrow> int list) \<Rightarrow> pystr \<Rightarrow> int list \<Rightarrow> bool" where
  "is_canonical encode s token_ids = (encode s = token_ids)"

definition extension_sort_key :: "'s extension \<Rightarrow> real \<times> nat \<times> pystr \<times> pystr \<times> int list" where
  "extension_sort_key x = (- ex_score x, length (ex_token_ids x), ex_text x, ex_compact x, ex_token_ids x)"

definition candidate_sort_key :: "beam_candidate \<Rightarrow> real \<times> nat \<times> pystr \<times> pystr \<times> int list" where
  "candidate_sort_key c = (- bc_score c, length (bc_token_ids c), bc_text c, bc_pinyin c, bc_token_ids c)"

definition extend_beam :: "'s beam_path \<Rightarrow> entry \<Rightarrow> int \<Rightarrow> real \<Rightarrow> 's extension" where
  "extend_beam path e token_id lp =
     \<lparr>ex_parent = path, ex_token_id = token_id, ex_token_ids = bp_token_ids path @ [token_id],
      ex_text = bp_text path @ e_text e, ex_compact = bp_compact path @ e_pinyin e,
      ex_syllable_path = bp_syllable_path path @ e_syllable_path e, ex_score = bp_score path + lp\<rparr>"

definition finish_candidate :: "parsed_input \<Rightarrow> 's extension \<Rightarrow> beam_candidate" where
  "finish_candidate parsed x =
     \<lparr>bc_text = ex_text x, bc_pinyin = join [quote] (ex_syllable_path x),
      bc_consumed_keys = length (pi_raw parsed), bc_score = ex_score x, bc_token_ids = ex_token_ids x,
      bc_syllables = length (ex_syllable_path x), bc_exact_pinyin = (ex_compact x = pi_compact parsed)\<rparr>"

section \<open>The search\<close>

type_synonym 's scan_tables = "(pystr, beam_candidate) odict \<times> 's extension list"

text \<open>One legal entry: an extension it yields, or none.\<close>

definition scored_extension ::
  "(pystr \<Rightarrow> int list) \<Rightarrow> 's beam_path \<Rightarrow> entry \<Rightarrow> 's extension option result" where
  "scored_extension encode path e =
     (case e_token_id e of
        None \<Rightarrow> Inr None
      | Some token_id \<Rightarrow>
          if e_coverage e \<or> \<not> is_all_han (e_text e) then Inr None
          else if length (bp_text path) + length (e_text e) > MAX_HAN_CHARACTERS then Inr None
          else if \<not> is_canonical encode (bp_text path @ e_text e) (bp_token_ids path @ [token_id]) then Inr None
          else rbind (log_probability (bs_log_probs (bp_step path)) token_id) (\<lambda>lp.
            case lp of Fin r \<Rightarrow> Inr (Some (extend_beam path e token_id r)) | _ \<Rightarrow> Inr None))"

definition keep_extension :: "parsed_input \<Rightarrow> bool \<Rightarrow> 's extension \<Rightarrow> 's scan_tables \<Rightarrow> 's scan_tables" where
  "keep_extension parsed deeper x = (\<lambda>(finished, active).
     if length (ex_compact x) \<ge> length (pi_compact parsed)
     then (best_put (\<lambda>new old. candidate_sort_key new < candidate_sort_key old) (ex_text x)
             (finish_candidate parsed x) finished, active)
     else if deeper then (finished, active @ [x])
     else (finished, active))"

fun scan_entries ::
  "(pystr \<Rightarrow> int list) \<Rightarrow> parsed_input \<Rightarrow> bool \<Rightarrow> 's beam_path \<Rightarrow> entry list \<Rightarrow> 's scan_tables \<Rightarrow> 's scan_tables result" where
  "scan_entries encode parsed deeper path [] tables = Inr tables"
| "scan_entries encode parsed deeper path (e # es) tables =
     rbind (scored_extension encode path e) (\<lambda>x. case x of
       None \<Rightarrow> scan_entries encode parsed deeper path es tables
     | Some x \<Rightarrow> scan_entries encode parsed deeper path es (keep_extension parsed deeper x tables))"

fun scan_frontier ::
  "unicode_db \<Rightarrow> (pystr \<Rightarrow> int list) \<Rightarrow> (parsed_input \<Rightarrow> entry list) \<Rightarrow> parsed_input \<Rightarrow> bool \<Rightarrow> 's beam_path list
     \<Rightarrow> 's scan_tables \<Rightarrow> 's scan_tables result" where
  "scan_frontier db encode legal parsed deeper [] tables = Inr tables"
| "scan_frontier db encode legal parsed deeper (path # paths) tables =
     rbind (remaining_input db parsed (length (bp_compact path))) (\<lambda>remaining.
     rbind (scan_entries encode parsed deeper path (legal remaining) tables) (\<lambda>tables.
       scan_frontier db encode legal parsed deeper paths tables))"

definition advanced_path :: "'s extension \<Rightarrow> 's beam_step \<Rightarrow> 's beam_path" where
  "advanced_path x st =
     \<lparr>bp_token_ids = ex_token_ids x, bp_text = ex_text x, bp_compact = ex_compact x,
      bp_syllable_path = ex_syllable_path x, bp_score = ex_score x, bp_step = st\<rparr>"

fun advance_selected ::
  "('s \<Rightarrow> int \<Rightarrow> 'b \<Rightarrow> ('s beam_step \<times> 'b) result) \<Rightarrow> 's extension list \<Rightarrow> 'b \<Rightarrow> ('s beam_path list \<times> 'b) result" where
  "advance_selected advance [] b = Inr ([], b)"
| "advance_selected advance (x # xs) b =
     rbind (advance (bs_state (bp_step (ex_parent x))) (ex_token_id x) b) (\<lambda>(st, b).
     rbind (advance_selected advance xs b) (\<lambda>(paths, b). Inr (advanced_path x st # paths, b)))"

text \<open>\<open>for depth in range(MAX_MODEL_TOKENS)\<close>; the argument counts the rounds left.\<close>

fun beam_rounds ::
  "unicode_db \<Rightarrow> ('s \<Rightarrow> int \<Rightarrow> 'b \<Rightarrow> ('s beam_step \<times> 'b) result) \<Rightarrow> (pystr \<Rightarrow> int list) \<Rightarrow> (parsed_input \<Rightarrow> entry list)
     \<Rightarrow> parsed_input \<Rightarrow> nat \<Rightarrow> 's beam_path list \<Rightarrow> (pystr, beam_candidate) odict \<Rightarrow> 'b
     \<Rightarrow> ((pystr, beam_candidate) odict \<times> 'b) result" where
  "beam_rounds db advance encode legal parsed 0 frontier finished b = Inr (finished, b)"
| "beam_rounds db advance encode legal parsed (Suc left) frontier finished b =
     rbind (scan_frontier db encode legal parsed (left > 0) frontier (finished, [])) (\<lambda>(finished, active).
       if active = [] then Inr (finished, b)
       else rbind (advance_selected advance (take BEAM_WIDTH (sort_key extension_sort_key active)) b)
              (\<lambda>(frontier, b). beam_rounds db advance encode legal parsed left frontier finished b))"

definition start_beam :: "'s beam_step \<Rightarrow> 's beam_path" where
  "start_beam st = \<lparr>bp_token_ids = [], bp_text = [], bp_compact = [], bp_syllable_path = [], bp_score = 0, bp_step = st\<rparr>"

definition constrained_beam_search ::
  "unicode_db \<Rightarrow> ('b \<Rightarrow> ('s beam_step \<times> 'b) result) \<Rightarrow> ('s \<Rightarrow> int \<Rightarrow> 'b \<Rightarrow> ('s beam_step \<times> 'b) result)
     \<Rightarrow> (parsed_input \<Rightarrow> entry list) \<Rightarrow> (pystr \<Rightarrow> int list) \<Rightarrow> pystr \<Rightarrow> int \<Rightarrow> 'b \<Rightarrow> (beam_candidate list \<times> 'b) result" where
  "constrained_beam_search db root_step advance legal encode raw_pinyin limit b =
     (if limit \<le> 0 then Inr ([], b)
      else rbind (parse_raw_pinyin db raw_pinyin) (\<lambda>parsed.
        if pi_compact parsed = [] then Inr ([], b)
        else rbind (root_step b) (\<lambda>(st, b).
             rbind (beam_rounds db advance encode legal parsed MAX_MODEL_TOKENS [start_beam st] [] b) (\<lambda>(finished, b).
               Inr (take (nat limit) (sort_key candidate_sort_key (map snd finished)), b)))))"


section \<open>The interfaces the search relies on\<close>

text \<open>
  A backend state stands for the token path behind it: a step from a state yields the next-token
  log probabilities of the extended path, and the parent stays usable.
\<close>

locale branching_backend =
  fixes root_step :: "'b \<Rightarrow> ('s beam_step \<times> 'b) result"
    and advance :: "'s \<Rightarrow> int \<Rightarrow> 'b \<Rightarrow> ('s beam_step \<times> 'b) result"
    and good :: "'b \<Rightarrow> bool"
    and path_of :: "'s \<Rightarrow> int list"
    and evaluate :: "int list \<Rightarrow> pyfloat list"
  assumes root_law: "good b \<Longrightarrow> root_step b = Inr (st, b')
      \<Longrightarrow> good b' \<and> path_of (bs_state st) = [] \<and> bs_log_probs st = evaluate []"
    and advance_law: "good b \<Longrightarrow> advance s t b = Inr (st, b')
      \<Longrightarrow> good b' \<and> path_of (bs_state st) = path_of s @ [t] \<and> bs_log_probs st = evaluate (path_of s @ [t])"

text \<open>An index offers its own entries, and only legal ones.\<close>

locale constraint_index =
  fixes legal :: "'i \<Rightarrow> parsed_input \<Rightarrow> entry list"
    and has_entry :: "'i \<Rightarrow> entry \<Rightarrow> bool"
    and index_good :: "'i \<Rightarrow> bool"
  assumes legal_law: "index_good ix \<Longrightarrow> pi_compact p \<noteq> []
      \<Longrightarrow> e \<in> set (legal ix p) \<longleftrightarrow> has_entry ix e \<and> legal_entry p e"

definition path_score :: "(int list \<Rightarrow> pyfloat list) \<Rightarrow> int list \<Rightarrow> real" where
  "path_score evaluate ts = (\<Sum>i<length ts. fin_val (evaluate (take i ts) ! nat (ts ! i)))"

definition spelled :: "entry list \<Rightarrow> pystr" where
  "spelled es = concat (map e_pinyin es)"

definition written :: "entry list \<Rightarrow> pystr" where
  "written es = concat (map e_text es)"

definition tokens :: "entry list \<Rightarrow> int list" where
  "tokens es = map (\<lambda>e. the (e_token_id e)) es"

definition word_entry :: "entry \<Rightarrow> bool" where
  "word_entry e \<longleftrightarrow> \<not> e_coverage e \<and> e_token_id e \<noteq> None \<and> is_all_han (e_text e)"

text \<open>Each entry is legal for the keys its predecessors leave.\<close>

definition legal_steps :: "unicode_db \<Rightarrow> (entry \<Rightarrow> bool) \<Rightarrow> parsed_input \<Rightarrow> entry list \<Rightarrow> bool" where
  "legal_steps db has parsed es \<longleftrightarrow> (\<forall>i < length es. word_entry (es ! i) \<and> has (es ! i)
     \<and> length (spelled (take i es)) < length (pi_compact parsed)
     \<and> (\<exists>rest. remaining_input db parsed (length (spelled (take i es))) = Inr rest \<and> legal_entry rest (es ! i)))"

definition words_ok ::
  "unicode_db \<Rightarrow> (entry \<Rightarrow> bool) \<Rightarrow> (pystr \<Rightarrow> int list) \<Rightarrow> parsed_input \<Rightarrow> entry list \<Rightarrow> bool" where
  "words_ok db has encode parsed es \<longleftrightarrow> legal_steps db has parsed es \<and> length (written es) \<le> MAX_HAN_CHARACTERS
     \<and> (es \<noteq> [] \<longrightarrow> encode (written es) = tokens es)"

lemma legal_steps_snoc:
  "legal_steps db has parsed (es @ [e]) \<longleftrightarrow> legal_steps db has parsed es \<and> word_entry e \<and> has e
     \<and> length (spelled es) < length (pi_compact parsed)
     \<and> (\<exists>rest. remaining_input db parsed (length (spelled es)) = Inr rest \<and> legal_entry rest e)"
  unfolding legal_steps_def by (auto simp: less_Suc_eq nth_append)

lemma path_score_snoc:
  "path_score evaluate (ts @ [t]) = path_score evaluate ts + fin_val (evaluate ts ! nat t)"
proof -
  have "(\<Sum>i<length ts. fin_val (evaluate (take i (ts @ [t])) ! nat ((ts @ [t]) ! i)))
      = (\<Sum>i<length ts. fin_val (evaluate (take i ts) ! nat (ts ! i)))"
    by (rule sum.cong) (auto simp: nth_append)
  then show ?thesis by (simp add: path_score_def)
qed

lemma remaining_input_compact:
  assumes "unicode_ascii db" "valid_parsed p" "n \<le> length (pi_compact p)" "remaining_input db p n = Inr q"
  shows "pi_compact q = drop n (pi_compact p)"
proof -
  note split = raw_characters_split [OF assms(2,3)]
  have keys: "list_all is_pinyin_key (drop (raw_characters_for_letters p n) (pi_raw p))"
    using assms(2) by (auto simp: valid_parsed_def list_all_iff dest: in_set_dropD)
  from parse_valid_keys [OF assms(1) keys split(4,5)] assms(4) split(3) show ?thesis
    by (auto simp: remaining_input_def)
qed

text \<open>The entries of a chain, all but the last, spell a strict prefix of the typed letters.\<close>

lemma legal_steps_spelled:
  assumes "unicode_ascii db" "valid_parsed p" "legal_steps db has p es"
  shows "prefix (spelled es) (pi_compact p) \<or> prefix (pi_compact p) (spelled es)"
  using assms(3)
proof (induction es rule: rev_induct)
  case (snoc e es)
  then have len: "length (spelled es) < length (pi_compact p)" and steps: "legal_steps db has p es"
    by (simp_all add: legal_steps_snoc)
  obtain rest where rest: "remaining_input db p (length (spelled es)) = Inr rest" "legal_entry rest e"
    using snoc.prems unfolding legal_steps_snoc by blast
  have pre: "prefix (spelled es) (pi_compact p)" using snoc.IH [OF steps] len prefix_length_le by fastforce
  then obtain zs where zs: "pi_compact p = spelled es @ zs" by (auto simp: prefix_def)
  have "pi_compact rest = zs" using remaining_input_compact [OF assms(1,2) _ rest(1)] len zs by simp
  then have "prefix (e_pinyin e) zs \<or> prefix zs (e_pinyin e)" using rest(2) by (simp add: legal_entry_def)
  then show ?case by (auto simp: zs spelled_def)
qed (simp add: spelled_def)


section \<open>What the search returns\<close>

text \<open>The candidate a chain of entries makes.\<close>

definition word_candidate :: "(int list \<Rightarrow> pyfloat list) \<Rightarrow> parsed_input \<Rightarrow> entry list \<Rightarrow> beam_candidate" where
  "word_candidate evaluate parsed es =
     \<lparr>bc_text = written es, bc_pinyin = join [quote] (concat (map e_syllable_path es)),
      bc_consumed_keys = length (pi_raw parsed), bc_score = path_score evaluate (tokens es),
      bc_token_ids = tokens es, bc_syllables = length (concat (map e_syllable_path es)),
      bc_exact_pinyin = (spelled es = pi_compact parsed)\<rparr>"

definition found_word ::
  "(int list \<Rightarrow> pyfloat list) \<Rightarrow> unicode_db \<Rightarrow> (entry \<Rightarrow> bool) \<Rightarrow> (pystr \<Rightarrow> int list) \<Rightarrow> parsed_input \<Rightarrow> beam_candidate \<Rightarrow> bool" where
  "found_word evaluate db has encode parsed c \<longleftrightarrow> (\<exists>es. es \<noteq> [] \<and> length es \<le> MAX_MODEL_TOKENS
     \<and> words_ok db has encode parsed es \<and> length (pi_compact parsed) \<le> length (spelled es)
     \<and> c = word_candidate evaluate parsed es)"

text \<open>A table only improves.\<close>

definition no_worse :: "(pystr, beam_candidate) odict \<Rightarrow> (pystr, beam_candidate) odict \<Rightarrow> bool" where
  "no_worse d d' \<longleftrightarrow> (\<forall>k v. map_of d k = Some v \<longrightarrow> (\<exists>v'. map_of d' k = Some v' \<and> candidate_sort_key v' \<le> candidate_sort_key v))"

abbreviation keep_best :: "pystr \<Rightarrow> beam_candidate \<Rightarrow> (pystr, beam_candidate) odict \<Rightarrow> (pystr, beam_candidate) odict" where
  "keep_best \<equiv> best_put (\<lambda>new old. candidate_sort_key new < candidate_sort_key old)"

lemma no_worse_refl: "no_worse d d"
  by (auto simp: no_worse_def)

lemma no_worse_trans: "no_worse d1 d2 \<Longrightarrow> no_worse d2 d3 \<Longrightarrow> no_worse d1 d3"
  unfolding no_worse_def by (meson order_trans)

lemma no_worse_put: "no_worse d (keep_best k c d)"
  by (auto simp: no_worse_def map_of_best_put)

lemma put_no_worse: "\<exists>v'. map_of (keep_best k c d) k = Some v' \<and> candidate_sort_key v' \<le> candidate_sort_key c"
  by (cases "map_of d k") (auto simp: map_of_best_put)

lemma scored_extension_Some:
  "scored_extension encode p e = Inr (Some x) \<longleftrightarrow> (\<exists>t r. e_token_id e = Some t \<and> \<not> e_coverage e \<and> is_all_han (e_text e)
     \<and> length (bp_text p) + length (e_text e) \<le> MAX_HAN_CHARACTERS
     \<and> encode (bp_text p @ e_text e) = bp_token_ids p @ [t]
     \<and> log_probability (bs_log_probs (bp_step p)) t = Inr (Fin r) \<and> x = extend_beam p e t r)"
proof (cases "e_token_id e")
  case (Some t)
  show ?thesis
  proof (cases "log_probability (bs_log_probs (bp_step p)) t")
    case (Inr v)
    then show ?thesis using Some by (cases v) (auto simp: scored_extension_def is_canonical_def)
  qed (use Some in \<open>auto simp: scored_extension_def is_canonical_def\<close>)
qed (simp add: scored_extension_def)

lemma keep_no_worse: "no_worse (fst tb) (fst (keep_extension parsed deeper x tb))"
  by (auto simp: keep_extension_def no_worse_refl no_worse_put split: prod.splits)

lemma scan_entries_Cons:
  "scan_entries encode parsed deeper p (e # es) tb = Inr tb' \<Longrightarrow> \<exists>found. scored_extension encode p e = Inr found
     \<and> scan_entries encode parsed deeper p es
         (case found of None \<Rightarrow> tb | Some x \<Rightarrow> keep_extension parsed deeper x tb) = Inr tb'"
  by (cases "scored_extension encode p e") (auto split: option.splits)

lemma scan_no_worse: "scan_entries encode parsed deeper p es tb = Inr tb' \<Longrightarrow> no_worse (fst tb) (fst tb')"
proof (induction es arbitrary: tb)
  case (Cons e es)
  obtain found where "scan_entries encode parsed deeper p es
         (case found of None \<Rightarrow> tb | Some x \<Rightarrow> keep_extension parsed deeper x tb) = Inr tb'"
    using scan_entries_Cons [OF Cons.prems] by blast
  from Cons.IH [OF this] show ?case using keep_no_worse no_worse_trans by (cases found) fastforce+
qed (simp add: no_worse_refl)

text \<open>An entry that covers the keys leaves a candidate at least as good as its own.\<close>

lemma scan_reaches:
  assumes "e \<in> set es" "scored_extension encode p e = Inr (Some x)" "length (pi_compact parsed) \<le> length (ex_compact x)"
    and "scan_entries encode parsed deeper p es tb = Inr tb'"
  shows "\<exists>v. map_of (fst tb') (ex_text x) = Some v \<and> candidate_sort_key v \<le> candidate_sort_key (finish_candidate parsed x)"
  using assms(1,4)
proof (induction es arbitrary: tb)
  case (Cons e' es)
  obtain found where f: "scored_extension encode p e' = Inr found" "scan_entries encode parsed deeper p es
         (case found of None \<Rightarrow> tb | Some y \<Rightarrow> keep_extension parsed deeper y tb) = Inr tb'"
    using scan_entries_Cons [OF Cons.prems(2)] by blast
  show ?case
  proof (cases "e' = e")
    case True
    then have "found = Some x" using f(1) assms(2) by simp
    then have "no_worse (fst (keep_extension parsed deeper x tb)) (fst tb')" using f(2) scan_no_worse by fastforce
    moreover have "fst (keep_extension parsed deeper x tb) = keep_best (ex_text x) (finish_candidate parsed x) (fst tb)"
      using assms(3) by (simp add: keep_extension_def split: prod.splits)
    moreover obtain v where v: "map_of (keep_best (ex_text x) (finish_candidate parsed x) (fst tb)) (ex_text x) = Some v"
        "candidate_sort_key v \<le> candidate_sort_key (finish_candidate parsed x)"
      using put_no_worse by blast
    ultimately obtain w where "map_of (fst tb') (ex_text x) = Some w" "candidate_sort_key w \<le> candidate_sort_key v"
      unfolding no_worse_def by fastforce
    then show ?thesis using v(2) order_trans by blast
  next
    case False
    then have "e \<in> set es" using Cons.prems(1) by simp
    then show ?thesis using Cons.IH f(2) by blast
  qed
qed simp

context branching_backend begin

text \<open>A path of the frontier, and an extension, with the entries it is made of.\<close>

definition path_ok ::
  "unicode_db \<Rightarrow> (entry \<Rightarrow> bool) \<Rightarrow> (pystr \<Rightarrow> int list) \<Rightarrow> parsed_input \<Rightarrow> nat \<Rightarrow> 's beam_path \<Rightarrow> bool" where
  "path_ok db has encode parsed n p \<longleftrightarrow> (\<exists>es. length es = n \<and> words_ok db has encode parsed es
     \<and> bp_token_ids p = tokens es \<and> bp_text p = written es \<and> bp_compact p = spelled es
     \<and> bp_syllable_path p = concat (map e_syllable_path es) \<and> bp_score p = path_score evaluate (tokens es)
     \<and> length (spelled es) < length (pi_compact parsed)
     \<and> path_of (bs_state (bp_step p)) = tokens es \<and> bs_log_probs (bp_step p) = evaluate (tokens es))"

definition extension_ok ::
  "unicode_db \<Rightarrow> (entry \<Rightarrow> bool) \<Rightarrow> (pystr \<Rightarrow> int list) \<Rightarrow> parsed_input \<Rightarrow> nat \<Rightarrow> 's extension \<Rightarrow> bool" where
  "extension_ok db has encode parsed n x \<longleftrightarrow> (\<exists>es. es \<noteq> [] \<and> length es = n \<and> words_ok db has encode parsed es
     \<and> ex_token_ids x = tokens es \<and> ex_text x = written es \<and> ex_compact x = spelled es
     \<and> ex_syllable_path x = concat (map e_syllable_path es) \<and> ex_score x = path_score evaluate (tokens es)
     \<and> path_of (bs_state (bp_step (ex_parent x))) @ [ex_token_id x] = tokens es)"

lemma scored_extension_ok:
  assumes path: "path_ok db has encode parsed n p"
    and e: "remaining_input db parsed (length (bp_compact p)) = Inr rest" "has e" "legal_entry rest e"
    and x: "scored_extension encode p e = Inr (Some x)"
  shows "extension_ok db has encode parsed (Suc n) x"
proof -
  obtain es where es: "length es = n" "words_ok db has encode parsed es"
      "bp_token_ids p = tokens es" "bp_text p = written es" "bp_compact p = spelled es"
      "bp_syllable_path p = concat (map e_syllable_path es)" "bp_score p = path_score evaluate (tokens es)"
      "length (spelled es) < length (pi_compact parsed)"
      "path_of (bs_state (bp_step p)) = tokens es" "bs_log_probs (bp_step p) = evaluate (tokens es)"
    using path unfolding path_ok_def by blast
  obtain t r where t: "e_token_id e = Some t" "\<not> e_coverage e" "is_all_han (e_text e)"
      "length (written es) + length (e_text e) \<le> MAX_HAN_CHARACTERS"
      "encode (written es @ e_text e) = tokens es @ [t]"
      "log_probability (evaluate (tokens es)) t = Inr (Fin r)" and xe: "x = extend_beam p e t r"
    using x unfolding scored_extension_Some es(3,4,10) by blast
  have r: "fin_val (evaluate (tokens es) ! nat t) = r"
    using t(6) by (auto simp: log_probability_def Let_def split: if_splits)
  have "words_ok db has encode parsed (es @ [e])"
    using es(2,8) e t by (auto simp: words_ok_def legal_steps_snoc word_entry_def written_def tokens_def es(5))
  moreover have "tokens (es @ [e]) = tokens es @ [t]" using t(1) by (simp add: tokens_def)
  ultimately show ?thesis unfolding extension_ok_def xe
    by (intro exI [of _ "es @ [e]"])
       (simp add: extend_beam_def es written_def spelled_def path_score_snoc r)
qed


definition finished_ok ::
  "unicode_db \<Rightarrow> (entry \<Rightarrow> bool) \<Rightarrow> (pystr \<Rightarrow> int list) \<Rightarrow> parsed_input \<Rightarrow> (pystr, beam_candidate) odict \<Rightarrow> bool" where
  "finished_ok db has encode parsed d \<longleftrightarrow> od_ok d
     \<and> (\<forall>kc \<in> set d. found_word evaluate db has encode parsed (snd kc) \<and> bc_text (snd kc) = fst kc)"

definition tables_ok ::
  "unicode_db \<Rightarrow> (entry \<Rightarrow> bool) \<Rightarrow> (pystr \<Rightarrow> int list) \<Rightarrow> parsed_input \<Rightarrow> nat \<Rightarrow> 's scan_tables \<Rightarrow> bool" where
  "tables_ok db has encode parsed n tb \<longleftrightarrow> finished_ok db has encode parsed (fst tb)
     \<and> (\<forall>x \<in> set (snd tb). extension_ok db has encode parsed (Suc n) x \<and> length (ex_compact x) < length (pi_compact parsed))"

lemma keep_extension_ok:
  assumes "extension_ok db has encode parsed (Suc n) x" "Suc n \<le> MAX_MODEL_TOKENS" "tables_ok db has encode parsed n tb"
  shows "tables_ok db has encode parsed n (keep_extension parsed deeper x tb)
     \<and> no_worse (fst tb) (fst (keep_extension parsed deeper x tb))"
proof -
  obtain d active where tb: "tb = (d, active)" by fastforce
  show ?thesis
  proof (cases "length (ex_compact x) \<ge> length (pi_compact parsed)")
    case True
    obtain es where es: "es \<noteq> []" "length es = Suc n" "words_ok db has encode parsed es"
        "ex_token_ids x = tokens es" "ex_text x = written es" "ex_compact x = spelled es"
        "ex_syllable_path x = concat (map e_syllable_path es)" "ex_score x = path_score evaluate (tokens es)"
      using assms(1) unfolding extension_ok_def by blast
    have c: "finish_candidate parsed x = word_candidate evaluate parsed es"
      by (simp add: finish_candidate_def word_candidate_def es)
    then have "found_word evaluate db has encode parsed (finish_candidate parsed x)"
      unfolding found_word_def using es assms(2) True by auto
    moreover have "bc_text (finish_candidate parsed x) = ex_text x" by (simp add: finish_candidate_def)
    moreover have "set (keep_best (ex_text x) (finish_candidate parsed x) d)
        \<subseteq> insert (ex_text x, finish_candidate parsed x) (set d)"
      by (rule set_best_put)
    ultimately have "finished_ok db has encode parsed (keep_best (ex_text x) (finish_candidate parsed x) d)"
      using assms(3) unfolding finished_ok_def tables_ok_def tb by auto
    then show ?thesis using True assms(3) no_worse_put
      unfolding keep_extension_def tables_ok_def tb by simp
  qed (use assms in \<open>auto simp: keep_extension_def tables_ok_def tb no_worse_refl\<close>)
qed

lemma scan_entries_ok:
  assumes "path_ok db has encode parsed n p" "remaining_input db parsed (length (bp_compact p)) = Inr rest"
    and "\<forall>e \<in> set es. has e \<and> legal_entry rest e" "Suc n \<le> MAX_MODEL_TOKENS"
    and "tables_ok db has encode parsed n tb" "scan_entries encode parsed deeper p es tb = Inr tb'"
  shows "tables_ok db has encode parsed n tb' \<and> no_worse (fst tb) (fst tb')"
  using assms(3,5,6)
proof (induction es arbitrary: tb)
  case (Cons e es)
  from Cons.prems(3) obtain found where o: "scored_extension encode p e = Inr found"
    by (cases "scored_extension encode p e") auto
  show ?case
  proof (cases found)
    case None
    then show ?thesis using Cons o by simp
  next
    case (Some x)
    have x: "extension_ok db has encode parsed (Suc n) x"
      by (rule scored_extension_ok [OF assms(1,2)]) (use Cons.prems(1) o Some in auto)
    note keep = keep_extension_ok [OF x assms(4) Cons.prems(2), of deeper]
    have "scan_entries encode parsed deeper p es (keep_extension parsed deeper x tb) = Inr tb'"
      using Cons.prems(3) o Some by simp
    then show ?thesis using Cons.IH [of "keep_extension parsed deeper x tb"] keep Cons.prems(1) no_worse_trans
      by (meson list.set_intros(2))
  qed
qed (simp add: no_worse_refl)


lemma advance_selected_ok:
  assumes "\<forall>x \<in> set xs. extension_ok db has encode parsed n x \<and> length (ex_compact x) < length (pi_compact parsed)"
    and "good b" "advance_selected advance xs b = Inr (paths, b')"
  shows "good b' \<and> (\<forall>p \<in> set paths. path_ok db has encode parsed n p)"
  using assms
proof (induction xs arbitrary: b paths)
  case (Cons x xs)
  obtain st b1 paths' where st: "advance (bs_state (bp_step (ex_parent x))) (ex_token_id x) b = Inr (st, b1)"
    and rest: "advance_selected advance xs b1 = Inr (paths', b')" and paths: "paths = advanced_path x st # paths'"
    using Cons.prems(3) by (auto simp: result_splits)
  note law = advance_law [OF Cons.prems(2) st]
  have ih: "good b' \<and> (\<forall>p \<in> set paths'. path_ok db has encode parsed n p)"
    using Cons.IH [OF _ conjunct1 [OF law] rest] Cons.prems(1) by auto
  obtain es where es: "length es = n" "words_ok db has encode parsed es"
      "ex_token_ids x = tokens es" "ex_text x = written es" "ex_compact x = spelled es"
      "ex_syllable_path x = concat (map e_syllable_path es)" "ex_score x = path_score evaluate (tokens es)"
      "path_of (bs_state (bp_step (ex_parent x))) @ [ex_token_id x] = tokens es"
    using Cons.prems(1) unfolding extension_ok_def by force
  have "length (spelled es) < length (pi_compact parsed)" using Cons.prems(1) es(5) by simp
  then have "path_ok db has encode parsed n (advanced_path x st)"
    unfolding path_ok_def using es law by (intro exI [of _ es]) (simp add: advanced_path_def)
  then show ?case using ih paths by simp
qed simp

end

text \<open>The search is a client of both interfaces.\<close>

locale beam_search = branching_backend + constraint_index

context beam_search begin

lemma scan_frontier_ok:
  assumes "index_good ix" "unicode_ascii db" "valid_parsed parsed"
    and "\<forall>p \<in> set paths. path_ok db (has_entry ix) encode parsed n p" "Suc n \<le> MAX_MODEL_TOKENS"
    and "tables_ok db (has_entry ix) encode parsed n tb"
    and "scan_frontier db encode (legal ix) parsed deeper paths tb = Inr tb'"
  shows "tables_ok db (has_entry ix) encode parsed n tb' \<and> no_worse (fst tb) (fst tb')"
  using assms(4,6,7)
proof (induction paths arbitrary: tb)
  case (Cons p paths)
  obtain rest tb1 where rest: "remaining_input db parsed (length (bp_compact p)) = Inr rest"
    and tb1: "scan_entries encode parsed deeper p (legal ix rest) tb = Inr tb1"
    and tb': "scan_frontier db encode (legal ix) parsed deeper paths tb1 = Inr tb'"
    using Cons.prems(3) by (auto simp: result_splits)
  have p: "path_ok db (has_entry ix) encode parsed n p" using Cons.prems(1) by simp
  then have len: "length (bp_compact p) < length (pi_compact parsed)" unfolding path_ok_def by auto
  then have "pi_compact rest = drop (length (bp_compact p)) (pi_compact parsed)"
    using remaining_input_compact [OF assms(2,3) _ rest] by simp
  then have "pi_compact rest \<noteq> []" using len by simp
  then have "\<forall>e \<in> set (legal ix rest). has_entry ix e \<and> legal_entry rest e"
    using legal_law [OF assms(1), of rest] by blast
  from scan_entries_ok [OF p rest this assms(5) Cons.prems(2) tb1]
  show ?case using Cons.IH [OF _ _ tb'] Cons.prems(1) no_worse_trans by (meson list.set_intros(2))
qed (simp add: no_worse_refl)

lemma beam_rounds_ok:
  assumes "index_good ix" "unicode_ascii db" "valid_parsed parsed"
    and "good b" "\<forall>p \<in> set frontier. path_ok db (has_entry ix) encode parsed (MAX_MODEL_TOKENS - left) p"
    and "left \<le> MAX_MODEL_TOKENS" "finished_ok db (has_entry ix) encode parsed d"
    and "beam_rounds db advance encode (legal ix) parsed left frontier d b = Inr (d', b')"
  shows "good b' \<and> finished_ok db (has_entry ix) encode parsed d' \<and> no_worse d d'"
  using assms(4-8)
proof (induction left arbitrary: frontier d b)
  case (Suc left)
  let ?n = "MAX_MODEL_TOKENS - Suc left"
  obtain d1 active where scan: "scan_frontier db encode (legal ix) parsed (left > 0) frontier (d, []) = Inr (d1, active)"
    and step: "(if active = [] then Inr (d1, b)
       else rbind (advance_selected advance (take BEAM_WIDTH (sort_key extension_sort_key active)) b)
              (\<lambda>(frontier, b). beam_rounds db advance encode (legal ix) parsed left frontier d1 b)) = Inr (d', b')"
    using Suc.prems(5) by (auto simp: result_splits)
  have "tables_ok db (has_entry ix) encode parsed ?n (d, [])" using Suc.prems(4) by (simp add: tables_ok_def)
  from scan_frontier_ok [OF assms(1-3) Suc.prems(2) _ this scan]
  have tb: "tables_ok db (has_entry ix) encode parsed ?n (d1, active)" "no_worse d d1" using Suc.prems(3) by auto
  then have fin: "finished_ok db (has_entry ix) encode parsed d1" by (simp add: tables_ok_def)
  show ?case
  proof (cases "active = []")
    case True
    then show ?thesis using step fin tb(2) Suc.prems(1) by simp
  next
    case False
    obtain frontier' b1 where adv: "advance_selected advance (take BEAM_WIDTH (sort_key extension_sort_key active)) b = Inr (frontier', b1)"
      and rounds: "beam_rounds db advance encode (legal ix) parsed left frontier' d1 b1 = Inr (d', b')"
      using step False by (auto simp: result_splits)
    have "\<forall>x \<in> set (take BEAM_WIDTH (sort_key extension_sort_key active)).
        extension_ok db (has_entry ix) encode parsed (Suc ?n) x \<and> length (ex_compact x) < length (pi_compact parsed)"
      using tb(1) unfolding tables_ok_def by (auto dest!: in_set_takeD)
    from advance_selected_ok [OF this Suc.prems(1) adv]
    have g: "good b1" and f: "\<forall>p \<in> set frontier'. path_ok db (has_entry ix) encode parsed (MAX_MODEL_TOKENS - left) p"
      using Suc.prems(3) by (simp_all add: Suc_diff_Suc Suc_le_lessD)
    have "left \<le> MAX_MODEL_TOKENS" using Suc.prems(3) by simp
    from Suc.IH [OF g f this fin rounds] show ?thesis using tb(2) no_worse_trans by blast
  qed
qed (simp add: no_worse_refl)


lemma first_round_kept:
  assumes "index_good ix" "unicode_ascii db" "valid_parsed parsed" "good b"
    and "path_ok db (has_entry ix) encode parsed 0 p"
    and "scan_frontier db encode (legal ix) parsed (left > 0) [p] ([], []) = Inr (d1, active)"
    and "(if active = [] then Inr (d1, b)
       else rbind (advance_selected advance (take BEAM_WIDTH (sort_key extension_sort_key active)) b)
              (\<lambda>(frontier, b). beam_rounds db advance encode (legal ix) parsed left frontier d1 b)) = Inr (d, b')"
    and "MAX_MODEL_TOKENS = Suc left"
  shows "no_worse d1 d"
proof (cases "active = []")
  case False
  have tables: "tables_ok db (has_entry ix) encode parsed 0 ([], [])" by (simp add: tables_ok_def finished_ok_def)
  have depth: "Suc 0 \<le> MAX_MODEL_TOKENS" by (simp add: MAX_MODEL_TOKENS_def)
  have paths: "\<forall>q \<in> set [p]. path_ok db (has_entry ix) encode parsed 0 q" using assms(5) by simp
  have tb: "tables_ok db (has_entry ix) encode parsed 0 (d1, active)"
    using scan_frontier_ok [OF assms(1-3) paths depth tables assms(6)] by simp
  then have fin: "finished_ok db (has_entry ix) encode parsed d1" by (simp add: tables_ok_def)
  obtain frontier' b1 where adv: "advance_selected advance (take BEAM_WIDTH (sort_key extension_sort_key active)) b = Inr (frontier', b1)"
    and rounds: "beam_rounds db advance encode (legal ix) parsed left frontier' d1 b1 = Inr (d, b')"
    using assms(7) False by (auto simp: result_splits)
  have "\<forall>x \<in> set (take BEAM_WIDTH (sort_key extension_sort_key active)).
      extension_ok db (has_entry ix) encode parsed (Suc 0) x \<and> length (ex_compact x) < length (pi_compact parsed)"
    using tb unfolding tables_ok_def by (auto dest!: in_set_takeD)
  moreover have "Suc 0 = MAX_MODEL_TOKENS - left" using assms(8) by simp
  ultimately have "good b1" "\<forall>q \<in> set frontier'. path_ok db (has_entry ix) encode parsed (MAX_MODEL_TOKENS - left) q"
    using advance_selected_ok [OF _ assms(4) adv] by metis+
  from beam_rounds_ok [OF assms(1-3) this _ fin rounds] assms(8) show ?thesis by simp
qed (use assms(7) in \<open>simp add: no_worse_refl\<close>)

text \<open>What a completed search over an index returns.\<close>

lemma search_sound:
  assumes "index_good ix" "unicode_ascii db" "good b" "parse_raw_pinyin db raw = Inr parsed"
    and "constrained_beam_search db root_step advance (legal ix) encode raw limit b = Inr (cs, b')"
  shows "good b' \<and> sorted (map candidate_sort_key cs) \<and> distinct (map bc_text cs) \<and> int (length cs) \<le> max 0 limit
     \<and> (\<forall>c \<in> set cs. found_word evaluate db (has_entry ix) encode parsed c)"
proof (cases "limit \<le> 0 \<or> pi_compact parsed = []")
  case False
  have valid: "valid_parsed parsed" using parse_raw_pinyin_valid [OF assms(4)] by simp
  obtain st b1 d where st: "root_step b = Inr (st, b1)"
    and rounds: "beam_rounds db advance encode (legal ix) parsed MAX_MODEL_TOKENS [start_beam st] [] b1 = Inr (d, b')"
    and cs: "cs = take (nat limit) (sort_key candidate_sort_key (map snd d))"
    using assms(4,5) False by (auto simp: constrained_beam_search_def result_splits)
  note law = root_law [OF assms(3) st]
  have "path_ok db (has_entry ix) encode parsed 0 (start_beam st)"
    unfolding path_ok_def using law False
    by (simp add: start_beam_def words_ok_def legal_steps_def tokens_def written_def spelled_def path_score_def)
  then have start: "\<forall>p \<in> set [start_beam st]. path_ok db (has_entry ix) encode parsed (MAX_MODEL_TOKENS - MAX_MODEL_TOKENS) p"
    by simp
  have "finished_ok db (has_entry ix) encode parsed []" by (simp add: finished_ok_def)
  from beam_rounds_ok [OF assms(1,2) valid conjunct1 [OF law] start order_refl this rounds]
  have g: "good b'" and fin: "finished_ok db (has_entry ix) encode parsed d" by simp_all
  have keys: "map bc_text (map snd d) = od_keys d" using fin by (auto simp: finished_ok_def)
  have "distinct (map bc_text (map snd d))" unfolding keys using fin unfolding finished_ok_def od_ok_def by (rule conjunct1)
  then have "distinct (map bc_text (sort_key candidate_sort_key (map snd d)))"
    by (metis mset_eq_imp_distinct_iff mset_map mset_sort)
  then have "distinct (map bc_text cs)" unfolding cs take_map [symmetric] by (rule distinct_take)
  moreover have "sorted (map candidate_sort_key cs)" unfolding cs take_map [symmetric]
    by (rule sorted_wrt_take) (rule sorted_sort_key)
  moreover have "found_word evaluate db (has_entry ix) encode parsed c" if c: "c \<in> set cs" for c
    using c fin unfolding cs finished_ok_def by (auto dest!: in_set_takeD)
  moreover have "int (length cs) \<le> max 0 limit" using cs False by auto
  ultimately show ?thesis using g by blast
next
  case True
  then have "constrained_beam_search db root_step advance (legal ix) encode raw limit b = Inr ([], b)"
    using assms(4) by (cases "limit \<le> 0") (simp_all add: constrained_beam_search_def)
  then show ?thesis using assms(3,5) by simp
qed

text \<open>The first candidate is at least as probable as every single-token word.\<close>

lemma search_beats_single_tokens:
  assumes "constrained_beam_search db root_step advance (legal ix) encode raw limit b = Inr (cs, b')"
    and "good b" "limit > 0" "parse_raw_pinyin db raw = Inr parsed" "pi_compact parsed \<noteq> []"
    and "remaining_input db parsed 0 = Inr rest" "e \<in> set (legal ix rest)" "word_entry e"
    and "length (e_text e) \<le> MAX_HAN_CHARACTERS" "encode (e_text e) = tokens [e]"
    and "log_probability (evaluate []) (the (e_token_id e)) = Inr (Fin r)"
    and "prefix (pi_compact parsed) (e_pinyin e)" "index_good ix" "unicode_ascii db"
  shows "cs \<noteq> [] \<and> bc_score (hd cs) \<ge> r"
proof -
  have valid: "valid_parsed parsed" using parse_raw_pinyin_valid [OF assms(4)] by simp
  obtain st b1 d where st: "root_step b = Inr (st, b1)"
    and rounds: "beam_rounds db advance encode (legal ix) parsed MAX_MODEL_TOKENS [start_beam st] [] b1 = Inr (d, b')"
    and cs: "cs = take (nat limit) (sort_key candidate_sort_key (map snd d))"
    using assms(1,3,4,5) by (auto simp: constrained_beam_search_def result_splits)
  note law = root_law [OF assms(2) st]
  let ?p = "start_beam st"
  obtain left where left: "MAX_MODEL_TOKENS = Suc left" by (simp add: MAX_MODEL_TOKENS_def)
  obtain t where t: "e_token_id e = Some t" using assms(8) by (auto simp: word_entry_def)
  let ?x = "extend_beam ?p e t r"
  have x: "scored_extension encode ?p e = Inr (Some ?x)"
    unfolding scored_extension_Some using assms(8-11) t law
    by (auto simp: start_beam_def word_entry_def tokens_def)
  have cover: "length (pi_compact parsed) \<le> length (ex_compact ?x)" "ex_text ?x = e_text e" "ex_score ?x = r"
    using prefix_length_le [OF assms(12)] by (simp_all add: extend_beam_def start_beam_def)
  obtain d1 active where scan: "scan_frontier db encode (legal ix) parsed (left > 0) [?p] ([], []) = Inr (d1, active)"
    and step: "(if active = [] then Inr (d1, b1)
       else rbind (advance_selected advance (take BEAM_WIDTH (sort_key extension_sort_key active)) b1)
              (\<lambda>(frontier, b). beam_rounds db advance encode (legal ix) parsed left frontier d1 b)) = Inr (d, b')"
    using rounds unfolding left by (auto simp: result_splits)
  have "scan_entries encode parsed (left > 0) ?p (legal ix rest) ([], []) = Inr (d1, active)"
    using scan assms(6) by (auto simp: result_splits start_beam_def)
  from scan_reaches [OF assms(7) x cover(1) this]
  obtain v where v: "map_of d1 (e_text e) = Some v" "candidate_sort_key v \<le> candidate_sort_key (finish_candidate parsed ?x)"
    unfolding cover by auto
  have path: "path_ok db (has_entry ix) encode parsed 0 ?p"
    unfolding path_ok_def using law assms(5)
    by (simp add: start_beam_def words_ok_def legal_steps_def tokens_def written_def spelled_def path_score_def)
  have "no_worse d1 d"
    using first_round_kept [OF assms(13,14) valid conjunct1 [OF law] path scan step] left by simp
  then obtain w where w: "map_of d (e_text e) = Some w" "candidate_sort_key w \<le> candidate_sort_key v"
    using v(1) unfolding no_worse_def by blast
  let ?s = "sort_key candidate_sort_key (map snd d)"
  have "w \<in> set ?s" using w(1) by (force dest: map_of_SomeD)
  then have "?s \<noteq> []" and "candidate_sort_key (hd ?s) \<le> candidate_sort_key w"
    using sorted_wrt_sort_key [of candidate_sort_key "map snd d"]
    by (auto simp del: set_sort) (cases ?s; auto)
  then have "candidate_sort_key (hd ?s) \<le> candidate_sort_key (finish_candidate parsed ?x)"
    using v(2) w(2) order_trans by blast
  then have "bc_score (hd ?s) \<ge> r" using cover(3) by (auto simp: candidate_sort_key_def finish_candidate_def)
  moreover have "cs \<noteq> []" "hd cs = hd ?s" using cs assms(3) \<open>?s \<noteq> []\<close> by (cases ?s; simp)+
  ultimately show ?thesis by simp
qed

end

section \<open>The model's own backend and index\<close>

text \<open>The cache of the replay backend holds only what the evaluator answered.\<close>

definition cache_good :: "evaluator \<Rightarrow> replay_cache \<Rightarrow> bool" where
  "cache_good ev cache \<longleftrightarrow> (\<forall>ts v. map_of cache ts = Some v \<longrightarrow> ev ts = Inr v)"

definition answers :: "evaluator \<Rightarrow> int list \<Rightarrow> pyfloat list" where
  "answers ev ts = projr (ev ts)"

lemma replay_step_good:
  "cache_good ev cache \<Longrightarrow> replay_step ev ts cache = Inr (st, cache') \<Longrightarrow>
     cache_good ev cache' \<and> bs_state st = ts \<and> ev ts = Inr (bs_log_probs st)"
proof (cases "map_of cache ts")
  case None
  assume c: "cache_good ev cache" and "replay_step ev ts cache = Inr (st, cache')"
  then obtain v where v: "ev ts = Inr v" "st = \<lparr>bs_state = ts, bs_log_probs = v\<rparr>" "cache' = od_set ts v cache"
    using None by (auto simp: replay_step_def result_splits)
  then have "cache_good ev cache'" using c by (simp add: cache_good_def map_of_od_set)
  then show ?thesis using v by simp
qed (auto simp: replay_step_def cache_good_def)

interpretation replay: branching_backend "replay_root ev" "replay_advance ev" "cache_good ev" "\<lambda>ts. ts" "answers ev"
  for ev :: evaluator
proof unfold_locales
  show "cache_good ev b' \<and> bs_state st = [] \<and> bs_log_probs st = answers ev []"
    if "cache_good ev b" "replay_root ev b = Inr (st, b')" for b st b'
    using replay_step_good [OF that(1), of "[]" st b'] that(2) by (simp add: replay_root_def answers_def)
  show "cache_good ev b' \<and> bs_state st = s @ [t] \<and> bs_log_probs st = answers ev (s @ [t])"
    if "cache_good ev b" "replay_advance ev s t b = Inr (st, b')" for b s t st b'
    using replay_step_good [OF that(1), of "s @ [t]" st b'] that(2) by (simp add: replay_advance_def answers_def)
qed

lemma compatible_legal:
  assumes "index_ok ix" "pi_compact p \<noteq> []"
  shows "e \<in> set (compatible (ix_root ix) p) \<longleftrightarrow> e \<in># index_entries ix \<and> legal_entry p e"
proof -
  have "e \<in># mset (compatible (ix_root ix) p) \<longleftrightarrow> e \<in># filter_mset (legal_entry p) (index_entries ix)"
    using compatible_mset [of "ix_root ix" p] assms by (simp add: index_ok_def index_entries_def)
  then show ?thesis by simp
qed

interpretation tries: constraint_index "\<lambda>ix. compatible (ix_root ix)"
  "\<lambda>ix e. e \<in># index_entries ix" index_ok
  by unfold_locales (rule compatible_legal)

interpretation replay_tries: beam_search "replay_root ev" "replay_advance ev" "cache_good ev" "\<lambda>ts. ts" "answers ev"
  "\<lambda>ix. compatible (ix_root ix)" "\<lambda>ix e. e \<in># index_entries ix" index_ok
  for ev :: evaluator
  by unfold_locales

section \<open>Properties\<close>

text \<open>The chain of entries behind a candidate, with what it spells.\<close>

definition legal_word :: "unicode_db \<Rightarrow> pinyin_index \<Rightarrow> (pystr \<Rightarrow> int list) \<Rightarrow> parsed_input \<Rightarrow> entry list \<Rightarrow> bool" where
  "legal_word db ix encode parsed es \<longleftrightarrow> es \<noteq> [] \<and> length es \<le> MAX_MODEL_TOKENS
     \<and> legal_steps db (\<lambda>e. e \<in># index_entries ix) parsed es \<and> prefix (pi_compact parsed) (spelled es)
     \<and> length (written es) \<le> MAX_HAN_CHARACTERS \<and> encode (written es) = tokens es"

lemma found_word_legal:
  assumes "found_word evaluate db (\<lambda>e. e \<in># index_entries ix) encode parsed c" "unicode_ascii db" "valid_parsed parsed"
  shows "\<exists>es. legal_word db ix encode parsed es \<and> c = word_candidate evaluate parsed es"
proof -
  obtain es where es: "es \<noteq> []" "length es \<le> MAX_MODEL_TOKENS" "words_ok db (\<lambda>e. e \<in># index_entries ix) encode parsed es"
      "length (pi_compact parsed) \<le> length (spelled es)" "c = word_candidate evaluate parsed es"
    using assms(1) unfolding found_word_def by blast
  then have "prefix (spelled es) (pi_compact parsed) \<or> prefix (pi_compact parsed) (spelled es)"
    using legal_steps_spelled [OF assms(2,3), of "\<lambda>e. e \<in># index_entries ix" es] by (simp add: words_ok_def)
  then have "prefix (pi_compact parsed) (spelled es)"
    using es(4) by (metis prefix_length_prefix prefix_order.refl prefix_length_le)
  then show ?thesis using es unfolding legal_word_def words_ok_def by blast
qed

text \<open>
  Claim C9. Beam search over a loaded index with the replay backend returns only legal words, best
  first, each text once and at most the limit.  A word is one to four entries of the index, each
  legal for the keys its predecessors leave, that together cover the keys, hold at most twelve Han
  characters and are the tokenizer's own encoding of their text; its score is the sum of the
  evaluator's log probabilities along the path, whatever the cache of the backend held.
\<close>

theorem beam_words_legal:
  assumes "index_ok ix" "unicode_ascii db" "cache_good ev cache" "parse_raw_pinyin db raw = Inr parsed"
    and "constrained_beam_search db (replay_root ev) (replay_advance ev) (compatible (ix_root ix)) encode raw limit cache
       = Inr (cs, cache')"
  shows "cache_good ev cache' \<and> sorted (map candidate_sort_key cs) \<and> distinct (map bc_text cs)
     \<and> int (length cs) \<le> max 0 limit
     \<and> (\<forall>c \<in> set cs. \<exists>es. legal_word db ix encode parsed es \<and> c = word_candidate (answers ev) parsed es)"
  using replay_tries.search_sound [OF assms] found_word_legal [OF _ assms(2)] parse_raw_pinyin_valid [OF assms(4)]
  by blast

text \<open>
  Claim C23. Pruning never loses a likely single token: when an index entry covers the keys by
  itself and is its text's canonical token, the first candidate's score is at least that token's
  log probability.
\<close>

theorem beam_beats_single_tokens:
  assumes "constrained_beam_search db (replay_root ev) (replay_advance ev) (compatible (ix_root ix)) encode raw limit cache
       = Inr (cs, cache')"
    and "index_ok ix" "unicode_ascii db" "cache_good ev cache" "limit > 0"
    and "parse_raw_pinyin db raw = Inr parsed" "pi_compact parsed \<noteq> []" "remaining_input db parsed 0 = Inr rest"
    and "e \<in># index_entries ix" "legal_entry rest e" "prefix (pi_compact parsed) (e_pinyin e)"
    and "word_entry e" "length (e_text e) \<le> MAX_HAN_CHARACTERS" "encode (e_text e) = tokens [e]"
    and "log_probability (answers ev []) (the (e_token_id e)) = Inr (Fin r)"
  shows "cs \<noteq> [] \<and> bc_score (hd cs) \<ge> r"
proof -
  have "pi_compact rest = pi_compact parsed"
    using remaining_input_compact [OF assms(3) _ _ assms(8)] parse_raw_pinyin_valid [OF assms(6)] by simp
  then have "e \<in> set (compatible (ix_root ix) rest)"
    using compatible_legal [OF assms(2), of rest e] assms(7,9,10) by simp
  from replay_tries.search_beats_single_tokens [OF assms(1,4,5,6,7,8) this assms(12-15,11,2,3)] show ?thesis .
qed


section \<open>Concrete inputs\<close>

definition xian_rows :: "row list" where
  "xian_rows = [
     \<lparr>r_token_id = Some 3, r_token_path = [3], r_text = [35199], r_pinyin = asc ''xi'',
      r_syllable_path = asc ''xi'', r_syllables = 1, r_coverage = 0\<rparr>,
     \<lparr>r_token_id = Some 4, r_token_path = [4], r_text = [23433], r_pinyin = asc ''an'',
      r_syllable_path = asc ''an'', r_syllables = 1, r_coverage = 0\<rparr>,
     \<lparr>r_token_id = Some 2, r_token_path = [2], r_text = [20808], r_pinyin = asc ''xian'',
      r_syllable_path = asc ''xian'', r_syllables = 1, r_coverage = 0\<rparr>]"

definition xian_index :: pinyin_index where
  "xian_index = projr (load_index ascii_db (\<lambda>_. True) (Some 5) xian_rows)"

definition xian_keys :: parsed_input where
  "xian_keys = projr (parse_raw_pinyin ascii_db (asc ''xian''))"

definition one_per_character :: "pystr \<Rightarrow> int list" where
  "one_per_character s = map (\<lambda>c. if c = 35199 then 3 else if c = 23433 then 4 else 2) s"

definition fixed_scores :: evaluator where
  "fixed_scores ts = (if ts = [] then Inr [NInf, NInf, Fin (-3), Fin (-1), Fin (-5)] else Inr [NInf, NInf, Fin (-9), Fin (-9), Fin (-1)])"

definition xian_search :: "(beam_candidate list \<times> replay_cache) result" where
  "xian_search = constrained_beam_search ascii_db (replay_root fixed_scores) (replay_advance fixed_scores)
     (compatible (ix_root xian_index)) one_per_character (asc ''xian'') 5 []"

lemma xian_load: "load_index ascii_db (\<lambda>_. True) (Some 5) xian_rows = Inr xian_index"
  unfolding xian_index_def by (rule Inr_projr) code_simp

lemma xian_parse: "parse_raw_pinyin ascii_db (asc ''xian'') = Inr xian_keys"
  unfolding xian_keys_def by (rule Inr_projr) code_simp

lemma xian_result: "map (\<lambda>c. (bc_text c, bc_score c)) (fst (projr xian_search)) = [([35199, 23433], -2), ([20808], -3)]"
  by code_simp

lemma xian_search_ok: "xian_search = Inr (fst (projr xian_search), snd (projr xian_search))"
proof -
  have "xian_search = Inr (projr xian_search)" by (rule Inr_projr) code_simp
  then show ?thesis by simp
qed

theorem beam_words_legal_witness:
  "map (\<lambda>c. (bc_text c, bc_score c)) (fst (projr xian_search)) = [([35199, 23433], -2), ([20808], -3)]
   \<and> list_all (\<lambda>c. \<exists>es. legal_word ascii_db xian_index one_per_character xian_keys es
        \<and> c = word_candidate (answers fixed_scores) xian_keys es) (fst (projr xian_search))
   \<and> cache_good fixed_scores (snd (projr xian_search))"
proof -
  have ix: "index_ok xian_index" using load_index_spec [OF xian_load] by blast
  have cache: "cache_good fixed_scores []" by (simp add: cache_good_def)
  show ?thesis
    using beam_words_legal [OF ix unicode_ascii_db cache xian_parse xian_search_ok [unfolded xian_search_def]]
      xian_result unfolding list_all_iff xian_search_def by blast
qed

definition xian_entry :: entry where
  "xian_entry = hd (filter (\<lambda>e. e_token_id e = Some 2) (compatible (ix_root xian_index) xian_keys))"

theorem beam_beats_single_tokens_witness:
  "fst (projr xian_search) \<noteq> [] \<and> bc_score (hd (fst (projr xian_search))) \<ge> -3"
proof -
  have ix: "index_ok xian_index" using load_index_spec [OF xian_load] by blast
  have cache: "cache_good fixed_scores []" by (simp add: cache_good_def)
  have rest: "remaining_input ascii_db xian_keys 0 = Inr xian_keys" by code_simp
  have some: "pi_compact xian_keys \<noteq> []" by code_simp
  have "xian_entry \<in> set (compatible (ix_root xian_index) xian_keys)" by code_simp
  then have e: "xian_entry \<in># index_entries xian_index" "legal_entry xian_keys xian_entry"
    using compatible_legal [OF ix some] by blast+
  have pre: "prefix (pi_compact xian_keys) (e_pinyin xian_entry)" by code_simp
  have word: "word_entry xian_entry" by code_simp
  have len: "length (e_text xian_entry) \<le> MAX_HAN_CHARACTERS" by code_simp
  have canon: "one_per_character (e_text xian_entry) = tokens [xian_entry]" by code_simp
  have lp: "log_probability (answers fixed_scores []) (the (e_token_id xian_entry)) = Inr (Fin (-3))" by code_simp
  have five: "(5::int) > 0" by simp
  from beam_beats_single_tokens [OF xian_search_ok [unfolded xian_search_def] ix unicode_ascii_db cache five xian_parse some rest e pre word len canon lp]
  show ?thesis unfolding xian_search_def .
qed

end
