(* ===== verification/Search_Batches.thy ===== *)
theory Search_Batches
  imports Prelude
begin

text \<open>
  \<open>search_batches.py\<close>: the sort that the page searches interrupt.  The generator is modelled by its
  return value and the number of its checkpoints (the \<open>yield None\<close> statements), between which it
  handles at most one batch.  \<open>heapq.merge\<close> of the standard library is \<open>merge_all\<close>: it repeatedly
  takes the least head of the runs.
\<close>

definition BATCH_SIZE :: nat where
  "BATCH_SIZE = 32"

type_synonym ('k, 'a) tagged = "'k \<times> nat \<times> 'a"

abbreviation tag_key :: "('k, 'a) tagged \<Rightarrow> 'k \<times> nat" where
  "tag_key t \<equiv> (fst t, fst (snd t))"

text \<open>Positions differ, so \<open>sorted(batch)\<close> never compares the values.\<close>

fun batch_runs :: "('k::linorder, 'a) tagged list \<Rightarrow> ('k, 'a) tagged list \<Rightarrow> ('k, 'a) tagged list list
    \<Rightarrow> ('k, 'a) tagged list list" where
  "batch_runs [] batch runs = (if batch = [] then runs else runs @ [sort_key tag_key batch])"
| "batch_runs (x # xs) batch runs =
     (let batch = batch @ [x] in
      if length batch = BATCH_SIZE then batch_runs xs [] (runs @ [sort_key tag_key batch])
      else batch_runs xs batch runs)"

fun pop_least :: "('a \<Rightarrow> 'o::linorder) \<Rightarrow> 'a list list \<Rightarrow> ('a \<times> 'a list list) option" where
  "pop_least f [] = None"
| "pop_least f ([] # runs) = pop_least f runs"
| "pop_least f ((x # xs) # runs) =
     (case pop_least f runs of
        None \<Rightarrow> Some (x, [xs])
      | Some (y, rest) \<Rightarrow> if f x \<le> f y then Some (x, xs # runs) else Some (y, (x # xs) # rest))"

lemma pop_least_size:
  "pop_least f runs = Some (y, rest) \<Longrightarrow> sum_list (map length rest) < sum_list (map length runs)"
  by (induction f runs arbitrary: y rest rule: pop_least.induct)
    (auto split: option.splits if_splits prod.splits)

function merge_all :: "('a \<Rightarrow> 'o::linorder) \<Rightarrow> 'a list list \<Rightarrow> 'a list" where
  "merge_all f runs = (case pop_least f runs of None \<Rightarrow> [] | Some (y, rest) \<Rightarrow> y # merge_all f rest)"
  by pat_completeness auto
termination
  by (relation "measure (\<lambda>(f, runs). sum_list (map length runs))") (auto dest: pop_least_size)

declare merge_all.simps [simp del]

definition cooperative_sorted :: "('a \<Rightarrow> 'k::linorder) \<Rightarrow> 'a list \<Rightarrow> 'a list \<times> nat" where
  "cooperative_sorted key values =
     (let runs = batch_runs (map (\<lambda>(p, v). (key v, p, v)) (zip [0..<length values] values)) [] [];
          ordered = map (\<lambda>t. snd (snd t)) (merge_all tag_key runs)
      in (ordered, length runs + length ordered div BATCH_SIZE))"

section \<open>Merging sorted runs\<close>

lemma pop_least_None: "pop_least f runs = None \<longleftrightarrow> concat runs = []"
  by (induction f runs rule: pop_least.induct) (auto split: option.splits prod.splits)

lemma pop_least_mset:
  "pop_least f runs = Some (y, rest) \<Longrightarrow> mset (concat runs) = add_mset y (mset (concat rest))"
proof (induction f runs arbitrary: y rest rule: pop_least.induct)
  case (3 f x xs runs)
  show ?case
  proof (cases "pop_least f runs")
    case None
    then have "concat runs = []" by (simp add: pop_least_None)
    then show ?thesis using 3(2) None by (auto simp del: concat_eq_Nil_conv)
  next
    case (Some yr)
    then show ?thesis using 3 by (cases yr) (auto split: if_splits)
  qed
qed auto

abbreviation runs_sorted :: "('a \<Rightarrow> 'o::linorder) \<Rightarrow> 'a list list \<Rightarrow> bool" where
  "runs_sorted f runs \<equiv> \<forall>r \<in> set runs. sorted (map f r)"

lemma pop_least_least:
  "pop_least f runs = Some (y, rest) \<Longrightarrow> runs_sorted f runs \<Longrightarrow>
     runs_sorted f rest \<and> (\<forall>z \<in> set (concat runs). f y \<le> f z)"
proof (induction f runs arbitrary: y rest rule: pop_least.induct)
  case (3 f x xs runs)
  show ?case
  proof (cases "pop_least f runs")
    case None
    then have "concat runs = []" by (simp add: pop_least_None)
    then show ?thesis using 3(2,3) None by (auto simp: sorted_wrt_append)
  next
    case (Some yr)
    obtain y' rest' where yr: "yr = (y', rest')" by (cases yr)
    have r: "runs_sorted f rest' \<and> (\<forall>z \<in> set (concat runs). f y' \<le> f z)"
      using 3(1) [OF Some [unfolded yr]] 3(3) by simp
    have x: "\<forall>z \<in> set xs. f x \<le> f z" using 3(3) by simp
    show ?thesis
    proof (cases "f x \<le> f y'")
      case True
      then show ?thesis using 3(2,3) Some yr r x by (auto intro: order_trans)
    next
      case False
      then show ?thesis using 3(2,3) Some yr r x
        by (auto intro: order_trans [of "f y'" "f x"])
    qed
  qed
qed auto

lemma merge_all_mset: "mset (merge_all f runs) = mset (concat runs)"
proof (induction f runs rule: merge_all.induct)
  case (1 f runs)
  show ?case
  proof (cases "pop_least f runs")
    case None
    then have "concat runs = []" by (simp add: pop_least_None)
    then show ?thesis using None by (subst merge_all.simps) (simp del: concat_eq_Nil_conv)
  next
    case (Some yr)
    then show ?thesis using 1 pop_least_mset [of f runs]
      by (cases yr) (subst merge_all.simps, simp)
  qed
qed

lemma merge_all_sorted: "runs_sorted f runs \<Longrightarrow> sorted (map f (merge_all f runs))"
proof (induction f runs rule: merge_all.induct)
  case (1 f runs)
  show ?case
  proof (cases "pop_least f runs")
    case None
    then show ?thesis by (subst merge_all.simps) simp
  next
    case (Some yr)
    obtain y rest where yr: "yr = (y, rest)" by (cases yr)
    have l: "runs_sorted f rest \<and> (\<forall>z \<in> set (concat runs). f y \<le> f z)"
      using pop_least_least [OF Some [unfolded yr] 1(2)] .
    have "set (merge_all f rest) = set (concat rest)"
      using merge_all_mset [of f rest] by (metis set_mset_mset)
    also have "\<dots> \<subseteq> set (concat runs)"
      using pop_least_mset [OF Some [unfolded yr]] by (metis set_mset_add_mset_insert set_mset_mset subset_insertI)
    finally have "\<forall>z \<in> set (merge_all f rest). f y \<le> f z" using l by blast
    then show ?thesis using 1(1) [OF Some yr [symmetric]] l Some yr by (subst merge_all.simps) simp
  qed
qed

lemma batch_runs_mset: "mset (concat (batch_runs xs batch runs)) = mset (concat runs) + mset batch + mset xs"
  by (induction xs batch runs rule: batch_runs.induct) (auto simp: Let_def)

lemma batch_runs_sorted:
  "runs_sorted tag_key runs \<Longrightarrow> runs_sorted tag_key (batch_runs xs batch runs)"
  by (induction xs batch runs rule: batch_runs.induct) (auto simp: Let_def)

lemma batch_runs_length:
  "length batch < BATCH_SIZE \<Longrightarrow>
     length (batch_runs xs batch runs) = length runs + (length batch + length xs + BATCH_SIZE - 1) div BATCH_SIZE"
proof (induction xs batch runs rule: batch_runs.induct)
  case (1 batch runs)
  then show ?case by (cases batch) (auto simp: BATCH_SIZE_def div_eq_dividend_iff)
next
  case (2 x xs batch runs)
  show ?case
  proof (cases "Suc (length batch) = BATCH_SIZE")
    case True
    have "length batch + Suc (length xs) + BATCH_SIZE - 1 = (length xs + BATCH_SIZE - 1) + BATCH_SIZE"
      using True by (simp add: BATCH_SIZE_def)
    then show ?thesis using 2(1) True by (simp add: Let_def BATCH_SIZE_def)
  next
    case False
    then have "Suc (length batch) < BATCH_SIZE" using 2(3) by simp
    then show ?thesis using 2(2) False by (simp add: Let_def)
  qed
qed

lemma batch_run_bounded:
  "length batch < BATCH_SIZE \<Longrightarrow> \<forall>r \<in> set runs. length r \<le> BATCH_SIZE \<Longrightarrow>
     \<forall>r \<in> set (batch_runs xs batch runs). length r \<le> BATCH_SIZE"
  by (induction xs batch runs rule: batch_runs.induct) (auto simp: Let_def)

lemma sorted_inj_unique:
  assumes "sorted (map f xs)" "sorted (map f ys)" "mset xs = mset ys" "inj_on f (set ys)"
  shows "xs = ys"
proof -
  have "mset (map f xs) = mset (map f ys)" using assms(3) by (metis mset_map)
  then have "map f xs = map f ys" using assms(1,2) by (metis properties_for_sort sorted_sort_id)
  moreover have "set xs = set ys" using assms(3) by (metis set_mset_mset)
  ultimately show ?thesis using assms(4) by (metis inj_on_map_eq_map sup.idem)
qed

lemma map_insort_key: "map g (insort_key (\<lambda>x. f (g x)) x xs) = insort_key f (g x) (map g xs)"
  by (induction xs) auto

lemma map_sort_key: "sort_key f (map g xs) = map g (sort_key (\<lambda>x. f (g x)) xs)"
  by (induction xs) (simp_all add: map_insort_key)

text \<open>Sorting with the position as the last component of the key is the stable sort.\<close>

lemma sort_tagged:
  fixes key :: "'a \<Rightarrow> 'k::linorder"
  assumes "distinct (map fst ps)" "sorted (map fst ps)"
  shows "map snd (sort_key (\<lambda>pv. (key (snd pv), fst pv)) ps) = sort_key key (map snd (ps :: (nat \<times> 'a) list))"
proof -
  let ?f = "\<lambda>pv :: nat \<times> 'a. (key (snd pv), fst pv)"
  let ?ys = "sort_key ?f ps"
  have "sort_key (\<lambda>pv. key (snd pv)) ps = ?ys"
  proof (rule properties_for_sort_key)
    fix k
    let ?P = "\<lambda>x. key (snd k) = key (snd x)"
    have inj: "inj_on fst (set ps)" using assms(1) by (simp add: distinct_map)
    have "sorted (map ?f (filter ?P ?ys))" by (rule sorted_filter [OF sorted_sort_key])
    then have "sorted_wrt (\<lambda>x y. ?f x \<le> ?f y) (filter ?P ?ys)" by (simp add: sorted_map)
    then have "sorted_wrt (\<lambda>x y. fst x \<le> fst y) (filter ?P ?ys)"
    proof (rule sorted_wrt_mono_rel [rotated])
      fix x y
      assume "x \<in> set (filter ?P ?ys)" "y \<in> set (filter ?P ?ys)" and le: "?f x \<le> ?f y"
      then have "key (snd k) = key (snd x)" "key (snd k) = key (snd y)" by (simp_all only: set_filter mem_Collect_eq)
      then have "key (snd x) = key (snd y)" by (elim subst, intro refl)
      with le show "fst x \<le> fst y" by (simp add: less_eq_prod_def)
    qed
    then have "sorted (map fst (filter ?P ?ys))" by (simp add: sorted_map)
    moreover have "sorted (map fst (filter ?P ps))" using assms(2) by (rule sorted_filter)
    moreover have "mset (filter ?P ?ys) = mset (filter ?P ps)" by (simp add: mset_filter)
    moreover have "inj_on fst (set (filter ?P ps))" using inj by (rule inj_on_subset) auto
    ultimately show "filter ?P ?ys = filter ?P ps" by (rule sorted_inj_unique)
  next
    have "sorted_wrt (\<lambda>x y. ?f x \<le> ?f y) ?ys" by (rule sorted_wrt_sort_key)
    then have "sorted_wrt (\<lambda>x y. key (snd x) \<le> key (snd y)) ?ys"
      by (rule sorted_wrt_mono_rel [rotated]) auto
    then show "sorted (map (\<lambda>pv. key (snd pv)) ?ys)" by (simp add: sorted_map)
  qed simp
  then have "map snd ?ys = map snd (sort_key (\<lambda>pv. key (snd pv)) ps)" by simp
  also have "\<dots> = sort_key key (map snd ps)" by (rule map_sort_key [symmetric])
  finally show ?thesis .
qed


lemma runs_sorted_start: "runs_sorted tag_key (batch_runs xs [] [])"
  by (rule batch_runs_sorted) simp

lemma merged_is_sorted:
  "map (\<lambda>t. snd (snd t)) (merge_all tag_key (batch_runs (map (\<lambda>(p, v). (key v, p, v)) (zip [0..<length xs] xs)) [] []))
     = sort_key key xs"
proof -
  let ?zs = "zip [0..<length xs] xs"
  let ?f = "\<lambda>pv. (key (snd pv), fst pv)" and ?tag = "\<lambda>(p, v). (key v, p, v)"
  let ?ms = "merge_all tag_key (batch_runs (map ?tag ?zs) [] [])"
  have fst: "map fst ?zs = [0..<length xs]" by simp
  have keys: "map tag_key (map ?tag ?zs) = map ?f ?zs" by auto
  have "mset ?ms = mset (map ?tag ?zs)" by (simp only: merge_all_mset batch_runs_mset) simp
  also have "\<dots> = mset (map ?tag (sort_key ?f ?zs))" by simp
  finally have m: "mset ?ms = mset (map ?tag (sort_key ?f ?zs))" .
  have "inj_on tag_key (set (map ?tag ?zs))"
    by (auto simp: inj_on_def in_set_zip)
  then have "inj_on tag_key (set (map ?tag (sort_key ?f ?zs)))" by simp
  moreover have "map tag_key (map ?tag (sort_key ?f ?zs)) = map ?f (sort_key ?f ?zs)" by auto
  then have "sorted (map tag_key (map ?tag (sort_key ?f ?zs)))" by (simp only: sorted_sort_key)
  ultimately have "?ms = map ?tag (sort_key ?f ?zs)"
    by (intro sorted_inj_unique [OF merge_all_sorted [OF runs_sorted_start] _ m])
  then have "map (\<lambda>t. snd (snd t)) ?ms = map snd (sort_key ?f ?zs)" by (simp add: comp_def split_def)
  also have "\<dots> = sort_key key (map snd ?zs)" by (rule sort_tagged) (simp_all add: fst)
  finally show ?thesis by simp
qed

lemma merged_length: "length (merge_all f runs) = length (concat runs)"
  by (metis merge_all_mset size_mset)

lemma fst_cooperative_sorted: "fst (cooperative_sorted key xs) = sort_key key xs"
  unfolding cooperative_sorted_def Let_def merged_is_sorted by simp

text \<open>
  Claim C35. The interruptible sort returns exactly what the native stable sort by the same key
  returns, and it passes a checkpoint after every full or final batch of 32 elements and after every
  32 merged elements.
\<close>

theorem cooperative_sort_is_sort:
  "cooperative_sorted key xs = (sort_key key xs,
     (length xs + BATCH_SIZE - 1) div BATCH_SIZE + length xs div BATCH_SIZE)"
proof -
  have "length (batch_runs (map (\<lambda>(p, v). (key v, p, v)) (zip [0..<length xs] xs)) [] [])
      = (length xs + BATCH_SIZE - 1) div BATCH_SIZE"
    using batch_runs_length [of "[]" "map (\<lambda>(p, v). (key v, p, v)) (zip [0..<length xs] xs)" "[]"]
    by (simp add: BATCH_SIZE_def)
  then show ?thesis unfolding cooperative_sorted_def Let_def merged_is_sorted by simp
qed

end
