(* ===== verification/Partial_Matcher.thy ===== *)
theory Partial_Matcher
  imports Pinyin_Index Bounded_Cache Search_Batches
begin

text \<open>
  \<open>pinyin_partial.py\<close>: the matcher over a syllable trie that the abbreviation beams and the page
  search use.  It holds its own trie of the index entries, an unbounded memo of the legacy bounded
  search, and three bounded memos of the exhaustive search.  Nodes of the trie are identified by the
  path that leads to them, as object identity identifies them in the source.  The generator
  \<open>iter_neural_matches\<close> is modelled by the sequence of its values without the \<open>None\<close> checkpoints;
  the exemption of cached records from cyclic garbage collection has no effect on values and is left
  out.  Syllables are nonempty wherever their first letter is read.
\<close>

section \<open>Matches and the matcher\<close>

record pmatch =
  pm_entry :: entry
  pm_next_position :: nat
  pm_shorthand :: nat
  pm_incomplete_final :: bool
  pm_completion_syllables :: nat

definition pm_cost :: "pmatch \<Rightarrow> real" where
  "pm_cost m = - (6 / 100) * real (pm_shorthand m) - (if pm_incomplete_final m then 3 / 100 else 0)
     - 4 / 100 * real (pm_completion_syllables m)"

type_synonym found = "(entry \<times> nat, pmatch) odict"
type_synonym neural_key = "pystr \<times> nat \<times> nat list"
type_synonym neural_cache = "(neural_key, pmatch list) odict"

record matcher =
  mt_root :: "pystr trie"
  mt_entries :: "entry list"
  mt_by_initial :: "(nat, pystr list) odict"
  mt_cache :: "(pystr \<times> nat, pmatch list) odict"
  mt_neural_cache :: neural_cache
  mt_neural_exact_cache :: neural_cache
  mt_neural_unextended_cache :: neural_cache

definition group_by_initial :: "pystr list \<Rightarrow> (nat, pystr list) odict" where
  "group_by_initial syllables = fold (\<lambda>s grouped. if s = [] then grouped
     else od_set (hd s) ((case map_of grouped (hd s) of None \<Rightarrow> [] | Some ss \<Rightarrow> ss) @ [s]) grouped)
     syllables []"

definition new_matcher :: "pinyin_index \<Rightarrow> matcher" where
  "new_matcher ix =
     (let entries = dedup_by (\<lambda>e. e) [] (dfs_stack [ix_root ix]) in
      \<lparr>mt_root = fold (\<lambda>e. trie_insert (e_syllable_path e) e) entries empty_trie,
       mt_entries = entries, mt_by_initial = group_by_initial (ix_syllables ix),
       mt_cache = [], mt_neural_cache = [], mt_neural_exact_cache = [], mt_neural_unextended_cache = []\<rparr>)"

section \<open>Complete syllable sequences\<close>

definition mark_syllables :: "pystr \<Rightarrow> nat \<Rightarrow> pystr list \<Rightarrow> bool list \<Rightarrow> bool list" where
  "mark_syllables raw pos = fold (\<lambda>s reachable.
     if prefix s (drop pos raw) then reachable[pos + length s := True] else reachable)"

definition reach_position :: "matcher \<Rightarrow> pystr \<Rightarrow> nat \<Rightarrow> bool list \<Rightarrow> bool list" where
  "reach_position m raw pos reachable =
     (if \<not> reachable ! pos then reachable
      else mark_syllables raw pos
             (case map_of (mt_by_initial m) (raw ! pos) of None \<Rightarrow> [] | Some ss \<Rightarrow> ss) reachable)"

definition is_complete_syllable_sequence :: "matcher \<Rightarrow> pystr \<Rightarrow> bool" where
  "is_complete_syllable_sequence m raw =
     (raw \<noteq> [] \<and>
      last (fold (reach_position m raw) [0..<length raw] ((replicate (length raw + 1) False)[0 := True])))"

section \<open>The bounded search\<close>

lemma child_weight: "(s, child) \<in> set (children node) \<Longrightarrow> trie_weight child < trie_weight node"
proof -
  assume "(s, child) \<in> set (children node)"
  then have "trie_weight child \<in> set (map (trie_weight \<circ> snd) (children node))" by force
  then have "trie_weight child \<le> sum_list (map (trie_weight \<circ> snd) (children node))" by (rule member_le_sum_list) simp
  then show ?thesis by (simp add: trie_weight_children [of node])
qed

definition record_terminals :: "entry list \<Rightarrow> nat \<Rightarrow> nat \<Rightarrow> bool \<Rightarrow> nat \<Rightarrow> found \<Rightarrow> found" where
  "record_terminals es pos shorthand incomplete completion =
     fold (\<lambda>e. best_put (\<lambda>new old. pm_cost new > pm_cost old) (e, pos)
       \<lparr>pm_entry = e, pm_next_position = pos, pm_shorthand = shorthand,
        pm_incomplete_final = incomplete, pm_completion_syllables = completion\<rparr>) es"

definition full_children :: "pystr \<Rightarrow> nat \<Rightarrow> (pystr \<times> pystr trie) list \<Rightarrow> (pystr \<times> pystr trie) list" where
  "full_children raw pos = filter (\<lambda>(s, child). prefix s (drop pos raw))"

definition unfinished_syllable :: "pystr \<Rightarrow> nat \<Rightarrow> pystr \<Rightarrow> bool" where
  "unfinished_syllable raw pos s = (let remaining = drop pos raw in
     1 < length remaining \<and> length remaining < length s \<and> prefix remaining s)"

lemma kid_weight: "(s, child) \<in> set (kids :: (pystr \<times> pystr trie) list) \<Longrightarrow> trie_weight child < Suc (2 * sum_list (map (\<lambda>c. trie_weight (snd c)) kids))"
  using child_weight [of s child "Node kids []"] by simp

lemma full_children_weight:
  "(s, child) \<in> set (full_children raw pos kids) \<Longrightarrow> trie_weight child < Suc (2 * sum_list (map (\<lambda>c. trie_weight (snd c)) kids))"
  by (auto simp: full_children_def intro: kid_weight)

function partial_visit :: "pystr \<Rightarrow> nat \<Rightarrow> pystr trie \<Rightarrow> nat \<Rightarrow> nat \<Rightarrow> bool \<Rightarrow> found \<Rightarrow> found" where
  "partial_visit raw start (Node kids ends) pos shorthand incomplete found =
     (let found = (if pos > start then record_terminals (ends) pos shorthand incomplete 0 found else found) in
      if pos \<ge> length raw then
        (if \<not> incomplete
         then fold (\<lambda>(s, child). record_terminals (terminals child) pos shorthand incomplete 1) kids found
         else found)
      else if full_children raw pos kids \<noteq> []
      then fold (\<lambda>(s, child). partial_visit raw start child (pos + length s) shorthand incomplete)
             (full_children raw pos kids) found
      else fold (\<lambda>(s, child) found.
             let found = (if raw ! pos = hd s
                          then partial_visit raw start child (pos + 1) (shorthand + 1) incomplete found else found)
             in if unfinished_syllable raw pos s
                then partial_visit raw start child (length raw) shorthand True found else found)
             kids found)"
  by pat_completeness auto
termination
  by (relation "measure (\<lambda>(raw, start, node, _). trie_weight node)") (auto dest: kid_weight full_children_weight)

declare partial_visit.simps [simp del]

definition partial_search :: "pystr trie \<Rightarrow> pystr \<Rightarrow> nat \<Rightarrow> pmatch list" where
  "partial_search rt raw start =
     sort_key (\<lambda>m. (- int (pm_next_position m), - pm_cost m, e_text (pm_entry m)))
       (map snd (partial_visit raw start rt start 0 False []))"

definition partial_matches :: "matcher \<Rightarrow> pystr \<Rightarrow> nat \<Rightarrow> pmatch list \<times> matcher" where
  "partial_matches m raw start =
     (if raw = [] \<or> start \<ge> length raw then ([], m)
      else case map_of (mt_cache m) (raw, start) of
             Some cached \<Rightarrow> (cached, m)
           | None \<Rightarrow> let result = partial_search (mt_root m) raw start in
               (result, m\<lparr>mt_cache := od_set (raw, start) result (mt_cache m)\<rparr>))"

section \<open>The exhaustive search\<close>

definition crosses_boundary :: "nat set \<Rightarrow> nat \<Rightarrow> nat \<Rightarrow> bool" where
  "crosses_boundary boundaries begin_pos end_pos = (\<exists>b \<in> boundaries. begin_pos < b \<and> b < end_pos)"

abbreviation pm_rank :: "pmatch \<Rightarrow> nat \<times> nat \<times> bool" where
  "pm_rank m \<equiv> (pm_completion_syllables m, pm_shorthand m, pm_incomplete_final m)"

definition neural_record :: "entry list \<Rightarrow> nat \<Rightarrow> nat \<Rightarrow> bool \<Rightarrow> nat \<Rightarrow> found \<Rightarrow> found" where
  "neural_record es pos shorthand incomplete predicted =
     fold (\<lambda>e. best_put (\<lambda>new old. pm_rank new < pm_rank old) (e, pos)
       \<lparr>pm_entry = e, pm_next_position = pos, pm_shorthand = shorthand,
        pm_incomplete_final = incomplete, pm_completion_syllables = predicted\<rparr>) es"

function descendants :: "pystr trie \<Rightarrow> nat \<Rightarrow> nat \<Rightarrow> nat \<Rightarrow> found \<Rightarrow> found" where
  "descendants (Node kids ends) pos shorthand predicted found =
     fold (\<lambda>(s, child) found.
       descendants child pos shorthand (predicted + 1)
         (neural_record (terminals child) pos shorthand False predicted found)) kids found"
  by pat_completeness auto
termination
  by (relation "measure (\<lambda>(node, _). trie_weight node)") (auto dest: kid_weight)

declare descendants.simps [simp del]

type_synonym visited = "(pystr list \<times> nat \<times> bool, nat) odict"

record neural_query =
  nq_raw :: pystr
  nq_start :: nat
  nq_boundaries :: "nat set"
  nq_exact_only :: bool
  nq_include_descendants :: bool

function neural_visit ::
  "neural_query \<Rightarrow> pystr list \<Rightarrow> pystr trie \<Rightarrow> nat \<Rightarrow> nat \<Rightarrow> bool \<Rightarrow> visited \<times> found \<Rightarrow> visited \<times> found" where
  "neural_visit q path node pos shorthand incomplete (visited, found) =
     (if (case map_of visited (path, pos, incomplete) of None \<Rightarrow> False | Some previous \<Rightarrow> previous \<le> shorthand)
      then (visited, found)
      else
        let visited = od_set (path, pos, incomplete) shorthand visited;
            found = (if pos > nq_start q then neural_record (terminals node) pos shorthand incomplete 0 found else found) in
        if pos \<ge> length (nq_raw q) then
          (visited, if \<not> incomplete \<and> \<not> nq_exact_only q \<and> nq_include_descendants q
                    then descendants node pos shorthand 1 found else found)
        else
          let st = fold (\<lambda>(s, child) st.
                if prefix s (drop pos (nq_raw q)) \<and> \<not> crosses_boundary (nq_boundaries q) pos (pos + length s)
                then neural_visit q (path @ [s]) child (pos + length s) shorthand incomplete st else st)
                (children node) (visited, found) in
          if nq_exact_only q then st
          else fold (\<lambda>(s, child) st.
                let st = (if nq_raw q ! pos = hd s \<and> \<not> crosses_boundary (nq_boundaries q) pos (pos + 1)
                          then neural_visit q (path @ [s]) child (pos + 1) (shorthand + 1) incomplete st else st)
                in if unfinished_syllable (nq_raw q) pos s
                      \<and> \<not> crosses_boundary (nq_boundaries q) pos (length (nq_raw q))
                   then neural_visit q (path @ [s]) child (length (nq_raw q)) shorthand True st else st)
                (children node) st)"
  by pat_completeness auto
termination
  by (relation "measure (\<lambda>(q, path, node, _). trie_weight node)") (auto dest: child_weight)

declare neural_visit.simps [simp del]

definition max_positions :: "nat \<Rightarrow> found \<Rightarrow> (entry, nat) odict" where
  "max_positions start found = fold (\<lambda>((e, pos), _) d.
     od_set e (max pos (case map_of d e of None \<Rightarrow> start | Some p \<Rightarrow> p)) d) found []"

definition neural_sort_key :: "nat \<Rightarrow> pmatch \<Rightarrow> bool \<times> nat \<times> int \<times> pystr \<times> int" where
  "neural_sort_key n m = (pm_next_position m \<noteq> n, pm_completion_syllables m, - int (pm_next_position m),
     e_text (pm_entry m), case e_token_id (pm_entry m) of Some t \<Rightarrow> t | None \<Rightarrow> -1)"

definition neural_search :: "pystr trie \<Rightarrow> neural_query \<Rightarrow> bool \<Rightarrow> pmatch list" where
  "neural_search rt q cooperative_sort =
     (let found = snd (neural_visit q [] rt (nq_start q) 0 False ([], []));
          positions = max_positions (nq_start q) found;
          values = map snd (filter (\<lambda>((e, pos), m). map_of positions e = Some pos) found);
          sort_by = neural_sort_key (length (nq_raw q))
      in if cooperative_sort then fst (cooperative_sorted sort_by values) else sort_key sort_by values)"

subsection \<open>The bounded memo\<close>

definition MAX_NEURAL_MATCH_CACHE_KEYS :: nat where
  "MAX_NEURAL_MATCH_CACHE_KEYS = 256"

definition MAX_NEURAL_MATCH_CACHE_RECORDS :: nat where
  "MAX_NEURAL_MATCH_CACHE_RECORDS = 16384"

definition cached_neural_matches :: "neural_cache \<Rightarrow> neural_key \<Rightarrow> pmatch list option \<times> neural_cache" where
  "cached_neural_matches cache key = (case map_of cache key of
     None \<Rightarrow> (None, cache) | Some ms \<Rightarrow> (Some ms, od_move_to_end key cache))"

definition cache_records :: "('k, 'v list) odict \<Rightarrow> nat" where
  "cache_records cache = sum_list (map (\<lambda>kv. length (snd kv)) cache)"

fun evict_matches :: "('k, 'v list) odict \<Rightarrow> ('k, 'v list) odict" where
  "evict_matches [] = []"
| "evict_matches (kv # cache) =
     (if length (kv # cache) > MAX_NEURAL_MATCH_CACHE_KEYS
         \<or> cache_records (kv # cache) > MAX_NEURAL_MATCH_CACHE_RECORDS
      then evict_matches cache else kv # cache)"

definition remember_neural_matches :: "'k \<Rightarrow> 'v list \<Rightarrow> ('k, 'v list) odict \<Rightarrow> ('k, 'v list) odict" where
  "remember_neural_matches key result cache =
     (if length result > MAX_NEURAL_MATCH_CACHE_RECORDS then cache
      else evict_matches (od_move_to_end key (od_set key result cache)))"

datatype cache_slot = NeuralCache | NeuralExactCache | NeuralUnextendedCache

definition slot_of :: "bool \<Rightarrow> bool \<Rightarrow> cache_slot" where
  "slot_of exact_only include_descendants =
     (if exact_only then NeuralExactCache
      else if include_descendants then NeuralCache else NeuralUnextendedCache)"

fun read_slot :: "cache_slot \<Rightarrow> matcher \<Rightarrow> neural_cache" where
  "read_slot NeuralCache m = mt_neural_cache m"
| "read_slot NeuralExactCache m = mt_neural_exact_cache m"
| "read_slot NeuralUnextendedCache m = mt_neural_unextended_cache m"

fun write_slot :: "cache_slot \<Rightarrow> neural_cache \<Rightarrow> matcher \<Rightarrow> matcher" where
  "write_slot NeuralCache c m = m\<lparr>mt_neural_cache := c\<rparr>"
| "write_slot NeuralExactCache c m = m\<lparr>mt_neural_exact_cache := c\<rparr>"
| "write_slot NeuralUnextendedCache c m = m\<lparr>mt_neural_unextended_cache := c\<rparr>"

definition iter_neural_matches :: "neural_query \<Rightarrow> bool \<Rightarrow> matcher \<Rightarrow> pmatch list \<times> matcher" where
  "iter_neural_matches q cooperative_sort m =
     (if nq_raw q = [] \<or> nq_start q \<ge> length (nq_raw q) then ([], m)
      else
        let key = (nq_raw q, nq_start q, sorted_list_of_set (nq_boundaries q));
            slot = slot_of (nq_exact_only q) (nq_include_descendants q) in
        case cached_neural_matches (read_slot slot m) key of
          (Some cached, cache) \<Rightarrow> (cached, write_slot slot cache m)
        | (None, cache) \<Rightarrow>
            let result = neural_search (mt_root m) q cooperative_sort in
            (result, write_slot slot (remember_neural_matches key result cache) m))"

definition neural_matches :: "pystr \<Rightarrow> nat \<Rightarrow> nat set \<Rightarrow> bool \<Rightarrow> matcher \<Rightarrow> pmatch list \<times> matcher" where
  "neural_matches raw start boundaries exact_only m =
     (let slot = slot_of exact_only True in
      case cached_neural_matches (read_slot slot m) (raw, start, sorted_list_of_set boundaries) of
        (Some cached, cache) \<Rightarrow> (cached, write_slot slot cache m)
      | (None, cache) \<Rightarrow> iter_neural_matches
          \<lparr>nq_raw = raw, nq_start = start, nq_boundaries = boundaries, nq_exact_only = exact_only,
           nq_include_descendants = True\<rparr> False (write_slot slot cache m))"


section \<open>What the matcher holds\<close>

lemma content_fold_insert:
  "trie_content (fold (\<lambda>e. trie_insert (f e) e) es t) = trie_content t + mset (map (\<lambda>e. (f e, e)) es)"
  by (induction es arbitrary: t) (simp_all add: content_insert)

lemma trie_ok_fold: "trie_ok t \<Longrightarrow> trie_ok (fold (\<lambda>e. trie_insert (f e) e) es t)"
  by (induction es arbitrary: t) (simp_all add: trie_ok_insert)

lemma new_matcher_fields:
  "mt_entries (new_matcher ix) = dedup_by (\<lambda>e. e) [] (dfs_stack [ix_root ix])"
  "mt_root (new_matcher ix) = fold (\<lambda>e. trie_insert (e_syllable_path e) e) (mt_entries (new_matcher ix)) empty_trie"
  "mt_by_initial (new_matcher ix) = group_by_initial (ix_syllables ix)"
  by (simp_all add: new_matcher_def Let_def)

lemma matcher_root_content:
  "trie_content (mt_root (new_matcher ix)) = mset (map (\<lambda>e. (e_syllable_path e, e)) (mt_entries (new_matcher ix)))"
  by (simp add: new_matcher_fields(2) content_fold_insert)

lemma matcher_root_ok: "trie_ok (mt_root (new_matcher ix))"
  by (simp add: new_matcher_fields(2) trie_ok_fold)

lemma matcher_entries:
  "set (mt_entries (new_matcher ix)) = set_mset (index_entries ix) \<and> distinct (mt_entries (new_matcher ix))"
proof -
  have "set (dfs_stack [ix_root ix]) = set_mset (index_entries ix)"
    using mset_dfs_stack [of "[ix_root ix]"] by (metis (no_types, lifting) index_entries_def list.map(1)
        list.map(2) add.right_neutral sum_list.Cons sum_list.Nil set_mset_mset)
  then show ?thesis
    using dedup_by_keys [of "\<lambda>e. e" "[]" "dfs_stack [ix_root ix]"]
      distinct_dedup_by [of "\<lambda>e. e" "[]" "dfs_stack [ix_root ix]"]
    by (simp add: new_matcher_fields(1))
qed

lemma group_by_initial_fold:
  "map_of (fold (\<lambda>s grouped. if s = [] then grouped
     else od_set (hd s) ((case map_of grouped (hd s) of None \<Rightarrow> [] | Some ss \<Rightarrow> ss) @ [s]) grouped) syllables d) c
   = (case (case map_of d c of None \<Rightarrow> [] | Some ss \<Rightarrow> ss) @ filter (\<lambda>s. s \<noteq> [] \<and> hd s = c) syllables of
        [] \<Rightarrow> map_of d c | ss \<Rightarrow> Some ss)"
proof (induction syllables arbitrary: d)
  case Nil
  then show ?case by (auto split: option.splits list.splits)
next
  case (Cons s ss)
  show ?case
  proof (cases "s = []")
    case False
    then show ?thesis
      by (simp only: fold_simps Cons.IH if_False) (auto simp: map_of_od_set split: option.splits list.splits)
  qed (use Cons in simp)
qed

lemma by_initial:
  "(case map_of (mt_by_initial (new_matcher ix)) c of None \<Rightarrow> [] | Some ss \<Rightarrow> ss)
     = filter (\<lambda>s. s \<noteq> [] \<and> hd s = c) (ix_syllables ix)"
proof -
  have "map_of (mt_by_initial (new_matcher ix)) c
      = (case filter (\<lambda>s. s \<noteq> [] \<and> hd s = c) (ix_syllables ix) of [] \<Rightarrow> None | ss \<Rightarrow> Some ss)"
    by (simp add: new_matcher_fields(3) group_by_initial_def group_by_initial_fold split: list.split)
  then show ?thesis by (simp split: list.splits)
qed

section \<open>The sequence test\<close>

text \<open>The positions reachable with a given set of syllables.\<close>

inductive spelled :: "pystr list \<Rightarrow> pystr \<Rightarrow> nat \<Rightarrow> bool" for syllables raw where
  spelled_start: "spelled syllables raw 0"
| spelled_step: "spelled syllables raw pos \<Longrightarrow> s \<in> set syllables \<Longrightarrow> s \<noteq> [] \<Longrightarrow> pos < length raw
    \<Longrightarrow> prefix s (drop pos raw) \<Longrightarrow> spelled syllables raw (pos + length s)"

lemma prefix_drop_length: "prefix s (drop pos raw) \<Longrightarrow> pos + length s \<le> max pos (length raw)"
  by (drule prefix_length_le) auto

lemma mark_syllables_length [simp]: "length (mark_syllables raw pos ss r) = length r"
  by (induction ss arbitrary: r) (simp_all add: mark_syllables_def)

lemma mark_syllables_nth:
  "i < length r \<Longrightarrow> mark_syllables raw pos ss r ! i
     \<longleftrightarrow> r ! i \<or> (\<exists>s \<in> set ss. prefix s (drop pos raw) \<and> i = pos + length s)"
proof (induction ss arbitrary: r)
  case (Cons s ss)
  have "mark_syllables raw pos (s # ss) r = mark_syllables raw pos ss
     (if prefix s (drop pos raw) then r[pos + length s := True] else r)"
    by (simp add: mark_syllables_def)
  with Cons show ?case by (cases "i = pos + length s") (auto simp: nth_list_update)
qed (simp add: mark_syllables_def)

lemma prefix_drop_hd: "prefix s (drop n raw) \<Longrightarrow> s \<noteq> [] \<Longrightarrow> n < length raw \<Longrightarrow> hd s = raw ! n"
  by (metis hd_append2 hd_drop_conv_nth prefixE)

lemma spelled_bound: "spelled syllables raw pos \<Longrightarrow> pos \<le> length raw"
proof (induction rule: spelled.induct)
  case (spelled_step pos s)
  then show ?case using prefix_drop_length [of s pos raw] by auto
qed simp

lemma reach_invariant:
  assumes "n \<le> length raw"
    and "r = fold (reach_position (new_matcher ix) raw) [0..<n] ((replicate (length raw + 1) False)[0 := True])"
  shows "length r = length raw + 1 \<and> (\<forall>i \<le> length raw. r ! i \<longleftrightarrow> i = 0 \<or>
     (\<exists>pos s. pos < n \<and> spelled (ix_syllables ix) raw pos \<and> s \<in> set (ix_syllables ix) \<and> s \<noteq> []
        \<and> prefix s (drop pos raw) \<and> i = pos + length s))"
  using assms(1) unfolding assms(2)
proof (induction n)
  case 0
  then show ?case by (auto simp: nth_Cons split: nat.splits)
next
  case (Suc n)
  let ?r = "fold (reach_position (new_matcher ix) raw) [0..<n] ((replicate (length raw + 1) False)[0 := True])"
  let ?S = "ix_syllables ix"
  have len: "length ?r = length raw + 1" and
    nth: "\<And>i. i \<le> length raw \<Longrightarrow> ?r ! i \<longleftrightarrow> i = 0 \<or> (\<exists>pos s. pos < n \<and> spelled ?S raw pos \<and> s \<in> set ?S
        \<and> s \<noteq> [] \<and> prefix s (drop pos raw) \<and> i = pos + length s)"
    using Suc by auto
  have here: "?r ! n \<longleftrightarrow> spelled ?S raw n"
  proof
    assume "?r ! n"
    with nth [of n] Suc(2) consider "n = 0" | pos s where "pos < n" "spelled ?S raw pos" "s \<in> set ?S" "s \<noteq> []"
        "prefix s (drop pos raw)" "n = pos + length s"
      by auto
    then show "spelled ?S raw n"
    proof cases
      case 2
      then show ?thesis using spelled_step [of ?S raw pos s] Suc(2) by simp
    qed (simp add: spelled_start)
  next
    assume "spelled ?S raw n"
    then show "?r ! n"
    proof cases
      case spelled_start
      then show ?thesis using nth [of n] by simp
    next
      case (spelled_step pos s)
      then have "pos < n" "n \<le> length raw" using Suc(2) by simp_all
      then show ?thesis unfolding nth [OF \<open>n \<le> length raw\<close>] using spelled_step by blast
    qed
  qed
  let ?r' = "reach_position (new_matcher ix) raw n ?r"
  have "length ?r' = length raw + 1" using len by (simp add: reach_position_def)
  moreover have "?r' ! i \<longleftrightarrow> i = 0 \<or> (\<exists>pos s. pos < Suc n \<and> spelled ?S raw pos \<and> s \<in> set ?S
        \<and> s \<noteq> [] \<and> prefix s (drop pos raw) \<and> i = pos + length s)" if i: "i \<le> length raw" for i
  proof (cases "?r ! n")
    case False
    then have "\<not> spelled ?S raw n" using here by simp
    with False nth [OF i] show ?thesis by (auto simp: reach_position_def less_Suc_eq)
  next
    case True
    then have "?r' ! i \<longleftrightarrow> ?r ! i \<or> (\<exists>s \<in> set ?S. s \<noteq> [] \<and> hd s = raw ! n \<and> prefix s (drop n raw) \<and> i = n + length s)"
      using i len by (simp add: reach_position_def mark_syllables_nth by_initial) auto
    with nth [OF i] True here prefix_drop_hd [of _ n raw] Suc(2) show ?thesis by (auto simp: less_Suc_eq)
  qed
  ultimately show ?case by simp
qed


lemma spelled_concat:
  "spelled S raw pos \<longleftrightarrow> pos \<le> length raw \<and> (\<exists>ss. set ss \<subseteq> set S \<and> concat ss = take pos raw)"
proof
  assume "spelled S raw pos"
  then show "pos \<le> length raw \<and> (\<exists>ss. set ss \<subseteq> set S \<and> concat ss = take pos raw)"
  proof (induction rule: spelled.induct)
    case spelled_start
    then show ?case by (auto intro: exI [of _ "[]"])
  next
    case (spelled_step pos s)
    then obtain ss where "set ss \<subseteq> set S" "concat ss = take pos raw" by blast
    moreover have "take (pos + length s) raw = take pos raw @ s"
      using spelled_step(5) by (auto simp: prefix_def take_add)
    moreover have "pos + length s \<le> length raw" using spelled_step(4,5) prefix_drop_length [of s pos raw] by simp
    ultimately show ?case using spelled_step(2) by (intro conjI exI [of _ "ss @ [s]"]) auto
  qed
next
  assume "pos \<le> length raw \<and> (\<exists>ss. set ss \<subseteq> set S \<and> concat ss = take pos raw)"
  then obtain ss where "pos \<le> length raw" "set ss \<subseteq> set S" "concat ss = take pos raw" by blast
  then show "spelled S raw pos"
  proof (induction ss arbitrary: pos rule: rev_induct)
    case Nil
    then have "pos = 0" by (cases raw) auto
    then show ?case by (simp add: spelled_start)
  next
    case (snoc s ss)
    show ?case
    proof (cases "s = []")
      case False
      let ?p = "length (concat ss)"
      have all: "concat ss @ s @ drop pos raw = raw"
        using snoc(4) append_take_drop_id [of pos raw] by (metis append.assoc concat.simps concat_append append_Nil2)
      then have p: "drop ?p raw = s @ drop pos raw" "take ?p raw = concat ss" by (metis append_eq_conv_conj)+
      have len: "?p + length s = pos" using snoc(2,4) by (metis concat.simps concat_append append_Nil2 length_append length_take min.absorb2)
      then have "?p < length raw" using False snoc(2) by (cases s) auto
      then have "spelled S raw (?p + length s)"
        using snoc(1) [of ?p] snoc(3) p False by (intro spelled_step) auto
      then show ?thesis by (simp only: len)
    qed (use snoc in simp)
  qed
qed

text \<open>
  Claim C36. The dynamic program of the matcher accepts exactly the nonempty letter sequences that
  are a concatenation of syllables of the index.
\<close>

theorem sequence_test_exact:
  "is_complete_syllable_sequence (new_matcher ix) raw \<longleftrightarrow>
     raw \<noteq> [] \<and> (\<exists>ss. set ss \<subseteq> set (ix_syllables ix) \<and> concat ss = raw)"
proof (cases "raw = []")
  case False
  let ?r = "fold (reach_position (new_matcher ix) raw) [0..<length raw] ((replicate (length raw + 1) False)[0 := True])"
  have "length ?r = length raw + 1" using reach_invariant [OF le_refl refl] by blast
  then have "last ?r = ?r ! length raw" by (metis add_diff_cancel_right' last_conv_nth list.size(3) add_is_0 one_neq_zero)
  also have "\<dots> \<longleftrightarrow> (\<exists>pos s. pos < length raw \<and> spelled (ix_syllables ix) raw pos \<and> s \<in> set (ix_syllables ix)
      \<and> s \<noteq> [] \<and> prefix s (drop pos raw) \<and> length raw = pos + length s)"
    using reach_invariant [OF le_refl refl, of ix raw] False by simp
  also have "\<dots> \<longleftrightarrow> spelled (ix_syllables ix) raw (length raw)"
    using False by (subst spelled.simps [of _ _ "length raw"]) auto
  finally show ?thesis using False by (simp add: is_complete_syllable_sequence_def spelled_concat)
qed (simp add: is_complete_syllable_sequence_def)

section \<open>What the exhaustive search offers\<close>

text \<open>
  A syllable path read against the typed letters from one position to another: whole syllables,
  single initials (counted as shorthand) and one unfinished final syllable.  No edge may step over
  an explicit boundary.
\<close>

inductive reads :: "neural_query \<Rightarrow> pystr list \<Rightarrow> nat \<Rightarrow> nat \<Rightarrow> nat \<Rightarrow> bool \<Rightarrow> bool" for q where
  reads_done: "reads q [] pos pos 0 False"
| reads_full: "pos < length (nq_raw q) \<Longrightarrow> prefix s (drop pos (nq_raw q))
    \<Longrightarrow> \<not> crosses_boundary (nq_boundaries q) pos (pos + length s)
    \<Longrightarrow> reads q ss (pos + length s) stop n incomplete \<Longrightarrow> reads q (s # ss) pos stop n incomplete"
| reads_initial: "pos < length (nq_raw q) \<Longrightarrow> \<not> nq_exact_only q \<Longrightarrow> nq_raw q ! pos = hd s
    \<Longrightarrow> reads q ss (pos + 1) stop n incomplete \<Longrightarrow> reads q (s # ss) pos stop (Suc n) incomplete"
| reads_unfinished: "pos < length (nq_raw q) \<Longrightarrow> \<not> nq_exact_only q \<Longrightarrow> unfinished_syllable (nq_raw q) pos s
    \<Longrightarrow> \<not> crosses_boundary (nq_boundaries q) pos (length (nq_raw q))
    \<Longrightarrow> reads q [s] pos (length (nq_raw q)) 0 True"

text \<open>
  An entry is offered at a position with a rank: predicted syllables beyond the input, shorthand
  letters, unfinished last syllable.
\<close>

definition offers :: "neural_query \<Rightarrow> pystr list \<Rightarrow> nat \<Rightarrow> nat \<Rightarrow> nat \<times> nat \<times> bool \<Rightarrow> bool" where
  "offers q path pos stop rank \<longleftrightarrow> (\<exists>typed predicted n incomplete. path = typed @ predicted
     \<and> reads q typed pos stop n incomplete \<and> nq_start q < stop \<and> rank = (length predicted, n, incomplete)
     \<and> (predicted = [] \<or> length (nq_raw q) \<le> stop \<and> \<not> incomplete \<and> \<not> nq_exact_only q \<and> nq_include_descendants q))"


type_synonym offer = "entry \<times> nat \<times> (nat \<times> nat \<times> bool)"

text \<open>The offers a visit of one node is responsible for.\<close>

definition state_offers :: "neural_query \<Rightarrow> pystr trie \<Rightarrow> nat \<Rightarrow> nat \<Rightarrow> bool \<Rightarrow> offer set" where
  "state_offers q node pos shorthand incomplete =
     {(e, stop, rank). \<exists>path. (path, e) \<in># trie_content node \<and>
        (if incomplete then path = [] \<and> nq_start q < pos \<and> stop = pos \<and> rank = (0, shorthand, True)
         else \<exists>c n i. offers q path pos stop (c, n, i) \<and> rank = (c, shorthand + n, i))}"

lemma in_content_Nil [simp]: "([], e) \<in># trie_content t \<longleftrightarrow> e \<in> set (terminals t)"
  by (cases t) (auto simp: in_sum_mset_list)

lemma in_content_Cons:
  "(s # p, e) \<in># trie_content t \<longleftrightarrow> (\<exists>child. (s, child) \<in> set (children t) \<and> (p, e) \<in># trie_content child)"
proof
  assume "(s # p, e) \<in># trie_content t"
  then show "\<exists>child. (s, child) \<in> set (children t) \<and> (p, e) \<in># trie_content child"
    by (cases t) (auto simp: in_sum_mset_list)
next
  assume "\<exists>child. (s, child) \<in> set (children t) \<and> (p, e) \<in># trie_content child"
  then obtain child where "(s, child) \<in> set (children t)" "(p, e) \<in># trie_content child" by blast
  then show "(s # p, e) \<in># trie_content t" using in_content_children [of "(s, child)" t p e] by simp
qed

lemma reads_Nil [simp]: "reads q [] pos stop n i \<longleftrightarrow> stop = pos \<and> n = 0 \<and> \<not> i"
  by (auto intro: reads_done elim: reads.cases)

lemma crosses_single [simp]: "\<not> crosses_boundary bs pos (pos + 1)" "\<not> crosses_boundary bs pos (Suc pos)"
  by (auto simp: crosses_boundary_def)

lemma reads_end: "reads q (s # ss) pos stop n i \<Longrightarrow> pos < length (nq_raw q)"
  by (auto elim: reads.cases)

lemma reads_Cons:
  "reads q (s # ss) pos stop n i \<longleftrightarrow> pos < length (nq_raw q) \<and>
     (prefix s (drop pos (nq_raw q)) \<and> \<not> crosses_boundary (nq_boundaries q) pos (pos + length s)
        \<and> reads q ss (pos + length s) stop n i
      \<or> \<not> nq_exact_only q \<and> nq_raw q ! pos = hd s \<and> (\<exists>m. n = Suc m \<and> reads q ss (pos + 1) stop m i)
      \<or> \<not> nq_exact_only q \<and> unfinished_syllable (nq_raw q) pos s
        \<and> \<not> crosses_boundary (nq_boundaries q) pos (length (nq_raw q)) \<and> ss = [] \<and> stop = length (nq_raw q) \<and> n = 0 \<and> i)"
  by (subst reads.simps) auto

lemma ex_split_Cons:
  "(\<exists>xs ys. s # ss = xs @ ys \<and> P xs ys) \<longleftrightarrow> P [] (s # ss) \<or> (\<exists>xs ys. ss = xs @ ys \<and> P (s # xs) ys)"
  by (metis append_Cons append_Nil append_eq_Cons_conv)

text \<open>A path is offered at its start, beyond the end of the input, or after reading its first syllable.\<close>

lemma offers_Nil: "offers q [] pos stop rank \<longleftrightarrow> stop = pos \<and> nq_start q < pos \<and> rank = (0, 0, False)"
  by (auto simp: offers_def)

lemma offers_Cons:
  "offers q (s # ss) pos stop (c, n, i) \<longleftrightarrow>
     (length (nq_raw q) \<le> pos \<and> nq_start q < pos \<and> \<not> nq_exact_only q \<and> nq_include_descendants q
        \<and> stop = pos \<and> c = Suc (length ss) \<and> n = 0 \<and> \<not> i)
   \<or> (pos < length (nq_raw q) \<and>
       (prefix s (drop pos (nq_raw q)) \<and> \<not> crosses_boundary (nq_boundaries q) pos (pos + length s)
          \<and> offers q ss (pos + length s) stop (c, n, i)
        \<or> \<not> nq_exact_only q \<and> nq_raw q ! pos = hd s \<and> (\<exists>m. n = Suc m \<and> offers q ss (pos + 1) stop (c, m, i))
        \<or> \<not> nq_exact_only q \<and> unfinished_syllable (nq_raw q) pos s
          \<and> \<not> crosses_boundary (nq_boundaries q) pos (length (nq_raw q)) \<and> nq_start q < length (nq_raw q)
          \<and> ss = [] \<and> stop = length (nq_raw q) \<and> c = 0 \<and> n = 0 \<and> i))"
  (is "?lhs \<longleftrightarrow> ?rhs")
proof -
  have "?lhs \<longleftrightarrow> (\<exists>typed predicted. s # ss = typed @ predicted \<and> reads q typed pos stop n i \<and> nq_start q < stop
      \<and> c = length predicted \<and> (predicted = [] \<or> length (nq_raw q) \<le> stop \<and> \<not> i \<and> \<not> nq_exact_only q \<and> nq_include_descendants q))"
    by (auto simp: offers_def)
  also have "\<dots> \<longleftrightarrow> (length (nq_raw q) \<le> pos \<and> nq_start q < pos \<and> \<not> nq_exact_only q \<and> nq_include_descendants q
        \<and> stop = pos \<and> c = Suc (length ss) \<and> n = 0 \<and> \<not> i)
      \<or> (\<exists>typed predicted. ss = typed @ predicted \<and> reads q (s # typed) pos stop n i \<and> nq_start q < stop
      \<and> c = length predicted \<and> (predicted = [] \<or> length (nq_raw q) \<le> stop \<and> \<not> i \<and> \<not> nq_exact_only q \<and> nq_include_descendants q))"
    by (subst ex_split_Cons) auto
  also have "\<dots> \<longleftrightarrow> ?rhs"
  proof -
    let ?more = "\<lambda>typed predicted. ss = typed @ predicted \<and> nq_start q < stop \<and> c = length predicted
      \<and> (predicted = [] \<or> length (nq_raw q) \<le> stop \<and> \<not> i \<and> \<not> nq_exact_only q \<and> nq_include_descendants q)"
    have off: "offers q ss p stop (c, m, i) \<longleftrightarrow> (\<exists>typed predicted. ?more typed predicted \<and> reads q typed p stop m i)" for p m
      by (auto simp: offers_def)
    have fin: "(\<exists>typed predicted. ?more typed predicted \<and> typed = [] \<and> stop = length (nq_raw q) \<and> n = 0 \<and> i)
        \<longleftrightarrow> nq_start q < length (nq_raw q) \<and> ss = [] \<and> stop = length (nq_raw q) \<and> c = 0 \<and> n = 0 \<and> i"
      by auto
    have "(\<exists>typed predicted. ss = typed @ predicted \<and> reads q (s # typed) pos stop n i \<and> nq_start q < stop
      \<and> c = length predicted \<and> (predicted = [] \<or> length (nq_raw q) \<le> stop \<and> \<not> i \<and> \<not> nq_exact_only q \<and> nq_include_descendants q))
      \<longleftrightarrow> pos < length (nq_raw q) \<and>
        (prefix s (drop pos (nq_raw q)) \<and> \<not> crosses_boundary (nq_boundaries q) pos (pos + length s)
           \<and> (\<exists>typed predicted. ?more typed predicted \<and> reads q typed (pos + length s) stop n i)
         \<or> \<not> nq_exact_only q \<and> nq_raw q ! pos = hd s
           \<and> (\<exists>m. n = Suc m \<and> (\<exists>typed predicted. ?more typed predicted \<and> reads q typed (pos + 1) stop m i))
         \<or> \<not> nq_exact_only q \<and> unfinished_syllable (nq_raw q) pos s
           \<and> \<not> crosses_boundary (nq_boundaries q) pos (length (nq_raw q))
           \<and> (\<exists>typed predicted. ?more typed predicted \<and> typed = [] \<and> stop = length (nq_raw q) \<and> n = 0 \<and> i))"
      unfolding reads_Cons by blast
    then show ?thesis unfolding off fin by (simp only: conj_ac)
  qed
  finally show ?thesis .
qed

lemma union_children: "x \<in> (\<Union>c \<in> set cs. F c) \<longleftrightarrow> (\<exists>s child. (s, child) \<in> set cs \<and> x \<in> F (s, child))"
  by auto

lemma ex_path: "(\<exists>p m. Q p \<and> R m \<and> S p m) \<longleftrightarrow> (\<exists>m. Q [] \<and> R m \<and> S [] m) \<or> (\<exists>s p m. Q (s # p) \<and> R m \<and> S (s # p) m)"
  by (metis list.exhaust)

definition child_offers :: "neural_query \<Rightarrow> nat \<Rightarrow> nat \<Rightarrow> pystr \<times> pystr trie \<Rightarrow> offer set" where
  "child_offers q pos shorthand = (\<lambda>(s, child).
     if prefix s (drop pos (nq_raw q)) \<and> \<not> crosses_boundary (nq_boundaries q) pos (pos + length s)
     then state_offers q child (pos + length s) shorthand False else {})"

definition initial_offers :: "neural_query \<Rightarrow> nat \<Rightarrow> nat \<Rightarrow> pystr \<times> pystr trie \<Rightarrow> offer set" where
  "initial_offers q pos shorthand = (\<lambda>(s, child).
     if nq_raw q ! pos = hd s \<and> \<not> crosses_boundary (nq_boundaries q) pos (pos + 1)
     then state_offers q child (pos + 1) (shorthand + 1) False else {})"

definition unfinished_offers :: "neural_query \<Rightarrow> nat \<Rightarrow> nat \<Rightarrow> pystr \<times> pystr trie \<Rightarrow> offer set" where
  "unfinished_offers q pos shorthand = (\<lambda>(s, child).
     if unfinished_syllable (nq_raw q) pos s \<and> \<not> crosses_boundary (nq_boundaries q) pos (length (nq_raw q))
     then state_offers q child (length (nq_raw q)) shorthand True else {})"

definition here_offers :: "neural_query \<Rightarrow> pystr trie \<Rightarrow> nat \<Rightarrow> nat \<Rightarrow> bool \<Rightarrow> offer set" where
  "here_offers q node pos shorthand incomplete =
     (if pos > nq_start q then (\<lambda>e. (e, pos, (0, shorthand, incomplete))) ` set (terminals node) else {})"

definition below_offers :: "pystr trie \<Rightarrow> nat \<Rightarrow> nat \<Rightarrow> nat \<Rightarrow> offer set" where
  "below_offers node pos shorthand predicted =
     {(e, stop, rank). stop = pos \<and> (\<exists>p. p \<noteq> [] \<and> (p, e) \<in># trie_content node
        \<and> rank = (predicted + length p - 1, shorthand, False))}"

lemma state_offers_incomplete: "state_offers q node pos shorthand True = here_offers q node pos shorthand True"
  by (auto simp: state_offers_def here_offers_def)

lemma state_offers_end:
  assumes "length (nq_raw q) \<le> pos" "nq_start q < length (nq_raw q)"
  shows "state_offers q node pos shorthand False = here_offers q node pos shorthand False
     \<union> (if \<not> nq_exact_only q \<and> nq_include_descendants q then below_offers node pos shorthand 1 else {})"
proof -
  have "(e, stop, rank) \<in> state_offers q node pos shorthand False \<longleftrightarrow>
      (e \<in> set (terminals node) \<and> stop = pos \<and> rank = (0, shorthand, False))
      \<or> (\<not> nq_exact_only q \<and> nq_include_descendants q \<and> stop = pos \<and> (\<exists>p. p \<noteq> [] \<and> (p, e) \<in># trie_content node
           \<and> rank = (length p, shorthand, False)))" for e stop rank
  proof -
    have "offers q p pos stop (c, n, i) \<longleftrightarrow> stop = pos \<and> n = 0 \<and> \<not> i \<and> c = length p
        \<and> (p = [] \<or> \<not> nq_exact_only q \<and> nq_include_descendants q)" for p c n i
      using assms by (cases p) (auto simp: offers_Nil offers_Cons)
    then have "(e, stop, rank) \<in> state_offers q node pos shorthand False \<longleftrightarrow> (\<exists>p. (p, e) \<in># trie_content node
        \<and> stop = pos \<and> rank = (length p, shorthand, False) \<and> (p = [] \<or> \<not> nq_exact_only q \<and> nq_include_descendants q))"
      by (auto simp: state_offers_def)
    then show ?thesis by (metis in_content_Nil list.size(3) length_0_conv)
  qed
  then show ?thesis using assms by (auto simp: here_offers_def below_offers_def)
qed

lemma state_offers_inner:
  assumes "pos < length (nq_raw q)" "nq_start q \<le> pos"
  shows "state_offers q node pos shorthand False = here_offers q node pos shorthand False
     \<union> (\<Union>c \<in> set (children node). child_offers q pos shorthand c)
     \<union> (if nq_exact_only q then {} else
          (\<Union>c \<in> set (children node). initial_offers q pos shorthand c \<union> unfinished_offers q pos shorthand c))"
  (is "_ = ?rhs")
proof -
  have "(e, stop, rank) \<in> state_offers q node pos shorthand False \<longleftrightarrow> (e, stop, rank) \<in> ?rhs" for e stop rank
  proof -
    obtain c n i where r: "rank = (c, n, i)" by (cases rank)
    have "(e, stop, rank) \<in> state_offers q node pos shorthand False \<longleftrightarrow>
        (\<exists>p m. (p, e) \<in># trie_content node \<and> n = shorthand + m \<and> offers q p pos stop (c, m, i))"
      by (auto simp: state_offers_def r)
    also have "\<dots> \<longleftrightarrow> (e \<in> set (terminals node) \<and> stop = pos \<and> nq_start q < pos \<and> c = 0 \<and> n = shorthand \<and> \<not> i)
        \<or> (\<exists>s child p m. (s, child) \<in> set (children node) \<and> (p, e) \<in># trie_content child
             \<and> n = shorthand + m \<and> offers q (s # p) pos stop (c, m, i))" (is "_ \<longleftrightarrow> ?here \<or> ?below")
      by (subst ex_path) (auto simp: offers_Nil in_content_Cons)
    also have "?here \<longleftrightarrow> (e, stop, rank) \<in> here_offers q node pos shorthand False"
      by (auto simp: here_offers_def r)
    also have "?below \<longleftrightarrow> (e, stop, rank) \<in> (\<Union>c \<in> set (children node). child_offers q pos shorthand c)
        \<or> \<not> nq_exact_only q \<and> (e, stop, rank) \<in> (\<Union>c \<in> set (children node). initial_offers q pos shorthand c)
        \<or> \<not> nq_exact_only q \<and> (e, stop, rank) \<in> (\<Union>c \<in> set (children node). unfinished_offers q pos shorthand c)"
    proof -
      let ?K = "\<lambda>s child p m. (s, child) \<in> set (children node) \<and> (p, e) \<in># trie_content child \<and> n = shorthand + m"
      have "?below \<longleftrightarrow>
          (\<exists>s child p m. ?K s child p m \<and> prefix s (drop pos (nq_raw q))
             \<and> \<not> crosses_boundary (nq_boundaries q) pos (pos + length s) \<and> offers q p (pos + length s) stop (c, m, i))
          \<or> \<not> nq_exact_only q \<and> (\<exists>s child p m. (s, child) \<in> set (children node) \<and> (p, e) \<in># trie_content child
             \<and> n = shorthand + Suc m \<and> nq_raw q ! pos = hd s \<and> offers q p (pos + 1) stop (c, m, i))
          \<or> \<not> nq_exact_only q \<and> (\<exists>s child. (s, child) \<in> set (children node) \<and> e \<in> set (terminals child)
             \<and> n = shorthand \<and> unfinished_syllable (nq_raw q) pos s
             \<and> \<not> crosses_boundary (nq_boundaries q) pos (length (nq_raw q)) \<and> stop = length (nq_raw q) \<and> c = 0 \<and> i)"
      proof -
        have n: "(\<exists>m. n = shorthand + m \<and> (\<exists>k. m = Suc k \<and> P k)) \<longleftrightarrow> (\<exists>m. n = shorthand + Suc m \<and> P m)" for P
          by blast
        have split: "offers q (s # p) pos stop (c, m, i) \<longleftrightarrow>
            prefix s (drop pos (nq_raw q)) \<and> \<not> crosses_boundary (nq_boundaries q) pos (pos + length s)
              \<and> offers q p (pos + length s) stop (c, m, i)
            \<or> \<not> nq_exact_only q \<and> (\<exists>k. m = Suc k \<and> nq_raw q ! pos = hd s \<and> offers q p (pos + 1) stop (c, k, i))
            \<or> \<not> nq_exact_only q \<and> unfinished_syllable (nq_raw q) pos s
              \<and> \<not> crosses_boundary (nq_boundaries q) pos (length (nq_raw q))
              \<and> p = [] \<and> m = 0 \<and> stop = length (nq_raw q) \<and> c = 0 \<and> i" for s p m
          using assms by (subst offers_Cons) auto
        have last: "(\<exists>p m. (p, e) \<in># trie_content child \<and> n = shorthand + m \<and> Q \<and> p = [] \<and> m = 0 \<and> R)
            \<longleftrightarrow> e \<in> set (terminals child) \<and> n = shorthand \<and> Q \<and> R" for child Q R
          by auto
        show ?thesis unfolding split by (rule iffI; elim exE conjE disjE; metis add_0_right in_content_Nil)
      qed
      moreover have "(\<exists>s child p m. ?K s child p m \<and> prefix s (drop pos (nq_raw q))
             \<and> \<not> crosses_boundary (nq_boundaries q) pos (pos + length s) \<and> offers q p (pos + length s) stop (c, m, i))
          \<longleftrightarrow> (e, stop, rank) \<in> (\<Union>c \<in> set (children node). child_offers q pos shorthand c)"
        unfolding union_children r by (simp add: child_offers_def state_offers_def) blast
      moreover have "(\<exists>s child p m. (s, child) \<in> set (children node) \<and> (p, e) \<in># trie_content child
             \<and> n = shorthand + Suc m \<and> nq_raw q ! pos = hd s \<and> offers q p (pos + 1) stop (c, m, i))
          \<longleftrightarrow> (e, stop, rank) \<in> (\<Union>c \<in> set (children node). initial_offers q pos shorthand c)"
        unfolding union_children r by (simp add: initial_offers_def state_offers_def) blast
      moreover have "(\<exists>s child. (s, child) \<in> set (children node) \<and> e \<in> set (terminals child)
             \<and> n = shorthand \<and> unfinished_syllable (nq_raw q) pos s
             \<and> \<not> crosses_boundary (nq_boundaries q) pos (length (nq_raw q)) \<and> stop = length (nq_raw q) \<and> c = 0 \<and> i)
          \<longleftrightarrow> (e, stop, rank) \<in> (\<Union>c \<in> set (children node). unfinished_offers q pos shorthand c)"
        unfolding union_children r using assms by (simp add: unfinished_offers_def state_offers_def) blast
      ultimately show ?thesis by (simp only:)
    qed
    finally show ?thesis by auto
  qed
  then show ?thesis by auto
qed


section \<open>The search finds every offer at its best rank\<close>

definition offer_match :: "entry \<Rightarrow> nat \<Rightarrow> nat \<times> nat \<times> bool \<Rightarrow> pmatch" where
  "offer_match e stop rank = \<lparr>pm_entry = e, pm_next_position = stop, pm_shorthand = fst (snd rank),
     pm_incomplete_final = snd (snd rank), pm_completion_syllables = fst rank\<rparr>"

lemma offer_match_rank [simp]: "pm_rank (offer_match e stop rank) = rank"
  by (simp add: offer_match_def)

definition covers :: "found \<Rightarrow> offer set \<Rightarrow> bool" where
  "covers F A \<longleftrightarrow> (\<forall>(e, stop, rank) \<in> A. \<exists>m. map_of F (e, stop) = Some m \<and> pm_rank m \<le> rank)"

definition improves :: "found \<Rightarrow> found \<Rightarrow> bool" where
  "improves F F' \<longleftrightarrow> (\<forall>k m. map_of F k = Some m \<longrightarrow> (\<exists>m'. map_of F' k = Some m' \<and> pm_rank m' \<le> pm_rank m))"

definition from_offers :: "found \<Rightarrow> found \<Rightarrow> offer set \<Rightarrow> bool" where
  "from_offers F F' A \<longleftrightarrow> (\<forall>k m. map_of F' k = Some m \<longrightarrow> map_of F k = Some m
     \<or> (\<exists>(e, stop, rank) \<in> A. k = (e, stop) \<and> m = offer_match e stop rank))"

text \<open>Going from \<open>F\<close> to \<open>F'\<close> adds exactly the offers of \<open>A\<close>, each unless a better one is known.\<close>

definition adds :: "found \<Rightarrow> found \<Rightarrow> offer set \<Rightarrow> bool" where
  "adds F F' A \<longleftrightarrow> (od_ok F \<longrightarrow> od_ok F') \<and> improves F F' \<and> from_offers F F' A \<and> covers F' A"

lemma covers_improves: "covers F A \<Longrightarrow> improves F F' \<Longrightarrow> covers F' A"
  unfolding covers_def improves_def by (fastforce intro: order_trans)

lemma adds_refl: "covers F A \<Longrightarrow> adds F F A"
  by (auto simp: adds_def improves_def from_offers_def)

lemma adds_empty [simp]: "adds F F {}"
  by (simp add: adds_refl covers_def)

lemma improves_trans: "improves F F1 \<Longrightarrow> improves F1 F2 \<Longrightarrow> improves F F2"
  unfolding improves_def by (meson order_trans)

lemma adds_trans:
  assumes "adds F F1 A" "adds F1 F2 B"
  shows "adds F F2 (A \<union> B)"
proof -
  have "covers F2 (A \<union> B)"
    using assms covers_improves [of F1 A F2] by (auto simp: adds_def covers_def)
  moreover have "from_offers F F2 (A \<union> B)"
    using assms unfolding adds_def from_offers_def by (meson UnCI)
  moreover have "improves F F2" using assms improves_trans unfolding adds_def by blast
  ultimately show ?thesis using assms by (auto simp: adds_def)
qed

lemma adds_fold:
  assumes "\<And>x F. x \<in> set xs \<Longrightarrow> adds F (f x F) (A x)"
  shows "adds F (fold f xs F) (\<Union>x \<in> set xs. A x)"
  using assms
proof (induction xs arbitrary: F)
  case (Cons x xs)
  have "adds F (f x F) (A x)" "adds (f x F) (fold f xs (f x F)) (\<Union>x \<in> set xs. A x)"
    using Cons by auto
  from adds_trans [OF this] show ?case by simp
qed simp

lemma best_put_facts:
  fixes r :: "'v \<Rightarrow> 'o::linorder"
  assumes "F' = best_put (\<lambda>new old. r new < r old) k v F"
  shows "(od_ok F \<longrightarrow> od_ok F') \<and> (\<forall>j m. map_of F j = Some m \<longrightarrow> (\<exists>m'. map_of F' j = Some m' \<and> r m' \<le> r m))
    \<and> (\<forall>j m. map_of F' j = Some m \<longrightarrow> map_of F j = Some m \<or> (j = k \<and> m = v))
    \<and> (\<exists>m. map_of F' k = Some m \<and> r m \<le> r v)"
  unfolding assms by (auto simp: map_of_best_put not_less split: option.splits if_splits intro: less_imp_le)

lemma adds_best_put:
  "adds F (best_put (\<lambda>new old. pm_rank new < pm_rank old) (e, pos) (offer_match e pos rank) F) {(e, pos, rank)}"
  using best_put_facts [OF refl, where r = "\<lambda>m. pm_rank m" and k = "(e, pos)" and v = "offer_match e pos rank" and F = F]
  unfolding adds_def improves_def from_offers_def covers_def offer_match_rank by blast

lemma adds_neural_record:
  "adds F (neural_record es pos shorthand incomplete predicted F)
     ((\<lambda>e. (e, pos, (predicted, shorthand, incomplete))) ` set es)"
proof -
  have "adds F (neural_record es pos shorthand incomplete predicted F)
     (\<Union>e \<in> set es. {(e, pos, (predicted, shorthand, incomplete))})"
    unfolding neural_record_def
    using adds_best_put [of _ _ pos "(predicted, shorthand, incomplete)"]
    by (intro adds_fold) (simp add: offer_match_def)
  then show ?thesis by (simp add: UNION_singleton_eq_range)
qed

lemma offer_set_eqI: "(\<And>e stop rank. (e, stop, rank) \<in> A \<longleftrightarrow> (e, stop, rank) \<in> B) \<Longrightarrow> A = (B :: offer set)"
  by auto

lemma ex_list_split: "(\<exists>p. P p) \<longleftrightarrow> P [] \<or> (\<exists>p. p \<noteq> [] \<and> P p)"
  by metis

lemma below_offers_children:
  "below_offers node pos shorthand predicted = (\<Union>c \<in> set (children node).
     (\<lambda>e. (e, pos, (predicted, shorthand, False))) ` set (terminals (snd c))
     \<union> below_offers (snd c) pos shorthand (predicted + 1))" (is "_ = ?rhs")
proof -
  have "(e, stop, rank) \<in> below_offers node pos shorthand predicted \<longleftrightarrow> (e, stop, rank) \<in> ?rhs" for e stop rank
  proof -
    have "(e, stop, rank) \<in> below_offers node pos shorthand predicted \<longleftrightarrow> stop = pos \<and>
        (\<exists>s p. (s # p, e) \<in># trie_content node \<and> rank = (predicted + length p, shorthand, False))"
      unfolding below_offers_def neq_Nil_conv by fastforce
    also have "\<dots> \<longleftrightarrow> stop = pos \<and> (\<exists>s child. (s, child) \<in> set (children node) \<and>
        (\<exists>p. (p, e) \<in># trie_content child \<and> rank = (predicted + length p, shorthand, False)))"
      by (auto simp: in_content_Cons)
    also have "\<dots> \<longleftrightarrow> stop = pos \<and> (\<exists>s child. (s, child) \<in> set (children node) \<and>
        (e \<in> set (terminals child) \<and> rank = (predicted, shorthand, False)
         \<or> (\<exists>p. p \<noteq> [] \<and> (p, e) \<in># trie_content child \<and> rank = (predicted + 1 + length p - 1, shorthand, False))))"
      by (subst ex_list_split) auto
    also have "\<dots> \<longleftrightarrow> (e, stop, rank) \<in> ?rhs"
      unfolding union_children by (auto simp: below_offers_def)
    finally show ?thesis .
  qed
  then show ?thesis by (rule offer_set_eqI)
qed

lemma adds_descendants:
  "adds F (descendants node pos shorthand predicted F) (below_offers node pos shorthand predicted)"
proof (induction node pos shorthand predicted F rule: descendants.induct)
  case (1 kids ends pos shorthand predicted found)
  have "adds F ((\<lambda>(s, child) found. descendants child pos shorthand (predicted + 1)
       (neural_record (terminals child) pos shorthand False predicted found)) c F)
      ((\<lambda>e. (e, pos, (predicted, shorthand, False))) ` set (terminals (snd c))
       \<union> below_offers (snd c) pos shorthand (predicted + 1))" if "c \<in> set kids" for c F
  proof -
    obtain s child where c: "c = (s, child)" by (cases c)
    show ?thesis unfolding c prod.case snd_conv using adds_trans [OF adds_neural_record 1 [OF that c [symmetric]]] .
  qed
  from adds_fold [OF this] show ?case
    by (subst descendants.simps, subst below_offers_children, simp only: trie.sel)
qed


section \<open>Pruning by visited states\<close>

fun trie_at :: "pystr list \<Rightarrow> pystr trie \<Rightarrow> pystr trie option" where
  "trie_at [] t = Some t"
| "trie_at (s # path) t = (case map_of (children t) s of None \<Rightarrow> None | Some child \<Rightarrow> trie_at path child)"

lemma trie_at_snoc:
  "trie_at (path @ [s]) t = (case trie_at path t of None \<Rightarrow> None | Some node \<Rightarrow> map_of (children node) s)"
  by (induction path t rule: trie_at.induct) (auto split: option.splits)

lemma trie_ok_at: "trie_at path t = Some node \<Longrightarrow> trie_ok t \<Longrightarrow> trie_ok node"
proof (induction path t rule: trie_at.induct)
  case (2 s path t)
  then obtain child where "map_of (children t) s = Some child" "trie_at path child = Some node"
    by (auto split: option.splits)
  moreover have "trie_ok child"
    using 2(3) trie_ok_lookup [OF _ \<open>map_of (children t) s = Some child\<close>] by (cases t) auto
  ultimately show ?case using 2(1) by blast
qed simp

lemma trie_at_child:
  assumes "trie_at path rt = Some node" "trie_ok rt" "(s, child) \<in> set (children node)"
  shows "trie_at (path @ [s]) rt = Some child"
proof -
  have "distinct (map fst (children node))" using trie_ok_at [OF assms(1,2)] by (cases node) (simp add: od_ok_def)
  then show ?thesis using assms(1,3) by (simp add: trie_at_snoc)
qed

text \<open>
  A visited state is settled when its offers are covered; states of the ancestors that are still
  being visited form the set \<open>S\<close>.
\<close>

definition settled :: "neural_query \<Rightarrow> pystr trie \<Rightarrow> (pystr list \<times> nat \<times> bool) set \<Rightarrow> visited \<times> found \<Rightarrow> bool" where
  "settled q rt S st \<longleftrightarrow> (\<forall>path pos incomplete shorthand. map_of (fst st) (path, pos, incomplete) = Some shorthand
     \<longrightarrow> (path, pos, incomplete) \<notin> S
     \<longrightarrow> (\<exists>node. trie_at path rt = Some node \<and> covers (snd st) (state_offers q node pos shorthand incomplete)))"

definition same_outside :: "pystr list set \<Rightarrow> visited \<Rightarrow> visited \<Rightarrow> bool" where
  "same_outside D V V' \<longleftrightarrow> (\<forall>k. fst k \<notin> D \<longrightarrow> map_of V' k = map_of V k)"

definition explores :: "neural_query \<Rightarrow> pystr trie \<Rightarrow> (pystr list \<times> nat \<times> bool) set \<Rightarrow> pystr list set
    \<Rightarrow> offer set \<Rightarrow> visited \<times> found \<Rightarrow> visited \<times> found \<Rightarrow> bool" where
  "explores q rt S D A st st' \<longleftrightarrow> (settled q rt S st \<longrightarrow>
     settled q rt S st' \<and> adds (snd st) (snd st') A \<and> same_outside D (fst st) (fst st'))"

lemma explores_refl: "explores q rt S D {} st st"
  by (simp add: explores_def same_outside_def)

lemma explores_trans:
  "explores q rt S D A st st1 \<Longrightarrow> explores q rt S D B st1 st2 \<Longrightarrow> explores q rt S D (A \<union> B) st st2"
  unfolding explores_def by (auto simp: same_outside_def intro: adds_trans)

lemma explores_mono: "explores q rt S D A st st' \<Longrightarrow> D \<subseteq> D' \<Longrightarrow> explores q rt S D' A st st'"
  unfolding explores_def same_outside_def by blast

lemma explores_fold:
  assumes "\<And>x st. x \<in> set xs \<Longrightarrow> explores q rt S D (A x) st (f x st)"
  shows "explores q rt S D (\<Union>x \<in> set xs. A x) st (fold f xs st)"
  using assms
proof (induction xs arbitrary: st)
  case Nil
  then show ?case by (simp add: explores_refl)
next
  case (Cons x xs)
  have "explores q rt S D (A x) st (f x st)"
    "explores q rt S D (\<Union>x \<in> set xs. A x) (f x st) (fold f xs (f x st))"
    using Cons by auto
  from explores_trans [OF this] show ?case by simp
qed

lemma offers_shift:
  assumes "covers F (state_offers q node pos previous incomplete)" "previous \<le> shorthand"
  shows "covers F (state_offers q node pos shorthand incomplete)"
  unfolding covers_def
proof (clarify)
  fix e stop c n i
  assume o: "(e, stop, (c, n, i)) \<in> state_offers q node pos shorthand incomplete"
  then have "\<exists>n' \<le> n. (e, stop, (c, n', i)) \<in> state_offers q node pos previous incomplete"
  proof (cases incomplete)
    case True
    then show ?thesis using o assms(2) by (auto simp: state_offers_def)
  next
    case False
    with o obtain p m where "(p, e) \<in># trie_content node" "offers q p pos stop (c, m, i)" "n = shorthand + m"
      by (auto simp: state_offers_def)
    with False have "(e, stop, (c, previous + m, i)) \<in> state_offers q node pos previous incomplete"
      by (auto simp: state_offers_def)
    then show ?thesis using assms(2) \<open>n = shorthand + m\<close> by (intro exI [of _ "previous + m"]) simp
  qed
  then obtain n' where "n' \<le> n" "(e, stop, (c, n', i)) \<in> state_offers q node pos previous incomplete" by blast
  with assms(1) obtain m where "map_of F (e, stop) = Some m" "pm_rank m \<le> (c, n', i)"
    by (auto simp: covers_def)
  moreover have "(c, n', i) \<le> (c, n, i)" using \<open>n' \<le> n\<close> by simp
  ultimately show "\<exists>m. map_of F (e, stop) = Some m \<and> pm_rank m \<le> (c, n, i)" by (blast intro: order_trans)
qed

text \<open>Marking a state visited, recording its entries and exploring below it settles the state.\<close>

lemma settled_improves: "settled q rt S (V, F) \<Longrightarrow> improves F F' \<Longrightarrow> settled q rt S (V, F')"
  unfolding settled_def by (fastforce intro: covers_improves)

lemma explores_adds: "adds F F' A \<Longrightarrow> explores q rt S D A (V, F) (V, F')"
  by (auto simp: explores_def same_outside_def adds_def intro: settled_improves)

lemma settle_state:
  assumes node: "trie_at path rt = Some node" and S: "\<forall>k \<in> S. strict_prefix (fst k) path"
    and H: "adds F F1 H" and k: "k = (path, pos, incomplete)"
    and B: "explores q rt (insert k S) {p. strict_prefix path p} B (od_set k shorthand V, F1) st2"
    and O: "state_offers q node pos shorthand incomplete = H \<union> B"
  shows "explores q rt S {p. prefix path p} (H \<union> B) (V, F) st2"
  unfolding explores_def
proof (intro impI)
  assume st: "settled q rt S (V, F)"
  have "settled q rt S (V, F1)" using settled_improves [OF st] H by (simp add: adds_def)
  then have "settled q rt (insert k S) (od_set k shorthand V, F1)"
    by (auto simp: settled_def map_of_od_set)
  with B have st2: "settled q rt (insert k S) st2" "adds F1 (snd st2) B"
    and same: "same_outside {p. strict_prefix path p} (od_set k shorthand V) (fst st2)"
    by (auto simp: explores_def)
  have all: "adds F (snd st2) (H \<union> B)" by (rule adds_trans [OF H st2(2)])
  have "map_of (fst st2) k = Some shorthand" using same by (simp add: same_outside_def k map_of_od_set)
  moreover have "covers (snd st2) (state_offers q node pos shorthand incomplete)"
    using all by (simp add: O adds_def)
  ultimately have "settled q rt S st2"
    using st2(1) node unfolding settled_def
  proof (clarify)
    fix path' pos' incomplete' shorthand'
    assume now: "map_of (fst st2) k = Some shorthand" "covers (snd st2) (state_offers q node pos shorthand incomplete)"
      and old: "\<forall>path pos incomplete shorthand. map_of (fst st2) (path, pos, incomplete) = Some shorthand \<longrightarrow>
        (path, pos, incomplete) \<notin> insert k S \<longrightarrow>
        (\<exists>node. trie_at path rt = Some node \<and> covers (snd st2) (state_offers q node pos shorthand incomplete))"
      and here: "map_of (fst st2) (path', pos', incomplete') = Some shorthand'" "(path', pos', incomplete') \<notin> S"
    show "\<exists>node. trie_at path' rt = Some node \<and> covers (snd st2) (state_offers q node pos' shorthand' incomplete')"
    proof (cases "(path', pos', incomplete') = k")
      case True
      then show ?thesis using now here(1) node by (simp add: k)
    next
      case False
      then show ?thesis using old here by simp
    qed
  qed
  moreover have "same_outside {p. prefix path p} V (fst st2)"
    using same unfolding same_outside_def by (auto simp: map_of_od_set k strict_prefix_def)
  ultimately show "settled q rt S st2 \<and> adds (snd (V, F)) (snd st2) (H \<union> B)
      \<and> same_outside {p. prefix path p} (fst (V, F)) (fst st2)"
    using all by simp
qed

lemma neural_visit_explores:
  assumes "trie_at path rt = Some node" "trie_ok rt" "nq_start q \<le> pos" "nq_start q < length (nq_raw q)"
    "incomplete \<longrightarrow> length (nq_raw q) \<le> pos" "\<forall>k \<in> S. strict_prefix (fst k) path"
  shows "explores q rt S {p. prefix path p} (state_offers q node pos shorthand incomplete) st
    (neural_visit q path node pos shorthand incomplete st)"
  using assms
proof (induction "trie_weight node" arbitrary: path node pos shorthand incomplete S st rule: less_induct)
  case less
  obtain V F where st: "st = (V, F)" by (cases st)
  let ?k = "(path, pos, incomplete)" and ?raw = "nq_raw q"
  let ?visit = "neural_visit q path node pos shorthand incomplete (V, F)"
  let ?D = "{p. strict_prefix path p}"
  note unfold = neural_visit.simps [of q path node pos shorthand incomplete V F]
  show ?case
  proof (cases "case map_of V ?k of None \<Rightarrow> False | Some previous \<Rightarrow> previous \<le> shorthand")
    case True
    then obtain previous where p: "map_of V ?k = Some previous" "previous \<le> shorthand" by (auto split: option.splits)
    have "?k \<notin> S" using less.prems(6) by auto
    then have "settled q rt S (V, F) \<Longrightarrow> covers F (state_offers q node pos previous incomplete)"
      using p(1) less.prems(1) unfolding settled_def by fastforce
    then have "explores q rt S {p. prefix path p} (state_offers q node pos shorthand incomplete) (V, F) (V, F)"
      using offers_shift p(2) by (auto simp: explores_def same_outside_def intro: adds_refl)
    then show ?thesis using True by (simp add: st unfold)
  next
    case False
    let ?V = "od_set ?k shorthand V"
    let ?F = "if pos > nq_start q then neural_record (terminals node) pos shorthand incomplete 0 F else F"
    let ?H = "here_offers q node pos shorthand incomplete"
    have H: "adds F ?F ?H" by (simp add: here_offers_def adds_neural_record)
    have S: "\<forall>k \<in> insert ?k S. strict_prefix (fst k) (path @ [s])" for s
      using less.prems(6) by (auto simp: strict_prefix_def)
    have child: "explores q rt (insert ?k S) ?D (state_offers q c pos' sh' inc') st'
        (neural_visit q (path @ [s]) c pos' sh' inc' st')"
      if "(s, c) \<in> set (children node)" "nq_start q \<le> pos'" "inc' \<longrightarrow> length ?raw \<le> pos'" for s c pos' sh' inc' st'
      using less.hyps [OF child_weight [OF that(1)] trie_at_child [OF less.prems(1,2) that(1)] less.prems(2) that(2)
          less.prems(4) that(3) S]
      by (rule explores_mono) (auto simp: prefix_def strict_prefix_def)
    show ?thesis
    proof (cases "length ?raw \<le> pos")
      case True
      let ?B = "if \<not> incomplete \<and> \<not> nq_exact_only q \<and> nq_include_descendants q then below_offers node pos shorthand 1 else {}"
      let ?F2 = "if \<not> incomplete \<and> \<not> nq_exact_only q \<and> nq_include_descendants q then descendants node pos shorthand 1 ?F else ?F"
      have O: "state_offers q node pos shorthand incomplete = ?H \<union> ?B"
        using state_offers_end [OF True less.prems(4)] state_offers_incomplete by (cases incomplete) auto
      have "adds ?F ?F2 ?B" by (simp add: adds_descendants)
      then have "explores q rt (insert ?k S) ?D ?B (?V, ?F) (?V, ?F2)" by (rule explores_adds)
      note settles = settle_state [OF less.prems(1,6) H refl this O]
      have "?visit = (?V, ?F2)" using False True unfolding unfold Let_def by (simp only: if_True if_False)
      then show ?thesis using settles unfolding O st by (simp only:)
    next
      case inner: False
      then have inc: "\<not> incomplete" "nq_start q \<le> pos" using less.prems(3,5) by auto
      let ?full = "\<lambda>(s, child) st.
         if prefix s (drop pos ?raw) \<and> \<not> crosses_boundary (nq_boundaries q) pos (pos + length s)
         then neural_visit q (path @ [s]) child (pos + length s) shorthand incomplete st else st"
      let ?short = "\<lambda>(s, child) st.
         let st = (if ?raw ! pos = hd s \<and> \<not> crosses_boundary (nq_boundaries q) pos (pos + 1)
                   then neural_visit q (path @ [s]) child (pos + 1) (shorthand + 1) incomplete st else st)
         in if unfinished_syllable ?raw pos s \<and> \<not> crosses_boundary (nq_boundaries q) pos (length ?raw)
            then neural_visit q (path @ [s]) child (length ?raw) shorthand True st else st"
      let ?st1 = "fold ?full (children node) (?V, ?F)"
      let ?st2 = "if nq_exact_only q then ?st1 else fold ?short (children node) ?st1"
      let ?A = "\<Union>c \<in> set (children node). child_offers q pos shorthand c"
      let ?C = "if nq_exact_only q then {} else
          (\<Union>c \<in> set (children node). initial_offers q pos shorthand c \<union> unfinished_offers q pos shorthand c)"
      have f: "explores q rt (insert ?k S) ?D (child_offers q pos shorthand c) st (?full c st)"
        if "c \<in> set (children node)" for c st
      proof (cases c)
        case (Pair s t)
        with that have "(s, t) \<in> set (children node)" by simp
        from child [OF this, of "pos + length s" incomplete shorthand st] inc show ?thesis
          by (simp add: Pair child_offers_def explores_refl)
      qed
      have h: "explores q rt (insert ?k S) ?D (initial_offers q pos shorthand c \<union> unfinished_offers q pos shorthand c) st (?short c st)"
        if "c \<in> set (children node)" for c st
      proof (cases c)
        case (Pair s t)
        with that have st: "(s, t) \<in> set (children node)" by simp
        let ?mid = "if ?raw ! pos = hd s \<and> \<not> crosses_boundary (nq_boundaries q) pos (pos + 1)
                   then neural_visit q (path @ [s]) t (pos + 1) (shorthand + 1) incomplete st else st"
        have "explores q rt (insert ?k S) ?D (initial_offers q pos shorthand c) st ?mid"
          using child [OF st, of "pos + 1" incomplete "shorthand + 1"] inc
          by (simp add: Pair initial_offers_def explores_refl)
        moreover have "explores q rt (insert ?k S) ?D (unfinished_offers q pos shorthand c) ?mid
           (if unfinished_syllable ?raw pos s \<and> \<not> crosses_boundary (nq_boundaries q) pos (length ?raw)
            then neural_visit q (path @ [s]) t (length ?raw) shorthand True ?mid else ?mid)"
          using child [OF st, of "length ?raw" True shorthand ?mid] inc less.prems(4)
          by (simp add: Pair unfinished_offers_def explores_refl)
        ultimately show ?thesis unfolding Pair prod.case Let_def by (rule explores_trans)
      qed
      have "explores q rt (insert ?k S) ?D ?C ?st1 ?st2"
        using explores_fold [of "children node", OF h] by (simp add: explores_refl)
      from explores_trans [OF explores_fold [of "children node", OF f] this]
      have all: "explores q rt (insert ?k S) ?D (?A \<union> ?C) (?V, ?F) ?st2" .
      have O: "state_offers q node pos shorthand incomplete = ?H \<union> (?A \<union> ?C)"
        using state_offers_inner [of pos q node shorthand] inner inc by (simp add: Un_assoc)
      note settles = settle_state [OF less.prems(1,6) H refl all O]
      have "?visit = ?st2" using False inner unfolding unfold Let_def by (simp only: if_False)
      then show ?thesis using settles unfolding O st by (simp only:)
    qed
  qed
qed


section \<open>The result of the exhaustive search\<close>

lemma max_positions_fold:
  "map_of (fold (\<lambda>((e, pos), _) d. od_set e (max pos (case map_of d e of None \<Rightarrow> start | Some p \<Rightarrow> p)) d) found d) e
   = (if e \<in> fst ` fst ` set found
      then Some (Max (insert (case map_of d e of None \<Rightarrow> start | Some p \<Rightarrow> p) {pos. (e, pos) \<in> fst ` set found}))
      else map_of d e)"
proof (induction found arbitrary: d)
  case (Cons x found)
  obtain e' pos m where x: "x = ((e', pos), m)" by (metis prod.collapse)
  have fin: "finite {pos. (e, pos) \<in> fst ` set found}"
    by (rule finite_surj [of "fst ` set found" _ snd]) force+
  show ?case
  proof (cases "e' = e")
    case True
    have S: "{p. (e, p) \<in> fst ` set (x # found)} = insert pos {p. (e, p) \<in> fst ` set found}"
      using True x by auto
    show ?thesis
    proof (cases "e \<in> fst ` fst ` set found")
      case True
      then have "{p. (e, p) \<in> fst ` set found} \<noteq> {}" by force
      then show ?thesis unfolding S using \<open>e' = e\<close> True fin
        by (simp add: x Cons.IH map_of_od_set insert_commute max.assoc max.commute max.left_commute)
    next
      case False
      then have "{p. (e, p) \<in> fst ` set found} = {}" by force
      then show ?thesis unfolding S using \<open>e' = e\<close> False
        by (simp add: x Cons.IH map_of_od_set max.commute)
    qed
  next
    case False
    then have "{p. (e, p) \<in> fst ` set (x # found)} = {p. (e, p) \<in> fst ` set found}" using x by auto
    with False show ?thesis by (simp add: x Cons.IH map_of_od_set)
  qed
qed simp

lemma max_positions_eq:
  assumes "\<And>pos. (e, pos) \<in> fst ` set found \<Longrightarrow> start \<le> pos"
  shows "map_of (max_positions start found) e = Some p \<longleftrightarrow>
     (e, p) \<in> fst ` set found \<and> (\<forall>pos. (e, pos) \<in> fst ` set found \<longrightarrow> pos \<le> p)"
proof (cases "e \<in> fst ` fst ` set found")
  case True
  let ?P = "{pos. (e, pos) \<in> fst ` set found}"
  have fin: "finite ?P" by (rule finite_surj [of "fst ` set found" _ snd]) force+
  have ne: "?P \<noteq> {}" using True by force
  then have "start \<le> Max ?P" using assms fin by (meson Max_in mem_Collect_eq)
  then have "map_of (max_positions start found) e = Some (Max ?P)"
    using True fin ne by (simp add: max_positions_def max_positions_fold Max_insert)
  moreover have "Max ?P = p \<longleftrightarrow> p \<in> ?P \<and> (\<forall>pos \<in> ?P. pos \<le> p)" using fin ne by (metis Max_eq_iff)
  ultimately show ?thesis by simp
next
  case False
  then show ?thesis by (force simp: max_positions_def max_positions_fold)
qed

text \<open>The best reading of an entry: as many typed letters as possible, then the least rank.\<close>

definition best_reading :: "neural_query \<Rightarrow> entry \<Rightarrow> pmatch \<Rightarrow> bool" where
  "best_reading q e m \<longleftrightarrow> (\<exists>stop rank. m = offer_match e stop rank
     \<and> offers q (e_syllable_path e) (nq_start q) stop rank
     \<and> (\<forall>stop' rank'. offers q (e_syllable_path e) (nq_start q) stop' rank'
          \<longrightarrow> stop' \<le> stop \<and> (stop' = stop \<longrightarrow> rank \<le> rank')))"

lemma root_offers:
  "(e, stop, rank) \<in> state_offers q (mt_root (new_matcher ix)) (nq_start q) 0 False \<longleftrightarrow>
     e \<in># index_entries ix \<and> offers q (e_syllable_path e) (nq_start q) stop rank"
proof -
  have "(p, e) \<in># trie_content (mt_root (new_matcher ix)) \<longleftrightarrow> p = e_syllable_path e \<and> e \<in># index_entries ix" for p
    using matcher_entries [of ix] unfolding matcher_root_content by auto
  then show ?thesis by (cases rank) (auto simp: state_offers_def)
qed

lemma from_offersD: "from_offers F F' A \<Longrightarrow> map_of F' (e, stop) = Some m
    \<Longrightarrow> map_of F (e, stop) = Some m \<or> (\<exists>rank. (e, stop, rank) \<in> A \<and> m = offer_match e stop rank)"
  unfolding from_offers_def by fastforce

lemma coversD: "covers F A \<Longrightarrow> (e, stop, rank) \<in> A \<Longrightarrow> \<exists>m. map_of F (e, stop) = Some m \<and> pm_rank m \<le> rank"
  unfolding covers_def by fastforce

lemma search_found:
  assumes "nq_start q < length (nq_raw q)"
    and "found = snd (neural_visit q [] (mt_root (new_matcher ix)) (nq_start q) 0 False ([], []))"
  shows "od_ok found \<and> (\<forall>e stop m. map_of found (e, stop) = Some m \<longleftrightarrow> e \<in># index_entries ix
     \<and> (\<exists>rank. m = offer_match e stop rank \<and> offers q (e_syllable_path e) (nq_start q) stop rank
        \<and> (\<forall>rank'. offers q (e_syllable_path e) (nq_start q) stop rank' \<longrightarrow> rank \<le> rank')))"
proof -
  let ?rt = "mt_root (new_matcher ix)" and ?O = "state_offers q (mt_root (new_matcher ix)) (nq_start q) 0 False"
  have "settled q ?rt {} ([], [])" by (simp add: settled_def)
  then have a: "adds [] found ?O"
    using neural_visit_explores [of "[]" ?rt ?rt q "nq_start q" False "{}" 0 "([], [])"] assms matcher_root_ok
    by (simp add: explores_def)
  have new: "\<exists>rank. (e, stop, rank) \<in> ?O \<and> m = offer_match e stop rank"
    if "map_of found (e, stop) = Some m" for e stop m
    using from_offersD [OF _ that, of "[]" ?O] a by (simp only: adds_def map_of.simps(1)) simp
  have "map_of found (e, stop) = Some m \<longleftrightarrow> (\<exists>rank. m = offer_match e stop rank \<and> (e, stop, rank) \<in> ?O
        \<and> (\<forall>rank'. (e, stop, rank') \<in> ?O \<longrightarrow> rank \<le> rank'))" for e stop m
  proof
    assume m: "map_of found (e, stop) = Some m"
    with new obtain rank where r: "m = offer_match e stop rank" "(e, stop, rank) \<in> ?O" by blast
    moreover have "rank \<le> rank'" if "(e, stop, rank') \<in> ?O" for rank'
    proof -
      have "covers found ?O" using a by (simp add: adds_def)
      from coversD [OF this that] m r(1) show ?thesis by (metis offer_match_rank option.inject)
    qed
    ultimately show "\<exists>rank. m = offer_match e stop rank \<and> (e, stop, rank) \<in> ?O
        \<and> (\<forall>rank'. (e, stop, rank') \<in> ?O \<longrightarrow> rank \<le> rank')" by blast
  next
    assume "\<exists>rank. m = offer_match e stop rank \<and> (e, stop, rank) \<in> ?O \<and> (\<forall>rank'. (e, stop, rank') \<in> ?O \<longrightarrow> rank \<le> rank')"
    then obtain rank where r: "m = offer_match e stop rank" "(e, stop, rank) \<in> ?O"
      "\<forall>rank'. (e, stop, rank') \<in> ?O \<longrightarrow> rank \<le> rank'" by blast
    with a obtain m' where m': "map_of found (e, stop) = Some m'" "pm_rank m' \<le> rank"
      unfolding adds_def using coversD by blast
    then obtain rank' where r': "m' = offer_match e stop rank'" "(e, stop, rank') \<in> ?O"
      using new by blast
    with m'(2) r(3) have "rank' = rank" by (metis offer_match_rank order_antisym)
    with m' r r' show "map_of found (e, stop) = Some m" by simp
  qed
  note found = this [unfolded root_offers]
  have "od_ok found" using a by (simp add: adds_def)
  with found show ?thesis by blast
qed


lemma offers_after_start: "offers q path pos stop rank \<Longrightarrow> nq_start q < stop"
  by (auto simp: offers_def)

lemma offer_match_inject [simp]:
  "offer_match e stop rank = offer_match e' stop' rank' \<longleftrightarrow> e = e' \<and> stop = stop' \<and> rank = rank'"
  by (cases rank; cases rank') (auto simp: offer_match_def)

text \<open>Among finitely many offered ranks at a position one is least, so every offered position is found.\<close>

lemma found_positions:
  assumes "od_ok found"
    and all: "\<And>e stop m. map_of found (e, stop) = Some m \<longleftrightarrow> e \<in># E
     \<and> (\<exists>rank. m = offer_match e stop rank \<and> P e stop rank \<and> (\<forall>rank'. P e stop rank' \<longrightarrow> rank \<le> rank'))"
    and some: "\<And>e stop rank. e \<in># E \<Longrightarrow> P e stop rank \<Longrightarrow> \<exists>m. map_of found (e, stop) = Some m"
  shows "(e, pos) \<in> fst ` set found \<longleftrightarrow> e \<in># E \<and> (\<exists>rank. P e pos rank)"
proof -
  have "(e, pos) \<in> fst ` set found \<longleftrightarrow> (\<exists>m. map_of found (e, pos) = Some m)"
    by (metis map_of_eq_None_iff not_None_eq)
  also have "\<dots> \<longleftrightarrow> e \<in># E \<and> (\<exists>rank. P e pos rank)"
    using all [of e pos] some [of e pos] by blast
  finally show ?thesis .
qed

lemma search_covers:
  assumes "nq_start q < length (nq_raw q)" "e \<in># index_entries ix" "offers q (e_syllable_path e) (nq_start q) stop rank"
  shows "\<exists>m. map_of (snd (neural_visit q [] (mt_root (new_matcher ix)) (nq_start q) 0 False ([], []))) (e, stop) = Some m"
proof -
  let ?rt = "mt_root (new_matcher ix)"
  have "settled q ?rt {} ([], [])" by (simp add: settled_def)
  then have "adds [] (snd (neural_visit q [] ?rt (nq_start q) 0 False ([], [])))
      (state_offers q ?rt (nq_start q) 0 False)"
    using neural_visit_explores [of "[]" ?rt ?rt q "nq_start q" False "{}" 0 "([], [])"] assms(1) matcher_root_ok
    by (simp add: explores_def)
  then have "covers (snd (neural_visit q [] ?rt (nq_start q) 0 False ([], []))) (state_offers q ?rt (nq_start q) 0 False)"
    by (simp add: adds_def)
  from coversD [OF this] root_offers assms(2,3) show ?thesis by blast
qed

lemma distinct_map_sort: "distinct (map f (sort_key g xs)) \<longleftrightarrow> distinct (map f xs)"
  by (rule mset_eq_imp_distinct_iff) simp

text \<open>One value per entry is left when each entry keeps a single position.\<close>

lemma distinct_selected:
  assumes "od_ok found" "\<And>x. x \<in> set found \<Longrightarrow> pm_entry (snd x) = fst (fst x)"
  shows "distinct (map pm_entry (map snd (filter (\<lambda>((e, pos), m). f e = Some pos) found)))"
proof -
  let ?kept = "filter (\<lambda>((e, pos), m). f e = Some pos) found"
  have eq: "map pm_entry (map snd ?kept) = map (fst \<circ> fst) ?kept" using assms(2) by auto
  have inj: "inj_on (fst \<circ> fst) (set ?kept)"
  proof (rule inj_onI)
    fix x y
    assume "x \<in> set ?kept" "y \<in> set ?kept" "(fst \<circ> fst) x = (fst \<circ> fst) y"
    then have "x \<in> set found" "y \<in> set found" "fst x = fst y" by (auto simp: prod_eq_iff)
    then show "x = y" using assms(1) by (metis eq_key_imp_eq_value od_ok_def prod.collapse)
  qed
  have "distinct found" using assms(1) by (simp add: od_ok_def distinct_map)
  then show ?thesis unfolding eq using inj by (simp only: distinct_map distinct_filter)
qed

text \<open>
  Claim C19. The exhaustive search returns, in its sort order and each entry of the index once,
  exactly the best legal reading of every entry that can be read from the start position at all:
  the one that covers the most letters and, among those, predicts the fewest extra syllables, then
  uses the fewest initials, then prefers finished syllables.  Pruning by visited states loses
  nothing, and no reading steps over an explicit boundary.
\<close>

theorem neural_search_exact:
  assumes "nq_start q < length (nq_raw q)"
  shows "distinct (map pm_entry (neural_search (mt_root (new_matcher ix)) q cooperative))
     \<and> sorted (map (neural_sort_key (length (nq_raw q))) (neural_search (mt_root (new_matcher ix)) q cooperative))
     \<and> (\<forall>m. m \<in> set (neural_search (mt_root (new_matcher ix)) q cooperative)
          \<longleftrightarrow> (\<exists>e. e \<in># index_entries ix \<and> best_reading q e m))"
proof -
  define found where "found = snd (neural_visit q [] (mt_root (new_matcher ix)) (nq_start q) 0 False ([], []))"
  let ?P = "\<lambda>e. offers q (e_syllable_path e) (nq_start q)"
  let ?vals = "map snd (filter (\<lambda>((e, pos), m). map_of (max_positions (nq_start q) found) e = Some pos) found)"
  have ok: "od_ok found" and all: "\<And>e stop m. map_of found (e, stop) = Some m \<longleftrightarrow> e \<in># index_entries ix
     \<and> (\<exists>rank. m = offer_match e stop rank \<and> ?P e stop rank \<and> (\<forall>rank'. ?P e stop rank' \<longrightarrow> rank \<le> rank'))"
    using search_found [OF assms found_def] by blast+
  have pos: "(e, pos) \<in> fst ` set found \<longleftrightarrow> e \<in># index_entries ix \<and> (\<exists>rank. ?P e pos rank)" for e pos
    by (rule found_positions [OF ok all]) (use search_covers [OF assms] in \<open>auto simp: found_def\<close>)
  have max: "map_of (max_positions (nq_start q) found) e = Some p \<longleftrightarrow>
     (e, p) \<in> fst ` set found \<and> (\<forall>pos. (e, pos) \<in> fst ` set found \<longrightarrow> pos \<le> p)" for e p
    by (rule max_positions_eq) (use pos offers_after_start in \<open>blast intro: less_imp_le\<close>)
  have mem: "m \<in> set ?vals \<longleftrightarrow> (\<exists>e stop. map_of found (e, stop) = Some m \<and> map_of (max_positions (nq_start q) found) e = Some stop)" for m
    using ok by (force simp: od_ok_def image_iff)
  have "m \<in> set ?vals \<longleftrightarrow> (\<exists>e. e \<in># index_entries ix \<and> best_reading q e m)" for m
  proof
    assume "m \<in> set ?vals"
    then obtain e stop where "map_of found (e, stop) = Some m" "map_of (max_positions (nq_start q) found) e = Some stop"
      using mem by blast
    then obtain rank where r: "e \<in># index_entries ix" "m = offer_match e stop rank" "?P e stop rank"
        "\<forall>rank'. ?P e stop rank' \<longrightarrow> rank \<le> rank'" "\<forall>pos. (e, pos) \<in> fst ` set found \<longrightarrow> pos \<le> stop"
      using all max by blast
    have "stop' \<le> stop \<and> (stop' = stop \<longrightarrow> rank \<le> rank')" if "?P e stop' rank'" for stop' rank'
      using r(1,4,5) pos that by blast
    with r(1-3) show "\<exists>e. e \<in># index_entries ix \<and> best_reading q e m" unfolding best_reading_def by blast
  next
    assume "\<exists>e. e \<in># index_entries ix \<and> best_reading q e m"
    then obtain e stop rank where r: "e \<in># index_entries ix" "m = offer_match e stop rank" "?P e stop rank"
        "\<forall>stop' rank'. ?P e stop' rank' \<longrightarrow> stop' \<le> stop \<and> (stop' = stop \<longrightarrow> rank \<le> rank')"
      unfolding best_reading_def by blast
    then have "map_of found (e, stop) = Some m" using all by blast
    moreover have "map_of (max_positions (nq_start q) found) e = Some stop"
      unfolding max pos using r by blast
    ultimately show "m \<in> set ?vals" using mem by blast
  qed
  moreover have "distinct (map pm_entry ?vals)"
  proof (rule distinct_selected [OF ok])
    show "pm_entry (snd x) = fst (fst x)" if "x \<in> set found" for x
      using that all [of "fst (fst x)" "snd (fst x)" "snd x"] ok by (auto simp: od_ok_def offer_match_def)
  qed
  moreover have "neural_search (mt_root (new_matcher ix)) q cooperative
      = sort_key (neural_sort_key (length (nq_raw q))) ?vals"
    by (simp add: neural_search_def Let_def found_def fst_cooperative_sorted)
  ultimately show ?thesis by (simp add: distinct_map_sort)
qed


definition demo_query :: neural_query where
  "demo_query = \<lparr>nq_raw = asc ''xa'', nq_start = 0, nq_boundaries = {}, nq_exact_only = False,
     nq_include_descendants = True\<rparr>"

theorem neural_search_exact_witness:
  "map (\<lambda>m. (e_token_id (pm_entry m), pm_next_position m, pm_shorthand m))
      (neural_search (mt_root (new_matcher demo_index)) demo_query True) = [(Some 9, 2, 2), (Some 7, 1, 1)]
   \<and> distinct (map pm_entry (neural_search (mt_root (new_matcher demo_index)) demo_query True))"
proof -
  have "nq_start demo_query < length (nq_raw demo_query)" by code_simp
  note exact = neural_search_exact [OF this, of demo_index True]
  have "map (\<lambda>m. (e_token_id (pm_entry m), pm_next_position m, pm_shorthand m))
      (neural_search (mt_root (new_matcher demo_index)) demo_query True) = [(Some 9, 2, 2), (Some 7, 1, 1)]"
    by code_simp
  with exact show ?thesis by blast
qed


section \<open>The memos\<close>

lemma cache_records_Cons [simp]: "cache_records (kv # cache) = length (snd kv) + cache_records cache"
  by (simp add: cache_records_def)

lemma cache_records_Nil [simp]: "cache_records [] = 0"
  by (simp add: cache_records_def)

lemma evict_matches_bounds:
  "length (evict_matches cache) \<le> MAX_NEURAL_MATCH_CACHE_KEYS
   \<and> cache_records (evict_matches cache) \<le> MAX_NEURAL_MATCH_CACHE_RECORDS"
  by (induction cache rule: evict_matches.induct) auto

lemma evict_matches_drop: "\<exists>n. evict_matches cache = drop n cache"
proof (induction cache rule: evict_matches.induct)
  case (2 kv cache)
  then obtain n where "length (kv # cache) > MAX_NEURAL_MATCH_CACHE_KEYS
      \<or> cache_records (kv # cache) > MAX_NEURAL_MATCH_CACHE_RECORDS \<Longrightarrow> evict_matches cache = drop n cache"
    by blast
  then show ?case by (cases "length (kv # cache) > MAX_NEURAL_MATCH_CACHE_KEYS
      \<or> cache_records (kv # cache) > MAX_NEURAL_MATCH_CACHE_RECORDS")
      (auto intro: exI [of _ "Suc n"] exI [of _ 0])
qed simp

lemma od_ok_evict_matches: "od_ok d \<Longrightarrow> od_ok (evict_matches d)"
  using evict_matches_drop [of d] by (auto simp: od_ok_def drop_map [symmetric])

lemma map_of_evict_matches: "od_ok d \<Longrightarrow> map_of (evict_matches d) j = Some w \<Longrightarrow> map_of d j = Some w"
proof -
  assume ok: "od_ok d" and hit: "map_of (evict_matches d) j = Some w"
  have "set (evict_matches d) \<subseteq> set d" using evict_matches_drop [of d] by (auto dest: in_set_dropD)
  then show ?thesis using map_of_SomeD [OF hit] ok by (auto simp: od_ok_def intro: map_of_is_SomeI)
qed

lemma od_ok_remember: "od_ok c \<Longrightarrow> od_ok (remember_neural_matches k v c)"
  by (simp add: remember_neural_matches_def od_ok_evict_matches)

lemma remember_hit:
  "od_ok c \<Longrightarrow> map_of (remember_neural_matches k v c) j = Some w \<Longrightarrow> (j = k \<and> w = v) \<or> map_of c j = Some w"
  by (auto simp: remember_neural_matches_def map_of_move map_of_od_set split: if_splits
      dest!: map_of_evict_matches [rotated])

text \<open>The memo is bounded in its keys and, separately, in the number of matches it retains.\<close>

interpretation match_keys: memo_cache remember_neural_matches map_of length od_ok MAX_NEURAL_MATCH_CACHE_KEYS
  by unfold_locales
    (auto simp: od_ok_remember od_ok_evict_matches remember_neural_matches_def evict_matches_bounds dest: remember_hit [unfolded remember_neural_matches_def])

interpretation match_records: memo_cache remember_neural_matches map_of cache_records od_ok MAX_NEURAL_MATCH_CACHE_RECORDS
  by unfold_locales
    (auto simp: od_ok_remember od_ok_evict_matches remember_neural_matches_def evict_matches_bounds dest: remember_hit [unfolded remember_neural_matches_def])


definition slot_query :: "cache_slot \<Rightarrow> neural_key \<Rightarrow> neural_query" where
  "slot_query slot key = \<lparr>nq_raw = fst key, nq_start = fst (snd key), nq_boundaries = set (snd (snd key)),
     nq_exact_only = (slot = NeuralExactCache), nq_include_descendants = (slot = NeuralCache)\<rparr>"

definition neural_cache_ok :: "pystr trie \<Rightarrow> cache_slot \<Rightarrow> neural_cache \<Rightarrow> bool" where
  "neural_cache_ok rt slot c \<longleftrightarrow> od_ok c \<and> length c \<le> MAX_NEURAL_MATCH_CACHE_KEYS
     \<and> cache_records c \<le> MAX_NEURAL_MATCH_CACHE_RECORDS
     \<and> (\<forall>key ms. map_of c key = Some ms \<longrightarrow> fst key \<noteq> [] \<and> fst (snd key) < length (fst key)
           \<and> ms = neural_search rt (slot_query slot key) False)"

text \<open>A matcher in use: built from its index, with memos that hold only search results.\<close>

definition matcher_ok :: "pinyin_index \<Rightarrow> matcher \<Rightarrow> bool" where
  "matcher_ok ix m \<longleftrightarrow> mt_root m = mt_root (new_matcher ix) \<and> mt_entries m = mt_entries (new_matcher ix)
     \<and> mt_by_initial m = mt_by_initial (new_matcher ix)
     \<and> (\<forall>raw start ms. map_of (mt_cache m) (raw, start) = Some ms \<longrightarrow> ms = partial_search (mt_root (new_matcher ix)) raw start)
     \<and> (\<forall>slot. neural_cache_ok (mt_root (new_matcher ix)) slot (read_slot slot m))"

lemma new_matcher_caches [simp]:
  "mt_cache (new_matcher ix) = []" "read_slot slot (new_matcher ix) = []"
  by (simp add: new_matcher_def Let_def) (cases slot; simp add: new_matcher_def Let_def)

lemma matcher_ok_new: "matcher_ok ix (new_matcher ix)"
  by (simp add: matcher_ok_def neural_cache_ok_def)

lemma read_write_slot [simp]: "read_slot slot' (write_slot slot c m) = (if slot' = slot then c else read_slot slot' m)"
  by (cases slot; cases slot') simp_all

lemma write_slot_fields [simp]:
  "mt_root (write_slot slot c m) = mt_root m" "mt_entries (write_slot slot c m) = mt_entries m"
  "mt_by_initial (write_slot slot c m) = mt_by_initial m" "mt_cache (write_slot slot c m) = mt_cache m"
  by (cases slot; simp)+

lemma matcher_ok_write:
  "matcher_ok ix m \<Longrightarrow> neural_cache_ok (mt_root (new_matcher ix)) slot c \<Longrightarrow> matcher_ok ix (write_slot slot c m)"
  by (simp add: matcher_ok_def)

lemma cache_records_move: "cache_records (od_move_to_end k c) = cache_records c \<or> \<not> od_ok c"
proof (cases "map_of c k")
  case (Some v)
  have "od_ok c \<Longrightarrow> cache_records (od_del k c) + length v = cache_records c"
    using Some
  proof (induction c)
    case (Cons kv c)
    show ?case
    proof (cases "fst kv = k")
      case True
      then have "k \<notin> fst ` set c" using Cons.prems by (auto simp: od_ok_def)
      then have "od_del k c = c" by (simp add: delete_id)
      with True Cons.prems show ?thesis by (cases kv) auto
    next
      case False
      with Cons show ?thesis by (cases kv) (auto simp: od_ok_def)
    qed
  qed simp
  then show ?thesis using Some by (auto simp: od_move_to_end_def cache_records_def)
qed (simp add: od_move_to_end_def)

lemma neural_cache_ok_move: "neural_cache_ok rt slot c \<Longrightarrow> neural_cache_ok rt slot (od_move_to_end key c)"
  using cache_records_move [of key c] length_od_move [of c key] by (auto simp: neural_cache_ok_def map_of_move)

lemma neural_cache_ok_remember:
  assumes "neural_cache_ok rt slot c" "result = neural_search rt (slot_query slot key) False"
    "fst key \<noteq> []" "fst (snd key) < length (fst key)"
  shows "neural_cache_ok rt slot (remember_neural_matches key result c)"
  using assms match_keys.inv_put [of c key result] match_keys.weight_put [of c key result]
    match_records.weight_put [of c key result] match_keys.get_put_hit [of c key result]
  unfolding neural_cache_ok_def by blast

text \<open>\<open>exact_only\<close> makes \<open>include_descendants\<close> irrelevant, and the two sorts agree.\<close>

lemma neural_search_sort: "neural_search rt q cooperative = neural_search rt q False"
  by (simp add: neural_search_def fst_cooperative_sorted Let_def)

lemma neural_visit_exact:
  "nq_exact_only q \<Longrightarrow> neural_visit (q\<lparr>nq_include_descendants := b\<rparr>) path node pos sh inc st
     = neural_visit q path node pos sh inc st"
proof (induction "trie_weight node" arbitrary: path node pos sh inc st rule: less_induct)
  case less
  obtain V F where st: "st = (V, F)" by (cases st)
  have f: "fold (\<lambda>(s, child) st.
        if prefix s (drop pos (nq_raw q)) \<and> \<not> crosses_boundary (nq_boundaries q) pos (pos + length s)
        then neural_visit (q\<lparr>nq_include_descendants := b\<rparr>) (path @ [s]) child (pos + length s) sh inc st else st) (children node) st'
     = fold (\<lambda>(s, child) st.
        if prefix s (drop pos (nq_raw q)) \<and> \<not> crosses_boundary (nq_boundaries q) pos (pos + length s)
        then neural_visit q (path @ [s]) child (pos + length s) sh inc st else st) (children node) st'" for st'
  proof (intro fold_cong refl)
    fix c
    assume "c \<in> set (children node)"
    then have "trie_weight (snd c) < trie_weight node" using child_weight by (metis prod.collapse)
    from less.hyps [OF this less.prems]
    show "(\<lambda>(s, child) st. if prefix s (drop pos (nq_raw q)) \<and> \<not> crosses_boundary (nq_boundaries q) pos (pos + length s)
          then neural_visit (q\<lparr>nq_include_descendants := b\<rparr>) (path @ [s]) child (pos + length s) sh inc st else st) c
        = (\<lambda>(s, child) st. if prefix s (drop pos (nq_raw q)) \<and> \<not> crosses_boundary (nq_boundaries q) pos (pos + length s)
          then neural_visit q (path @ [s]) child (pos + length s) sh inc st else st) c"
      by (simp add: split_def cong: if_cong)
  qed
  show ?case unfolding st neural_visit.simps [of _ path node] Let_def
    using less.prems f by (simp cong: if_cong)
qed

lemma slot_search:
  assumes "finite (nq_boundaries q)"
  shows "neural_search rt (slot_query (slot_of (nq_exact_only q) (nq_include_descendants q))
      (nq_raw q, nq_start q, sorted_list_of_set (nq_boundaries q))) cooperative = neural_search rt q cooperative"
proof (cases "nq_exact_only q")
  case True
  have "slot_query (slot_of (nq_exact_only q) (nq_include_descendants q))
      (nq_raw q, nq_start q, sorted_list_of_set (nq_boundaries q)) = q\<lparr>nq_include_descendants := False\<rparr>"
    using True assms by (simp add: slot_query_def slot_of_def)
  then show ?thesis using neural_visit_exact [OF True] by (simp add: neural_search_def)
next
  case False
  then have "slot_query (slot_of (nq_exact_only q) (nq_include_descendants q))
      (nq_raw q, nq_start q, sorted_list_of_set (nq_boundaries q)) = q"
    using assms by (cases q) (simp add: slot_query_def slot_of_def)
  then show ?thesis by simp
qed

abbreviation in_range :: "neural_query \<Rightarrow> bool" where
  "in_range q \<equiv> nq_raw q \<noteq> [] \<and> nq_start q < length (nq_raw q)"

lemma iter_neural_matches_spec:
  assumes "matcher_ok ix m" "finite (nq_boundaries q)"
  shows "fst (iter_neural_matches q cooperative m)
       = (if in_range q then neural_search (mt_root (new_matcher ix)) q False else [])
     \<and> matcher_ok ix (snd (iter_neural_matches q cooperative m))"
proof (cases "in_range q")
  case True
  let ?key = "(nq_raw q, nq_start q, sorted_list_of_set (nq_boundaries q))"
  let ?slot = "slot_of (nq_exact_only q) (nq_include_descendants q)"
  have ok: "neural_cache_ok (mt_root (new_matcher ix)) ?slot (read_slot ?slot m)" and rt: "mt_root m = mt_root (new_matcher ix)"
    using assms(1) by (simp_all add: matcher_ok_def)
  show ?thesis
  proof (cases "map_of (read_slot ?slot m) ?key")
    case None
    then show ?thesis
      using True assms matcher_ok_write [OF assms(1) neural_cache_ok_remember [OF ok refl, of ?key]] slot_search [OF assms(2)]
      by (simp add: iter_neural_matches_def cached_neural_matches_def Let_def neural_search_sort [of _ _ cooperative] rt)
  next
    case (Some ms)
    then have "ms = neural_search (mt_root (new_matcher ix)) (slot_query ?slot ?key) False"
      using ok by (simp add: neural_cache_ok_def)
    then show ?thesis
      using True Some matcher_ok_write [OF assms(1) neural_cache_ok_move [OF ok]] slot_search [OF assms(2)]
      by (simp add: iter_neural_matches_def cached_neural_matches_def Let_def rt)
  qed
qed (use assms in \<open>auto simp: iter_neural_matches_def\<close>)


lemma partial_matches_spec:
  assumes "matcher_ok ix m"
  shows "fst (partial_matches m raw start)
       = (if raw = [] \<or> start \<ge> length raw then [] else partial_search (mt_root (new_matcher ix)) raw start)
     \<and> matcher_ok ix (snd (partial_matches m raw start))"
proof -
  have rt: "mt_root m = mt_root (new_matcher ix)" using assms by (simp add: matcher_ok_def)
  have slots: "read_slot slot (m\<lparr>mt_cache := c\<rparr>) = read_slot slot m" for slot c by (cases slot) simp_all
  show ?thesis
    using assms by (auto simp: partial_matches_def rt matcher_ok_def slots map_of_od_set Let_def split: option.splits)
qed

text \<open>
  Claim C20. The memos of the matcher are transparent and bounded: whatever searches have filled,
  refreshed or evicted them, the next search returns what a fresh search of the index returns, and no
  memo of the exhaustive search ever holds more than 256 keys or 16384 matches.
\<close>

theorem memos_transparent:
  assumes "matcher_ok ix m" "finite boundaries"
    and "q = \<lparr>nq_raw = raw, nq_start = start, nq_boundaries = boundaries, nq_exact_only = exact_only,
              nq_include_descendants = True\<rparr>"
    and "neural_matches raw start boundaries exact_only m = (ms, m')"
  shows "ms = (if in_range q then neural_search (mt_root (new_matcher ix)) q False else [])
     \<and> matcher_ok ix m'
     \<and> (\<forall>slot. length (read_slot slot m') \<le> MAX_NEURAL_MATCH_CACHE_KEYS
          \<and> cache_records (read_slot slot m') \<le> MAX_NEURAL_MATCH_CACHE_RECORDS)"
proof -
  let ?key = "(raw, start, sorted_list_of_set boundaries)" and ?slot = "slot_of exact_only True"
  have ok: "neural_cache_ok (mt_root (new_matcher ix)) ?slot (read_slot ?slot m)"
    using assms(1) by (simp add: matcher_ok_def)
  have same: "write_slot ?slot (read_slot ?slot m) m = m" by (cases ?slot) simp_all
  have "ms = (if in_range q then neural_search (mt_root (new_matcher ix)) q False else []) \<and> matcher_ok ix m'"
  proof (cases "map_of (read_slot ?slot m) ?key")
    case None
    then show ?thesis
      using assms(4) iter_neural_matches_spec [OF assms(1), of q False] assms(2,3)
      by (simp add: neural_matches_def cached_neural_matches_def same)
  next
    case (Some found)
    then have f: "in_range q" "found = neural_search (mt_root (new_matcher ix)) (slot_query ?slot ?key) False"
      using ok assms(3) by (auto simp: neural_cache_ok_def)
    have "neural_search (mt_root (new_matcher ix)) (slot_query ?slot ?key) False
        = neural_search (mt_root (new_matcher ix)) q False"
      using slot_search [of q _ False] assms(2,3) by simp
    then show ?thesis
      using assms(4) Some f matcher_ok_write [OF assms(1) neural_cache_ok_move [OF ok]]
      by (auto simp: neural_matches_def cached_neural_matches_def Let_def)
  qed
  moreover from this have "neural_cache_ok (mt_root (new_matcher ix)) slot (read_slot slot m')" for slot
    by (simp add: matcher_ok_def)
  ultimately show ?thesis by (simp add: neural_cache_ok_def)
qed


definition demo_search :: "pmatch list \<times> matcher" where
  "demo_search = neural_matches (asc ''xa'') 0 {} False (new_matcher demo_index)"

definition demo_search_again :: "pmatch list \<times> matcher" where
  "demo_search_again = neural_matches (asc ''xa'') 0 {} False (snd demo_search)"

theorem memos_transparent_witness:
  "od_keys (mt_neural_cache (snd demo_search)) = [(asc ''xa'', 0, [])]
   \<and> fst demo_search_again = neural_search (mt_root (new_matcher demo_index)) demo_query False
   \<and> fst demo_search_again \<noteq> []"
proof -
  let ?q = "\<lparr>nq_raw = asc ''xa'', nq_start = 0, nq_boundaries = {}, nq_exact_only = False, nq_include_descendants = True\<rparr>"
  have q: "demo_query = ?q" by (simp add: demo_query_def)
  have r: "in_range ?q" by code_simp
  have "matcher_ok demo_index (snd demo_search)"
    using iter_neural_matches_spec [OF matcher_ok_new [of demo_index], of ?q False]
    by (simp add: demo_search_def neural_matches_def cached_neural_matches_def slot_of_def Let_def new_matcher_def)
  from memos_transparent [OF this finite.emptyI refl, of "asc ''xa''" 0 False "fst demo_search_again" "snd demo_search_again"]
  have "fst demo_search_again = neural_search (mt_root (new_matcher demo_index)) demo_query False"
    using r by (simp add: demo_search_again_def q)
  moreover have "od_keys (mt_neural_cache (snd demo_search)) = [(asc ''xa'', 0, [])]" by code_simp
  moreover have "fst demo_search_again \<noteq> []" by code_simp
  ultimately show ?thesis by blast
qed

end
