(* ===== verification/Mixed_Pinyin.thy ===== *)
theory Mixed_Pinyin
  imports Partial_Matcher Pinyin_Constraint
begin

text \<open>
  Mixed full and abbreviated pinyin: \<open>pinyin_single.py\<close>, the timed beam of \<open>pinyin_beam.py\<close> and
  \<open>MixedPinyinConstraint\<close> of \<open>mixed_pinyin.py\<close>.  The matcher's memo is threaded.  The backend is its
  scoring function and its conditional session, an argument; \<open>late\<close> answers the deadline test the
  n-th time it is asked.  Scores are real numbers.
\<close>

section \<open>One partial match\<close>

definition usable_match :: "pmatch \<Rightarrow> bool" where
  "usable_match m \<longleftrightarrow> e_token_id (pm_entry m) \<noteq> None \<and> \<not> e_coverage (pm_entry m)"

definition match_token :: "pmatch \<Rightarrow> int" where
  "match_token m = the (e_token_id (pm_entry m))"

definition single_candidate :: "int \<Rightarrow> pystr \<Rightarrow> pmatch \<times> real \<Rightarrow> candidate" where
  "single_candidate epoch raw_keys = (\<lambda>(m, score). let e = pm_entry m in
     \<lparr>c_text = e_text e, c_pinyin = e_display_pinyin e, c_consumed_keys = length raw_keys, c_score = Some score,
      c_context_epoch = epoch, c_coverage = False, c_completes_input = True, c_syllables = e_syllables e,
      c_token_id = e_token_id e, c_constraint_kind = ''pinyin'', c_script = script_value (detect_script (e_text e)),
      c_model_score = Some score, c_constraint_cost = pm_cost m, c_language_prior = 0, c_total_score = 0,
      c_token_path = [match_token m], c_ranking_tier = 0, c_static_rank = 0, c_predicted_syllables = 0\<rparr>)"

definition single_key :: "candidate \<Rightarrow> real \<times> pystr \<times> int list" where
  "single_key c = (- ((case c_model_score c of None \<Rightarrow> 0 | Some s \<Rightarrow> s) + c_constraint_cost c), c_text c, c_token_path c)"

definition single_partial ::
  "scorer \<Rightarrow> int \<Rightarrow> pystr \<Rightarrow> pystr \<Rightarrow> pystr \<Rightarrow> matcher \<Rightarrow> candidate list result \<times> matcher" where
  "single_partial score epoch raw_keys raw after_text mt =
     (let (found, mt) = partial_matches mt raw 0;
          matches = filter (\<lambda>m. pm_next_position m = length raw \<and> usable_match m
            \<and> \<not> prefix (e_text (pm_entry m)) after_text) found
      in (if matches = [] then Inr []
          else rbind (score (map match_token matches)) (\<lambda>scores.
               rbind (zip_strict matches scores) (\<lambda>scored.
                 Inr (sort_key single_key (map (single_candidate epoch raw_keys) scored)))), mt))"

section \<open>The timed beam\<close>

record beam =
  bm_text :: pystr
  bm_syllables :: "pystr list"
  bm_pos :: nat
  bm_path :: "int list"
  bm_score :: real
  bm_cost :: real

definition bm_model_score :: "beam \<Rightarrow> real" where
  "bm_model_score b = bm_score b / real (length (bm_path b)) powr (7 / 10)"

definition bm_rank :: "beam \<Rightarrow> real" where
  "bm_rank b = bm_model_score b + bm_cost b"

definition bm_key :: "beam \<Rightarrow> real \<times> pystr \<times> int list" where
  "bm_key b = (- bm_rank b, bm_text b, bm_path b)"

text \<open>
  A conditional session: branching from given parents with one token each, and scoring the allowed
  tokens of every active branch.
\<close>

record 's branch_session =
  se_advance :: "nat list \<Rightarrow> int list \<Rightarrow> 's \<Rightarrow> 's result"
  se_score_allowed :: "int list list \<Rightarrow> 's \<Rightarrow> (real list list \<times> 's) result"

definition root_beam :: "pmatch \<times> real \<Rightarrow> beam" where
  "root_beam = (\<lambda>(m, score).
     \<lparr>bm_text = e_text (pm_entry m), bm_syllables = e_syllable_path (pm_entry m), bm_pos = pm_next_position m,
      bm_path = [match_token m], bm_score = score, bm_cost = pm_cost m\<rparr>)"

definition child_beam :: "beam \<Rightarrow> pmatch \<times> real \<Rightarrow> beam" where
  "child_beam b = (\<lambda>(m, v).
     \<lparr>bm_text = bm_text b @ e_text (pm_entry m), bm_syllables = bm_syllables b @ e_syllable_path (pm_entry m),
      bm_pos = pm_next_position m, bm_path = bm_path b @ [match_token m], bm_score = bm_score b + v,
      bm_cost = bm_cost b + pm_cost m\<rparr>)"

text \<open>The matches after every active beam; each call may fill the matcher's memo.\<close>

fun beam_groups :: "pystr \<Rightarrow> beam list \<Rightarrow> matcher \<Rightarrow> pmatch list list \<times> matcher" where
  "beam_groups raw [] mt = ([], mt)"
| "beam_groups raw (b # bs) mt =
     (let (found, mt) = partial_matches mt raw (bm_pos b); (groups, mt) = beam_groups raw bs mt
      in (filter usable_match found # groups, mt))"

text \<open>The two nested strict zips: every beam with its group and its scores.\<close>

definition beam_children :: "beam list \<Rightarrow> pmatch list list \<Rightarrow> real list list \<Rightarrow> (nat \<times> beam) list result" where
  "beam_children active groups scored =
     rbind (zip_strict active groups) (\<lambda>_. rbind (zip_strict active scored) (\<lambda>_.
     rbind (rmap (\<lambda>(parent, b, ms, vs). rbind (zip_strict ms vs) (\<lambda>pairs. Inr (map (\<lambda>p. (parent, child_beam b p)) pairs)))
              (zip [0..<length active] (zip active (zip groups scored)))) (\<lambda>rows. Inr (concat rows))))"

text \<open>
  One level of the loop; \<open>n\<close> counts the deadline tests made so far.  The result is the finished
  beams and the memo.
\<close>

fun beam_levels ::
  "'s branch_session \<Rightarrow> (nat \<Rightarrow> bool) \<Rightarrow> pystr \<Rightarrow> nat \<Rightarrow> nat \<Rightarrow> nat \<Rightarrow> beam list \<Rightarrow> beam list \<Rightarrow> matcher \<Rightarrow> 's
     \<Rightarrow> beam list result \<times> matcher" where
  "beam_levels se late raw width 0 n active done_beams mt s = (Inr done_beams, mt)"
| "beam_levels se late raw width (Suc left) n active done_beams mt s =
     (let (groups, mt) = beam_groups raw active mt; allowed = map (map match_token) groups in
      if list_all (\<lambda>a. a = []) allowed then (Inr done_beams, mt)
      else case rbind (se_score_allowed se allowed s) (\<lambda>(scored, s).
                 rbind (beam_children active groups scored) (\<lambda>offspring. Inr (offspring, s))) of
        Inl err \<Rightarrow> (Inl err, mt)
      | Inr (offspring, s) \<Rightarrow>
          let done_beams = done_beams @ map snd (filter (\<lambda>(_, c). bm_pos c = length raw) offspring);
              pending = filter (\<lambda>(_, c). bm_pos c < length raw) offspring
          in if left = 0 \<or> pending = [] then (Inr done_beams, mt)
             else let selected = take width (sort_key (\<lambda>(_, c). bm_key c) pending) in
               if late n then (Inr done_beams, mt)
               else case se_advance se (map fst selected) (map (\<lambda>(_, c). last (bm_path c)) selected) s of
                 Inl err \<Rightarrow> (Inl err, mt)
               | Inr s \<Rightarrow> if late (Suc n) then (Inr done_beams, mt)
                          else beam_levels se late raw width left (Suc (Suc n)) (map snd selected) done_beams mt s)"

definition best_beams :: "beam list \<Rightarrow> (pystr, beam) odict" where
  "best_beams bs = fold (\<lambda>b. best_put (\<lambda>new old. bm_rank new > bm_rank old) (bm_text b) b) bs []"

text \<open>
  \<open>score_start\<close> is \<open>score_allowed_sequence_start\<close> where the backend has it, else
  \<open>score_allowed_tokens\<close>; \<open>open_session\<close> is what opening a session gives:
  none where the backend has no sessions or the state is no longer current.
\<close>

definition run_beam ::
  "scorer \<Rightarrow> ('s branch_session \<times> 's) option result \<Rightarrow> (nat \<Rightarrow> bool) \<Rightarrow> pystr \<Rightarrow> nat \<Rightarrow> nat \<Rightarrow> matcher
     \<Rightarrow> beam list result \<times> matcher" where
  "run_beam score_start open_session late raw width depth mt =
     (let (found, mt) = partial_matches mt raw 0;
          roots = filter (\<lambda>m. 0 < pm_next_position m \<and> pm_next_position m < length raw \<and> usable_match m) found
      in if roots = [] then (Inr [], mt)
         else case rbind (score_start (map match_token roots)) (zip_strict roots) of
           Inl err \<Rightarrow> (Inl err, mt)
         | Inr scored \<Rightarrow>
             let active = take width (sort_key bm_key (map root_beam scored)) in
             case open_session of
               Inl err \<Rightarrow> (Inl err, mt)
             | Inr None \<Rightarrow> (Inr [], mt)
             | Inr (Some (se, s)) \<Rightarrow>
                 case se_advance se (replicate (length active) 0) (map (\<lambda>b. last (bm_path b)) active) s of
                   Inl err \<Rightarrow> (Inl err, mt)
                 | Inr s \<Rightarrow>
                     if late 0 then (Inr [], mt)
                     else let (finished, mt) = beam_levels se late raw width (depth - 1) 1 active [] mt s in
                       (rbind finished (\<lambda>bs. Inr (sort_key bm_key (map snd (best_beams bs)))), mt))"

section \<open>The mixed constraint\<close>

record mixed_constraint =
  mx_index :: pinyin_index
  mx_matcher :: matcher
  mx_beam_width :: nat
  mx_max_tokens :: nat
  mx_budget_ms :: real

definition new_mixed :: "pinyin_index \<Rightarrow> int \<Rightarrow> int \<Rightarrow> real \<Rightarrow> mixed_constraint result" where
  "new_mixed ix beam_width max_tokens budget_ms =
     (if beam_width < 1 \<or> \<not> (2 \<le> max_tokens \<and> max_tokens \<le> 4) \<or> budget_ms \<le> 0
      then Inl (ValueError ''invalid mixed-pinyin search budget'')
      else Inr \<lparr>mx_index = ix, mx_matcher = new_matcher ix, mx_beam_width = nat beam_width,
                mx_max_tokens = nat max_tokens, mx_budget_ms = budget_ms\<rparr>)"

definition mixed_candidate :: "int \<Rightarrow> pystr \<Rightarrow> beam \<Rightarrow> candidate" where
  "mixed_candidate epoch raw_keys b =
     \<lparr>c_text = bm_text b, c_pinyin = join [quote] (bm_syllables b), c_consumed_keys = length raw_keys,
      c_score = Some (bm_model_score b), c_context_epoch = epoch, c_coverage = False, c_completes_input = True,
      c_syllables = int (length (bm_syllables b)), c_token_id = Some (hd (bm_path b)), c_constraint_kind = ''pinyin'',
      c_script = script_value (detect_script (bm_text b)), c_model_score = Some (bm_model_score b),
      c_constraint_cost = bm_cost b, c_language_prior = 0, c_total_score = 0, c_token_path = bm_path b,
      c_ranking_tier = 0, c_static_rank = 0, c_predicted_syllables = 0\<rparr>"

text \<open>The whole query: ordinary candidates first, then one partial match, then the beam.\<close>

definition mixed_candidates ::
  "unicode_db \<Rightarrow> scorer \<Rightarrow> scorer \<Rightarrow> ('s branch_session \<times> 's) option result \<Rightarrow> (nat \<Rightarrow> bool) \<Rightarrow> int \<Rightarrow> pystr \<Rightarrow> pystr \<Rightarrow> mixed_constraint
     \<Rightarrow> (candidate list result \<times> mixed_constraint) option" where
  "mixed_candidates db score score_start open_session late epoch raw_keys after_text mx =
     (case pinyin_candidates db score epoch raw_keys after_text (mx_index mx) of
        None \<Rightarrow> None
      | Some (Inl err) \<Rightarrow> Some (Inl err, mx)
      | Some (Inr (ordinary, ix)) \<Rightarrow>
          let mx = mx\<lparr>mx_index := ix\<rparr> in
          if ordinary \<noteq> [] then Some (Inr ordinary, mx)
          else case parse_raw_pinyin db raw_keys of
            Inl _ \<Rightarrow> Some (Inr [], mx)
          | Inr parsed \<Rightarrow>
              let raw = pi_compact parsed in
              if raw = [] \<or> pi_boundaries parsed \<noteq> {} then Some (Inr [], mx)
              else case single_partial score epoch raw_keys raw after_text (mx_matcher mx) of
                (Inl err, mt) \<Rightarrow> Some (Inl err, mx\<lparr>mx_matcher := mt\<rparr>)
              | (Inr single, mt) \<Rightarrow>
                  if single \<noteq> [] then Some (Inr single, mx\<lparr>mx_matcher := mt\<rparr>)
                  else case run_beam score_start open_session late raw (mx_beam_width mx) (mx_max_tokens mx) mt of
                    (beams, mt) \<Rightarrow>
                      Some (rbind beams (\<lambda>bs. Inr (map (mixed_candidate epoch raw_keys)
                              (filter (\<lambda>b. \<not> prefix (bm_text b) after_text) bs))), mx\<lparr>mx_matcher := mt\<rparr>))"


section \<open>What the beam is made of\<close>

text \<open>Matches that follow one another through the raw keys.\<close>

fun chain_from :: "pystr trie \<Rightarrow> pystr \<Rightarrow> nat \<Rightarrow> pmatch list \<Rightarrow> bool" where
  "chain_from rt raw pos [] = True"
| "chain_from rt raw pos (m # ms) =
     (m \<in> set (partial_search rt raw pos) \<and> usable_match m \<and> chain_from rt raw (pm_next_position m) ms)"

definition end_position :: "nat \<Rightarrow> pmatch list \<Rightarrow> nat" where
  "end_position pos ms = (if ms = [] then pos else pm_next_position (last ms))"

lemma chain_from_snoc:
  "chain_from rt raw pos (ms @ [m]) \<longleftrightarrow> chain_from rt raw pos ms
     \<and> m \<in> set (partial_search rt raw (end_position pos ms)) \<and> usable_match m"
  by (induction ms arbitrary: pos) (auto simp: end_position_def)

definition beam_of :: "pmatch list \<Rightarrow> beam \<Rightarrow> bool" where
  "beam_of ms b \<longleftrightarrow> bm_text b = concat (map (\<lambda>m. e_text (pm_entry m)) ms)
     \<and> bm_syllables b = concat (map (\<lambda>m. e_syllable_path (pm_entry m)) ms)
     \<and> bm_path b = map match_token ms \<and> bm_cost b = sum_list (map pm_cost ms) \<and> bm_pos b = end_position 0 ms"

definition beam_ok :: "pystr trie \<Rightarrow> pystr \<Rightarrow> nat \<Rightarrow> beam \<Rightarrow> bool" where
  "beam_ok rt raw n b \<longleftrightarrow> (\<exists>ms. ms \<noteq> [] \<and> length ms \<le> n \<and> chain_from rt raw 0 ms \<and> beam_of ms b)"

lemma beam_of_root: "beam_of [m] (root_beam (m, score))"
  by (simp add: beam_of_def root_beam_def end_position_def)

lemma beam_of_child: "ms \<noteq> [] \<Longrightarrow> beam_of ms b \<Longrightarrow> beam_of (ms @ [m]) (child_beam b (m, v))"
  by (simp add: beam_of_def child_beam_def end_position_def)

lemma child_ok:
  assumes "beam_ok rt raw n b" "m \<in> set (partial_search rt raw (bm_pos b))" "usable_match m"
  shows "beam_ok rt raw (Suc n) (child_beam b (m, v))"
proof -
  obtain ms where ms: "ms \<noteq> []" "length ms \<le> n" "chain_from rt raw 0 ms" "beam_of ms b"
    using assms(1) unfolding beam_ok_def by blast
  then have "chain_from rt raw 0 (ms @ [m])" using assms(2,3) by (simp add: chain_from_snoc beam_of_def)
  with ms beam_of_child [OF ms(1,4)] show ?thesis
    unfolding beam_ok_def by (intro exI [of _ "ms @ [m]"]) simp
qed

lemma partial_matches_subset:
  assumes "matcher_ok ix mt" "partial_matches mt raw start = (found, mt')"
  shows "set found \<subseteq> set (partial_search (mt_root (new_matcher ix)) raw start) \<and> matcher_ok ix mt'"
  using partial_matches_spec [OF assms(1), of raw start] assms(2) by (auto split: if_splits)

lemma beam_groups_ok:
  "matcher_ok ix mt \<Longrightarrow> beam_groups raw bs mt = (groups, mt') \<Longrightarrow> matcher_ok ix mt'
     \<and> list_all2 (\<lambda>b g. \<forall>m \<in> set g. m \<in> set (partial_search (mt_root (new_matcher ix)) raw (bm_pos b)) \<and> usable_match m)
         bs groups"
proof (induction bs arbitrary: mt groups mt')
  case (Cons b bs)
  obtain found mt1 groups' where found: "partial_matches mt raw (bm_pos b) = (found, mt1)"
    and rest: "beam_groups raw bs mt1 = (groups', mt')" and groups: "groups = filter usable_match found # groups'"
    using Cons.prems(2) by (auto simp: Let_def split: prod.splits)
  from partial_matches_subset [OF Cons.prems(1) found] Cons.IH [OF _ rest] show ?case
    unfolding groups by auto
qed simp

lemma zip_strict_Inr [result_splits]: "zip_strict xs ys = Inr zs \<longleftrightarrow> length xs = length ys \<and> zs = zip xs ys"
  by (auto simp: zip_strict_def)

lemma rmap_members: "rmap f xs = Inr ys \<Longrightarrow> y \<in> set ys \<Longrightarrow> \<exists>x \<in> set xs. f x = Inr y"
  by (induction xs arbitrary: ys) (auto simp: result_splits)

lemma beam_children_members:
  assumes "beam_children active groups scored = Inr offspring" "(parent, c) \<in> set offspring"
  shows "\<exists>b g m v. (b, g) \<in> set (zip active groups) \<and> m \<in> set g \<and> c = child_beam b (m, v)"
proof -
  let ?all = "zip [0..<length active] (zip active (zip groups scored))"
  obtain rows where rows: "rmap (\<lambda>(parent, b, ms, vs). rbind (zip_strict ms vs) (\<lambda>pairs. Inr (map (\<lambda>p. (parent, child_beam b p)) pairs))) ?all = Inr rows"
    and off: "offspring = concat rows"
    using assms(1) by (auto simp: beam_children_def result_splits)
  obtain row where row: "row \<in> set rows" "(parent, c) \<in> set row" using assms(2) off by auto
  obtain i b g vs where x: "(i, b, g, vs) \<in> set ?all"
      "rbind (zip_strict g vs) (\<lambda>pairs. Inr (map (\<lambda>p. (i, child_beam b p)) pairs)) = Inr row"
    using rmap_members [OF rows row(1)] by (auto simp del: rbind.simps)
  have "(b, g) \<in> set (zip active groups)" using x(1) by (force simp: set_zip)
  moreover obtain m v where "(m, v) \<in> set (zip g vs)" "c = child_beam b (m, v)"
    using x(2) row(2) by (auto simp: result_splits)
  moreover from this have "m \<in> set g" by (meson set_zip_leftD)
  ultimately show ?thesis by blast
qed

definition finished_beam :: "pystr trie \<Rightarrow> pystr \<Rightarrow> nat \<Rightarrow> beam \<Rightarrow> bool" where
  "finished_beam rt raw depth b \<longleftrightarrow> beam_ok rt raw depth b \<and> bm_pos b = length raw"

lemma beam_ok_mono: "beam_ok rt raw n b \<Longrightarrow> n \<le> n' \<Longrightarrow> beam_ok rt raw n' b"
  unfolding beam_ok_def by (meson order_trans)

lemma beam_levels_ok:
  assumes "matcher_ok ix mt" "\<forall>b \<in> set active. beam_ok (mt_root (new_matcher ix)) raw k b"
    and "\<forall>b \<in> set finished. finished_beam (mt_root (new_matcher ix)) raw depth b" "k + left \<le> depth"
    and "beam_levels se late raw width left n active finished mt s = (r, mt')"
  shows "matcher_ok ix mt' \<and> (\<forall>bs. r = Inr bs \<longrightarrow> (\<forall>b \<in> set bs. finished_beam (mt_root (new_matcher ix)) raw depth b))"
  using assms
proof (induction left arbitrary: k n active finished mt s)
  case 0
  then show ?case by auto
next
  case (Suc left)
  let ?rt = "mt_root (new_matcher ix)"
  obtain groups mt1 where g: "beam_groups raw active mt = (groups, mt1)" by fastforce
  note groups = beam_groups_ok [OF Suc.prems(1) g]
  let ?allowed = "map (map match_token) groups"
  let ?scores = "rbind (se_score_allowed se ?allowed s) (\<lambda>(scored, s).
       rbind (beam_children active groups scored) (\<lambda>offspring. Inr (offspring, s)))"
  show ?case
  proof (cases "list_all (\<lambda>a. a = []) ?allowed")
    case True
    then show ?thesis using Suc.prems groups g by (auto simp: Let_def)
  next
    case some: False
    show ?thesis
    proof (cases ?scores)
      case (Inl err)
      then show ?thesis using Suc.prems(5) groups g some by (auto simp: Let_def)
    next
      case (Inr os)
      obtain offspring s1 where os: "os = (offspring, s1)" by fastforce
      obtain scored where kids: "beam_children active groups scored = Inr offspring"
        using Inr unfolding os by (auto simp: result_splits)
      have ok: "beam_ok ?rt raw (Suc k) c" if c: "(parent, c) \<in> set offspring" for parent c
      proof -
        obtain b g m v where b: "(b, g) \<in> set (zip active groups)" "m \<in> set g" "c = child_beam b (m, v)"
          using beam_children_members [OF kids c] by blast
        then have "m \<in> set (partial_search ?rt raw (bm_pos b)) \<and> usable_match m"
          using groups by (auto simp: list_all2_iff)
        then show ?thesis using child_ok Suc.prems(2) b(1,3) by (metis in_set_zipE)
      qed
      let ?done = "finished @ map snd (filter (\<lambda>(_, c). bm_pos c = length raw) offspring)"
      let ?pending = "filter (\<lambda>(_, c). bm_pos c < length raw) offspring"
      let ?selected = "take width (sort_key (\<lambda>(_, c). bm_key c) ?pending)"
      have k: "Suc k \<le> depth" "Suc k + left \<le> depth" using Suc.prems(4) by simp_all
      have fin: "\<forall>b \<in> set ?done. finished_beam ?rt raw depth b"
        using Suc.prems(3) beam_ok_mono [OF ok k(1)] by (auto simp: finished_beam_def)
      have sel: "\<forall>b \<in> set (map snd ?selected). beam_ok ?rt raw (Suc k) b"
        using ok by (auto dest!: in_set_takeD)
      define D S where "D = ?done" and "S = ?selected"
      have run: "(if left = 0 \<or> ?pending = [] then (Inr D, mt1)
         else if late n then (Inr D, mt1)
         else case se_advance se (map fst S) (map (\<lambda>(_, c). last (bm_path c)) S) s1 of
             Inl err \<Rightarrow> (Inl err, mt1)
           | Inr s \<Rightarrow> if late (Suc n) then (Inr D, mt1)
                else beam_levels se late raw width left (Suc (Suc n)) (map snd S) D mt1 s) = (r, mt')"
        unfolding D_def S_def using Suc.prems(5) by (simp only: beam_levels.simps g Let_def prod.case some if_False Inr os sum.case)
      consider "r = Inr D" "mt' = mt1" | err where "r = Inl err" "mt' = mt1"
        | s2 where "beam_levels se late raw width left (Suc (Suc n)) (map snd S) D mt1 s2 = (r, mt')"
        using run
        by (cases "left = 0 \<or> ?pending = []"; cases "late n";
            cases "se_advance se (map fst S) (map (\<lambda>(_, c). last (bm_path c)) S) s1"; cases "late (Suc n)")
           (auto split: if_splits)
      then show ?thesis
      proof cases
        case 3
        show ?thesis by (rule Suc.IH [OF conjunct1 [OF groups] sel fin k(2) 3 [unfolded D_def S_def]])
      qed (use groups fin in \<open>auto simp: D_def\<close>)
    qed
  qed
qed


lemma best_beams_subset: "\<forall>kb \<in> set (best_beams bs). snd kb \<in> set bs \<and> fst kb = bm_text (snd kb)"
proof -
  have "\<forall>kb \<in> set (fold (\<lambda>b. best_put (\<lambda>new old. bm_rank new > bm_rank old) (bm_text b) b) bs d).
      kb \<in> set d \<or> (snd kb \<in> set bs \<and> fst kb = bm_text (snd kb))" for d
  proof (induction bs arbitrary: d)
    case (Cons b bs)
    show ?case
      using Cons.IH [of "best_put (\<lambda>new old. bm_rank new > bm_rank old) (bm_text b) b d"]
        set_best_put [of "\<lambda>new old. bm_rank new > bm_rank old" "bm_text b" b d]
      by fastforce
  qed simp
  from this [of "[]"] show ?thesis by (simp add: best_beams_def)
qed

lemma run_beam_ok:
  fixes open_session :: "('s branch_session \<times> 's) option result"
  assumes "matcher_ok ix mt" "depth \<ge> 2" "run_beam score_start open_session late raw width depth mt = (r, mt')"
  shows "matcher_ok ix mt' \<and> (\<forall>bs. r = Inr bs \<longrightarrow> (\<forall>b \<in> set bs. finished_beam (mt_root (new_matcher ix)) raw depth b))"
proof -
  let ?rt = "mt_root (new_matcher ix)"
  obtain found mt1 where f: "partial_matches mt raw 0 = (found, mt1)" by fastforce
  note found = partial_matches_subset [OF assms(1) f]
  let ?roots = "filter (\<lambda>m. 0 < pm_next_position m \<and> pm_next_position m < length raw \<and> usable_match m) found"
  define active_of where "active_of scored = take width (sort_key bm_key (map root_beam scored))" for scored
  note run = assms(3) [unfolded run_beam_def f Let_def prod.case, folded active_of_def]
  consider (stop) "mt' = mt1" "r = Inr [] \<or> (\<exists>err. r = Inl err)"
    | (search) scores and se :: "'s branch_session" and s2 finished where
        "beam_levels se late raw width (depth - 1) 1 (active_of (zip ?roots scores)) [] mt1 s2 = (finished, mt')"
        "r = rbind finished (\<lambda>bs. Inr (sort_key bm_key (map snd (best_beams bs))))"
  proof (cases "?roots = []")
    case True
    then show ?thesis using run stop by simp
  next
    case some: False
    show ?thesis
    proof (cases "rbind (score_start (map match_token ?roots)) (zip_strict ?roots)")
      case (Inl err)
      then show ?thesis using run some by (intro stop) auto
    next
      case (Inr scored)
      then obtain scores where scores: "scored = zip ?roots scores" by (auto simp: result_splits)
      show ?thesis
      proof (cases "\<exists>se s s2. open_session = Inr (Some (se, s)) \<and> \<not> late 0
          \<and> se_advance se (replicate (length (active_of scored)) 0) (map (\<lambda>b. last (bm_path b)) (active_of scored)) s = Inr s2")
        case False
        then show ?thesis using run some Inr by (intro stop) (auto split: sum.splits option.splits if_splits)
      next
        case True
        then obtain se s s2 where se: "open_session = Inr (Some (se, s))" "\<not> late 0"
          "se_advance se (replicate (length (active_of scored)) 0) (map (\<lambda>b. last (bm_path b)) (active_of scored)) s = Inr s2"
          by blast
        obtain finished mt2 where lv: "beam_levels se late raw width (depth - 1) 1 (active_of scored) [] mt1 s2 = (finished, mt2)"
          by fastforce
        have "r = rbind finished (\<lambda>bs. Inr (sort_key bm_key (map snd (best_beams bs))))" "mt2 = mt'"
          using run some Inr se lv by simp_all
        then show ?thesis using lv scores search by blast
      qed
    qed
  qed
  then show ?thesis
  proof cases
    case search
    let ?active = "active_of (zip ?roots scores)"
    have active: "\<forall>b \<in> set ?active. beam_ok ?rt raw 1 b"
    proof
      fix b assume "b \<in> set ?active"
      then obtain m v where m: "(m, v) \<in> set (zip ?roots scores)" "b = root_beam (m, v)"
        by (auto simp: active_of_def dest!: in_set_takeD)
      then have "m \<in> set ?roots" by (meson set_zip_leftD)
      then have "chain_from ?rt raw 0 [m]" using found by auto
      then show "beam_ok ?rt raw 1 b" unfolding beam_ok_def m(2) using beam_of_root by fastforce
    qed
    have depth: "1 + (depth - 1) \<le> depth" using assms(2) by simp
    have none: "\<forall>b \<in> set []. finished_beam ?rt raw depth b" by simp
    note levels = beam_levels_ok [OF conjunct2 [OF found] active none depth search(1)]
    have "finished_beam ?rt raw depth b" if r: "r = Inr bs" "b \<in> set bs" for bs b
    proof -
      obtain fs where fs: "finished = Inr fs" "bs = sort_key bm_key (map snd (best_beams fs))"
        using search(2) r(1) by (cases finished) auto
      then have "b \<in> snd ` set (best_beams fs)" using r(2) by simp
      then have "b \<in> set fs" using best_beams_subset by fastforce
      then show ?thesis using levels fs(1) by blast
    qed
    then show ?thesis using levels by blast
  qed (use found in auto)
qed

section \<open>The mixed constraint\<close>

text \<open>A candidate that a chain of matches covering all the keys makes.\<close>

definition spelled_by :: "pystr trie \<Rightarrow> pystr \<Rightarrow> nat \<Rightarrow> candidate \<Rightarrow> bool" where
  "spelled_by rt raw depth c \<longleftrightarrow> (\<exists>ms. ms \<noteq> [] \<and> length ms \<le> depth \<and> chain_from rt raw 0 ms
     \<and> end_position 0 ms = length raw \<and> c_text c = concat (map (\<lambda>m. e_text (pm_entry m)) ms)
     \<and> c_token_path c = map match_token ms \<and> c_constraint_cost c = sum_list (map pm_cost ms))"

lemma mixed_candidate_spelled:
  "finished_beam rt raw depth b \<Longrightarrow> spelled_by rt raw depth (mixed_candidate epoch raw_keys b)"
  unfolding finished_beam_def beam_ok_def spelled_by_def
  by (force simp: beam_of_def mixed_candidate_def)

lemma single_partial_ok:
  assumes "matcher_ok ix mt" "depth \<ge> 1" "single_partial score epoch raw_keys raw after_text mt = (r, mt')"
  shows "matcher_ok ix mt' \<and> (\<forall>cs. r = Inr cs \<longrightarrow>
     (\<forall>c \<in> set cs. spelled_by (mt_root (new_matcher ix)) raw depth c \<and> \<not> prefix (c_text c) after_text))"
proof -
  let ?rt = "mt_root (new_matcher ix)"
  obtain found mt1 where f: "partial_matches mt raw 0 = (found, mt1)" by fastforce
  note found = partial_matches_subset [OF assms(1) f]
  let ?ms = "filter (\<lambda>m. pm_next_position m = length raw \<and> usable_match m
            \<and> \<not> prefix (e_text (pm_entry m)) after_text) found"
  have "spelled_by ?rt raw depth c \<and> \<not> prefix (c_text c) after_text" if r: "r = Inr cs" and c: "c \<in> set cs" for cs c
  proof -
    have "?ms \<noteq> []" using r c assms(3) f by (auto simp: single_partial_def Let_def)
    then obtain scores where cs: "cs = sort_key single_key (map (single_candidate epoch raw_keys) (zip ?ms scores))"
      using r assms(3) f by (auto simp: single_partial_def Let_def result_splits)
    obtain m v where m: "(m, v) \<in> set (zip ?ms scores)" "c = single_candidate epoch raw_keys (m, v)"
      using c unfolding cs by auto
    then have "m \<in> set ?ms" by (meson set_zip_leftD)
    then have ms: "chain_from ?rt raw 0 [m]" "end_position 0 [m] = length raw" "\<not> prefix (e_text (pm_entry m)) after_text"
      using found by (auto simp: end_position_def)
    show ?thesis unfolding spelled_by_def
      using ms assms(2) by (auto simp: m(2) single_candidate_def Let_def intro!: exI [of _ "[m]"])
  qed
  moreover have "mt' = mt1" using assms(3) f by (simp add: single_partial_def Let_def)
  ultimately show ?thesis using found by blast
qed

text \<open>
  Claim C21. Mixed pinyin offers only what the keys spell.  A query that returns leaves a matcher
  whose memo is transparent; its candidates are those of the ordinary constraint, or, when that
  has none and the user typed no apostrophe, candidates not already to the right of the caret, each
  made by one to \<open>max_tokens\<close> index entries that match the keys one after another without gap, up to
  the last key, with the tokens of those entries and the summed costs of their abbreviations.
  Deadlines may cut the search at any point without changing this.
\<close>

theorem mixed_pinyin_sound:
  assumes "matcher_ok ix (mx_matcher mx)" "mx_max_tokens mx \<ge> 2"
    and "mixed_candidates db score score_start open_session late epoch raw_keys after_text mx = Some (r, mx')"
  shows "matcher_ok ix (mx_matcher mx') \<and> (\<forall>cs. r = Inr cs \<longrightarrow>
     (\<exists>ix'. pinyin_candidates db score epoch raw_keys after_text (mx_index mx) = Some (Inr (cs, ix')))
     \<or> (\<exists>parsed. parse_raw_pinyin db raw_keys = Inr parsed \<and> pi_boundaries parsed = {}
          \<and> (\<forall>c \<in> set cs. spelled_by (mt_root (new_matcher ix)) (pi_compact parsed) (mx_max_tokens mx) c
               \<and> \<not> prefix (c_text c) after_text)))"
proof -
  obtain o' where o': "pinyin_candidates db score epoch raw_keys after_text (mx_index mx) = Some o'"
    using assms(3) by (auto simp: mixed_candidates_def split: option.splits)
  show ?thesis
  proof (cases "\<exists>parsed ix'. o' = Inr ([], ix') \<and> parse_raw_pinyin db raw_keys = Inr parsed
      \<and> pi_compact parsed \<noteq> [] \<and> pi_boundaries parsed = {}")
    case False
    then show ?thesis using assms(1,3) o'
      by (auto simp: mixed_candidates_def Let_def split: sum.splits if_splits prod.splits)
  next
    case True
    then obtain parsed ix' where p: "o' = Inr ([], ix')" "parse_raw_pinyin db raw_keys = Inr parsed"
        "pi_compact parsed \<noteq> []" "pi_boundaries parsed = {}" by blast
    let ?raw = "pi_compact parsed" and ?rt = "mt_root (new_matcher ix)"
    obtain single mt1 where s: "single_partial score epoch raw_keys ?raw after_text (mx_matcher mx) = (single, mt1)" by fastforce
    obtain beams mt2 where b: "run_beam score_start open_session late ?raw (mx_beam_width mx) (mx_max_tokens mx) mt1 = (beams, mt2)" by fastforce
    have depth: "mx_max_tokens mx \<ge> 1" using assms(2) by simp
    note single = single_partial_ok [OF assms(1) depth s]
    note beams = run_beam_ok [OF conjunct1 [OF single] assms(2) b]
    consider "r = single" "mx_matcher mx' = mt1"
      | "r = rbind beams (\<lambda>bs. Inr (map (mixed_candidate epoch raw_keys) (filter (\<lambda>b. \<not> prefix (bm_text b) after_text) bs)))"
        "mx_matcher mx' = mt2"
      using assms(3) o' p s b
      by (auto simp: mixed_candidates_def Let_def split: sum.splits if_splits)
    then show ?thesis
    proof cases
      case 1
      then show ?thesis using single p(2,4) by blast
    next
      case 2
      have "spelled_by ?rt ?raw (mx_max_tokens mx) c \<and> \<not> prefix (c_text c) after_text"
        if cs: "r = Inr cs" and c: "c \<in> set cs" for cs c
      proof -
        obtain bs where bs: "beams = Inr bs"
            "cs = map (mixed_candidate epoch raw_keys) (filter (\<lambda>b. \<not> prefix (bm_text b) after_text) bs)"
          using 2(1) cs by (cases beams) auto
        then obtain b where "b \<in> set bs" "\<not> prefix (bm_text b) after_text" "c = mixed_candidate epoch raw_keys b"
          using c by auto
        then show ?thesis using beams bs(1) mixed_candidate_spelled by (auto simp: mixed_candidate_def)
      qed
      then show ?thesis using beams p(2,4) 2(2) by blast
    qed
  qed
qed


section \<open>A concrete query\<close>

definition initials_rows :: "row list" where
  "initials_rows = [
     \<lparr>r_token_id = Some 3, r_token_path = [3], r_text = [35199], r_pinyin = asc ''xi'',
      r_syllable_path = asc ''xi'', r_syllables = 1, r_coverage = 0\<rparr>,
     \<lparr>r_token_id = Some 4, r_token_path = [4], r_text = [23433], r_pinyin = asc ''an'',
      r_syllable_path = asc ''an'', r_syllables = 1, r_coverage = 0\<rparr>]"

definition initials_index :: pinyin_index where
  "initials_index = projr (load_index ascii_db (\<lambda>_. True) (Some 5) initials_rows)"

definition initials_constraint :: mixed_constraint where
  "initials_constraint = projr (new_mixed initials_index 4 4 80)"

definition flat_session :: "unit branch_session" where
  "flat_session = \<lparr>se_advance = (\<lambda>ps ts s. Inr s), se_score_allowed = (\<lambda>allowed s. Inr (map (map (\<lambda>t. -1)) allowed, s))\<rparr>"

definition initials_query :: "(candidate list result \<times> mixed_constraint) option" where
  "initials_query = mixed_candidates ascii_db (\<lambda>ids. Inr (map (\<lambda>t. -1) ids)) (\<lambda>ids. Inr (map (\<lambda>t. -1) ids))
     (Inr (Some (flat_session, ()))) (\<lambda>n. False) 7 (asc ''xa'') [] initials_constraint"

lemma initials_result: "map_option (\<lambda>(r, _). map (\<lambda>c. (c_text c, c_token_path c)) (projr r)) initials_query = Some [([35199, 23433], [3, 4])]"
  by code_simp


theorem mixed_pinyin_sound_witness:
  "\<exists>cs mx'. initials_query = Some (Inr cs, mx') \<and> map (\<lambda>c. (c_text c, c_token_path c)) cs = [([35199, 23433], [3, 4])]
     \<and> matcher_ok initials_index (mx_matcher mx')
     \<and> list_all (spelled_by (mt_root (new_matcher initials_index)) (asc ''xa'') 4) cs"
proof -
  have mt: "mx_matcher initials_constraint = new_matcher initials_index" and four: "mx_max_tokens initials_constraint = 4"
    and ix: "mx_index initials_constraint = initials_index"
    by (simp_all add: initials_constraint_def new_mixed_def)
  have ok: "matcher_ok initials_index (mx_matcher initials_constraint)" unfolding mt by (rule matcher_ok_new)
  have two: "mx_max_tokens initials_constraint \<ge> 2" using four by simp
  obtain r mx' where r: "initials_query = Some (r, mx')" and v: "map (\<lambda>c. (c_text c, c_token_path c)) (projr r) = [([35199, 23433], [3, 4])]"
    using initials_result by (cases initials_query) auto
  have "map_option (\<lambda>(r, _). isl r) initials_query = Some False" by code_simp
  then have "\<not> isl r" unfolding r by simp
  then obtain cs where cs: "r = Inr cs" by (cases r) auto
  have "map_option (\<lambda>r. map c_text (fst (projr r))) (pinyin_candidates ascii_db (\<lambda>ids. Inr (map (\<lambda>t. -1) ids)) 7 (asc ''xa'') [] initials_index) = Some []"
    by code_simp
  then have ordinary: "\<not> (\<exists>ix'. pinyin_candidates ascii_db (\<lambda>ids. Inr (map (\<lambda>t. -1) ids)) 7 (asc ''xa'') [] (mx_index initials_constraint) = Some (Inr (cs, ix')))"
    using v cs unfolding ix by auto
  have compact: "map_sum id pi_compact (parse_raw_pinyin ascii_db (asc ''xa'')) = Inr (asc ''xa'')" by code_simp
  note spec = mixed_pinyin_sound [OF ok two r [unfolded initials_query_def]]
  then obtain parsed where parsed: "parse_raw_pinyin ascii_db (asc ''xa'') = Inr parsed"
     "\<forall>c \<in> set cs. spelled_by (mt_root (new_matcher initials_index)) (pi_compact parsed) 4 c"
    using cs ordinary four by auto
  then have "pi_compact parsed = asc ''xa''" using compact by simp
  then have "list_all (spelled_by (mt_root (new_matcher initials_index)) (asc ''xa'') 4) cs"
    using parsed(2) by (simp add: list_all_iff)
  moreover have "initials_query = Some (Inr cs, mx')" "map (\<lambda>c. (c_text c, c_token_path c)) cs = [([35199, 23433], [3, 4])]"
    using r cs v by simp_all
  ultimately show ?thesis using conjunct1 [OF spec] by (intro exI [of _ cs] exI [of _ mx'] conjI)
qed

end
