(* ===== verification/Key_State.thy ===== *)
theory Key_State
  imports Prelude
begin

text \<open>
  The pure key reducer of \<open>key_state.py\<close>: composition modes, key actions, the composition record
  with its construction check, and \<open>reduce_key\<close>.  A run of the reducer over a key sequence is the
  composition the native caller sees between candidate refreshes.
\<close>

section \<open>State and actions\<close>

datatype composition_mode = CHINESE_FIRST | LATIN_FIRST

datatype key_action = SPACE | TAB | ENTER | ESCAPE | BACKSPACE
  | SELECT_1 | SELECT_2 | SELECT_3 | SELECT_4 | SELECT_5 | SELECT_6 | SELECT_7 | SELECT_8 | SELECT_9
  | NEXT | PREVIOUS

record composition_state =
  cs_mode :: composition_mode
  cs_literal :: pystr
  cs_candidates :: "pystr list"
  cs_selected_index :: int
  cs_completion_visible :: bool
  cs_completion_selected :: bool

definition make_composition_state ::
  "composition_mode \<Rightarrow> pystr \<Rightarrow> pystr list \<Rightarrow> int \<Rightarrow> bool \<Rightarrow> bool \<Rightarrow> composition_state result" where
  "make_composition_state mode literal candidates selected_index visible explicit =
     (if selected_index < 0 then Inl (ValueError ''selected_index must not be negative'')
      else Inr \<lparr>cs_mode = mode, cs_literal = literal, cs_candidates = candidates,
                cs_selected_index = selected_index, cs_completion_visible = visible,
                cs_completion_selected = explicit\<rparr>)"

definition is_idle :: "composition_state \<Rightarrow> bool" where
  "is_idle s \<longleftrightarrow> cs_literal s = []"

definition idle :: "composition_mode \<Rightarrow> composition_state" where
  "idle mode = \<lparr>cs_mode = mode, cs_literal = [], cs_candidates = [], cs_selected_index = 0,
     cs_completion_visible = False, cs_completion_selected = False\<rparr>"

record key_transition =
  kt_state :: composition_state
  kt_committed_text :: "pystr option"
  kt_forward_enter :: bool

definition stay :: "composition_state \<Rightarrow> key_transition" where
  "stay s = \<lparr>kt_state = s, kt_committed_text = None, kt_forward_enter = False\<rparr>"

section \<open>The reducer\<close>

definition selected_candidate :: "composition_state \<Rightarrow> int option \<Rightarrow> pystr option" where
  "selected_candidate s index =
     (let selected = (case index of None \<Rightarrow> cs_selected_index s | Some i \<Rightarrow> i) in
      if 0 \<le> selected \<and> selected < int (length (cs_candidates s))
      then Some (cs_candidates s ! nat selected) else None)"

definition commit_text :: "composition_state \<Rightarrow> pystr \<Rightarrow> key_transition" where
  "commit_text s txt =
     \<lparr>kt_state = idle (cs_mode s), kt_committed_text = Some txt, kt_forward_enter = False\<rparr>"

text \<open>Python's \<open>x or y\<close> on an optional string: the empty string falls through as \<open>None\<close> does.\<close>

definition or_else :: "pystr option \<Rightarrow> pystr \<Rightarrow> pystr" where
  "or_else x y = (case x of Some v \<Rightarrow> if v = [] then y else v | None \<Rightarrow> y)"

definition commit_or_stay :: "composition_state \<Rightarrow> pystr option \<Rightarrow> key_transition" where
  "commit_or_stay s c = (case c of Some v \<Rightarrow> commit_text s v | None \<Rightarrow> stay s)"

definition NUMBER_ACTIONS :: "(key_action, int) odict" where
  "NUMBER_ACTIONS = [(SELECT_1, 0), (SELECT_2, 1), (SELECT_3, 2), (SELECT_4, 3), (SELECT_5, 4),
     (SELECT_6, 5), (SELECT_7, 6), (SELECT_8, 7), (SELECT_9, 8)]"

definition reduce_key :: "composition_state \<Rightarrow> key_action \<Rightarrow> key_transition result" where
  "reduce_key s action =
     (if action = BACKSPACE then
        Inr (stay \<lparr>cs_mode = cs_mode s, cs_literal = butlast (cs_literal s), cs_candidates = [],
                   cs_selected_index = 0, cs_completion_visible = False, cs_completion_selected = False\<rparr>)
      else if action = ESCAPE then Inr (stay (idle (cs_mode s)))
      else if action = SPACE then
        (if cs_mode s = LATIN_FIRST
         then Inr (commit_text s (or_else (selected_candidate s None) (cs_literal s) @ [32]))
         else Inr (commit_text s (or_else (selected_candidate s None) (cs_literal s))))
      else if action = TAB then
        (if cs_mode s \<noteq> LATIN_FIRST then Inr (stay s)
         else Inr (commit_or_stay s (selected_candidate s None)))
      else if action = ENTER then Inr (commit_text s (cs_literal s))
      else case map_of NUMBER_ACTIONS action of
             Some index \<Rightarrow> Inr (commit_or_stay s (selected_candidate s (Some index)))
           | None \<Rightarrow> if action = NEXT \<or> action = PREVIOUS then Inr (stay s)
                     else Inl (ValueError ''unsupported key action''))"

fun reduce_keys :: "composition_state \<Rightarrow> key_action list \<Rightarrow> (composition_state \<times> pystr list) result" where
  "reduce_keys s [] = Inr (s, [])"
| "reduce_keys s (a # as) = rbind (reduce_key s a) (\<lambda>t.
     rbind (reduce_keys (kt_state t) as) (\<lambda>(s', out).
       Inr (s', (case kt_committed_text t of None \<Rightarrow> out | Some x \<Rightarrow> x # out))))"

section \<open>Invariant\<close>

definition composition_ok :: "composition_state \<Rightarrow> bool" where
  "composition_ok s \<longleftrightarrow> 0 \<le> cs_selected_index s"

lemma make_composition_state_ok:
  "make_composition_state m l c i v e = Inr s \<Longrightarrow> composition_ok s"
  by (auto simp: make_composition_state_def composition_ok_def split: if_splits)

lemma composition_ok_idle [simp]: "composition_ok (idle m)"
  by (simp add: composition_ok_def idle_def)

lemma idle_fields [simp]:
  "cs_mode (idle m) = m" "cs_literal (idle m) = []" "cs_candidates (idle m) = []"
  "cs_selected_index (idle m) = 0"
  by (simp_all add: idle_def)

lemma transition_fields [simp]:
  "kt_state (stay s) = s" "kt_committed_text (stay s) = None" "\<not> kt_forward_enter (stay s)"
  "kt_state (commit_text s x) = idle (cs_mode s)" "kt_committed_text (commit_text s x) = Some x"
  "\<not> kt_forward_enter (commit_text s x)"
  by (simp_all add: stay_def commit_text_def)

text \<open>What one key does, in one place: every branch of the reducer.\<close>

lemma reduce_key_cases:
  assumes "reduce_key s a = Inr t"
  shows "(kt_committed_text t = None \<and> (kt_state t = s
            \<or> kt_state t = (idle (cs_mode s))\<lparr>cs_literal := butlast (cs_literal s)\<rparr>
            \<or> kt_state t = idle (cs_mode s)))
       \<or> (kt_committed_text t \<noteq> None \<and> kt_state t = idle (cs_mode s))"
  using assms
  by (auto simp: reduce_key_def commit_or_stay_def idle_def split: if_splits option.splits)

lemma reduce_key_mode: "reduce_key s a = Inr t \<Longrightarrow> cs_mode (kt_state t) = cs_mode s"
  by (drule reduce_key_cases) auto

lemma reduce_key_ok: "reduce_key s a = Inr t \<Longrightarrow> composition_ok s \<Longrightarrow> composition_ok (kt_state t)"
  by (drule reduce_key_cases) (auto simp: composition_ok_def)

lemma reduce_key_total: "\<exists>t. reduce_key s a = Inr t"
  by (cases a) (auto simp: reduce_key_def NUMBER_ACTIONS_def)

lemma reduce_keys_ok:
  "reduce_keys s as = Inr (s', out) \<Longrightarrow> composition_ok s \<Longrightarrow> composition_ok s' \<and> cs_mode s' = cs_mode s"
proof (induction s as arbitrary: s' out rule: reduce_keys.induct)
  case (2 s a as)
  then obtain t out' where t: "reduce_key s a = Inr t" "reduce_keys (kt_state t) as = Inr (s', out')"
    by (auto simp: result_splits)
  with 2(1) [OF t(2)] 2(3) reduce_key_ok [OF t(1)] reduce_key_mode [OF t(1)] show ?case by simp
qed simp

section \<open>Properties\<close>



text \<open>
  What each committing key commits: Space the selected candidate or, failing that, the
  literal (followed by a space in Latin mode), Tab the selected completion in Latin mode only, Enter
  the literal, a digit key the candidate of that number; a digit or Tab with nothing to commit
  changes nothing.
\<close>

theorem reduce_key_commits:
  "(\<forall>c. cs_mode s = CHINESE_FIRST \<and> selected_candidate s None = Some c \<and> c \<noteq> [] \<longrightarrow>
        reduce_key s SPACE = Inr (commit_text s c))
   \<and> (\<forall>c. cs_mode s = LATIN_FIRST \<and> selected_candidate s None = Some c \<and> c \<noteq> [] \<longrightarrow>
        reduce_key s SPACE = Inr (commit_text s (c @ [32])) \<and> reduce_key s TAB = Inr (commit_text s c))
   \<and> (selected_candidate s None = None \<longrightarrow>
        reduce_key s SPACE = Inr (commit_text s (cs_literal s @ (if cs_mode s = LATIN_FIRST then [32] else [])))
        \<and> reduce_key s TAB = Inr (stay s))
   \<and> (cs_mode s = CHINESE_FIRST \<longrightarrow> reduce_key s TAB = Inr (stay s))
   \<and> reduce_key s ENTER = Inr (commit_text s (cs_literal s))
   \<and> (\<forall>i < 9. reduce_key s ([SELECT_1, SELECT_2, SELECT_3, SELECT_4, SELECT_5, SELECT_6, SELECT_7,
                             SELECT_8, SELECT_9] ! i) =
        (if i < length (cs_candidates s) then Inr (commit_text s (cs_candidates s ! i)) else Inr (stay s)))"
proof (intro conjI allI impI)
  fix i :: nat
  assume "i < 9"
  then have "i = 0 \<or> i = 1 \<or> i = 2 \<or> i = 3 \<or> i = 4 \<or> i = 5 \<or> i = 6 \<or> i = 7 \<or> i = 8" by arith
  then show "reduce_key s ([SELECT_1, SELECT_2, SELECT_3, SELECT_4, SELECT_5, SELECT_6, SELECT_7,
                             SELECT_8, SELECT_9] ! i) =
        (if i < length (cs_candidates s) then Inr (commit_text s (cs_candidates s ! i)) else Inr (stay s))"
    by (elim disjE) (simp_all add: reduce_key_def NUMBER_ACTIONS_def commit_or_stay_def selected_candidate_def)
qed (cases "cs_mode s"; auto simp: reduce_key_def or_else_def commit_or_stay_def)+

theorem reduce_key_commits_witness:
  "reduce_key ((idle LATIN_FIRST)\<lparr>cs_literal := asc ''he'', cs_candidates := [asc ''hello'', asc ''her'']\<rparr>) SPACE
     = Inr (commit_text (idle LATIN_FIRST) (asc ''hello '' ))"
proof -
  let ?s = "(idle LATIN_FIRST)\<lparr>cs_literal := asc ''he'', cs_candidates := [asc ''hello'', asc ''her'']\<rparr>"
  have "selected_candidate ?s None = Some (asc ''hello'')" by (simp add: selected_candidate_def)
  then have "reduce_key ?s SPACE = Inr (commit_text ?s (asc ''hello'' @ [32]))"
    using reduce_key_commits [of ?s] by (simp add: asc_def)
  then show ?thesis by (simp add: commit_text_def asc_def)
qed

end
