(* ===== verification/Editor_Context.thy ===== *)
theory Editor_Context
  imports Pinyin
begin

text \<open>
  Bounded editor context of \<open>context.py\<close>.  A Python string is a list of code points; its UTF-16
  form is the list of 16-bit code units, and the byte slices of the source, which always cut at even
  offsets, are slices of that list.
\<close>

section \<open>UTF-16\<close>

definition FAST_BEFORE_UTF16 :: nat where "FAST_BEFORE_UTF16 = 23552"
definition FAST_AFTER_UTF16 :: nat where "FAST_AFTER_UTF16 = 4096"
definition IDLE_BEFORE_UTF16 :: nat where "IDLE_BEFORE_UTF16 = 32768"
definition IDLE_AFTER_UTF16 :: nat where "IDLE_AFTER_UTF16 = 32768"

definition utf16_char :: "nat \<Rightarrow> nat list" where
  "utf16_char c = (if c < 0x10000 then [c]
     else [0xD800 + (c - 0x10000) div 0x400, 0xDC00 + (c - 0x10000) mod 0x400])"

definition is_surrogate :: "nat \<Rightarrow> bool" where
  "is_surrogate c \<longleftrightarrow> 0xD800 \<le> c \<and> c \<le> 0xDFFF"

definition is_high :: "nat \<Rightarrow> bool" where
  "is_high u \<longleftrightarrow> 0xD800 \<le> u \<and> u \<le> 0xDBFF"

definition is_low :: "nat \<Rightarrow> bool" where
  "is_low u \<longleftrightarrow> 0xDC00 \<le> u \<and> u \<le> 0xDFFF"

text \<open>\<open>str.encode("utf-16-le")\<close>: a lone surrogate is an error.\<close>

definition utf16_encode :: "pystr \<Rightarrow> nat list result" where
  "utf16_encode s = (if list_ex is_surrogate s then Inl UnicodeError else Inr (concat (map utf16_char s)))"

text \<open>\<open>bytes.decode("utf-16-le", errors="strict")\<close>.\<close>

fun utf16_decode :: "nat list \<Rightarrow> pystr result" where
  "utf16_decode [] = Inr []"
| "utf16_decode (u # us) =
     (if is_high u then
        (case us of
           v # vs \<Rightarrow> if is_low v
                     then rbind (utf16_decode vs)
                            (\<lambda>cs. Inr ((0x10000 + (u - 0xD800) * 0x400 + (v - 0xDC00)) # cs))
                     else Inl UnicodeError
         | [] \<Rightarrow> Inl UnicodeError)
      else if is_low u then Inl UnicodeError
      else rbind (utf16_decode us) (\<lambda>cs. Inr (u # cs)))"

definition utf16_units :: "pystr \<Rightarrow> nat result" where
  "utf16_units s = rbind (utf16_encode s) (\<lambda>us. Inr (length us))"

definition drop_high_tail :: "nat list \<Rightarrow> nat list" where
  "drop_high_tail us = (if us \<noteq> [] \<and> is_high (last us) then butlast us else us)"

definition take_utf16_prefix :: "pystr \<Rightarrow> int \<Rightarrow> pystr result" where
  "take_utf16_prefix s maximum_units =
     (if maximum_units < 0 then Inl (ValueError ''maximum_units must be non-negative'')
      else rbind (utf16_encode s) (\<lambda>encoded.
             utf16_decode (drop_high_tail (take (nat maximum_units) encoded))))"

definition take_utf16_suffix :: "pystr \<Rightarrow> int \<Rightarrow> pystr result" where
  "take_utf16_suffix s maximum_units =
     rbind (take_utf16_prefix (rev s) maximum_units) (\<lambda>r. Inr (rev r))"

section \<open>The editor context\<close>

record editor_context =
  ctx_before :: pystr
  ctx_after :: pystr
  ctx_app_id :: pystr
  ctx_partial :: bool
  ctx_complete_region :: bool
  ctx_secure :: bool
  ctx_capture_hresult :: int

definition secure_context :: "pystr \<Rightarrow> int \<Rightarrow> editor_context" where
  "secure_context app_id capture_hresult =
     \<lparr>ctx_before = [], ctx_after = [], ctx_app_id = app_id, ctx_partial = True,
      ctx_complete_region = False, ctx_secure = True, ctx_capture_hresult = capture_hresult\<rparr>"

definition clipped :: "nat \<Rightarrow> nat \<Rightarrow> editor_context \<Rightarrow> editor_context result" where
  "clipped before_units after_units ctx =
     (if ctx_secure ctx then Inr (ctx\<lparr>ctx_before := [], ctx_after := []\<rparr>)
      else rbind (take_utf16_suffix (ctx_before ctx) (int before_units)) (\<lambda>b.
           rbind (take_utf16_prefix (ctx_after ctx) (int after_units)) (\<lambda>a.
             Inr (ctx\<lparr>ctx_before := b, ctx_after := a\<rparr>))))"

definition clipped_fast :: "editor_context \<Rightarrow> editor_context result" where
  "clipped_fast ctx = clipped FAST_BEFORE_UTF16 FAST_AFTER_UTF16 ctx"

definition clipped_idle :: "editor_context \<Rightarrow> editor_context result" where
  "clipped_idle ctx = clipped IDLE_BEFORE_UTF16 IDLE_AFTER_UTF16 ctx"

record context_metadata =
  md_app_id :: pystr
  md_before_utf16 :: nat
  md_after_utf16 :: nat
  md_partial :: bool
  md_complete_region :: bool
  md_secure :: bool
  md_capture_hresult :: int

definition metadata :: "editor_context \<Rightarrow> context_metadata result" where
  "metadata ctx =
     rbind (utf16_units (ctx_before ctx)) (\<lambda>b.
     rbind (utf16_units (ctx_after ctx)) (\<lambda>a.
       Inr \<lparr>md_app_id = ctx_app_id ctx, md_before_utf16 = b, md_after_utf16 = a,
            md_partial = ctx_partial ctx, md_complete_region = ctx_complete_region ctx,
            md_secure = ctx_secure ctx, md_capture_hresult = ctx_capture_hresult ctx\<rparr>))"

definition SECURE_INPUT_SCOPES :: "string set" where
  "SECURE_INPUT_SCOPES = {''IS_PASSWORD'', ''IS_PASSWORD_PIN'', ''IS_PIN_NUMERIC'', ''IS_PIN_ALPHANUMERIC''}"

definition is_secure_capture ::
  "unicode_db \<Rightarrow> string set \<Rightarrow> pystr \<Rightarrow> pystr set \<Rightarrow> bool \<Rightarrow> bool \<Rightarrow> bool" where
  "is_secure_capture db input_scopes app_id blacklisted_apps secure_desktop protected_field \<longleftrightarrow>
     secure_desktop \<or> protected_field
     \<or> casefold db app_id \<in> casefold db ` blacklisted_apps
     \<or> SECURE_INPUT_SCOPES \<inter> input_scopes \<noteq> {}"

section \<open>Clipping takes the longest fitting prefix\<close>

definition is_scalar :: "nat \<Rightarrow> bool" where
  "is_scalar c \<longleftrightarrow> c \<le> 0x10FFFF \<and> \<not> is_surrogate c"

abbreviation units :: "pystr \<Rightarrow> nat" where
  "units s \<equiv> length (concat (map utf16_char s))"

fun fit :: "nat \<Rightarrow> pystr \<Rightarrow> pystr" where
  "fit n [] = []"
| "fit n (c # cs) = (if length (utf16_char c) \<le> n then c # fit (n - length (utf16_char c)) cs else [])"

lemma scalar_cases:
  assumes "is_scalar c"
  obtains "c < 0x10000" "utf16_char c = [c]" "\<not> is_high c" "\<not> is_low c"
  | u v where "utf16_char c = [u, v]" "is_high u" "is_low v" "\<not> is_high v"
      "0x10000 + (u - 0xD800) * 0x400 + (v - 0xDC00) = c"
proof (cases "c < 0x10000")
  case True
  with assms show ?thesis
    by (intro that(1)) (auto simp: utf16_char_def is_scalar_def is_surrogate_def is_high_def is_low_def)
next
  case False
  define d where "d = c - 0x10000"
  have c: "c = d + 0x10000" and d: "d < 0x100000" using False assms by (auto simp: d_def is_scalar_def)
  have "d div 0x400 < 0x400" "d mod 0x400 < 0x400" using d by (simp_all add: div_less_iff_less_mult)
  moreover have "d div 0x400 * 0x400 + d mod 0x400 = d" by simp
  ultimately show ?thesis
    using False by (intro that(2) [of "0xD800 + d div 0x400" "0xDC00 + d mod 0x400"])
      (auto simp: utf16_char_def is_high_def is_low_def d_def)
qed

lemma decode_char: "is_scalar c \<Longrightarrow> utf16_decode (utf16_char c @ us) = rbind (utf16_decode us) (\<lambda>cs. Inr (c # cs))"
  by (erule scalar_cases) (auto simp: add.assoc)

lemma drop_tail_char: "is_scalar c \<Longrightarrow> drop_high_tail (utf16_char c @ us) = utf16_char c @ drop_high_tail us"
  by (erule scalar_cases) (auto simp: drop_high_tail_def butlast_append)

lemma clip_decode:
  assumes "list_all is_scalar s"
  shows "utf16_decode (drop_high_tail (take n (concat (map utf16_char s)))) = Inr (fit n s)"
  using assms
proof (induction s arbitrary: n)
  case Nil
  show ?case by (simp add: drop_high_tail_def)
next
  case (Cons c cs)
  then have c: "is_scalar c" and cs: "list_all is_scalar cs" by auto
  show ?case
  proof (cases "length (utf16_char c) \<le> n")
    case True
    with Cons.IH [OF cs, of "n - length (utf16_char c)"] c show ?thesis
      by (simp add: drop_tail_char decode_char)
  next
    case False
    have "drop_high_tail (take n (utf16_char c)) = []"
      using c by (rule scalar_cases)
        (use False in \<open>auto simp: drop_high_tail_def take_Cons split: nat.splits\<close>)
    with False show ?thesis by simp
  qed
qed

lemma encode_scalar: "list_all is_scalar s \<Longrightarrow> utf16_encode s = Inr (concat (map utf16_char s))"
  by (auto simp: utf16_encode_def list_all_iff list_ex_iff is_scalar_def)

lemma fit_prefix: "prefix (fit n s) s"
  by (induction n s rule: fit.induct) auto

lemma fit_units: "units (fit n s) \<le> n"
  by (induction n s rule: fit.induct) auto

lemma fit_longest: "prefix p s \<Longrightarrow> units p \<le> n \<Longrightarrow> prefix p (fit n s)"
proof (induction n s arbitrary: p rule: fit.induct)
  case (2 n c cs)
  then show ?case by (cases p) auto
qed simp

lemma take_prefix_fit:
  "list_all is_scalar s \<Longrightarrow> take_utf16_prefix s (int n) = Inr (fit n s)"
  by (simp add: take_utf16_prefix_def encode_scalar clip_decode)

lemma units_rev [simp]: "units (rev s) = units s"
  by (induction s) auto

lemma take_suffix_fit:
  "list_all is_scalar s \<Longrightarrow> take_utf16_suffix s (int n) = Inr (rev (fit n (rev s)))"
  by (simp add: take_utf16_suffix_def take_prefix_fit)

section \<open>Properties\<close>

text \<open>
  Claim C26. Clipping Unicode text to a number of UTF-16 units never fails and never splits a
  surrogate pair: it returns the longest prefix (for the text after the caret) and the longest suffix
  (for the text before it) that fit.
\<close>

theorem utf16_clip_longest:
  assumes "list_all is_scalar s"
  shows "\<exists>p q. take_utf16_prefix s (int n) = Inr p \<and> take_utf16_suffix s (int n) = Inr q
     \<and> prefix p s \<and> units p \<le> n \<and> (\<forall>r. prefix r s \<and> units r \<le> n \<longrightarrow> prefix r p)
     \<and> suffix q s \<and> units q \<le> n \<and> (\<forall>r. suffix r s \<and> units r \<le> n \<longrightarrow> suffix r q)"
proof (intro exI conjI allI impI)
  show "take_utf16_prefix s (int n) = Inr (fit n s)"
    and "take_utf16_suffix s (int n) = Inr (rev (fit n (rev s)))"
    using assms by (rule take_prefix_fit, rule take_suffix_fit)
  show "prefix (fit n s) s" by (rule fit_prefix)
  show "units (fit n s) \<le> n" by (rule fit_units)
  show "suffix (rev (fit n (rev s))) s" using fit_prefix [of n "rev s"] by (simp add: suffix_to_prefix)
  show "units (rev (fit n (rev s))) \<le> n" using fit_units [of n "rev s"] by simp
  fix r
  show "prefix r s \<and> units r \<le> n \<Longrightarrow> prefix r (fit n s)" by (auto intro: fit_longest)
  show "suffix r s \<and> units r \<le> n \<Longrightarrow> suffix r (rev (fit n (rev s)))"
    using fit_longest [of "rev r" "rev s" n] by (auto simp: suffix_to_prefix)
qed

theorem utf16_clip_longest_witness:
  "take_utf16_prefix [0x4E2D, 0x1F600, 0x61] 2 = Inr [0x4E2D]
   \<and> (\<exists>p q. take_utf16_prefix [0x4E2D, 0x1F600, 0x61] (int 2) = Inr p
        \<and> take_utf16_suffix [0x4E2D, 0x1F600, 0x61] (int 2) = Inr q \<and> units p \<le> 2 \<and> units q \<le> 2)"
proof -
  have "take_utf16_prefix [0x4E2D, 0x1F600, 0x61] 2 = Inr [0x4E2D]" by code_simp
  moreover have "list_all is_scalar [0x4E2D, 0x1F600, 0x61]" by code_simp
  ultimately show ?thesis using utf16_clip_longest [of "[0x4E2D, 0x1F600, 0x61]" 2] by blast
qed

text \<open>
  Claim C27. A clipped context keeps every field but the text, stays within its unit budgets, only
  ever removes text far from the caret, and carries no text at all when the field is secure.
\<close>

theorem clipped_within_budget:
  assumes "ctx_secure ctx \<or> (list_all is_scalar (ctx_before ctx) \<and> list_all is_scalar (ctx_after ctx))"
  shows "\<exists>f i. clipped_fast ctx = Inr f \<and> clipped_idle ctx = Inr i
     \<and> units (ctx_before f) \<le> 23552 \<and> units (ctx_after f) \<le> 4096
     \<and> units (ctx_before i) \<le> 32768 \<and> units (ctx_after i) \<le> 32768
     \<and> suffix (ctx_before f) (ctx_before ctx) \<and> prefix (ctx_after f) (ctx_after ctx)
     \<and> suffix (ctx_before i) (ctx_before ctx) \<and> prefix (ctx_after i) (ctx_after ctx)
     \<and> f\<lparr>ctx_before := ctx_before ctx, ctx_after := ctx_after ctx\<rparr> = ctx
     \<and> i\<lparr>ctx_before := ctx_before ctx, ctx_after := ctx_after ctx\<rparr> = ctx
     \<and> (ctx_secure ctx \<longrightarrow> ctx_before f = [] \<and> ctx_after f = [] \<and> ctx_before i = [] \<and> ctx_after i = [])"
proof -
  have one: "\<exists>c. clipped b a ctx = Inr c \<and> units (ctx_before c) \<le> b \<and> units (ctx_after c) \<le> a
     \<and> suffix (ctx_before c) (ctx_before ctx) \<and> prefix (ctx_after c) (ctx_after ctx)
     \<and> c\<lparr>ctx_before := ctx_before ctx, ctx_after := ctx_after ctx\<rparr> = ctx
     \<and> (ctx_secure ctx \<longrightarrow> ctx_before c = [] \<and> ctx_after c = [])" for b a
    using assms fit_prefix [of b "rev (ctx_before ctx)"] fit_prefix [of a "ctx_after ctx"]
      fit_units [of b "rev (ctx_before ctx)"] fit_units [of a "ctx_after ctx"]
    by (cases "ctx_secure ctx")
       (auto simp: clipped_def take_prefix_fit take_suffix_fit suffix_to_prefix)
  from one [of FAST_BEFORE_UTF16 FAST_AFTER_UTF16] one [of IDLE_BEFORE_UTF16 IDLE_AFTER_UTF16]
  show ?thesis
    by (simp add: clipped_fast_def clipped_idle_def FAST_BEFORE_UTF16_def FAST_AFTER_UTF16_def
        IDLE_BEFORE_UTF16_def IDLE_AFTER_UTF16_def) blast
qed

theorem clipped_within_budget_witness:
  "\<exists>f. clipped_fast (secure_context (asc ''bank.exe'') 0) = Inr f \<and> ctx_before f = [] \<and> ctx_after f = []"
proof -
  have "ctx_secure (secure_context (asc ''bank.exe'') 0)" by (simp add: secure_context_def)
  then show ?thesis using clipped_within_budget [of "secure_context (asc ''bank.exe'') 0"] by auto
qed

end
