(* ===== verification/Json.thy ===== *)
theory Json
  imports Editor_Context "HOL-Library.Word"
begin

text \<open>
  The part of Python's \<open>json\<close> and of its UTF-8 codec that the two wire protocols use:
  \<open>json.dumps(v, ensure_ascii=False, separators=(",", ":"), allow_nan=False)\<close>, \<open>json.loads\<close>, and
  strict UTF-8 encoding and decoding.  The conversions between a double and its shortest decimal
  text are the fields of a \<open>float_codec\<close>.  Python's recursion limit is not modelled; the limit of
  4300 digits on the conversion of integers is.
\<close>

section \<open>Values\<close>

datatype json = JNull | JBool bool | JInt int | JFloat pyfloat | JStr pystr
  | JList "json list" | JDict "(pystr \<times> json) list"

record float_codec =
  float_repr :: "real \<Rightarrow> pystr"
  float_of :: "pystr \<Rightarrow> pyfloat"

section \<open>Decimal text\<close>

definition is_dec_digit :: "nat \<Rightarrow> bool" where
  "is_dec_digit c \<longleftrightarrow> 48 \<le> c \<and> c \<le> 57"

fun dec :: "nat \<Rightarrow> pystr" where
  "dec n = (if n < 10 then [48 + n] else dec (n div 10) @ [48 + n mod 10])"

declare dec.simps [simp del]

fun undec :: "nat \<Rightarrow> pystr \<Rightarrow> nat" where
  "undec acc [] = acc"
| "undec acc (c # cs) = undec (acc * 10 + (c - 48)) cs"

definition MAX_INT_DIGITS :: nat where
  "MAX_INT_DIGITS = 4300"

definition int_text :: "int \<Rightarrow> pystr" where
  "int_text i = (if i < 0 then [45] else []) @ dec (nat \<bar>i\<bar>)"

section \<open>Writing\<close>

definition hex_digit :: "nat \<Rightarrow> nat" where
  "hex_digit d = (if d < 10 then 48 + d else 87 + d)"

definition escape_char :: "nat \<Rightarrow> pystr" where
  "escape_char c =
     (if c = 34 then [92, 34] else if c = 92 then [92, 92] else if c = 10 then [92, 110]
      else if c = 13 then [92, 114] else if c = 9 then [92, 116] else if c = 12 then [92, 102]
      else if c = 8 then [92, 98]
      else if c < 32 then [92, 117, 48, 48, hex_digit (c div 16), hex_digit (c mod 16)]
      else [c])"

definition string_text :: "pystr \<Rightarrow> pystr" where
  "string_text s = [34] @ concat (map escape_char s) @ [34]"

fun dumps :: "float_codec \<Rightarrow> json \<Rightarrow> pystr result"
  and dumps_items :: "float_codec \<Rightarrow> json list \<Rightarrow> pystr list result"
  and dumps_pairs :: "float_codec \<Rightarrow> (pystr \<times> json) list \<Rightarrow> pystr list result" where
  "dumps fc JNull = Inr (asc ''null'')"
| "dumps fc (JBool b) = Inr (if b then asc ''true'' else asc ''false'')"
| "dumps fc (JInt i) =
     (if length (dec (nat \<bar>i\<bar>)) > MAX_INT_DIGITS
      then Inl (ValueError ''Exceeds the limit for integer string conversion'')
      else Inr (int_text i))"
| "dumps fc (JFloat f) = (case f of Fin r \<Rightarrow> Inr (float_repr fc r)
     | _ \<Rightarrow> Inl (ValueError ''Out of range float values are not JSON compliant''))"
| "dumps fc (JStr s) = Inr (string_text s)"
| "dumps fc (JList vs) = rbind (dumps_items fc vs) (\<lambda>ts. Inr ([91] @ join [44] ts @ [93]))"
| "dumps fc (JDict kvs) = rbind (dumps_pairs fc kvs) (\<lambda>ts. Inr ([123] @ join [44] ts @ [125]))"
| "dumps_items fc [] = Inr []"
| "dumps_items fc (v # vs) =
     rbind (dumps fc v) (\<lambda>t. rbind (dumps_items fc vs) (\<lambda>ts. Inr (t # ts)))"
| "dumps_pairs fc [] = Inr []"
| "dumps_pairs fc ((k, v) # kvs) =
     rbind (dumps fc v) (\<lambda>t. rbind (dumps_pairs fc kvs) (\<lambda>ts. Inr ((string_text k @ [58] @ t) # ts)))"

section \<open>Reading\<close>

abbreviation json_error :: "'a result" where
  "json_error \<equiv> Inl (ValueError ''JSONDecodeError'')"

definition is_json_space :: "nat \<Rightarrow> bool" where
  "is_json_space c \<longleftrightarrow> c \<in> {32, 9, 10, 13}"

abbreviation skip_ws :: "pystr \<Rightarrow> pystr" where
  "skip_ws s \<equiv> dropWhile is_json_space s"

definition hex_value :: "nat \<Rightarrow> nat option" where
  "hex_value c = (if 48 \<le> c \<and> c \<le> 57 then Some (c - 48)
     else if 97 \<le> c \<and> c \<le> 102 then Some (c - 87)
     else if 65 \<le> c \<and> c \<le> 70 then Some (c - 55) else None)"

fun scan_u4 :: "pystr \<Rightarrow> (nat \<times> pystr) option" where
  "scan_u4 (a # b # c # d # s) =
     (case (hex_value a, hex_value b, hex_value c, hex_value d) of
        (Some w, Some x, Some y, Some z) \<Rightarrow> Some (((w * 16 + x) * 16 + y) * 16 + z, s)
      | _ \<Rightarrow> None)"
| "scan_u4 _ = None"

definition unescape :: "nat \<Rightarrow> nat option" where
  "unescape c = map_of [(34, 34), (92, 92), (47, 47), (98, 8), (102, 12), (110, 10), (114, 13), (116, 9)] c"

text \<open>A high surrogate escape joins with a low surrogate escape that follows at once.\<close>

definition scan_escape_u :: "pystr \<Rightarrow> (nat \<times> pystr) option" where
  "scan_escape_u s = (case scan_u4 s of
       None \<Rightarrow> None
     | Some (u, r) \<Rightarrow>
         if is_high u \<and> take 2 r = [92, 117] then
           (case scan_u4 (drop 2 r) of
              Some (v, r2) \<Rightarrow> if is_low v then Some (0x10000 + (u - 0xD800) * 0x400 + (v - 0xDC00), r2)
                              else Some (u, r)
            | None \<Rightarrow> None)
         else Some (u, r))"

fun scan_string :: "nat \<Rightarrow> pystr \<Rightarrow> pystr \<Rightarrow> (pystr \<times> pystr) result" where
  "scan_string 0 acc s = json_error"
| "scan_string (Suc n) acc txt = (case txt of [] \<Rightarrow> json_error | c # s \<Rightarrow>
      if c = 34 then Inr (acc, s)
      else if c = 92 then
        (case s of [] \<Rightarrow> json_error
         | e # r \<Rightarrow>
             if e = 117 then (case scan_escape_u r of None \<Rightarrow> json_error
                              | Some (u, r2) \<Rightarrow> scan_string n (acc @ [u]) r2)
             else (case unescape e of None \<Rightarrow> json_error | Some u \<Rightarrow> scan_string n (acc @ [u]) r))
      else if c < 32 then json_error
      else scan_string n (acc @ [c]) s)"

text \<open>The number pattern of the scanner: sign, integer part, fraction, exponent, remaining text.\<close>

definition scan_int_part :: "pystr \<Rightarrow> (pystr \<times> pystr) option" where
  "scan_int_part s = (case s of [] \<Rightarrow> None
     | c # r \<Rightarrow> if c = 48 then Some ([48], r)
                else if is_dec_digit c then Some (takeWhile is_dec_digit s, dropWhile is_dec_digit s)
                else None)"

definition scan_frac :: "pystr \<Rightarrow> pystr \<times> pystr" where
  "scan_frac s = (case s of c # r \<Rightarrow>
       if c = 46 \<and> takeWhile is_dec_digit r \<noteq> []
       then (46 # takeWhile is_dec_digit r, dropWhile is_dec_digit r) else ([], s)
     | [] \<Rightarrow> ([], []))"

definition scan_sign :: "pystr \<Rightarrow> pystr \<times> pystr" where
  "scan_sign s = (case s of c # r \<Rightarrow> if c = 43 \<or> c = 45 then ([c], r) else ([], s) | [] \<Rightarrow> ([], []))"

definition scan_exp :: "pystr \<Rightarrow> pystr \<times> pystr" where
  "scan_exp s = (case s of c # r \<Rightarrow>
       let (sg, r2) = scan_sign r in
       if (c = 101 \<or> c = 69) \<and> takeWhile is_dec_digit r2 \<noteq> []
       then (c # sg @ takeWhile is_dec_digit r2, dropWhile is_dec_digit r2) else ([], s)
     | [] \<Rightarrow> ([], []))"

definition number_parts :: "pystr \<Rightarrow> (pystr \<times> pystr \<times> pystr \<times> pystr \<times> pystr) option" where
  "number_parts s =
     (let (sg, s1) = (case s of c # r \<Rightarrow> if c = 45 then ([45], r) else ([], s) | [] \<Rightarrow> ([], []))
      in case scan_int_part s1 of None \<Rightarrow> None
         | Some (ip, s2) \<Rightarrow> let (fr, s3) = scan_frac s2; (ex, s4) = scan_exp s3
                            in Some (sg, ip, fr, ex, s4))"

definition scan_number :: "float_codec \<Rightarrow> pystr \<Rightarrow> (json \<times> pystr) result" where
  "scan_number fc s = (case number_parts s of None \<Rightarrow> json_error
     | Some (sg, ip, fr, ex, rest) \<Rightarrow>
         if fr = [] \<and> ex = [] then
           (if length ip > MAX_INT_DIGITS
            then Inl (ValueError ''Exceeds the limit for integer string conversion'')
            else Inr (JInt (if sg = [] then int (undec 0 ip) else - int (undec 0 ip)), rest))
         else Inr (JFloat (float_of fc (sg @ ip @ fr @ ex)), rest))"

definition keyword :: "pystr \<Rightarrow> (json \<times> pystr) option" where
  "keyword s =
     (if take 4 s = asc ''null'' then Some (JNull, drop 4 s)
      else if take 4 s = asc ''true'' then Some (JBool True, drop 4 s)
      else if take 5 s = asc ''false'' then Some (JBool False, drop 5 s)
      else if take 3 s = asc ''NaN'' then Some (JFloat NaN, drop 3 s)
      else if take 8 s = asc ''Infinity'' then Some (JFloat PInf, drop 8 s)
      else if take 9 s = asc ''-Infinity'' then Some (JFloat NInf, drop 9 s)
      else None)"

fun scan_value :: "float_codec \<Rightarrow> nat \<Rightarrow> pystr \<Rightarrow> (json \<times> pystr) result"
  and scan_items :: "float_codec \<Rightarrow> nat \<Rightarrow> json list \<Rightarrow> pystr \<Rightarrow> (json \<times> pystr) result"
  and scan_pairs :: "float_codec \<Rightarrow> nat \<Rightarrow> (pystr \<times> json) list \<Rightarrow> pystr \<Rightarrow> (json \<times> pystr) result" where
  "scan_value fc 0 s = json_error"
| "scan_value fc (Suc n) s = (case s of
       [] \<Rightarrow> json_error
     | c # r \<Rightarrow>
         if c = 34 then rbind (scan_string (Suc (length r)) [] r) (\<lambda>(t, r2). Inr (JStr t, r2))
         else if c = 123 then
           (case skip_ws r of d # r2 \<Rightarrow> if d = 125 then Inr (JDict [], r2) else scan_pairs fc n [] (d # r2)
            | [] \<Rightarrow> json_error)
         else if c = 91 then
           (case skip_ws r of d # r2 \<Rightarrow> if d = 93 then Inr (JList [], r2) else scan_items fc n [] (d # r2)
            | [] \<Rightarrow> json_error)
         else case keyword s of Some v \<Rightarrow> Inr v | None \<Rightarrow> scan_number fc s)"
| "scan_items fc 0 acc s = json_error"
| "scan_items fc (Suc n) acc s =
     rbind (scan_value fc n s) (\<lambda>(v, r).
       case skip_ws r of
         [] \<Rightarrow> json_error
       | d # r2 \<Rightarrow> if d = 93 then Inr (JList (acc @ [v]), r2)
                   else if d = 44 then scan_items fc n (acc @ [v]) (skip_ws r2)
                   else json_error)"
| "scan_pairs fc 0 acc s = json_error"
| "scan_pairs fc (Suc n) acc s = (case s of
       [] \<Rightarrow> json_error
     | q # r \<Rightarrow>
         if q \<noteq> 34 then json_error
         else rbind (scan_string (Suc (length r)) [] r) (\<lambda>(k, r2).
           case skip_ws r2 of
             [] \<Rightarrow> json_error
           | e # r3 \<Rightarrow>
               if e \<noteq> 58 then json_error
               else rbind (scan_value fc n (skip_ws r3)) (\<lambda>(v, r4).
                 case skip_ws r4 of
                   [] \<Rightarrow> json_error
                 | d # r5 \<Rightarrow> if d = 125 then Inr (JDict (od_set k v acc), r5)
                             else if d = 44 then scan_pairs fc n (od_set k v acc) (skip_ws r5)
                             else json_error)))"

definition loads :: "float_codec \<Rightarrow> pystr \<Rightarrow> json result" where
  "loads fc s = rbind (scan_value fc (Suc (2 * length s)) (skip_ws s))
     (\<lambda>(v, r). if skip_ws r = [] then Inr v else json_error)"

section \<open>Reading what was written\<close>

text \<open>
  A double is written faithfully when its text is a JSON number with a fraction or an exponent and
  converts back; the keys of a Python dictionary are distinct; strings hold code points.
\<close>

definition code_points :: "pystr \<Rightarrow> bool" where
  "code_points s = list_all (\<lambda>c. c \<le> 0x10FFFF) s"

definition float_ok :: "float_codec \<Rightarrow> real \<Rightarrow> bool" where
  "float_ok fc r \<longleftrightarrow> float_of fc (float_repr fc r) = Fin r \<and> code_points (float_repr fc r)
     \<and> (case number_parts (float_repr fc r) of None \<Rightarrow> False
        | Some (sg, ip, fr, ex, rest) \<Rightarrow> rest = [] \<and> (fr \<noteq> [] \<or> ex \<noteq> []))"

fun json_ok :: "float_codec \<Rightarrow> json \<Rightarrow> bool" where
  "json_ok fc (JFloat (Fin r)) = float_ok fc r"
| "json_ok fc (JList vs) = list_all (json_ok fc) vs"
| "json_ok fc (JDict kvs) = (od_ok kvs \<and> list_all (\<lambda>(k, v). code_points k \<and> json_ok fc v) kvs)"
| "json_ok fc (JStr s) = code_points s"
| "json_ok fc v = True"

definition ends_value :: "pystr \<Rightarrow> bool" where
  "ends_value rest \<longleftrightarrow> rest = [] \<or> hd rest \<in> {44, 93, 125}"

lemma is_dec_digit_offset [simp]: "is_dec_digit (48 + d) \<longleftrightarrow> d < 10"
  by (auto simp: is_dec_digit_def)

lemma dec_digits: "list_all is_dec_digit (dec n)"
proof (induction n rule: dec.induct)
  case (1 n)
  then show ?case by (subst dec.simps) simp
qed

lemma dec_not_Nil [simp]: "dec n \<noteq> []"
  by (subst dec.simps) simp

lemma hd_dec: "0 < n \<Longrightarrow> hd (dec n) \<noteq> 48"
proof (induction n rule: dec.induct)
  case (1 n)
  then show ?case by (subst dec.simps) (auto simp: hd_append)
qed

lemma undec_snoc: "undec acc (xs @ [c]) = undec acc xs * 10 + (c - 48)"
  by (induction xs arbitrary: acc) auto

lemma undec_dec [simp]: "undec 0 (dec n) = n"
proof (induction n rule: dec.induct)
  case (1 n)
  then show ?case by (subst dec.simps) (auto simp: undec_snoc)
qed

lemma span_digits:
  assumes "list_all is_dec_digit ds" "rest = [] \<or> \<not> is_dec_digit (hd rest)"
  shows "takeWhile is_dec_digit (ds @ rest) = ds \<and> dropWhile is_dec_digit (ds @ rest) = rest"
  using assms by (cases rest) (auto simp: list_all_iff takeWhile_append dropWhile_append3)

lemma ends_value_head:
  assumes "ends_value rest"
  shows "rest = [] \<or> \<not> is_dec_digit (hd rest)" "scan_frac rest = ([], rest)" "scan_exp rest = ([], rest)"
  using assms by (auto simp: ends_value_def is_dec_digit_def scan_frac_def scan_exp_def scan_sign_def
      split: list.splits)

lemma int_part_dec: "ends_value rest \<Longrightarrow> scan_int_part (dec n @ rest) = Some (dec n, rest)"
proof (cases "n = 0")
  case True
  then show ?thesis by (simp add: scan_int_part_def dec.simps [of 0])
next
  case False
  assume rest: "ends_value rest"
  obtain d ds where d: "dec n = d # ds" by (cases "dec n") auto
  then have "d \<noteq> 48" "is_dec_digit d" using hd_dec [of n] dec_digits [of n] False by auto
  with d span_digits [OF dec_digits ends_value_head(1) [OF rest], of n]
  show ?thesis by (simp add: scan_int_part_def)
qed

lemma scan_int_text:
  assumes "ends_value rest" "length (dec (nat \<bar>i\<bar>)) \<le> MAX_INT_DIGITS"
  shows "scan_number fc (int_text i @ rest) = Inr (JInt i, rest)"
proof -
  obtain d ds where d: "dec (nat \<bar>i\<bar>) = d # ds" by (cases "dec (nat \<bar>i\<bar>)") auto
  then have "d \<noteq> 45" using dec_digits [of "nat \<bar>i\<bar>"] by (auto simp: is_dec_digit_def)
  with d int_part_dec [OF assms(1), of "nat \<bar>i\<bar>"]
  have "number_parts (int_text i @ rest)
    = Some (if i < 0 then [45] else [], dec (nat \<bar>i\<bar>), [], [], rest)"
    by (simp add: number_parts_def int_text_def ends_value_head [OF assms(1)])
  with assms(2) undec_dec [of "nat \<bar>i\<bar>"] show ?thesis by (auto simp: scan_number_def)
qed

lemma span_append:
  assumes "rest = [] \<or> \<not> is_dec_digit (hd rest)"
  shows "takeWhile is_dec_digit (s @ rest) = takeWhile is_dec_digit s
       \<and> dropWhile is_dec_digit (s @ rest) = dropWhile is_dec_digit s @ rest"
  using assms by (induction s) (cases rest, auto)+

lemma scan_int_part_append:
  assumes "ends_value rest" "scan_int_part s = Some (ip, r)"
  shows "scan_int_part (s @ rest) = Some (ip, r @ rest)"
proof (cases s)
  case (Cons c t)
  with assms(2) span_append [OF ends_value_head(1) [OF assms(1)], of s] show ?thesis
    by (simp add: scan_int_part_def split: if_splits)
qed (use assms in \<open>simp add: scan_int_part_def\<close>)

lemma scan_frac_append:
  assumes "ends_value rest" "scan_frac s = (fr, r)"
  shows "scan_frac (s @ rest) = (fr, r @ rest)"
proof (cases s)
  case Nil
  with assms ends_value_head(2) [OF assms(1)] show ?thesis by (simp add: scan_frac_def)
next
  case (Cons c t)
  with assms(2) span_append [OF ends_value_head(1) [OF assms(1)], of t] show ?thesis
    by (auto simp: scan_frac_def split: if_splits)
qed

lemma scan_sign_append:
  assumes "ends_value rest" "scan_sign s = (sg, r)"
  shows "scan_sign (s @ rest) = (sg, r @ rest)"
proof (cases s)
  case Nil
  with assms show ?thesis by (cases rest) (auto simp: scan_sign_def ends_value_def)
qed (use assms in \<open>auto simp: scan_sign_def split: if_splits\<close>)

lemma scan_exp_append:
  assumes "ends_value rest" "scan_exp s = (ex, r)"
  shows "scan_exp (s @ rest) = (ex, r @ rest)"
proof (cases s)
  case Nil
  with assms ends_value_head(3) [OF assms(1)] show ?thesis by (simp add: scan_exp_def)
next
  case (Cons c s2)
  obtain sg r2 where sg: "scan_sign s2 = (sg, r2)" by (cases "scan_sign s2")
  note sg2 = scan_sign_append [OF assms(1) sg]
  from sg sg2 assms Cons span_append [OF ends_value_head(1) [OF assms(1)], of r2] show ?thesis
    by (auto simp: scan_exp_def split: if_splits)
qed

lemma number_parts_append:
  assumes "ends_value rest" "number_parts s = Some (sg, ip, fr, ex, r)"
  shows "number_parts (s @ rest) = Some (sg, ip, fr, ex, r @ rest)"
proof -
  let ?sign = "\<lambda>s. case s of c # r \<Rightarrow> if c = 45 then ([45], r) else ([], s) | [] \<Rightarrow> ([], [] :: pystr)"
  obtain s1 where s1: "?sign s = (sg, s1)" using assms(2)
    by (auto simp: number_parts_def split: option.splits prod.splits)
  with assms(2) obtain s2 s3 where ip: "scan_int_part s1 = Some (ip, s2)"
    and fr: "scan_frac s2 = (fr, s3)" and ex: "scan_exp s3 = (ex, r)"
    by (auto simp: number_parts_def split: option.splits prod.splits)
  from ip have "s1 \<noteq> []" by (auto simp: scan_int_part_def)
  with s1 have "?sign (s @ rest) = (sg, s1 @ rest)" by (auto split: list.splits if_splits)
  then show ?thesis
    using scan_int_part_append [OF assms(1) ip] scan_frac_append [OF assms(1) fr]
      scan_exp_append [OF assms(1) ex]
    by (simp add: number_parts_def)
qed

lemma scan_int_part_concat: "scan_int_part s = Some (ip, r) \<Longrightarrow> s = ip @ r"
  by (cases s) (auto simp: scan_int_part_def split: if_splits)

lemma scan_frac_concat: "scan_frac s = (fr, r) \<Longrightarrow> s = fr @ r"
  by (cases s) (auto simp: scan_frac_def split: if_splits)

lemma scan_sign_concat: "scan_sign s = (sg, r) \<Longrightarrow> s = sg @ r"
  by (cases s) (auto simp: scan_sign_def split: if_splits)

lemma scan_exp_concat: "scan_exp s = (ex, r) \<Longrightarrow> s = ex @ r"
  using scan_sign_concat by (cases s) (fastforce simp: scan_exp_def split: if_splits prod.splits)+

lemma number_parts_concat:
  assumes "number_parts s = Some (sg, ip, fr, ex, r)"
  shows "s = sg @ ip @ fr @ ex @ r"
proof -
  let ?sign = "case s of c # r \<Rightarrow> if c = 45 then ([45], r) else ([], s) | [] \<Rightarrow> ([], [])"
  obtain s1 where s1: "?sign = (sg, s1)" using assms
    by (auto simp: number_parts_def split: option.splits prod.splits)
  with assms obtain s2 s3 where "scan_int_part s1 = Some (ip, s2)" "scan_frac s2 = (fr, s3)"
    "scan_exp s3 = (ex, r)"
    by (auto simp: number_parts_def split: option.splits prod.splits)
  then have "s1 = ip @ fr @ ex @ r"
    using scan_int_part_concat scan_frac_concat scan_exp_concat by fastforce
  moreover have "s = sg @ s1" using s1 by (auto split: list.splits if_splits)
  ultimately show ?thesis by simp
qed

lemma number_first:
  "number_parts s = Some p \<Longrightarrow> s \<noteq> [] \<and> (hd s = 45 \<and> tl s \<noteq> [] \<and> is_dec_digit (hd (tl s)) \<or> is_dec_digit (hd s))"
  by (cases s) (auto simp: number_parts_def scan_int_part_def is_dec_digit_def
      split: option.splits prod.splits list.splits if_splits)

lemma scan_float_text:
  assumes "ends_value rest" "float_ok fc r"
  shows "scan_number fc (float_repr fc r @ rest) = Inr (JFloat (Fin r), rest)"
  using assms number_parts_append [OF assms(1)] number_parts_concat
  by (fastforce simp: float_ok_def scan_number_def split: option.splits)

text \<open>The scanner tells a number, a string, a list and a dictionary apart by their first character.\<close>

lemma keyword_texts:
  "asc ''null'' = [110, 117, 108, 108]" "asc ''true'' = [116, 114, 117, 101]"
  "asc ''false'' = [102, 97, 108, 115, 101]" "asc ''NaN'' = [78, 97, 78]"
  "asc ''Infinity'' = [73, 110, 102, 105, 110, 105, 116, 121]"
  "asc ''-Infinity'' = [45, 73, 110, 102, 105, 110, 105, 116, 121]"
  by code_simp+

lemma keyword_None:
  assumes "c \<notin> {110, 116, 102, 78, 73}" "c = 45 \<Longrightarrow> \<exists>d u. t = d # u \<and> d \<noteq> 73"
  shows "keyword (c # t) = None"
proof -
  have "take 9 (c # t) \<noteq> 45 # 73 # xs" for xs
    using assms(2) by (auto simp: take_Cons')
  with assms(1) show ?thesis by (simp add: keyword_def keyword_texts)
qed

lemma scan_value_number:
  assumes "number_parts s = Some p"
  shows "scan_value fc (Suc n) (s @ rest) = scan_number fc (s @ rest)"
proof -
  obtain c t where s: "s = c # t" using number_first [OF assms] by (cases s) auto
  have c: "c = 45 \<and> t \<noteq> [] \<and> is_dec_digit (hd t) \<or> is_dec_digit c" using number_first [OF assms] s by simp
  have "keyword (c # t @ rest) = None"
    by (rule keyword_None) (use c in \<open>cases t; auto simp: is_dec_digit_def\<close>)+
  then show ?thesis using s c by (auto simp: is_dec_digit_def)
qed

lemma number_parts_int: "\<exists>p. number_parts (int_text i) = Some p"
proof -
  have "ends_value []" by (simp add: ends_value_def)
  obtain d ds where d: "dec (nat \<bar>i\<bar>) = d # ds" by (cases "dec (nat \<bar>i\<bar>)") auto
  then have "d \<noteq> 45" using dec_digits [of "nat \<bar>i\<bar>"] by (auto simp: is_dec_digit_def)
  with d int_part_dec [OF \<open>ends_value []\<close>, of "nat \<bar>i\<bar>"]
  show ?thesis by (auto simp: number_parts_def int_text_def split: prod.splits)
qed

lemma hex_value_digit: "d < 16 \<Longrightarrow> hex_value (hex_digit d) = Some d"
  by (auto simp: hex_value_def hex_digit_def)

lemma scan_escaped:
  "scan_string (Suc n) acc (escape_char c @ r) = (scan_string n (acc @ [c]) r)"
proof (cases "c < 32 \<and> c \<notin> {8, 9, 10, 12, 13}")
  case True
  then have "escape_char c = [92, 117, 48, 48, hex_digit (c div 16), hex_digit (c mod 16)]"
    by (auto simp: escape_char_def)
  moreover have "scan_u4 (48 # 48 # hex_digit (c div 16) # hex_digit (c mod 16) # r) = Some (c, r)"
    using True hex_value_digit [of "c div 16"] less_mult_imp_div_less [of c 16 16] hex_value_digit [of "c mod 16"] hex_value_digit [of 0]
    by (auto simp: hex_digit_def [of 0])
  ultimately show ?thesis using True by (simp add: scan_escape_u_def is_high_def)
next
  case False
  then show ?thesis by (auto simp: escape_char_def unescape_def)
qed

lemma scan_string_text:
  "length s \<le> n \<Longrightarrow> scan_string (Suc n) acc (concat (map escape_char s) @ 34 # rest) = Inr (acc @ s, rest)"
proof (induction s arbitrary: acc n)
  case (Cons c s)
  then obtain m where "n = Suc m" "length s \<le> m" by (cases n) auto
  with Cons.IH [of m "acc @ [c]"] show ?case by (simp del: scan_string.simps add: scan_escaped)
qed simp

lemma length_escape_char: "1 \<le> length (escape_char c)"
  by (simp add: escape_char_def)

lemma length_escaped: "length s \<le> length (concat (map escape_char s))"
proof (induction s)
  case (Cons c s)
  with length_escape_char [of c] show ?case by simp
qed simp

lemma scan_quoted:
  "length (concat (map escape_char s)) \<le> n
     \<Longrightarrow> scan_string (Suc n) [] (concat (map escape_char s) @ 34 # rest) = Inr (s, rest)"
  using scan_string_text [of s n "[]"] length_escaped [of s] by simp

declare scan_string.simps [simp del]

definition plain_start :: "pystr \<Rightarrow> bool" where
  "plain_start t \<longleftrightarrow> (\<exists>c u. t = c # u \<and> \<not> is_json_space c \<and> c \<notin> {93, 125, 44, 58})"

lemma plain_start_skip: "plain_start t \<Longrightarrow> skip_ws (t @ r) = t @ r"
  by (auto simp: plain_start_def)

lemma dumps_plain_start:
  assumes "dumps fc v = Inr t" "json_ok fc v"
  shows "plain_start t"
proof -
  have num: "plain_start s" if "number_parts s = Some p" for s p
    using number_first [OF that] by (cases s) (auto simp: plain_start_def is_dec_digit_def is_json_space_def)
  show ?thesis
  proof (cases v)
    case (JInt i)
    with assms number_parts_int [of i] num show ?thesis by (auto split: if_splits)
  next
    case (JFloat f)
    with assms num show ?thesis by (cases f) (auto simp: float_ok_def split: option.splits)
  qed (use assms in \<open>auto simp: plain_start_def is_json_space_def keyword_texts string_text_def result_splits
         split: if_splits\<close>)
qed

definition reads_back :: "float_codec \<Rightarrow> json \<Rightarrow> bool" where
  "reads_back fc v \<longleftrightarrow> (\<forall>t rest n. dumps fc v = Inr t \<longrightarrow> ends_value rest \<longrightarrow> 2 * length t \<le> n
     \<longrightarrow> scan_value fc n (t @ rest) = Inr (v, rest) \<and> plain_start t)"

lemma reads_backD:
  "reads_back fc v \<Longrightarrow> dumps fc v = Inr t \<Longrightarrow> ends_value rest \<Longrightarrow> 2 * length t \<le> n
     \<Longrightarrow> scan_value fc n (t @ rest) = Inr (v, rest)"
  "reads_back fc v \<Longrightarrow> dumps fc v = Inr t \<Longrightarrow> plain_start t"
  by (auto simp: reads_back_def ends_value_def)

lemma reads_backI:
  assumes "json_ok fc v"
    and "\<And>t rest m. dumps fc v = Inr t \<Longrightarrow> ends_value rest \<Longrightarrow> scan_value fc (Suc m) (t @ rest) = Inr (v, rest)"
  shows "reads_back fc v"
  unfolding reads_back_def
proof (intro allI impI)
  fix t rest n
  assume t: "dumps fc v = Inr t" "ends_value rest" and n: "2 * length t \<le> n"
  have start: "plain_start t" using dumps_plain_start [OF t(1) assms(1)] .
  then have "t \<noteq> []" by (auto simp: plain_start_def)
  then obtain m where "n = Suc m" using n by (cases n) auto
  with assms(2) [OF t] start show "scan_value fc n (t @ rest) = Inr (v, rest) \<and> plain_start t" by simp
qed

lemma ends_value_sep [simp]: "ends_value (44 # r)" "ends_value (93 # r)" "ends_value (125 # r)" "ends_value []"
  by (simp_all add: ends_value_def)

lemma not_json_space [simp]:
  "\<not> is_json_space 44" "\<not> is_json_space 93" "\<not> is_json_space 125" "\<not> is_json_space 58" "\<not> is_json_space 34"
  by (simp_all add: is_json_space_def)

lemma join_plain_start: "plain_start t \<Longrightarrow> plain_start (join sep (t # ts))"
  by (cases ts) (auto simp: plain_start_def)

lemma scan_items_back:
  assumes "\<forall>v \<in> set vs. reads_back fc v" "vs \<noteq> []" "dumps_items fc vs = Inr ts"
    and "2 * length (join [44] ts) + 3 \<le> n"
  shows "scan_items fc n acc (join [44] ts @ 93 # rest) = Inr (JList (acc @ vs), rest)
       \<and> plain_start (join [44] ts)"
  using assms
proof (induction vs arbitrary: ts n acc)
  case (Cons v vs)
  from Cons.prems obtain t us where t: "dumps fc v = Inr t" and us: "dumps_items fc vs = Inr us"
    and ts: "ts = t # us" by (auto simp: result_splits)
  obtain m where n: "n = Suc m" using Cons.prems(4) by (cases n) auto
  have v: "reads_back fc v" using Cons.prems by simp
  note start = join_plain_start [OF reads_backD(2) [OF v t], of "[44]" us]
  show ?case
  proof (cases vs)
    case Nil
    with us have "us = []" by simp
    with Nil ts n Cons.prems(4) start reads_backD(1) [OF v t, of "93 # rest" m] show ?thesis by simp
  next
    case (Cons w ws)
    with us obtain u us' where u: "us = u # us'" by (auto simp: result_splits)
    have IH: "scan_items fc m (acc @ [v]) (join [44] us @ 93 # rest) = Inr (JList ((acc @ [v]) @ vs), rest)
        \<and> plain_start (join [44] us)"
      using Cons Cons.prems ts n u us by (intro Cons.IH) auto
    with reads_backD(1) [OF v t, of "44 # join [44] us @ 93 # rest" m] Cons.prems(4) ts n u start
    show ?thesis by (simp add: plain_start_skip)
  qed
qed simp

lemma od_set_new: "k \<notin> fst ` set d \<Longrightarrow> od_set k v d = d @ [(k, v)]"
  by (induction d) auto

lemma scan_pairs_back:
  assumes "\<forall>(k, v) \<in> set kvs. reads_back fc v" "kvs \<noteq> []" "dumps_pairs fc kvs = Inr ts"
    and "2 * length (join [44] ts) + 3 \<le> n" "distinct (map fst (acc @ kvs))"
  shows "scan_pairs fc n acc (join [44] ts @ 125 # rest) = Inr (JDict (acc @ kvs), rest)
       \<and> plain_start (join [44] ts)"
  using assms
proof (induction kvs arbitrary: ts n acc)
  case (Cons kv kvs)
  obtain k v where kv: "kv = (k, v)" by (cases kv)
  with Cons.prems obtain t us where t: "dumps fc v = Inr t" and us: "dumps_pairs fc kvs = Inr us"
    and ts: "ts = (string_text k @ [58] @ t) # us" by (auto simp: result_splits)
  obtain m where n: "n = Suc m" using Cons.prems(4) by (cases n) auto
  have v: "reads_back fc v" using Cons.prems kv by simp
  have new: "od_set k v acc = acc @ [(k, v)]" using Cons.prems(5) kv by (intro od_set_new) auto
  have "plain_start (string_text k @ [58] @ t)"
    by (simp add: string_text_def plain_start_def is_json_space_def)
  note start = join_plain_start [OF this, of "[44]" us] and tstart = plain_start_skip [OF reads_backD(2) [OF v t]]
  show ?case
  proof (cases kvs)
    case Nil
    with us have "us = []" by simp
    with Nil ts n kv Cons.prems(4) start new tstart reads_backD(1) [OF v t, of "125 # rest" m]
    show ?thesis by (simp add: string_text_def scan_quoted)
  next
    case (Cons w ws)
    with us obtain u us' where u: "us = u # us'" by (cases w) (auto simp: result_splits)
    have IH: "scan_pairs fc m (acc @ [(k, v)]) (join [44] us @ 125 # rest)
          = Inr (JDict ((acc @ [(k, v)]) @ kvs), rest) \<and> plain_start (join [44] us)"
      using Cons Cons.prems ts n u us kv by (intro Cons.IH) auto
    with reads_backD(1) [OF v t, of "44 # join [44] us @ 125 # rest" m] Cons.prems(4) ts n u kv start new tstart
    show ?thesis by (simp add: string_text_def scan_quoted plain_start_skip)
  qed
qed simp

lemma json_reads_back: "json_ok fc v \<Longrightarrow> reads_back fc v"
proof (induction v)
  case (JList vs)
  then have vs: "\<forall>v \<in> set vs. reads_back fc v" by (simp add: list_all_iff)
  show ?case unfolding reads_back_def
  proof (intro allI impI)
    fix t rest n
    assume t: "dumps fc (JList vs) = Inr t" and n: "2 * length t \<le> n"
    from t obtain ts where ts: "dumps_items fc vs = Inr ts" "t = [91] @ join [44] ts @ [93]"
      by (auto simp: result_splits)
    then obtain m where m: "n = Suc m" "2 * length (join [44] ts) + 3 \<le> m" using n by (cases n) auto
    have start: "plain_start t" using ts by (simp add: plain_start_def is_json_space_def)
    show "scan_value fc n (t @ rest) = Inr (JList vs, rest) \<and> plain_start t"
    proof (cases "vs = []")
      case False
      from scan_items_back [OF vs False ts(1) m(2), of "[]" rest] ts m start show ?thesis
        by (auto simp: plain_start_def)
    qed (use ts m start in simp)
  qed
next
  case (JDict kvs)
  then have kvs: "\<forall>(k, v) \<in> set kvs. reads_back fc v" and "distinct (map fst kvs)"
    by (fastforce simp: list_all_iff od_ok_def)+
  show ?case unfolding reads_back_def
  proof (intro allI impI)
    fix t rest n
    assume t: "dumps fc (JDict kvs) = Inr t" and n: "2 * length t \<le> n"
    from t obtain ts where ts: "dumps_pairs fc kvs = Inr ts" "t = [123] @ join [44] ts @ [125]"
      by (auto simp: result_splits)
    then obtain m where m: "n = Suc m" "2 * length (join [44] ts) + 3 \<le> m" using n by (cases n) auto
    have start: "plain_start t" using ts by (simp add: plain_start_def is_json_space_def)
    show "scan_value fc n (t @ rest) = Inr (JDict kvs, rest) \<and> plain_start t"
    proof (cases "kvs = []")
      case False
      from scan_pairs_back [OF kvs False ts(1) m(2), of "[]" rest] ts m start \<open>distinct (map fst kvs)\<close>
      show ?thesis by (auto simp: plain_start_def)
    qed (use ts m start in simp)
  qed
next
  case (JInt i)
  from number_parts_int [of i] show ?case
    by (intro reads_backI) (auto simp del: scan_value.simps simp: scan_value_number scan_int_text split: if_splits)
next
  case (JFloat f)
  show ?case
  proof (rule reads_backI)
    fix t rest m
    assume "dumps fc (JFloat f) = Inr t" "ends_value rest"
    moreover from this JFloat obtain r where r: "f = Fin r" "float_ok fc r" "t = float_repr fc r"
      by (cases f) auto
    moreover from r obtain p where "number_parts t = Some p" by (auto simp: float_ok_def split: option.splits)
    ultimately show "scan_value fc (Suc m) (t @ rest) = Inr (JFloat f, rest)"
      by (simp del: scan_value.simps add: scan_value_number scan_float_text)
  qed (rule JFloat)
next
  case (JStr s)
  then show ?case by (intro reads_backI) (auto simp: string_text_def scan_quoted)
next
  case (JBool b)
  then show ?case by (intro reads_backI) (auto simp: keyword_def keyword_texts split: if_splits)
next
  case JNull
  then show ?case by (intro reads_backI) (auto simp: keyword_def keyword_texts)
qed

lemma loads_dumps:
  assumes "json_ok fc v" "dumps fc v = Inr t"
  shows "loads fc t = Inr v"
proof -
  note rb = json_reads_back [OF assms(1)]
  from reads_backD(1) [OF rb assms(2), of "[]" "Suc (2 * length t)"]
  have "scan_value fc (Suc (2 * length t)) t = Inr (v, [])" by (simp del: scan_value.simps)
  with plain_start_skip [OF reads_backD(2) [OF rb assms(2)], of "[]"] show ?thesis
    by (simp del: scan_value.simps add: loads_def)
qed

lemma code_points_simps [simp]:
  "code_points []" "code_points (c # s) \<longleftrightarrow> c \<le> 0x10FFFF \<and> code_points s"
  "code_points (s @ t) \<longleftrightarrow> code_points s \<and> code_points t"
  by (simp_all add: code_points_def)

lemma code_points_escaped: "code_points s \<Longrightarrow> code_points (concat (map escape_char s))"
  by (induction s) (auto simp: escape_char_def hex_digit_def)

lemma code_points_join: "code_points sep \<Longrightarrow> list_all code_points ts \<Longrightarrow> code_points (join sep ts)"
  by (induction sep ts rule: join.induct) auto

lemma code_points_dec: "code_points (dec n)"
  using dec_digits [of n] by (auto simp: code_points_def list_all_iff is_dec_digit_def)

lemma code_points_dumps:
  "dumps fc v = Inr t \<Longrightarrow> json_ok fc v \<Longrightarrow> code_points t"
  "dumps_items fc vs = Inr ts \<Longrightarrow> list_all (json_ok fc) vs \<Longrightarrow> list_all code_points ts"
  "dumps_pairs fc kvs = Inr ts \<Longrightarrow> list_all (\<lambda>(k, v). code_points k \<and> json_ok fc v) kvs \<Longrightarrow> list_all code_points ts"
proof (induction v and vs and kvs arbitrary: t and ts and ts rule: dumps_dumps_items_dumps_pairs.induct)
  case (3 fc i)
  then show ?case by (auto simp: int_text_def code_points_dec split: if_splits)
next
  case (4 fc f)
  then show ?case by (cases f) (auto simp: float_ok_def)
qed (auto simp: result_splits keyword_texts string_text_def code_points_escaped code_points_join split: if_splits)

section \<open>UTF-8\<close>

type_synonym bytes = "8 word list"

definition utf8_char :: "nat \<Rightarrow> nat list" where
  "utf8_char c =
     (if c < 0x80 then [c]
      else if c < 0x800 then [0xC0 + c div 0x40, 0x80 + c mod 0x40]
      else if c < 0x10000 then [0xE0 + c div 0x1000, 0x80 + c div 0x40 mod 0x40, 0x80 + c mod 0x40]
      else [0xF0 + c div 0x40000, 0x80 + c div 0x1000 mod 0x40, 0x80 + c div 0x40 mod 0x40, 0x80 + c mod 0x40])"

definition utf8_encode :: "pystr \<Rightarrow> bytes result" where
  "utf8_encode s = (if list_ex is_surrogate s then Inl UnicodeError
     else Inr (map word_of_nat (concat (map utf8_char s))))"

definition is_cont :: "nat \<Rightarrow> bool" where
  "is_cont b \<longleftrightarrow> 0x80 \<le> b \<and> b < 0xC0"

text \<open>Overlong forms, surrogates and values beyond U+10FFFF are rejected, as by the strict decoder.\<close>

fun utf8_units :: "nat list \<Rightarrow> pystr result" where
  "utf8_units [] = Inr []"
| "utf8_units (a # bs) =
     (if a < 0x80 then rbind (utf8_units bs) (\<lambda>cs. Inr (a # cs))
      else case bs of
        b # bs2 \<Rightarrow>
          if 0xC2 \<le> a \<and> a < 0xE0 \<and> is_cont b
          then rbind (utf8_units bs2) (\<lambda>cs. Inr (((a - 0xC0) * 0x40 + (b - 0x80)) # cs))
          else (case bs2 of
            c # bs3 \<Rightarrow>
              let u = ((a - 0xE0) * 0x40 + (b - 0x80)) * 0x40 + (c - 0x80) in
              if 0xE0 \<le> a \<and> a < 0xF0 \<and> is_cont b \<and> is_cont c \<and> 0x800 \<le> u \<and> \<not> is_surrogate u
              then rbind (utf8_units bs3) (\<lambda>cs. Inr (u # cs))
              else (case bs3 of
                d # bs4 \<Rightarrow>
                  let v = (((a - 0xF0) * 0x40 + (b - 0x80)) * 0x40 + (c - 0x80)) * 0x40 + (d - 0x80) in
                  if 0xF0 \<le> a \<and> a < 0xF5 \<and> is_cont b \<and> is_cont c \<and> is_cont d \<and> 0x10000 \<le> v \<and> v \<le> 0x10FFFF
                  then rbind (utf8_units bs4) (\<lambda>cs. Inr (v # cs))
                  else Inl UnicodeError
              | [] \<Rightarrow> Inl UnicodeError)
          | [] \<Rightarrow> Inl UnicodeError)
      | [] \<Rightarrow> Inl UnicodeError)"

definition utf8_decode :: "bytes \<Rightarrow> pystr result" where
  "utf8_decode bs = utf8_units (map unat bs)"

lemma utf8_units_char:
  assumes "is_scalar c"
  shows "utf8_units (utf8_char c @ bs) = rbind (utf8_units bs) (\<lambda>cs. Inr (c # cs))"
proof -
  consider "c < 0x80" | "0x80 \<le> c" "c < 0x800" | "0x800 \<le> c" "c < 0x10000" | "0x10000 \<le> c" by linarith
  then show ?thesis
  proof cases
    case 2
    then have "2 \<le> c div 0x40" "c div 0x40 < 0x20"
      by (simp_all add: div_less_iff_less_mult less_eq_div_iff_mult_less_eq)
    with 2 show ?thesis by (simp add: utf8_char_def is_cont_def)
  next
    case 3
    have "c div 0x1000 = c div 0x40 div 0x40" by (simp add: div_mult2_eq [symmetric])
    then have "(c div 0x1000 * 0x40 + c div 0x40 mod 0x40) * 0x40 + c mod 0x40 = c" by simp
    moreover have "c div 0x1000 < 0x10" using 3 by (simp add: less_mult_imp_div_less)
    ultimately show ?thesis using 3 assms by (simp add: utf8_char_def is_cont_def is_scalar_def Let_def)
  next
    case 4
    have "c div 0x1000 = c div 0x40 div 0x40" "c div 0x40000 = c div 0x1000 div 0x40"
      by (simp_all add: div_mult2_eq [symmetric])
    then have "((c div 0x40000 * 0x40 + c div 0x1000 mod 0x40) * 0x40 + c div 0x40 mod 0x40) * 0x40 + c mod 0x40 = c"
      by simp
    moreover have "c div 0x40000 < 5" using assms by (simp add: is_scalar_def less_mult_imp_div_less)
    ultimately show ?thesis using 4 assms by (simp add: utf8_char_def is_cont_def is_scalar_def Let_def)
  qed (simp add: utf8_char_def)
qed

lemma utf8_char_bytes: "is_scalar c \<Longrightarrow> b \<in> set (utf8_char c) \<Longrightarrow> b < 256"
proof -
  assume "is_scalar c" and b: "b \<in> set (utf8_char c)"
  then have "c \<le> 0x10FFFF" by (simp add: is_scalar_def)
  then have "c div 0x40000 < 5" "c < 0x10000 \<longrightarrow> c div 0x1000 < 0x10" "c < 0x800 \<longrightarrow> c div 0x40 < 0x20"
    by (simp_all add: div_less_iff_less_mult)
  moreover have "0x80 + m mod 0x40 < 256" for m :: nat
  proof -
    have "m mod 0x40 < 0x40" by simp
    then show ?thesis by linarith
  qed
  ultimately show "b < 256" using b by (auto simp: utf8_char_def split: if_splits)
qed

lemma utf8_decode_encode:
  assumes "list_all is_scalar s" "utf8_encode s = Inr bs"
  shows "utf8_decode bs = Inr s"
proof -
  have "map (\<lambda>b. unat (word_of_nat b :: 8 word)) (concat (map utf8_char s)) = concat (map utf8_char s)"
    using assms(1) by (intro map_idI) (auto simp: list_all_iff unat_of_nat intro!: mod_less utf8_char_bytes)
  moreover have "utf8_units (concat (map utf8_char s)) = Inr s"
    using assms(1) by (induction s) (simp_all del: utf8_units.simps(2) add: utf8_units_char)
  ultimately show ?thesis
    using assms(2) by (auto simp: utf8_encode_def utf8_decode_def comp_def split: if_splits)
qed

end
