(* ===== verification/Wire.thy ===== *)
theory Wire
  imports Json
begin

text \<open>
  The two byte protocols: the length-prefixed JSON frames of \<open>protocol.py\<close> and the QwenIME packet
  envelope of \<open>qwenime_compat/wire.py\<close>.  \<open>struct.pack\<close> of unsigned little-endian fields is
  \<open>le_bytes\<close>, \<open>struct.unpack_from\<close> is \<open>le_value\<close> on a slice.
\<close>

unbundle bit_operations_syntax

section \<open>Little-endian fields\<close>

fun le_bytes :: "nat \<Rightarrow> nat \<Rightarrow> bytes" where
  "le_bytes 0 v = []"
| "le_bytes (Suc n) v = word_of_nat (v mod 256) # le_bytes n (v div 256)"

fun le_value :: "bytes \<Rightarrow> nat" where
  "le_value [] = 0"
| "le_value (b # bs) = unat b + 256 * le_value bs"

definition slice :: "nat \<Rightarrow> nat \<Rightarrow> 'a list \<Rightarrow> 'a list" where
  "slice i n xs = take n (drop i xs)"

section \<open>Length-prefixed JSON\<close>

definition MAX_MESSAGE_BYTES :: nat where
  "MAX_MESSAGE_BYTES = 1048576"

definition encode_message :: "float_codec \<Rightarrow> (pystr \<times> json) list \<Rightarrow> bytes result" where
  "encode_message fc message =
     rbind (dumps fc (JDict message)) (\<lambda>t.
     rbind (utf8_encode t) (\<lambda>payload.
       if length payload > MAX_MESSAGE_BYTES then Inl (ProtocolError ''message is too large'')
       else Inr (le_bytes 4 (length payload) @ payload)))"

definition decode_message :: "float_codec \<Rightarrow> bytes \<Rightarrow> (pystr \<times> json) list result" where
  "decode_message fc frame =
     (if length frame < 4 then Inl (ProtocolError ''frame is shorter than the length prefix'')
      else let size = le_value (take 4 frame); payload = drop 4 frame in
        if size > MAX_MESSAGE_BYTES then Inl (ProtocolError ''declared message is too large'')
        else if length payload \<noteq> size then Inl (ProtocolError ''declared bytes but received'')
        else rbind (utf8_decode payload) (\<lambda>t.
             rbind (loads fc t) (\<lambda>v.
               case v of JDict d \<Rightarrow> Inr d
               | _ \<Rightarrow> Inl (ProtocolError ''top-level JSON value must be an object''))))"

section \<open>QwenIME packets\<close>

definition HEADER_MAGIC :: nat where "HEADER_MAGIC = 0x54554951"
definition TRAILER_MAGIC :: nat where "TRAILER_MAGIC = 0x45554951"
definition HEADER_VERSION :: nat where "HEADER_VERSION = 1"
definition HEADER_SIZE :: nat where "HEADER_SIZE = 16"
definition COMMAND_BLOCK_SIZE :: nat where "COMMAND_BLOCK_SIZE = 8"
definition MAX_PAYLOAD_BYTES :: nat where "MAX_PAYLOAD_BYTES = 0x500000"
definition RESPONSE_BIT :: int where "RESPONSE_BIT = 0x80000000"

record wire_packet =
  wp_wire_command :: int
  wp_command_id :: int
  wp_payload :: bytes
  wp_is_request :: bool
  wp_version :: nat
  wp_header_extension :: bytes

definition ascii_alnum :: "nat \<Rightarrow> bool" where
  "ascii_alnum u \<longleftrightarrow> (0x30 \<le> u \<and> u \<le> 0x39) \<or> (0x41 \<le> u \<and> u \<le> 0x5A) \<or> (0x61 \<le> u \<and> u \<le> 0x7A)"

text \<open>With \<open>surrogatepass\<close> a lone surrogate is encoded as itself.\<close>

definition sanitize_windows_username :: "pystr \<Rightarrow> pystr" where
  "sanitize_windows_username username =
     (let sanitized = map (\<lambda>u. if ascii_alnum u then u else 95) (concat (map utf16_char username))
      in if sanitized = [] then asc ''default'' else sanitized)"

definition pipe_name :: "pystr \<Rightarrow> pystr \<Rightarrow> pystr" where
  "pipe_name username sfx =
     [92, 92, 46, 92] @ asc ''pipe'' @ [92] @ asc ''QianwenIME_'' @ sanitize_windows_username username @ sfx"

definition windows_ipc_pipe_name :: "pystr \<Rightarrow> pystr" where
  "windows_ipc_pipe_name username = pipe_name username (asc ''_Pipe'')"

definition windows_control_pipe_name :: "pystr \<Rightarrow> pystr" where
  "windows_control_pipe_name username = pipe_name username (asc ''_ControlPipe'')"

definition windows_utility_pipe_name :: "pystr \<Rightarrow> pystr" where
  "windows_utility_pipe_name username = pipe_name username (asc ''_UtilityPipe'')"

definition require_uint32 :: "int \<Rightarrow> bool \<Rightarrow> int result" where
  "require_uint32 value allow_response_bit =
     (let maximum = (if allow_response_bit then 0xFFFFFFFF else RESPONSE_BIT - 1) in
      if 0 \<le> value \<and> value \<le> maximum then Inr value
      else Inl (QwenImeWireError ''must be an integer from 0 to maximum''))"

definition encode_wire_packet :: "int \<Rightarrow> int \<Rightarrow> bytes \<Rightarrow> bool \<Rightarrow> bytes result" where
  "encode_wire_packet wire_command command_id payload is_request =
     rbind (require_uint32 wire_command False) (\<lambda>normalized_wire_command.
     rbind (require_uint32 command_id True) (\<lambda>normalized_command_id.
       if length payload > MAX_PAYLOAD_BYTES then Inl (QwenImeWireError ''payload is too large'')
       else
         let encoded_wire_command =
               (if \<not> is_request then normalized_wire_command OR RESPONSE_BIT else normalized_wire_command);
             payload_bytes = length payload + COMMAND_BLOCK_SIZE
         in Inr (le_bytes 4 HEADER_MAGIC @ le_bytes 2 HEADER_VERSION @ le_bytes 2 HEADER_SIZE
                 @ le_bytes 4 (nat encoded_wire_command) @ le_bytes 4 payload_bytes
                 @ le_bytes 4 (nat normalized_command_id) @ le_bytes 4 (length payload)
                 @ payload @ le_bytes 4 TRAILER_MAGIC)))"

definition decode_wire_packet :: "bytes \<Rightarrow> wire_packet result" where
  "decode_wire_packet packet =
     (if length packet < HEADER_SIZE + COMMAND_BLOCK_SIZE + 4
      then Inl (QwenImeWireError ''packet size is too small'')
      else
        let magic = le_value (slice 0 4 packet); version = le_value (slice 4 2 packet);
            header_size = le_value (slice 6 2 packet);
            encoded_command = int (le_value (slice 8 4 packet));
            payload_bytes = le_value (slice 12 4 packet);
            expected_size = header_size + payload_bytes + 4
        in
        if magic \<noteq> HEADER_MAGIC then Inl (QwenImeWireError ''header magic is invalid'')
        else if version \<noteq> HEADER_VERSION then Inl (QwenImeWireError ''header version is unsupported'')
        else if header_size < HEADER_SIZE \<or> header_size > length packet
        then Inl (QwenImeWireError ''header size is invalid'')
        else if \<not> (COMMAND_BLOCK_SIZE \<le> payload_bytes \<and> payload_bytes \<le> MAX_PAYLOAD_BYTES + COMMAND_BLOCK_SIZE)
        then Inl (QwenImeWireError ''payload byte count is invalid'')
        else if length packet \<noteq> expected_size
        then Inl (QwenImeWireError ''packet size does not match its header'')
        else if le_value (slice (expected_size - 4) 4 packet) \<noteq> TRAILER_MAGIC
        then Inl (QwenImeWireError ''trailer magic is invalid'')
        else
          let command_id = le_value (slice header_size 4 packet);
              declared_payload_size = le_value (slice (header_size + 4) 4 packet);
              payload_start = header_size + COMMAND_BLOCK_SIZE
          in
          if declared_payload_size \<noteq> payload_bytes - COMMAND_BLOCK_SIZE
          then Inl (QwenImeWireError ''payload size does not match its command block'')
          else if declared_payload_size > MAX_PAYLOAD_BYTES
          then Inl (QwenImeWireError ''payload is too large'')
          else Inr \<lparr>wp_wire_command = encoded_command AND NOT RESPONSE_BIT,
                    wp_command_id = int command_id,
                    wp_payload = slice payload_start declared_payload_size packet,
                    wp_is_request = (encoded_command AND RESPONSE_BIT = 0),
                    wp_version = version,
                    wp_header_extension = slice HEADER_SIZE (header_size - HEADER_SIZE) packet\<rparr>)"

section \<open>Fields read back\<close>

lemma length_le_bytes [simp]: "length (le_bytes n v) = n"
  by (induction n arbitrary: v) auto

lemma le_value_bytes: "le_value (le_bytes n v) = v mod 256 ^ n"
proof (induction n arbitrary: v)
  case (Suc n)
  then show ?case by (simp add: unat_of_nat mod_mult2_eq)
qed simp

lemma le_bytes_value: "le_bytes (length bs) (le_value bs) = bs"
proof (induction bs)
  case (Cons b bs)
  have b: "unat b < 256" using unsigned_less [of b, where ?'a = nat] by simp
  then have "(unat b + 256 * le_value bs) div 256 = le_value bs" by simp
  moreover have "(unat b + 256 * le_value bs) mod 256 = unat b" using b by simp
  ultimately show ?case using Cons by simp
qed simp

lemma le_value_bound: "le_value bs < 256 ^ length bs"
proof (induction bs)
  case (Cons b bs)
  have "unat b < 256" using unsigned_less [of b, where ?'a = nat] by simp
  with Cons show ?case by simp
qed simp

lemma slice_append: "length us = i \<Longrightarrow> length vs = n \<Longrightarrow> slice i n (us @ vs @ ws) = vs"
  by (simp add: slice_def)

lemma slice_split: "i + n \<le> length xs \<Longrightarrow> drop i xs = slice i n xs @ drop (i + n) xs"
  by (simp add: slice_def add.commute [of i n] drop_drop [symmetric] del: drop_drop)

lemma length_slice [simp]: "i + n \<le> length xs \<Longrightarrow> length (slice i n xs) = n"
  by (simp add: slice_def)

lemma bit_response: "bit RESPONSE_BIT n \<longleftrightarrow> n = 31"
proof -
  have "bit (2 ^ 31 :: int) n \<longleftrightarrow> n = 31" by (subst bit_exp_iff) auto
  moreover have "RESPONSE_BIT = 2 ^ 31" by (simp add: RESPONSE_BIT_def)
  ultimately show ?thesis by metis
qed

lemma bit_small:
  fixes v :: int
  assumes "0 \<le> v" "v < 2 ^ m" "bit v n"
  shows "n < m"
proof -
  have "take_bit m v = v" using assms by (simp add: take_bit_int_eq_self)
  then show ?thesis using assms(3) by (metis bit_take_bit_iff)
qed

lemma response_flag:
  assumes "0 \<le> v" "v < RESPONSE_BIT"
  shows "v AND RESPONSE_BIT = 0" "v AND NOT RESPONSE_BIT = v"
    "(v OR RESPONSE_BIT) AND RESPONSE_BIT \<noteq> 0" "(v OR RESPONSE_BIT) AND NOT RESPONSE_BIT = v"
    "0 \<le> v OR RESPONSE_BIT" "v OR RESPONSE_BIT < 2 ^ 32"
proof -
  have v: "\<not> bit v 31" using bit_small [of v 31 31] assms by (auto simp: RESPONSE_BIT_def)
  show "v AND RESPONSE_BIT = 0" "v AND NOT RESPONSE_BIT = v" "(v OR RESPONSE_BIT) AND NOT RESPONSE_BIT = v"
    using v by (auto simp: bit_and_iff bit_or_iff bit_not_iff bit_response intro!: bit_eqI)
  have "bit ((v OR RESPONSE_BIT) AND RESPONSE_BIT) 31" by (simp add: bit_and_iff bit_or_iff bit_response)
  then show "(v OR RESPONSE_BIT) AND RESPONSE_BIT \<noteq> 0" by (metis bit_0_eq bot_apply bot_bool_def)
  show "0 \<le> v OR RESPONSE_BIT" using assms by (simp add: RESPONSE_BIT_def)
  show "v OR RESPONSE_BIT < 2 ^ 32"
    using assms by (intro OR_upper) (simp_all add: RESPONSE_BIT_def)
qed

lemma response_split:
  assumes "0 \<le> e" "e < 2 ^ 32"
  shows "0 \<le> e AND NOT RESPONSE_BIT" "e AND NOT RESPONSE_BIT < RESPONSE_BIT"
    and "e AND RESPONSE_BIT = 0 \<Longrightarrow> e AND NOT RESPONSE_BIT = e"
    and "e AND RESPONSE_BIT \<noteq> 0 \<Longrightarrow> (e AND NOT RESPONSE_BIT) OR RESPONSE_BIT = e"
proof -
  have small: "n < 32" if "bit e n" for n using bit_small [OF assms that] .
  show "0 \<le> e AND NOT RESPONSE_BIT" using assms by simp
  have "e AND NOT RESPONSE_BIT = take_bit 31 e"
  proof (rule bit_eqI)
    fix n
    show "bit (e AND NOT RESPONSE_BIT) n = bit (take_bit 31 e) n"
      using small [of n] by (cases "n = 31") (auto simp: bit_and_iff bit_not_iff bit_response bit_take_bit_iff)
  qed
  then show "e AND NOT RESPONSE_BIT < RESPONSE_BIT"
    using take_bit_int_less_exp [of 31 e] by (simp add: RESPONSE_BIT_def)
  have "bit (e AND RESPONSE_BIT) 31 \<longleftrightarrow> bit e 31" by (simp add: bit_and_iff bit_response)
  moreover have "e AND RESPONSE_BIT = 0" if "\<not> bit e 31"
    using that by (auto simp: bit_and_iff bit_response intro!: bit_eqI)
  ultimately have "e AND RESPONSE_BIT = 0 \<longleftrightarrow> \<not> bit e 31" by (metis bit_0_eq bot_apply bot_bool_def)
  then show "e AND RESPONSE_BIT = 0 \<Longrightarrow> e AND NOT RESPONSE_BIT = e"
    "e AND RESPONSE_BIT \<noteq> 0 \<Longrightarrow> (e AND NOT RESPONSE_BIT) OR RESPONSE_BIT = e"
    by (auto simp: bit_and_iff bit_or_iff bit_not_iff bit_response intro!: bit_eqI)
qed

lemmas wire_constants = HEADER_MAGIC_def TRAILER_MAGIC_def HEADER_VERSION_def HEADER_SIZE_def
  COMMAND_BLOCK_SIZE_def MAX_PAYLOAD_BYTES_def

text \<open>The layout of a packet without header extension, and what each slice of it holds.\<close>

definition wire_layout :: "nat \<Rightarrow> nat \<Rightarrow> bytes \<Rightarrow> bytes" where
  "wire_layout command cid payload =
     le_bytes 4 HEADER_MAGIC @ le_bytes 2 HEADER_VERSION @ le_bytes 2 HEADER_SIZE
     @ le_bytes 4 command @ le_bytes 4 (length payload + COMMAND_BLOCK_SIZE)
     @ le_bytes 4 cid @ le_bytes 4 (length payload) @ payload @ le_bytes 4 TRAILER_MAGIC"

lemma slice_drop: "length us \<le> i \<Longrightarrow> slice i n (us @ vs) = slice (i - length us) n vs"
  by (simp add: slice_def)

lemma slice_whole: "length vs = n \<Longrightarrow> slice 0 n (vs @ ws) = vs"
  by (simp add: slice_def)

lemma wire_layout_slices:
  "slice 0 4 (wire_layout c i p) = le_bytes 4 HEADER_MAGIC"
  "slice 4 2 (wire_layout c i p) = le_bytes 2 HEADER_VERSION"
  "slice 6 2 (wire_layout c i p) = le_bytes 2 HEADER_SIZE"
  "slice 8 4 (wire_layout c i p) = le_bytes 4 c"
  "slice 12 4 (wire_layout c i p) = le_bytes 4 (length p + COMMAND_BLOCK_SIZE)"
  "slice 16 4 (wire_layout c i p) = le_bytes 4 i"
  "slice 20 4 (wire_layout c i p) = le_bytes 4 (length p)"
  "slice 24 (length p) (wire_layout c i p) = p"
  "slice (24 + length p) 4 (wire_layout c i p) = le_bytes 4 TRAILER_MAGIC"
  by (simp_all add: wire_layout_def slice_drop slice_whole slice_whole [of _ _ "[]", simplified])

lemma length_wire_layout [simp]: "length (wire_layout c i p) = 28 + length p"
  by (simp add: wire_layout_def)

lemma encode_layout:
  "encode_wire_packet cmd cid payload req = Inr pkt \<longleftrightarrow>
     0 \<le> cmd \<and> cmd < RESPONSE_BIT \<and> 0 \<le> cid \<and> cid < 2 ^ 32 \<and> length payload \<le> MAX_PAYLOAD_BYTES
     \<and> pkt = wire_layout (nat (if req then cmd else cmd OR RESPONSE_BIT)) (nat cid) payload"
  by (auto simp: encode_wire_packet_def wire_layout_def require_uint32_def result_splits Let_def)

lemma decode_layout:
  assumes "c < 2 ^ 32" "i < 2 ^ 32" "length p \<le> MAX_PAYLOAD_BYTES"
  shows "decode_wire_packet (wire_layout c i p) = Inr \<lparr>wp_wire_command = int c AND NOT RESPONSE_BIT,
      wp_command_id = int i, wp_payload = p, wp_is_request = (int c AND RESPONSE_BIT = 0),
      wp_version = HEADER_VERSION, wp_header_extension = []\<rparr>"
  using assms
  by (simp add: decode_wire_packet_def Let_def wire_constants wire_layout_slices [unfolded wire_constants]
      le_value_bytes) (simp add: slice_def)

fun pieces :: "nat \<Rightarrow> nat list \<Rightarrow> 'a list \<Rightarrow> 'a list list" where
  "pieces i [] xs = []"
| "pieces i (n # ns) xs = slice i n xs # pieces (i + n) ns xs"

lemma concat_pieces: "i + sum_list ns = length xs \<Longrightarrow> concat (pieces i ns xs) = drop i xs"
proof (induction ns arbitrary: i)
  case (Cons n ns)
  then show ?case using slice_split [of i n xs] by (simp add: add.assoc)
qed simp

lemma le_bytes_slice: "i + n \<le> length xs \<Longrightarrow> le_bytes n (le_value (slice i n xs)) = slice i n xs"
  using le_bytes_value [of "slice i n xs"] by simp

lemma decode_fields:
  assumes "decode_wire_packet pkt = Inr w" "wp_header_extension w = []"
  shows "\<exists>c < 2 ^ 32. \<exists>i < 2 ^ 32. \<exists>p. pkt = wire_layout c i p \<and> length p \<le> MAX_PAYLOAD_BYTES"
proof -
  let ?h = "le_value (slice 6 2 pkt)"
  let ?b = "le_value (slice 12 4 pkt)"
  have dec: "28 \<le> length pkt" "le_value (slice 0 4 pkt) = HEADER_MAGIC"
    "le_value (slice 4 2 pkt) = HEADER_VERSION" "16 \<le> ?h" "?h \<le> length pkt" "8 \<le> ?b"
    "length pkt = ?h + ?b + 4" "le_value (slice (?h + ?b) 4 pkt) = TRAILER_MAGIC"
    "le_value (slice (?h + 4) 4 pkt) = ?b - 8" "?b - 8 \<le> MAX_PAYLOAD_BYTES"
    "slice 16 (?h - 16) pkt = []"
    using assms by (auto simp: decode_wire_packet_def Let_def HEADER_SIZE_def COMMAND_BLOCK_SIZE_def
        not_less split: if_splits)
  from dec(4,5,11) have h: "?h = 16" by (auto simp: slice_def dest: arg_cong [of _ _ length])
  define p where "p = slice 24 (?b - 8) pkt"
  have lp: "length p = ?b - 8" using dec h by (simp add: p_def)
  have size: "length pkt = 28 + length p" using dec(6,7) h lp by simp
  have p: "slice 24 (length p) pkt = p" unfolding lp by (simp add: p_def)
  let ?ns = "[4, 2, 2, 4, 4, 4, 4, length p, 4]"
  have "concat (pieces 0 ?ns pkt) = drop 0 pkt" by (rule concat_pieces) (simp add: size)
  then have "pkt = concat (pieces 0 ?ns pkt)" by simp
  also have "\<dots> = slice 0 4 pkt @ slice 4 2 pkt @ slice 6 2 pkt @ slice 8 4 pkt @ slice 12 4 pkt
      @ slice 16 4 pkt @ slice 20 4 pkt @ p @ slice (24 + length p) 4 pkt"
    using p by simp
  also have "\<dots> = wire_layout (le_value (slice 8 4 pkt)) (le_value (slice 16 4 pkt)) p"
    using size dec h lp le_bytes_slice [of 0 4 pkt] le_bytes_slice [of 4 2 pkt] le_bytes_slice [of 6 2 pkt]
      le_bytes_slice [of 8 4 pkt] le_bytes_slice [of 12 4 pkt] le_bytes_slice [of 16 4 pkt]
      le_bytes_slice [of 20 4 pkt] le_bytes_slice [of "24 + length p" 4 pkt]
    by (simp add: wire_layout_def HEADER_SIZE_def COMMAND_BLOCK_SIZE_def del: le_bytes.simps)
  finally have "pkt = wire_layout (le_value (slice 8 4 pkt)) (le_value (slice 16 4 pkt)) p" .
  moreover have "le_value (slice i 4 pkt) < 2 ^ 32" if "i + 4 \<le> length pkt" for i
    using le_value_bound [of "slice i 4 pkt"] that by simp
  ultimately show ?thesis using dec lp size by (intro exI [of _ "le_value _"] exI [of _ p] conjI) auto
qed

lemma decode_frame_size:
  assumes "decode_message fc frame = Inr m"
  shows "4 \<le> length frame \<and> length frame = 4 + le_value (take 4 frame)"
  using assms by (auto simp: decode_message_def Let_def not_less split: if_splits)

section \<open>Properties\<close>

text \<open>
  Claim C16. A message that encodes at all is read back unchanged, whatever JSON it nests; and frames
  are self-delimiting: a truncated frame and a frame with trailing bytes are both refused.
\<close>

theorem frame_roundtrip:
  assumes "json_ok fc (JDict message)" "encode_message fc message = Inr frame"
  shows "decode_message fc frame = Inr message \<and> length frame \<le> MAX_MESSAGE_BYTES + 4
     \<and> (\<forall>k < length frame. \<forall>m. decode_message fc (take k frame) \<noteq> Inr m)
     \<and> (\<forall>x m. x \<noteq> [] \<longrightarrow> decode_message fc (frame @ x) \<noteq> Inr m)"
proof -
  from assms(2) obtain t payload where t: "dumps fc (JDict message) = Inr t"
    and payload: "utf8_encode t = Inr payload" "length payload \<le> MAX_MESSAGE_BYTES"
    and frame: "frame = le_bytes 4 (length payload) @ payload"
    by (auto simp: encode_message_def result_splits simp del: dumps.simps split: if_splits)
  have size: "le_value (le_bytes 4 (length payload)) = length payload"
    using payload(2) by (simp add: le_value_bytes MAX_MESSAGE_BYTES_def del: le_bytes.simps)
  have "list_all is_scalar t"
    using code_points_dumps(1) [OF t assms(1)] payload(1)
    by (auto simp: is_scalar_def code_points_def utf8_encode_def list_all_iff list_ex_iff split: if_splits)
  with utf8_decode_encode payload(1) have "utf8_decode payload = Inr t" by blast
  with loads_dumps [OF assms(1) t] have ok: "decode_message fc frame = Inr message"
    using frame size payload(2) by (simp add: decode_message_def Let_def del: le_bytes.simps)
  have "decode_message fc (take k frame) \<noteq> Inr m" if "k < length frame" for k m
    using decode_frame_size [of fc "take k frame" m] decode_frame_size [OF ok] that by auto
  moreover have "decode_message fc (frame @ x) \<noteq> Inr m" if "x \<noteq> []" for x m
    using decode_frame_size [of fc "frame @ x" m] decode_frame_size [OF ok] that by auto
  ultimately show ?thesis using ok frame payload(2) by simp
qed

definition demo_floats :: float_codec where
  "demo_floats = \<lparr>float_repr = (\<lambda>r. asc ''0.5''), float_of = (\<lambda>t. Fin (1 / 2))\<rparr>"

definition demo_message :: "(pystr \<times> json) list" where
  "demo_message = [(asc ''type'', JStr [0x4F60, 10, 0x1F600]), (asc ''limit'', JInt (- 12)),
     (asc ''score'', JFloat (Fin (1 / 2))), (asc ''items'', JList [JNull, JBool True, JDict []])]"

definition demo_frame :: bytes where
  "demo_frame = projr (encode_message demo_floats demo_message)"

theorem frame_roundtrip_witness:
  "encode_message demo_floats demo_message = Inr demo_frame
   \<and> decode_message demo_floats demo_frame = Inr demo_message"
proof -
  have ok: "json_ok demo_floats (JDict demo_message)" by code_simp
  have "\<not> isl (encode_message demo_floats demo_message)" by code_simp
  then have enc: "encode_message demo_floats demo_message = Inr demo_frame"
    by (auto simp: demo_frame_def isl_def split: sum.splits)
  from frame_roundtrip [OF ok enc] enc show ?thesis by blast
qed

text \<open>
  Claim C31. The packet envelope is a bijection between the fields it accepts and the packets without
  header extension: encoding is defined exactly on the representable fields, and a packet decodes to
  some fields exactly when those fields encode to that packet.
\<close>

theorem wire_packet_bijection:
  "(encode_wire_packet cmd cid payload req = Inr pkt \<longleftrightarrow>
     decode_wire_packet pkt = Inr \<lparr>wp_wire_command = cmd, wp_command_id = cid, wp_payload = payload,
       wp_is_request = req, wp_version = HEADER_VERSION, wp_header_extension = []\<rparr>)
   \<and> ((\<exists>p. encode_wire_packet cmd cid payload req = Inr p) \<longleftrightarrow>
        0 \<le> cmd \<and> cmd < 2 ^ 31 \<and> 0 \<le> cid \<and> cid < 2 ^ 32 \<and> length payload \<le> 0x500000)"
  (is "(?enc \<longleftrightarrow> ?dec) \<and> _")
proof (intro conjI iffI)
  assume ?enc
  then have f: "0 \<le> cmd" "cmd < RESPONSE_BIT" "0 \<le> cid" "cid < 2 ^ 32" "length payload \<le> MAX_PAYLOAD_BYTES"
    and pkt: "pkt = wire_layout (nat (if req then cmd else cmd OR RESPONSE_BIT)) (nat cid) payload"
    by (auto simp: encode_layout)
  have c: "nat (if req then cmd else cmd OR RESPONSE_BIT) < 2 ^ 32"
    using f response_flag(6) [OF f(1,2)] by (auto simp: RESPONSE_BIT_def nat_less_iff)
  have "nat cid < 2 ^ 32" using f by (simp add: nat_less_iff)
  from decode_layout [OF c this f(5)] f response_flag [OF f(1,2)] show ?dec by (simp add: pkt)
next
  assume ?dec
  then obtain c i p where l: "c < 2 ^ 32" "i < 2 ^ 32" "pkt = wire_layout c i p" "length p \<le> MAX_PAYLOAD_BYTES"
    using decode_fields [OF \<open>?dec\<close>] by auto
  from decode_layout [OF l(1,2,4)] \<open>?dec\<close> l(3)
  have "cmd = int c AND NOT RESPONSE_BIT" "cid = int i" "payload = p" "req = (int c AND RESPONSE_BIT = 0)"
    by simp_all
  then show ?enc using l response_split [of "int c"] by (auto simp: encode_layout)
qed (auto simp: encode_layout RESPONSE_BIT_def MAX_PAYLOAD_BYTES_def)

end
