(* ===== verification/Qwen_Bridge.thy ===== *)
theory Qwen_Bridge
  imports Wire
begin

text \<open>
  The QwenIME adapter: the normalised request and response model of \<open>qwenime_compat/protocol.py\<close>
  and the session core of \<open>qwenime_compat/bridge_core.py\<close>.  The candidate engine is duck-typed
  there; here it is an \<open>engine_api\<close> over an arbitrary engine state, whose optional methods may be
  missing and whose calls may raise.
\<close>

section \<open>Requests and responses\<close>

definition MAX_JSON_BYTES :: nat where "MAX_JSON_BYTES = 1048576"
definition MAX_SESSION_ID :: nat where "MAX_SESSION_ID = 128"
definition MAX_RAW_INPUT :: nat where "MAX_RAW_INPUT = 512"
definition MAX_CANDIDATES :: int where "MAX_CANDIDATES = 50"
definition MAX_COMMIT_TEXT :: nat where "MAX_COMMIT_TEXT = 32768"

datatype request_kind = START_SESSION | END_SESSION | FOCUS_IN | FOCUS_OUT | UPDATE_INPUT_POSITION
  | PROCESS_KEY | CANDIDATE_ACTION | DRAIN_CANDIDATE_ACTION_RESULT | CANCEL_COMPOSITION

fun kind_value :: "request_kind \<Rightarrow> string" where
  "kind_value START_SESSION = ''start_session''"
| "kind_value END_SESSION = ''end_session''"
| "kind_value FOCUS_IN = ''focus_in''"
| "kind_value FOCUS_OUT = ''focus_out''"
| "kind_value UPDATE_INPUT_POSITION = ''update_input_position''"
| "kind_value PROCESS_KEY = ''process_key''"
| "kind_value CANDIDATE_ACTION = ''candidate_action''"
| "kind_value DRAIN_CANDIDATE_ACTION_RESULT = ''drain_candidate_action_result''"
| "kind_value CANCEL_COMPOSITION = ''cancel_composition''"

definition all_kinds :: "request_kind list" where
  "all_kinds = [START_SESSION, END_SESSION, FOCUS_IN, FOCUS_OUT, UPDATE_INPUT_POSITION, PROCESS_KEY,
     CANDIDATE_ACTION, DRAIN_CANDIDATE_ACTION_RESULT, CANCEL_COMPOSITION]"

definition kind_of :: "pystr \<Rightarrow> request_kind option" where
  "kind_of s = find (\<lambda>k. asc (kind_value k) = s) all_kinds"

record normalized_request =
  rq_kind :: request_kind
  rq_session_id :: "pystr option"
  rq_key :: "pystr option"
  rq_candidate_index :: "nat option"
  rq_candidate_action :: "pystr option"
  rq_before :: pystr
  rq_after :: pystr
  rq_candidate_count :: int
  rq_secure :: bool
  rq_extras :: "(pystr \<times> json) list"

record candidate_view =
  cv_text :: pystr
  cv_candidate_id :: pystr
  cv_label :: pystr
  cv_comment :: pystr

record composition_view =
  cp_raw_input :: pystr
  cp_preedit :: pystr
  cp_candidates :: "candidate_view list"
  cp_selected_index :: int

definition has_preedit :: "composition_view \<Rightarrow> bool" where
  "has_preedit c \<longleftrightarrow> cp_preedit c \<noteq> [] \<or> cp_raw_input c \<noteq> []"

definition empty_composition :: composition_view where
  "empty_composition = \<lparr>cp_raw_input = [], cp_preedit = [], cp_candidates = [], cp_selected_index = 0\<rparr>"

record normalized_response =
  rs_function :: string
  rs_ok :: bool
  rs_handled :: bool
  rs_session_id :: "pystr option"
  rs_composition :: composition_view
  rs_commit :: pystr
  rs_error_code :: "string option"

definition candidate_dict :: "candidate_view \<Rightarrow> json" where
  "candidate_dict c = JDict [(asc ''text'', JStr (cv_text c)), (asc ''candidate_id'', JStr (cv_candidate_id c)),
     (asc ''label'', JStr (cv_label c)), (asc ''comment'', JStr (cv_comment c))]"

definition to_dict :: "normalized_response \<Rightarrow> (pystr \<times> json) list" where
  "to_dict r =
     (let c = rs_composition r; candidates = map candidate_dict (cp_candidates c) in
      [(asc ''function'', JStr (asc (rs_function r))), (asc ''ok'', JBool (rs_ok r)),
       (asc ''handled'', JBool (rs_handled r)),
       (asc ''session_id'', case rs_session_id r of None \<Rightarrow> JNull | Some s \<Rightarrow> JStr s),
       (asc ''has_preedit'', JBool (has_preedit c)), (asc ''preedit'', JStr (cp_preedit c)),
       (asc ''raw_input'', JStr (cp_raw_input c)), (asc ''commit'', JStr (rs_commit r)),
       (asc ''candidate_count'', JInt (int (length candidates))), (asc ''candidates'', JList candidates),
       (asc ''selected_index'', JInt (cp_selected_index c))]
      @ (case rs_error_code r of None \<Rightarrow> [] | Some e \<Rightarrow> [(asc ''error_code'', JStr (asc e))]))"

definition optional_text :: "(pystr \<times> json) list \<Rightarrow> string \<Rightarrow> nat \<Rightarrow> pystr option result" where
  "optional_text message key maximum = (case map_of message (asc key) of
       None \<Rightarrow> Inr None
     | Some JNull \<Rightarrow> Inr None
     | Some (JStr s) \<Rightarrow> if length s > maximum then Inl (QwenImeProtocolError ''must be a string'') else Inr (Some s)
     | Some _ \<Rightarrow> Inl (QwenImeProtocolError ''must be a string''))"

definition optional_index :: "(pystr \<times> json) list \<Rightarrow> string \<Rightarrow> nat option result" where
  "optional_index message key = (case map_of message (asc key) of
       None \<Rightarrow> Inr None
     | Some JNull \<Rightarrow> Inr None
     | Some (JInt i) \<Rightarrow> if i < 0 then Inl (QwenImeProtocolError ''must be a non-negative integer'') else Inr (Some (nat i))
     | Some _ \<Rightarrow> Inl (QwenImeProtocolError ''must be a non-negative integer''))"

definition optional_bool :: "(pystr \<times> json) list \<Rightarrow> string \<Rightarrow> bool \<Rightarrow> bool result" where
  "optional_bool message key dflt = (case map_of message (asc key) of
       None \<Rightarrow> Inr dflt
     | Some (JBool b) \<Rightarrow> Inr b
     | Some _ \<Rightarrow> Inl (QwenImeProtocolError ''must be a boolean''))"

definition or_empty :: "pystr option \<Rightarrow> pystr" where
  "or_empty x = (case x of None \<Rightarrow> [] | Some s \<Rightarrow> s)"

definition known_fields :: "string list" where
  "known_fields = [''function'', ''type'', ''session_id'', ''key'', ''candidate_index'', ''candidate_action'',
     ''before'', ''after'', ''candidate_count'', ''secure'']"

definition candidate_count_field :: "(pystr \<times> json) list \<Rightarrow> int result" where
  "candidate_count_field message = (case map_of message (asc ''candidate_count'') of
       None \<Rightarrow> Inr 9
     | Some (JInt i) \<Rightarrow> if 1 \<le> i \<and> i \<le> MAX_CANDIDATES then Inr i
                        else Inl (QwenImeProtocolError ''candidate_count must be an integer from 1 to 50'')
     | Some _ \<Rightarrow> Inl (QwenImeProtocolError ''candidate_count must be an integer from 1 to 50''))"

definition parse_normalized_request :: "(pystr \<times> json) list \<Rightarrow> normalized_request result" where
  "parse_normalized_request message =
     (case (case map_of message (asc ''function'') of Some v \<Rightarrow> Some v | None \<Rightarrow> map_of message (asc ''type'')) of
        Some (JStr function) \<Rightarrow>
          (case kind_of function of
             None \<Rightarrow> Inl (QwenImeProtocolError ''unsupported function'')
           | Some kind \<Rightarrow>
               rbind (optional_text message ''session_id'' MAX_SESSION_ID) (\<lambda>session_id.
               rbind (optional_text message ''key'' 32) (\<lambda>key.
               rbind (optional_text message ''before'' MAX_COMMIT_TEXT) (\<lambda>before.
               rbind (optional_text message ''after'' MAX_COMMIT_TEXT) (\<lambda>after.
               rbind (optional_index message ''candidate_index'') (\<lambda>candidate_index.
               rbind (optional_text message ''candidate_action'' 64) (\<lambda>candidate_action.
               rbind (optional_bool message ''secure'' False) (\<lambda>secure.
               rbind (candidate_count_field message) (\<lambda>count.
                 Inr \<lparr>rq_kind = kind, rq_session_id = session_id, rq_key = key,
                      rq_candidate_index = candidate_index, rq_candidate_action = candidate_action,
                      rq_before = or_empty before, rq_after = or_empty after, rq_candidate_count = count,
                      rq_secure = secure,
                      rq_extras = filter (\<lambda>(k, v). k \<notin> asc ` set known_fields) message\<rparr>)))))))))
      | _ \<Rightarrow> Inl (QwenImeProtocolError ''function must be a string''))"

definition parse_json_payload :: "float_codec \<Rightarrow> bytes \<Rightarrow> normalized_request result" where
  "parse_json_payload fc payload =
     (if length payload > MAX_JSON_BYTES then Inl (QwenImeProtocolError ''JSON payload is too large'')
      else case rbind (utf8_decode payload) (loads fc) of
        Inl e \<Rightarrow> (if e = UnicodeError \<or> e = ValueError ''JSONDecodeError''
                  then Inl (QwenImeProtocolError ''invalid UTF-8 JSON payload'') else Inl e)
      | Inr (JDict d) \<Rightarrow> parse_normalized_request d
      | Inr _ \<Rightarrow> Inl (QwenImeProtocolError ''top-level JSON value must be an object''))"

definition serialize_json_payload :: "float_codec \<Rightarrow> normalized_response \<Rightarrow> bytes result" where
  "serialize_json_payload fc response =
     rbind (dumps fc (JDict (to_dict response))) (\<lambda>t.
     rbind (utf8_encode t) (\<lambda>payload.
       if length payload > MAX_JSON_BYTES then Inl (QwenImeProtocolError ''JSON payload is too large'')
       else Inr payload))"

section \<open>The engine behind the bridge\<close>

datatype engine_value = AttrValue "(pystr \<times> json) list" | DictValue "(pystr \<times> json) list"

record 'e engine_api =
  api_query :: "pystr \<Rightarrow> int \<Rightarrow> int \<Rightarrow> 'e \<Rightarrow> engine_value list result \<times> 'e"
  api_request_context_update :: "(pystr \<Rightarrow> pystr \<Rightarrow> 'e \<Rightarrow> json result \<times> 'e) option"
  api_reset_private_context :: "('e \<Rightarrow> unit result \<times> 'e) option"
  api_clear_history :: "('e \<Rightarrow> unit result \<times> 'e) option"
  api_commit :: "(pystr \<Rightarrow> 'e \<Rightarrow> unit result \<times> 'e) option"

section \<open>Sessions\<close>

record session =
  se_raw_input :: pystr
  se_candidates :: "candidate_view list"
  se_selected_index :: int
  se_context_epoch :: int
  se_secure :: bool

record 'e bridge =
  br_sessions :: "(pystr, session) odict"
  br_engine :: 'e

definition clear_session :: "session \<Rightarrow> session" where
  "clear_session s = s\<lparr>se_raw_input := [], se_candidates := [], se_selected_index := 0\<rparr>"

definition selected_text :: "session \<Rightarrow> pystr option" where
  "selected_text s =
     (if 0 \<le> se_selected_index s \<and> se_selected_index s < int (length (se_candidates s))
      then Some (cv_text (se_candidates s ! nat (se_selected_index s))) else None)"

definition make_response ::
  "normalized_request \<Rightarrow> session \<Rightarrow> bool \<Rightarrow> bool \<Rightarrow> pystr \<Rightarrow> string option \<Rightarrow> normalized_response" where
  "make_response rq s ok handled commit error_code =
     \<lparr>rs_function = kind_value (rq_kind rq), rs_ok = ok, rs_handled = handled,
      rs_session_id = rq_session_id rq,
      rs_composition = \<lparr>cp_raw_input = se_raw_input s, cp_preedit = se_raw_input s,
                        cp_candidates = se_candidates s, cp_selected_index = se_selected_index s\<rparr>,
      rs_commit = commit, rs_error_code = error_code\<rparr>"

definition call_quietly :: "('e \<Rightarrow> unit result \<times> 'e) option \<Rightarrow> 'e \<Rightarrow> bool \<times> 'e" where
  "call_quietly m e = (case m of None \<Rightarrow> (True, e)
     | Some f \<Rightarrow> (case f e of (Inl _, e') \<Rightarrow> (False, e') | (Inr _, e') \<Rightarrow> (True, e')))"

definition enter_secure_mode :: "'e engine_api \<Rightarrow> session \<Rightarrow> 'e \<Rightarrow> bool \<times> session \<times> 'e" where
  "enter_secure_mode api s e =
     (let s = (clear_session s)\<lparr>se_context_epoch := 0\<rparr>;
          (ok1, e) = call_quietly (api_reset_private_context api) e;
          (ok2, e) = call_quietly (api_clear_history api) e
      in (ok1 \<and> ok2, s, e))"

definition refresh_context ::
  "'e engine_api \<Rightarrow> normalized_request \<Rightarrow> bool \<Rightarrow> session \<Rightarrow> 'e \<Rightarrow> session \<times> 'e" where
  "refresh_context api rq force s e =
     (if \<not> force \<and> rq_before rq = [] \<and> rq_after rq = [] then (s, e)
      else case api_request_context_update api of
        None \<Rightarrow> (s, e)
      | Some update \<Rightarrow>
          (case update (rq_before rq) (rq_after rq) e of
             (Inr (JInt epoch), e') \<Rightarrow> (if epoch \<ge> 0 then s\<lparr>se_context_epoch := epoch\<rparr> else s, e')
           | (_, e') \<Rightarrow> (s, e')))"

definition value_text :: "engine_value \<Rightarrow> json option" where
  "value_text v = (case v of AttrValue attrs \<Rightarrow> map_of attrs (asc ''text'') | DictValue d \<Rightarrow> map_of d (asc ''text''))"

definition value_pinyin :: "engine_value \<Rightarrow> pystr" where
  "value_pinyin v = (case v of
       AttrValue attrs \<Rightarrow> (case map_of attrs (asc ''pinyin'') of Some (JStr s) \<Rightarrow> s | _ \<Rightarrow> [])
     | DictValue d \<Rightarrow> [])"

fun candidate_views :: "nat \<Rightarrow> engine_value list \<Rightarrow> candidate_view list" where
  "candidate_views index [] = []"
| "candidate_views index (v # vs) = (case value_text v of
       Some (JStr t) \<Rightarrow>
         if t = [] then candidate_views (Suc index) vs
         else \<lparr>cv_text = t, cv_candidate_id = int_text (int index), cv_label = int_text (int index + 1),
               cv_comment = value_pinyin v\<rparr> # candidate_views (Suc index) vs
     | _ \<Rightarrow> candidate_views (Suc index) vs)"

definition refresh_candidates :: "'e engine_api \<Rightarrow> int \<Rightarrow> session \<Rightarrow> 'e \<Rightarrow> session \<times> 'e" where
  "refresh_candidates api limit s e =
     (if se_raw_input s = [] then (s\<lparr>se_candidates := [], se_selected_index := 0\<rparr>, e)
      else case api_query api (se_raw_input s) limit (se_context_epoch s) e of
        (Inl _, e') \<Rightarrow> (s\<lparr>se_candidates := [], se_selected_index := 0\<rparr>, e')
      | (Inr values, e') \<Rightarrow>
          (let candidates = candidate_views 0 (py_take limit values)
           in (s\<lparr>se_candidates := candidates,
                 se_selected_index := min (se_selected_index s) (max 0 (int (length candidates) - 1))\<rparr>, e')))"

definition bridge_commit ::
  "'e engine_api \<Rightarrow> normalized_request \<Rightarrow> session \<Rightarrow> pystr \<Rightarrow> 'e \<Rightarrow> normalized_response \<times> session \<times> 'e" where
  "bridge_commit api rq s t e =
     (let e = (case api_commit api of None \<Rightarrow> e | Some commit \<Rightarrow> snd (commit t e)); s = clear_session s
      in (make_response rq s True True t None, s, e))"

definition move_selection ::
  "normalized_request \<Rightarrow> session \<Rightarrow> int \<Rightarrow> normalized_response \<times> session" where
  "move_selection rq s step =
     (if se_candidates s = [] then (make_response rq s True False [] None, s)
      else let s = s\<lparr>se_selected_index := (se_selected_index s + step) mod int (length (se_candidates s))\<rparr>
           in (make_response rq s True True [] None, s))"

definition bridge_candidate_action ::
  "'e engine_api \<Rightarrow> normalized_request \<Rightarrow> session \<Rightarrow> 'e \<Rightarrow> normalized_response \<times> session \<times> 'e" where
  "bridge_candidate_action api rq s e = (case rq_candidate_index rq of
       None \<Rightarrow> (make_response rq s False False [] (Some ''invalid_candidate_index''), s, e)
     | Some index \<Rightarrow>
         if index \<ge> length (se_candidates s)
         then (make_response rq s False False [] (Some ''invalid_candidate_index''), s, e)
         else
           let action = (case rq_candidate_action rq of None \<Rightarrow> asc ''select''
                         | Some a \<Rightarrow> if a = [] then asc ''select'' else a) in
           if action \<in> {asc ''highlight'', asc ''hover''}
           then let s = s\<lparr>se_selected_index := int index\<rparr> in (make_response rq s True True [] None, s, e)
           else if action \<in> {asc ''select'', asc ''commit''}
           then bridge_commit api rq s (cv_text (se_candidates s ! index)) e
           else (make_response rq s False False [] (Some ''unsupported_candidate_action''), s, e))"

definition process_key ::
  "unicode_db \<Rightarrow> 'e engine_api \<Rightarrow> normalized_request \<Rightarrow> session \<Rightarrow> 'e \<Rightarrow> normalized_response \<times> session \<times> 'e" where
  "process_key db api rq s0 e0 = (case rq_key rq of
       None \<Rightarrow> (make_response rq s0 False False [] (Some ''missing_key''), s0, e0)
     | Some key \<Rightarrow>
         let (s, e) = refresh_context api rq False s0 e0; normalized = lower db key;
             ignored = (make_response rq s True False [] None, s, e) in
         if length key = 1 \<and> (([97] \<le> normalized \<and> normalized \<le> [122]) \<or> key = [quote]) then
           let next_raw_input = se_raw_input s @ normalized in
           if length next_raw_input > MAX_RAW_INPUT then bridge_commit api rq s next_raw_input e
           else let (s, e) = refresh_candidates api (rq_candidate_count rq) (s\<lparr>se_raw_input := next_raw_input\<rparr>) e
                in (make_response rq s True True [] None, s, e)
         else if normalized = asc ''backspace'' then
           if se_raw_input s = [] then ignored
           else let (s, e) = refresh_candidates api (rq_candidate_count rq)
                               (s\<lparr>se_raw_input := butlast (se_raw_input s)\<rparr>) e
                in (make_response rq s True True [] None, s, e)
         else if normalized = asc ''escape'' then
           if se_raw_input s = [] then ignored
           else (make_response rq (clear_session s) True True [] None, clear_session s, e)
         else if normalized = asc ''space'' then
           if se_raw_input s = [] then ignored
           else bridge_commit api rq s (case selected_text s of None \<Rightarrow> se_raw_input s
                                        | Some t \<Rightarrow> if t = [] then se_raw_input s else t) e
         else if normalized = asc ''enter'' then
           if se_raw_input s = [] then ignored else bridge_commit api rq s (se_raw_input s) e
         else if normalized \<in> {asc ''up'', asc ''left''} then
           let (r, s) = move_selection rq s (- 1) in (r, s, e)
         else if normalized \<in> {asc ''down'', asc ''right''} then
           let (r, s) = move_selection rq s 1 in (r, s, e)
         else if length key = 1 \<and> [49] \<le> key \<and> key \<le> [57] then
           let index = hd key - 49 in
           if index \<ge> length (se_candidates s) then ignored
           else bridge_commit api rq s (cv_text (se_candidates s ! index)) e
         else ignored)"

definition focus_in ::
  "'e engine_api \<Rightarrow> normalized_request \<Rightarrow> session \<Rightarrow> 'e \<Rightarrow> normalized_response \<times> session \<times> 'e" where
  "focus_in api rq s e =
     (if rq_secure rq then
        let (ok, s, e) = enter_secure_mode api (s\<lparr>se_secure := True\<rparr>) e
        in (make_response rq s ok False [] (if ok then None else Some ''secure_cleanup_failed''), s, e)
      else let (s, e) = refresh_context api rq True (s\<lparr>se_secure := False\<rparr>) e
           in (make_response rq s True False [] None, s, e))"

definition bare_response ::
  "normalized_request \<Rightarrow> bool \<Rightarrow> bool \<Rightarrow> pystr option \<Rightarrow> string option \<Rightarrow> normalized_response" where
  "bare_response rq ok handled session_id error_code =
     \<lparr>rs_function = kind_value (rq_kind rq), rs_ok = ok, rs_handled = handled, rs_session_id = session_id,
      rs_composition = empty_composition, rs_commit = [], rs_error_code = error_code\<rparr>"

definition start_session ::
  "'e engine_api \<Rightarrow> pystr \<Rightarrow> normalized_request \<Rightarrow> 'e bridge \<Rightarrow> normalized_response \<times> 'e bridge" where
  "start_session api fresh_id rq br =
     (let session_id = (case rq_session_id rq of None \<Rightarrow> fresh_id | Some s \<Rightarrow> if s = [] then fresh_id else s) in
      if session_id = [] \<or> length session_id > 128
      then (bare_response rq False False None (Some ''invalid_session_id''), br)
      else
        let s = \<lparr>se_raw_input = [], se_candidates = [], se_selected_index = 0, se_context_epoch = 0,
                 se_secure = rq_secure rq\<rparr> in
        if rq_secure rq then
          let (ok, s, e) = enter_secure_mode api s (br_engine br)
          in (bare_response rq ok False (Some session_id) (if ok then None else Some ''secure_cleanup_failed''),
              \<lparr>br_sessions = od_set session_id s (br_sessions br), br_engine = e\<rparr>)
        else
          let (s, e) = refresh_context api rq True s (br_engine br)
          in (bare_response rq True True (Some session_id) None,
              \<lparr>br_sessions = od_set session_id s (br_sessions br), br_engine = e\<rparr>))"

definition handle_session ::
  "unicode_db \<Rightarrow> 'e engine_api \<Rightarrow> normalized_request \<Rightarrow> session \<Rightarrow> 'e \<Rightarrow> normalized_response \<times> session \<times> 'e" where
  "handle_session db api rq s e =
     (if rq_kind rq = FOCUS_IN then focus_in api rq s e
      else if rq_kind rq = FOCUS_OUT
      then (make_response rq (clear_session s) True False [] None, clear_session s, e)
      else if rq_kind rq = UPDATE_INPUT_POSITION then (make_response rq s True False [] None, s, e)
      else if se_secure s then (make_response rq s True False [] None, s, e)
      else if rq_kind rq = CANCEL_COMPOSITION
      then (make_response rq (clear_session s) True True [] None, clear_session s, e)
      else if rq_kind rq = CANDIDATE_ACTION then bridge_candidate_action api rq s e
      else if rq_kind rq = DRAIN_CANDIDATE_ACTION_RESULT then (make_response rq s True False [] None, s, e)
      else if rq_kind rq = PROCESS_KEY then process_key db api rq s e
      else (make_response rq s True False [] None, s, e))"

definition handle ::
  "unicode_db \<Rightarrow> 'e engine_api \<Rightarrow> pystr \<Rightarrow> normalized_request \<Rightarrow> 'e bridge \<Rightarrow> normalized_response \<times> 'e bridge" where
  "handle db api fresh_id rq br =
     (if rq_kind rq = START_SESSION then start_session api fresh_id rq br
      else let sid = or_empty (rq_session_id rq) in
        case map_of (br_sessions br) sid of
          None \<Rightarrow> (bare_response rq False False (rq_session_id rq) (Some ''missing_session''), br)
        | Some s \<Rightarrow>
            if rq_kind rq = END_SESSION
            then (make_response rq s True True [] None, br\<lparr>br_sessions := od_del sid (br_sessions br)\<rparr>)
            else let (r, s, e) = handle_session db api rq s (br_engine br)
                 in (r, \<lparr>br_sessions = od_set sid s (br_sessions br), br_engine = e\<rparr>))"

text \<open>A conversation with the bridge: requests with the identifiers the factory would return.\<close>

fun handle_all ::
  "unicode_db \<Rightarrow> 'e engine_api \<Rightarrow> (pystr \<times> normalized_request) list \<Rightarrow> 'e bridge \<Rightarrow> 'e bridge" where
  "handle_all db api [] br = br"
| "handle_all db api ((fresh_id, rq) # rqs) br = handle_all db api rqs (snd (handle db api fresh_id rq br))"

section \<open>The session invariant\<close>

definition session_ok :: "session \<Rightarrow> bool" where
  "session_ok s \<longleftrightarrow> length (se_raw_input s) \<le> MAX_RAW_INPUT \<and> (se_candidates s \<noteq> [] \<longrightarrow> se_raw_input s \<noteq> [])
     \<and> 0 \<le> se_selected_index s
     \<and> (se_selected_index s < int (length (se_candidates s)) \<or> se_selected_index s = 0)
     \<and> 0 \<le> se_context_epoch s
     \<and> list_all (\<lambda>c. cv_text c \<noteq> []) (se_candidates s)
     \<and> (se_secure s \<longrightarrow> se_raw_input s = [] \<and> se_context_epoch s = 0)"

definition bridge_ok :: "'e bridge \<Rightarrow> bool" where
  "bridge_ok br \<longleftrightarrow> od_ok (br_sessions br)
     \<and> list_all (\<lambda>(sid, s). sid \<noteq> [] \<and> length sid \<le> 128 \<and> session_ok s) (br_sessions br)"

text \<open>What every session handler guarantees of its response and its new session.\<close>

definition sound_step :: "normalized_request \<Rightarrow> session \<Rightarrow> normalized_response \<times> session \<times> 'e \<Rightarrow> bool" where
  "sound_step rq s x = (case x of (r, s', e') \<Rightarrow>
     session_ok s'
     \<and> (\<not> rs_ok r \<longrightarrow> rs_error_code r \<noteq> None \<and> \<not> rs_handled r \<and> rs_commit r = [])
     \<and> rs_session_id r = rq_session_id rq
     \<and> rs_composition r = \<lparr>cp_raw_input = se_raw_input s', cp_preedit = se_raw_input s',
          cp_candidates = se_candidates s', cp_selected_index = se_selected_index s'\<rparr>
     \<and> (rs_commit r \<noteq> [] \<longrightarrow> rs_handled r \<and> se_raw_input s' = [] \<and> se_candidates s' = []))"

lemma session_ok_clear [simp]: "session_ok s \<Longrightarrow> session_ok (clear_session s)"
  by (simp add: session_ok_def clear_session_def)

lemma clear_session_simps [simp]:
  "se_raw_input (clear_session s) = []" "se_candidates (clear_session s) = []"
  "se_selected_index (clear_session s) = 0" "se_secure (clear_session s) = se_secure s"
  "se_context_epoch (clear_session s) = se_context_epoch s"
  by (simp_all add: clear_session_def)

lemma candidate_views_text: "list_all (\<lambda>c. cv_text c \<noteq> []) (candidate_views i vs)"
  by (induction i vs rule: candidate_views.induct) (auto split: option.splits json.splits)

lemma refresh_context_frame:
  assumes "refresh_context api rq force s e = (s', e')"
  shows "\<exists>ep. s' = s\<lparr>se_context_epoch := ep\<rparr> \<and> (0 \<le> se_context_epoch s \<longrightarrow> 0 \<le> ep)"
proof -
  have same: "\<exists>ep. s = s\<lparr>se_context_epoch := ep\<rparr> \<and> (0 \<le> se_context_epoch s \<longrightarrow> 0 \<le> ep)"
    by (rule exI [of _ "se_context_epoch s"]) simp
  with assms show ?thesis
    by (auto simp: refresh_context_def split: if_splits option.splits sum.splits json.splits prod.splits)
qed

lemma refresh_context_ok:
  assumes "refresh_context api rq force s e = (s', e')" "session_ok s" "\<not> se_secure s"
  shows "session_ok s' \<and> \<not> se_secure s'"
  using refresh_context_frame [OF assms(1)] assms(2,3) by (auto simp: session_ok_def)

lemma refresh_candidates_ok:
  assumes "refresh_candidates api limit s e = (s', e')" "session_ok (s\<lparr>se_candidates := [], se_selected_index := 0\<rparr>)"
    and "0 \<le> se_selected_index s"
  shows "session_ok s' \<and> se_secure s' = se_secure s"
  using assms candidate_views_text
  by (auto simp: refresh_candidates_def session_ok_def Let_def min_def max_def split: if_splits sum.splits prod.splits)

lemma make_response_simps [simp]:
  "rs_ok (make_response rq s ok h c err) = ok" "rs_handled (make_response rq s ok h c err) = h"
  "rs_commit (make_response rq s ok h c err) = c" "rs_error_code (make_response rq s ok h c err) = err"
  "rs_session_id (make_response rq s ok h c err) = rq_session_id rq"
  "rs_composition (make_response rq s ok h c err) = \<lparr>cp_raw_input = se_raw_input s, cp_preedit = se_raw_input s,
          cp_candidates = se_candidates s, cp_selected_index = se_selected_index s\<rparr>"
  by (simp_all add: make_response_def)

lemma sound_commit: "session_ok s \<Longrightarrow> sound_step rq s0 (bridge_commit api rq s t e)"
  by (simp add: sound_step_def bridge_commit_def Let_def)

lemma sound_response:
  "session_ok s \<Longrightarrow> (ok \<or> err \<noteq> None \<and> \<not> h) \<Longrightarrow> sound_step rq s0 (make_response rq s ok h [] err, s, e)"
  by (auto simp: sound_step_def)

lemma sound_if:
  "(b \<Longrightarrow> sound_step rq s x) \<Longrightarrow> (\<not> b \<Longrightarrow> sound_step rq s y) \<Longrightarrow> sound_step rq s (if b then x else y)"
  by simp

lemma sound_move:
  assumes "session_ok s"
  shows "sound_step rq s0 (case move_selection rq s step of (r, s') \<Rightarrow> (r, s', e))"
proof (cases "se_candidates s = []")
  case False
  let ?i = "(se_selected_index s + step) mod int (length (se_candidates s))"
  have "0 \<le> ?i" "?i < int (length (se_candidates s))" using False by (simp_all add: pos_mod_bound)
  then have "session_ok (s\<lparr>se_selected_index := ?i\<rparr>)" using assms(1) by (simp add: session_ok_def)
  with False show ?thesis by (simp add: move_selection_def Let_def sound_response)
qed (use assms in \<open>simp add: move_selection_def sound_response\<close>)

lemma sound_candidate_action:
  assumes "session_ok s"
  shows "sound_step rq s (bridge_candidate_action api rq s e)"
proof (cases "rq_candidate_index rq")
  case (Some index)
  have "session_ok (s\<lparr>se_selected_index := int index\<rparr>)" if "index < length (se_candidates s)"
    using assms that by (simp add: session_ok_def)
  with Some assms show ?thesis
    by (simp add: bridge_candidate_action_def Let_def sound_response sound_commit)
qed (use assms in \<open>simp add: bridge_candidate_action_def sound_response\<close>)

lemma sound_refresh:
  assumes "session_ok s" "\<not> se_secure s" "length raw \<le> MAX_RAW_INPUT"
  shows "sound_step rq s0 (case refresh_candidates api n (s\<lparr>se_raw_input := raw\<rparr>) e of
           (s, e) \<Rightarrow> (make_response rq s True True [] None, s, e))"
proof -
  obtain s' e' where r: "refresh_candidates api n (s\<lparr>se_raw_input := raw\<rparr>) e = (s', e')" by fastforce
  have "session_ok s'"
    using refresh_candidates_ok [OF r] assms by (auto simp: session_ok_def)
  with r show ?thesis by (simp add: sound_response)
qed

lemma sound_process_key:
  assumes "session_ok s" "\<not> se_secure s"
  shows "sound_step rq s (process_key db api rq s e)"
proof (cases "rq_key rq")
  case None
  with assms show ?thesis by (simp add: process_key_def sound_response)
next
  case (Some key)
  obtain s1 e1 where r: "refresh_context api rq False s e = (s1, e1)" by fastforce
  have s1: "session_ok s1" "\<not> se_secure s1"
    using refresh_context_ok [OF r] assms by simp_all
  have len: "length (butlast (se_raw_input s1)) \<le> MAX_RAW_INPUT" using s1 by (auto simp: session_ok_def)
  show ?thesis
    unfolding process_key_def Let_def Some option.case r prod.case
    by (intro sound_if sound_commit sound_response sound_refresh sound_move session_ok_clear s1 len) simp_all
qed

lemma sound_focus_in:
  assumes "session_ok s"
  shows "sound_step rq s (focus_in api rq s e)"
proof (cases "rq_secure rq")
  case True
  obtain ok s1 e1 where r: "enter_secure_mode api (s\<lparr>se_secure := True\<rparr>) e = (ok, s1, e1)"
    by (metis prod_cases3)
  then have "session_ok s1"
    using assms by (auto simp: enter_secure_mode_def session_ok_def Let_def split: prod.splits)
  with r True show ?thesis by (simp add: focus_in_def sound_response)
next
  case False
  obtain s1 e1 where r: "refresh_context api rq True (s\<lparr>se_secure := False\<rparr>) e = (s1, e1)" by fastforce
  have "session_ok s1"
    using refresh_context_ok [OF r] assms by (simp add: session_ok_def)
  with r False show ?thesis by (simp add: focus_in_def sound_response)
qed

lemma sound_handle_session: "session_ok s \<Longrightarrow> sound_step rq s (handle_session db api rq s e)"
  by (simp add: handle_session_def sound_focus_in sound_response sound_candidate_action sound_process_key)

lemma bridge_ok_lookup: "bridge_ok br \<Longrightarrow> map_of (br_sessions br) sid = Some s \<Longrightarrow> session_ok s \<and> sid \<noteq> [] \<and> length sid \<le> 128"
  by (auto simp: bridge_ok_def list_all_iff dest!: map_of_SomeD)

lemma bridge_ok_store:
  assumes "bridge_ok br" "session_ok s" "sid \<noteq> []" "length sid \<le> 128"
  shows "bridge_ok \<lparr>br_sessions = od_set sid s (br_sessions br), br_engine = e\<rparr>"
  using assms set_od_set_subset [of sid s "br_sessions br"] by (fastforce simp: bridge_ok_def list_all_iff)

lemma start_session_ok:
  assumes "bridge_ok br" "start_session api fresh rq br = (r, br')"
  shows "bridge_ok br'"
proof -
  let ?s = "\<lparr>se_raw_input = [], se_candidates = [], se_selected_index = 0, se_context_epoch = 0, se_secure = rq_secure rq\<rparr>"
  have secure: "session_ok s1" if "enter_secure_mode api ?s e = (ok, s1, e1)" for ok s1 e e1
    using that by (auto simp: enter_secure_mode_def session_ok_def Let_def split: prod.splits)
  have plain: "session_ok s1" if "refresh_context api rq True ?s e = (s1, e1)" "\<not> rq_secure rq" for s1 e e1
    using refresh_context_ok [OF that(1)] that(2) by (simp add: session_ok_def)
  show ?thesis
  proof (cases "rq_secure rq")
    case True
    then show ?thesis using assms secure
      by (auto simp: start_session_def Let_def not_less intro!: bridge_ok_store split: if_splits prod.splits)
  next
    case False
    then show ?thesis using assms plain
      by (auto simp: start_session_def Let_def not_less intro!: bridge_ok_store split: if_splits prod.splits)
  qed
qed

lemma handle_ok:
  assumes "bridge_ok br"
  shows "bridge_ok (snd (handle db api fresh rq br))"
proof -
  let ?sid = "or_empty (rq_session_id rq)"
  have del: "bridge_ok (br\<lparr>br_sessions := od_del sid (br_sessions br)\<rparr>)" for sid
    using assms od_ok_del [of "br_sessions br" sid] by (auto simp: bridge_ok_def list_all_iff AList.delete_eq)
  have "bridge_ok (snd (handle db api fresh rq br))"
    if "map_of (br_sessions br) ?sid = Some s" "rq_kind rq \<noteq> START_SESSION" for s
  proof -
    obtain r s' e' where h: "handle_session db api rq s (br_engine br) = (r, s', e')" by (metis prod_cases3)
    note s = bridge_ok_lookup [OF assms that(1)]
    from sound_handle_session [of s rq db api "br_engine br"] h s have "session_ok s'" by (simp add: sound_step_def)
    with that h s assms del show ?thesis by (simp add: handle_def Let_def bridge_ok_store)
  qed
  moreover have "bridge_ok (snd (start_session api fresh rq br))"
    using start_session_ok [OF assms] by (metis prod.collapse)
  ultimately show ?thesis
    using assms by (cases "map_of (br_sessions br) ?sid") (auto simp: handle_def)
qed

lemma handle_all_ok: "bridge_ok br \<Longrightarrow> bridge_ok (handle_all db api rqs br)"
  by (induction db api rqs br rule: handle_all.induct) (auto simp: handle_ok)

section \<open>What is committed\<close>

definition committable :: "unicode_db \<Rightarrow> normalized_request \<Rightarrow> session \<Rightarrow> pystr set" where
  "committable db rq s = cv_text ` set (se_candidates s) \<union> {se_raw_input s}
     \<union> {se_raw_input s @ lower db k | k. rq_key rq = Some k}"

lemma commit_response [simp]: "rs_commit (fst (bridge_commit api rq s t e)) = t"
  by (simp add: bridge_commit_def Let_def)

lemma committed_if:
  "(b \<Longrightarrow> rs_commit (fst x) \<in> C) \<Longrightarrow> (\<not> b \<Longrightarrow> rs_commit (fst y) \<in> C) \<Longrightarrow> rs_commit (fst (if b then x else y)) \<in> C"
  by simp

lemma selected_text_in: "selected_text s = Some t \<Longrightarrow> t \<in> cv_text ` set (se_candidates s)"
  by (auto simp: selected_text_def split: if_splits)

lemma process_key_commits: "rs_commit (fst (process_key db api rq s e)) \<in> insert [] (committable db rq s)"
proof (cases "rq_key rq")
  case (Some key)
  obtain s1 e1 where r: "refresh_context api rq False s e = (s1, e1)" by fastforce
  then have s1: "se_raw_input s1 = se_raw_input s" "se_candidates s1 = se_candidates s"
    using refresh_context_frame [OF r] by auto
  have move: "rs_commit (fst (case move_selection rq s1 st of (r, s) \<Rightarrow> (r, s, e1))) = []" for st
    by (simp add: move_selection_def Let_def)
  have refresh: "rs_commit (fst (case refresh_candidates api n s2 e1 of
      (s, e) \<Rightarrow> (make_response rq s True True [] None, s, e))) = []" for n s2
    by (simp split: prod.splits)
  show ?thesis
    unfolding process_key_def Let_def Some option.case r prod.case
    by (intro committed_if)
      (auto simp: move refresh s1 committable_def Some not_le dest: selected_text_in split: option.splits)
qed (simp add: process_key_def)

lemma handle_session_commits:
  "rs_commit (fst (handle_session db api rq s e)) \<in> insert [] (committable db rq s)"
proof -
  have "rs_commit (fst (bridge_candidate_action api rq s e)) \<in> insert [] (committable db rq s)"
    by (auto simp: bridge_candidate_action_def committable_def Let_def not_le split: option.splits)
  moreover have "rs_commit (fst (focus_in api rq s e)) = []"
    by (simp add: focus_in_def Let_def split: prod.splits)
  ultimately show ?thesis using process_key_commits [of db api rq s e] by (simp add: handle_session_def)
qed

section \<open>Properties\<close>

text \<open>
  Claim C12. Whatever requests arrive and however the engine behind the bridge behaves or fails, every
  session stays well formed: bounded raw input, candidates only while composing, a selection inside
  the candidate list, non-empty candidate texts, and no composition or context epoch in a secure session.
\<close>

theorem bridge_sessions_well_formed:
  assumes "map_of (br_sessions (handle_all db api rqs \<lparr>br_sessions = [], br_engine = e\<rparr>)) sid = Some s"
  shows "sid \<noteq> [] \<and> length sid \<le> 128 \<and> length (se_raw_input s) \<le> 512
     \<and> (se_candidates s \<noteq> [] \<longrightarrow> se_raw_input s \<noteq> []) \<and> 0 \<le> se_selected_index s
     \<and> (se_selected_index s < int (length (se_candidates s)) \<or> se_selected_index s = 0)
     \<and> (\<forall>c \<in> set (se_candidates s). cv_text c \<noteq> [])
     \<and> (se_secure s \<longrightarrow> se_raw_input s = [] \<and> se_candidates s = [] \<and> se_context_epoch s = 0)"
proof -
  have "bridge_ok \<lparr>br_sessions = [], br_engine = e\<rparr>" by (simp add: bridge_ok_def)
  from bridge_ok_lookup [OF handle_all_ok [OF this] assms] show ?thesis
    by (auto simp: session_ok_def MAX_RAW_INPUT_def list_all_iff)
qed

definition echo_api :: "nat engine_api" where
  "echo_api = \<lparr>api_query = (\<lambda>raw n ep e. (Inr [AttrValue [(asc ''text'', JStr raw)]], e + 1)),
     api_request_context_update = Some (\<lambda>b a e. (Inr (JInt (int e)), e + 1)),
     api_reset_private_context = Some (\<lambda>e. (Inl BackendFailure, e)), api_clear_history = None,
     api_commit = Some (\<lambda>t e. (Inr (), e + 1))\<rparr>"

definition request :: "request_kind \<Rightarrow> string \<Rightarrow> string \<Rightarrow> bool \<Rightarrow> normalized_request" where
  "request kind sid key secure = \<lparr>rq_kind = kind, rq_session_id = Some (asc sid), rq_key = Some (asc key),
     rq_candidate_index = None, rq_candidate_action = None, rq_before = [], rq_after = [],
     rq_candidate_count = 9, rq_secure = secure, rq_extras = []\<rparr>"

definition demo_requests :: "(pystr \<times> normalized_request) list" where
  "demo_requests = map (Pair []) [request START_SESSION ''s'' '''' False, request PROCESS_KEY ''s'' ''n'' False,
     request PROCESS_KEY ''s'' ''i'' False]"

definition demo_bridge :: "nat bridge" where
  "demo_bridge = handle_all ascii_db echo_api demo_requests \<lparr>br_sessions = [], br_engine = 0\<rparr>"

definition demo_session :: session where
  "demo_session = the (map_of (br_sessions demo_bridge) (asc ''s''))"

lemma demo_session_stored: "map_of (br_sessions demo_bridge) (asc ''s'') = Some demo_session"
proof -
  have "map_of (br_sessions demo_bridge) (asc ''s'') \<noteq> None" by code_simp
  then show ?thesis by (auto simp: demo_session_def)
qed

theorem bridge_sessions_well_formed_witness:
  "map_of (br_sessions (handle_all ascii_db echo_api demo_requests \<lparr>br_sessions = [], br_engine = 0\<rparr>)) (asc ''s'')
     = Some demo_session
   \<and> se_raw_input demo_session = asc ''ni'' \<and> length (se_raw_input demo_session) \<le> 512"
proof -
  have "se_raw_input demo_session = asc ''ni''" by code_simp
  with bridge_sessions_well_formed [OF demo_session_stored [unfolded demo_bridge_def]] demo_session_stored
  show ?thesis by (simp add: demo_bridge_def)
qed

text \<open>
  Claim C32. A secure session is silent: no request but a new start or focus reaches the engine,
  produces text, or changes the session.
\<close>

theorem secure_session_silent:
  assumes "bridge_ok br" "map_of (br_sessions br) sid = Some s" "se_secure s"
    and "rq_session_id rq = Some sid" "rq_kind rq \<notin> {START_SESSION, FOCUS_IN}"
    and "handle db api fresh_id rq br = (r, br')"
  shows "br_engine br' = br_engine br \<and> rs_commit r = [] \<and> rs_composition r = empty_composition
     \<and> map_of (br_sessions br') sid = (if rq_kind rq = END_SESSION then None else Some s)"
proof -
  have s: "se_raw_input s = []" "se_candidates s = []" "se_selected_index s = 0"
    using bridge_ok_lookup [OF assms(1,2)] assms(3) by (auto simp: session_ok_def)
  then have "clear_session s = s" by (simp add: clear_session_def)
  with assms s show ?thesis
    by (cases "rq_kind rq") (auto simp: handle_def or_empty_def handle_session_def make_response_def
        empty_composition_def map_of_od_set map_of_od_del)
qed

theorem secure_session_silent_witness:
  "let br = snd (handle ascii_db echo_api [] (request START_SESSION ''s'' '''' True) \<lparr>br_sessions = [], br_engine = 0\<rparr>);
       (r, br') = handle ascii_db echo_api [] (request PROCESS_KEY ''s'' ''n'' False) br
   in br_engine br' = br_engine br \<and> rs_commit r = []"
proof -
  define br where "br = snd (handle ascii_db echo_api [] (request START_SESSION ''s'' '''' True) \<lparr>br_sessions = [], br_engine = 0\<rparr>)"
  obtain r br' where h: "handle ascii_db echo_api [] (request PROCESS_KEY ''s'' ''n'' False) br = (r, br')" by fastforce
  have ok: "bridge_ok br" unfolding br_def by (rule handle_ok) (simp add: bridge_ok_def)
  have "map_of (br_sessions br) (asc ''s'') \<noteq> None" "se_secure (the (map_of (br_sessions br) (asc ''s'')))"
    unfolding br_def by code_simp+
  then obtain s where "map_of (br_sessions br) (asc ''s'') = Some s" "se_secure s" by auto
  from secure_session_silent [OF ok this _ _ h] show ?thesis
    by (simp add: h br_def [symmetric]) (simp add: request_def)
qed

text \<open>
  Claim C33. A request changes no session but the one it names; a refusal is never marked handled and
  commits nothing; and what it commits is a candidate of that session or its raw input (with the key
  just typed when the input overflows), after which the composition is empty.
\<close>

theorem handle_commits_own_session:
  assumes "bridge_ok br" "rq_kind rq \<notin> {START_SESSION, END_SESSION}"
    and "map_of (br_sessions br) (or_empty (rq_session_id rq)) = Some s" "handle db api fresh_id rq br = (r, br')"
  shows "rs_commit r \<in> insert [] (cv_text ` set (se_candidates s) \<union> {se_raw_input s}
            \<union> {se_raw_input s @ lower db k | k. rq_key rq = Some k})
     \<and> (rs_commit r \<noteq> [] \<longrightarrow> rs_handled r \<and> cp_raw_input (rs_composition r) = [] \<and> cp_candidates (rs_composition r) = [])
     \<and> (\<not> rs_ok r \<longrightarrow> \<not> rs_handled r \<and> rs_commit r = [] \<and> rs_error_code r \<noteq> None)
     \<and> (\<forall>other. other \<noteq> or_empty (rq_session_id rq) \<longrightarrow>
           map_of (br_sessions br') other = map_of (br_sessions br) other)"
proof -
  obtain s' e' where h: "handle_session db api rq s (br_engine br) = (r, s', e')"
    and br': "br' = \<lparr>br_sessions = od_set (or_empty (rq_session_id rq)) s' (br_sessions br), br_engine = e'\<rparr>"
    using assms(2-4) by (auto simp: handle_def split: prod.splits)
  have "sound_step rq s (r, s', e')"
    using sound_handle_session [of s rq db api "br_engine br"] bridge_ok_lookup [OF assms(1,3)] h by simp
  moreover have "rs_commit r \<in> insert [] (committable db rq s)"
    using handle_session_commits [of db api rq s "br_engine br"] h by simp
  ultimately show ?thesis
    by (auto simp: sound_step_def committable_def br' map_of_od_set)
qed

theorem handle_commits_own_session_witness:
  "let (r, br') = handle ascii_db echo_api [] (request PROCESS_KEY ''s'' ''Space'' False) demo_bridge
   in rs_commit r = asc ''ni'' \<and> rs_handled r \<and> cp_raw_input (rs_composition r) = []"
proof -
  obtain r br' where h: "handle ascii_db echo_api [] (request PROCESS_KEY ''s'' ''Space'' False) demo_bridge = (r, br')"
    by fastforce
  have ok: "bridge_ok demo_bridge" unfolding demo_bridge_def by (rule handle_all_ok) (simp add: bridge_ok_def)
  have "rs_commit (fst (handle ascii_db echo_api [] (request PROCESS_KEY ''s'' ''Space'' False) demo_bridge)) = asc ''ni''"
    by code_simp
  with h have c: "rs_commit r = asc ''ni''" by simp
  have "map_of (br_sessions demo_bridge) (or_empty (rq_session_id (request PROCESS_KEY ''s'' ''Space'' False))) = Some demo_session"
    using demo_session_stored by (simp add: request_def or_empty_def)
  from handle_commits_own_session [OF ok _ this h] c show ?thesis by (simp add: h) (simp add: request_def asc_def)
qed


definition demo_payload :: bytes where
  "demo_payload = projr (utf8_encode
     ([123] @ string_text (asc ''function'') @ [58] @ string_text (asc ''focus_in'') @ [44]
      @ string_text (asc ''session_id'') @ [58] @ string_text (asc ''s'') @ [125]))"

definition demo_parsed :: normalized_request where
  "demo_parsed = projr (parse_json_payload demo_floats demo_payload)"


end
