(* ===== verification/Backends.thy ===== *)
theory Backends
  imports Prelude
begin

text \<open>
  The model backends of \<open>backends.py\<close> and \<open>conditional_backend.py\<close>: publication of an immutable
  state under a generation counter, scoring of allowed tokens, and the single-flight gate around
  continuations with its idle waiters.  The runtime is an argument: what a forward returns, and
  whether and how a continuation call finishes, are inputs of the operations.  Each operation below
  is one critical section of the source.
\<close>

section \<open>States and publication\<close>

datatype 'a array = Array1 "'a list" | Array2 "'a list list" | ArrayOther

record ('p, 'r) runtime_snapshot =
  rt_payload :: 'p
  rt_before_hash :: pystr
  rt_after_hash :: pystr
  rt_latency_ms :: real
  rt_continuation_root :: "'r option"

record ('p, 'r) backend_state =
  bs_epoch :: nat
  bs_backend_kind :: string
  bs_before_hash :: pystr
  bs_after_hash :: pystr
  bs_created_monotonic :: real
  bs_publication_latency_ms :: real
  bs_payload :: 'p
  bs_continuation_root :: "'r option"
  bs_log_normalizer :: "real option"
  bs_identity :: nat
  bs_generation :: nat

record ('p, 'r) snapshot_backend =
  sb_kind :: string
  sb_identity :: nat
  sb_state :: "('p, 'r) backend_state option"
  sb_epoch :: nat
  sb_generation :: nat

definition new_backend :: "string \<Rightarrow> nat \<Rightarrow> ('p, 'r) snapshot_backend" where
  "new_backend kind identity =
     \<lparr>sb_kind = kind, sb_identity = identity, sb_state = None, sb_epoch = 0, sb_generation = 0\<rparr>"

definition latest_state :: "('p, 'r) snapshot_backend \<Rightarrow> ('p, 'r) backend_state option" where
  "latest_state b = sb_state b"

definition capture_generation :: "('p, 'r) snapshot_backend \<Rightarrow> nat" where
  "capture_generation b = sb_generation b"

text \<open>\<open>now\<close> is the monotonic clock, \<open>elapsed\<close> the seconds spent publishing.\<close>

definition publish ::
  "('q, 'r) runtime_snapshot \<Rightarrow> 'p \<Rightarrow> nat \<Rightarrow> real option \<Rightarrow> real \<Rightarrow> real \<Rightarrow> ('p, 'r) snapshot_backend
     \<Rightarrow> ('p, 'r) backend_state result \<times> ('p, 'r) snapshot_backend" where
  "publish snap payload expected_generation log_normalizer now elapsed b =
     (if expected_generation \<noteq> sb_generation b
      then (Inl (RuntimeError ''backend state was invalidated during context update''), b)
      else
        let epoch = sb_epoch b + 1;
            state = \<lparr>bs_epoch = epoch, bs_backend_kind = sb_kind b, bs_before_hash = rt_before_hash snap,
                     bs_after_hash = rt_after_hash snap, bs_created_monotonic = now,
                     bs_publication_latency_ms = rt_latency_ms snap + elapsed * 1000,
                     bs_payload = payload, bs_continuation_root = rt_continuation_root snap,
                     bs_log_normalizer = log_normalizer, bs_identity = sb_identity b,
                     bs_generation = sb_generation b\<rparr>
        in (Inr state, b\<lparr>sb_epoch := epoch, sb_state := Some state\<rparr>))"

definition state_valid :: "('p, 'r) backend_state \<Rightarrow> ('p, 'r) snapshot_backend \<Rightarrow> bool" where
  "state_valid s b \<longleftrightarrow> \<not> (bs_identity s \<noteq> sb_identity b \<or> bs_generation s \<noteq> sb_generation b
     \<or> bs_backend_kind s \<noteq> sb_kind b)"

definition validate_state :: "('p, 'r) backend_state \<Rightarrow> ('p, 'r) snapshot_backend \<Rightarrow> unit result" where
  "validate_state s b = require (state_valid s b) (RuntimeError ''stale state or state from another backend'')"

definition validated_token_ids :: "int list \<Rightarrow> nat \<Rightarrow> nat list result" where
  "validated_token_ids ids vocabulary_size =
     (if ids \<noteq> [] \<and> (Min (set ids) < 0 \<or> Max (set ids) \<ge> int vocabulary_size)
      then Inl (IndexError ''allowed token id is outside the model vocabulary'')
      else Inr (map nat ids))"

definition invalidate_private_state :: "('p, 'r) snapshot_backend \<Rightarrow> ('p, 'r) snapshot_backend" where
  "invalidate_private_state b = b\<lparr>sb_generation := sb_generation b + 1, sb_state := None\<rparr>"

definition backend_diagnostics :: "real \<Rightarrow> ('p, 'r) snapshot_backend \<Rightarrow> string \<times> nat \<times> real option \<times> real option" where
  "backend_diagnostics now b = (case sb_state b of
       None \<Rightarrow> (sb_kind b, 0, None, None)
     | Some s \<Rightarrow> (sb_kind b, bs_epoch s, Some (max 0 ((now - bs_created_monotonic s) * 1000)),
                  Some (bs_publication_latency_ms s)))"

section \<open>Full logits\<close>

definition log_sum_exp :: "real list \<Rightarrow> real" where
  "log_sum_exp xs = (let maximum = Max (set xs) in maximum + ln (\<Sum>x \<leftarrow> xs. exp (x - maximum)))"

definition full_log_normalizer :: "pyfloat list \<Rightarrow> real option" where
  "full_log_normalizer logits =
     (if logits \<noteq> [] \<and> list_all isfinite logits then Some (log_sum_exp (map fin_val logits)) else None)"

type_synonym 'r full_state = "(pyfloat list, 'r) backend_state"
type_synonym 'r full_backend = "(pyfloat list, 'r) snapshot_backend"

text \<open>
  The two halves of \<open>update_context\<close> around the runtime call, then the whole call; the runtime's
  answer (or exception) is an argument.
\<close>

definition full_logits_finish ::
  "nat \<Rightarrow> (pyfloat array, 'r) runtime_snapshot result \<Rightarrow> real \<Rightarrow> real \<Rightarrow> 'r full_backend
     \<Rightarrow> 'r full_state result \<times> 'r full_backend" where
  "full_logits_finish generation answer now elapsed b = (case answer of
       Inl e \<Rightarrow> (Inl e, b)
     | Inr snap \<Rightarrow> (case rt_payload snap of
           Array1 logits \<Rightarrow> publish snap logits generation (full_log_normalizer logits) now elapsed b
         | _ \<Rightarrow> (Inl (ValueError ''full logits snapshot must be one-dimensional''), b)))"

definition full_update_context ::
  "(pyfloat array, 'r) runtime_snapshot result \<Rightarrow> real \<Rightarrow> real \<Rightarrow> 'r full_backend
     \<Rightarrow> 'r full_state result \<times> 'r full_backend" where
  "full_update_context answer now elapsed b = full_logits_finish (capture_generation b) answer now elapsed b"

definition full_score_allowed_tokens :: "'r full_backend \<Rightarrow> 'r full_state \<Rightarrow> int list \<Rightarrow> pyfloat list result" where
  "full_score_allowed_tokens b s ids =
     rbind (validate_state s b) (\<lambda>_.
     rbind (validated_token_ids ids (length (bs_payload s))) (\<lambda>tokens.
       Inr (map (\<lambda>t. bs_payload s ! t) tokens)))"

text \<open>
  Log-probabilities of the first token of a sequence (\<open>ConditionalFullLogitsBackend\<close>); a non-finite
  logit has no real normaliser, so the model covers finite logits.
\<close>

definition score_allowed_sequence_start :: "'r full_backend \<Rightarrow> 'r full_state \<Rightarrow> int list \<Rightarrow> real list result" where
  "score_allowed_sequence_start b s ids =
     rbind (validate_state s b) (\<lambda>_.
     rbind (validated_token_ids ids (length (bs_payload s))) (\<lambda>tokens.
       if tokens = [] then Inr []
       else let values = map fin_val (bs_payload s); log_normalizer = log_sum_exp values
            in Inr (map (\<lambda>t. values ! t - log_normalizer) tokens)))"

text \<open>\<open>start_conditional_continuation\<close>: a session only for the very state that is current.\<close>

definition start_conditional_continuation ::
  "'r full_backend \<Rightarrow> 'r full_state \<Rightarrow> 'session \<Rightarrow> 'session option result" where
  "start_conditional_continuation b s session =
     rbind (validate_state s b) (\<lambda>_. Inr (if sb_state b \<noteq> Some s then None else Some session))"

section \<open>Sparse projection\<close>

type_synonym 'r sparse_state = "(real list, 'r) backend_state"
type_synonym 'r sparse_backend = "(real list, 'r) snapshot_backend"

definition sparse_update_context ::
  "(real array, 'r) runtime_snapshot result \<Rightarrow> real \<Rightarrow> real \<Rightarrow> 'r sparse_backend
     \<Rightarrow> 'r sparse_state result \<times> 'r sparse_backend" where
  "sparse_update_context answer now elapsed b =
     (let generation = capture_generation b in
      case answer of Inl e \<Rightarrow> (Inl e, b)
      | Inr snap \<Rightarrow> (case rt_payload snap of
            Array1 hidden \<Rightarrow> publish snap hidden generation None now elapsed b
          | Array2 [hidden] \<Rightarrow> publish snap hidden generation None now elapsed b
          | _ \<Rightarrow> (Inl (ValueError ''continuation hidden state must be one-dimensional''), b)))"

definition dot :: "real list \<Rightarrow> real list \<Rightarrow> real" where
  "dot xs ys = (\<Sum>(x, y) \<leftarrow> zip xs ys. x * y)"

definition sparse_score_allowed_tokens ::
  "real list list \<Rightarrow> real list option \<Rightarrow> 'r sparse_backend \<Rightarrow> 'r sparse_state \<Rightarrow> int list \<Rightarrow> real list result" where
  "sparse_score_allowed_tokens weight bias b s ids =
     rbind (validate_state s b) (\<lambda>_.
     rbind (validated_token_ids ids (length weight)) (\<lambda>tokens.
       Inr (map (\<lambda>t. dot (weight ! t) (bs_payload s) + (case bias of None \<Rightarrow> 0 | Some c \<Rightarrow> c ! t)) tokens)))"

section \<open>The continuation gate\<close>

record continuation_gate =
  cg_active :: bool
  cg_generation :: nat
  cg_waiters :: "nat set"
  cg_set_events :: "nat set"

record 'a continuation_attempt =
  ca_result :: "'a option"
  ca_retry_generation :: "nat option"

definition idle_gate :: continuation_gate where
  "idle_gate = \<lparr>cg_active = False, cg_generation = 0, cg_waiters = {}, cg_set_events = {}\<rparr>"

definition finish_continuation_slot :: "continuation_gate \<Rightarrow> continuation_gate" where
  "finish_continuation_slot g =
     g\<lparr>cg_active := False, cg_generation := cg_generation g + 1, cg_waiters := {},
       cg_set_events := cg_set_events g \<union> cg_waiters g\<rparr>"

definition register_continuation_idle_wait :: "nat \<Rightarrow> nat \<Rightarrow> continuation_gate \<Rightarrow> continuation_gate" where
  "register_continuation_idle_wait generation event g =
     (if \<not> cg_active g \<or> generation \<noteq> cg_generation g
      then g\<lparr>cg_set_events := insert event (cg_set_events g)\<rparr>
      else g\<lparr>cg_waiters := insert event (cg_waiters g)\<rparr>)"

definition cancel_continuation_idle_wait :: "nat \<Rightarrow> continuation_gate \<Rightarrow> continuation_gate" where
  "cancel_continuation_idle_wait event g = g\<lparr>cg_waiters := cg_waiters g - {event}\<rparr>"

definition continuation_busy_generation :: "continuation_gate \<Rightarrow> nat option" where
  "continuation_busy_generation g = (if \<not> cg_active g then None else Some (cg_generation g))"

definition acquire_slot :: "continuation_gate \<Rightarrow> nat option \<times> continuation_gate" where
  "acquire_slot g =
     (if cg_active g then (Some (cg_generation g), g) else (None, g\<lparr>cg_active := True\<rparr>))"

text \<open>
  How an attempt that acquired the slot ends for its caller.  \<open>TimedOut\<close> leaves the provider call
  running: its slot is released by a later \<open>finish_continuation_slot\<close>.
\<close>

datatype 'a attempt_outcome = StartFails py_error | TimedOut | Finished "'a option result"

definition continue_provider_attempt ::
  "real \<Rightarrow> bool \<Rightarrow> 'a attempt_outcome \<Rightarrow> continuation_gate
     \<Rightarrow> 'a continuation_attempt result \<times> continuation_gate" where
  "continue_provider_attempt deadline_ms provider_present outcome g =
     (let none = \<lparr>ca_result = None, ca_retry_generation = None\<rparr> in
      if deadline_ms \<le> 0 \<or> \<not> provider_present then (Inr none, g)
      else case acquire_slot g of
        (Some generation, g) \<Rightarrow> (Inr (none\<lparr>ca_retry_generation := Some generation\<rparr>), g)
      | (None, g) \<Rightarrow>
          (case outcome of
             StartFails e \<Rightarrow> (Inl e, finish_continuation_slot g)
           | TimedOut \<Rightarrow> (Inr (none\<lparr>ca_retry_generation := Some (cg_generation g)\<rparr>), g)
           | Finished (Inl e) \<Rightarrow> (Inl e, finish_continuation_slot g)
           | Finished (Inr r) \<Rightarrow> (Inr (none\<lparr>ca_result := r\<rparr>), finish_continuation_slot g)))"

definition continue_bounded ::
  "real \<Rightarrow> bool \<Rightarrow> 'a attempt_outcome \<Rightarrow> continuation_gate \<Rightarrow> 'a option result \<times> continuation_gate" where
  "continue_bounded deadline_ms provider_present outcome g =
     (case continue_provider_attempt deadline_ms provider_present outcome g of
        (r, g) \<Rightarrow> (rbind r (\<lambda>a. Inr (ca_result a)), g))"

definition warm_candidate_continuation :: "bool \<Rightarrow> 'r option \<Rightarrow> bool \<Rightarrow> bool" where
  "warm_candidate_continuation provider_present continuation_root provider_answer =
     (if \<not> provider_present then True else if continuation_root = None then False else provider_answer)"

section \<open>The contract of a model backend\<close>

text \<open>
  What the coordinator relies on of a \<open>ModelBackend\<close>: an update issues a state that can be scored
  and is the latest; states stay usable across later updates; an invalidation revokes every state
  issued so far, for good.
\<close>

locale model_backend =
  fixes update :: "'i \<Rightarrow> 'b \<Rightarrow> 's result \<times> 'b"
    and invalidate :: "'b \<Rightarrow> 'b"
    and latest :: "'b \<Rightarrow> 's option"
    and valid :: "'s \<Rightarrow> 'b \<Rightarrow> bool"
    and stale :: "'s \<Rightarrow> 'b \<Rightarrow> bool"
  assumes update_issues: "update i b = (Inr s, b') \<Longrightarrow> valid s b' \<and> latest b' = Some s"
    and update_fails: "update i b = (Inl e, b') \<Longrightarrow> b' = b"
    and update_keeps: "valid s b \<Longrightarrow> valid s (snd (update i b))"
    and stale_update: "stale s b \<Longrightarrow> stale s (snd (update i b))"
    and stale_invalidate: "valid s b \<or> stale s b \<Longrightarrow> stale s (invalidate b)"
    and stale_invalid: "stale s b \<Longrightarrow> \<not> valid s b"
    and latest_invalidate: "latest (invalidate b) = None"
begin

fun run :: "'i option list \<Rightarrow> 'b \<Rightarrow> 'b" where
  "run [] b = b"
| "run (None # ops) b = run ops (invalidate b)"
| "run (Some i # ops) b = run ops (snd (update i b))"

lemma run_stale: "stale s b \<Longrightarrow> stale s (run ops b)"
  by (induction ops b rule: run.induct) (auto simp: stale_update stale_invalidate)

lemma revoked_iff: "valid s b \<Longrightarrow> valid s (run ops b) \<longleftrightarrow> None \<notin> set ops"
proof (induction ops b rule: run.induct)
  case (2 ops b)
  then have "stale s (run ops (invalidate b))" by (intro run_stale stale_invalidate) simp
  then show ?case using stale_invalid by simp
qed (auto simp: update_keeps)

lemma issued_iff:
  "update i b = (Inr s, b') \<Longrightarrow> valid s (run ops b') \<longleftrightarrow> None \<notin> set ops"
  using revoked_iff update_issues by blast

end

definition generation_stale :: "('p, 'r) backend_state \<Rightarrow> ('p, 'r) snapshot_backend \<Rightarrow> bool" where
  "generation_stale s b \<longleftrightarrow> bs_generation s < sb_generation b"

lemma publish_cases:
  assumes "publish snap payload (sb_generation b) lnorm now elapsed b = (r, b')"
  shows "\<exists>s. r = Inr s \<and> state_valid s b' \<and> sb_state b' = Some s \<and> bs_payload s = payload
     \<and> bs_log_normalizer s = lnorm \<and> bs_epoch s = sb_epoch b + 1
     \<and> sb_generation b' = sb_generation b \<and> sb_kind b' = sb_kind b \<and> sb_identity b' = sb_identity b"
  using assms by (auto simp: publish_def Let_def state_valid_def)

lemma full_update_cases:
  assumes "full_update_context answer now elapsed b = (r, b')"
  shows "(\<exists>e. r = Inl e \<and> b' = b)
    \<or> (\<exists>s snap. r = Inr s \<and> state_valid s b' \<and> sb_state b' = Some s \<and> answer = Inr snap
        \<and> rt_payload snap = Array1 (bs_payload s) \<and> bs_log_normalizer s = full_log_normalizer (bs_payload s)
        \<and> bs_epoch s = sb_epoch b + 1
        \<and> sb_generation b' = sb_generation b \<and> sb_kind b' = sb_kind b \<and> sb_identity b' = sb_identity b)"
  using assms
  by (auto simp: full_update_context_def full_logits_finish_def capture_generation_def
      split: sum.splits array.splits dest: publish_cases)

lemma sparse_update_cases:
  assumes "sparse_update_context answer now elapsed b = (r, b')"
  shows "(\<exists>e. r = Inl e \<and> b' = b)
    \<or> (\<exists>s. r = Inr s \<and> state_valid s b' \<and> sb_state b' = Some s
        \<and> sb_generation b' = sb_generation b \<and> sb_kind b' = sb_kind b \<and> sb_identity b' = sb_identity b)"
  using assms
  by (auto simp: sparse_update_context_def capture_generation_def Let_def
      split: sum.splits array.splits list.splits dest: publish_cases)

interpretation full: model_backend "\<lambda>(answer, now, elapsed). full_update_context answer now elapsed"
  invalidate_private_state latest_state state_valid generation_stale
proof (unfold_locales, goal_cases)
  case (1 i b s b')
  then show ?case by (cases i) (auto simp: latest_state_def dest: full_update_cases)
next
  case (2 i b e b')
  then show ?case by (cases i) (auto dest: full_update_cases)
next
  case (3 s b i)
  obtain r b' where u: "(\<lambda>(answer, now, elapsed). full_update_context answer now elapsed) i b = (r, b')" by fastforce
  then show ?case using 3 by (cases i) (auto simp: state_valid_def dest!: full_update_cases)
next
  case (4 s b i)
  obtain r b' where u: "(\<lambda>(answer, now, elapsed). full_update_context answer now elapsed) i b = (r, b')" by fastforce
  then show ?case using 4 by (cases i) (auto simp: generation_stale_def dest!: full_update_cases)
qed (auto simp: generation_stale_def state_valid_def invalidate_private_state_def latest_state_def)

interpretation sparse: model_backend "\<lambda>(answer, now, elapsed). sparse_update_context answer now elapsed"
  invalidate_private_state latest_state state_valid generation_stale
proof (unfold_locales, goal_cases)
  case (1 i b s b')
  then show ?case by (cases i) (auto simp: latest_state_def dest: sparse_update_cases)
next
  case (2 i b e b')
  then show ?case by (cases i) (auto dest: sparse_update_cases)
next
  case (3 s b i)
  obtain r b' where u: "(\<lambda>(answer, now, elapsed). sparse_update_context answer now elapsed) i b = (r, b')" by fastforce
  then show ?case using 3 by (cases i) (auto simp: state_valid_def dest!: sparse_update_cases)
next
  case (4 s b i)
  obtain r b' where u: "(\<lambda>(answer, now, elapsed). sparse_update_context answer now elapsed) i b = (r, b')" by fastforce
  then show ?case using 4 by (cases i) (auto simp: generation_stale_def dest!: sparse_update_cases)
qed (auto simp: generation_stale_def state_valid_def invalidate_private_state_def latest_state_def)

section \<open>Scores\<close>

lemma validated_token_ids_iff:
  "validated_token_ids ids n = Inr ts \<longleftrightarrow> list_all (\<lambda>t. 0 \<le> t \<and> t < int n) ids \<and> ts = map nat ids"
proof (cases "ids = []")
  case False
  then have "(Min (set ids) < 0 \<or> Max (set ids) \<ge> int n) \<longleftrightarrow> \<not> list_all (\<lambda>t. 0 \<le> t \<and> t < int n) ids"
    by (auto simp: list_all_iff Min_less_iff Max_ge_iff not_less not_le)
  with False show ?thesis by (auto simp: validated_token_ids_def)
qed (auto simp: validated_token_ids_def)

lemma exp_log_sum_exp:
  assumes "xs \<noteq> []"
  shows "exp (log_sum_exp xs) = (\<Sum>x \<leftarrow> xs. exp x)"
proof -
  let ?m = "Max (set xs)"
  have "0 < (\<Sum>x \<leftarrow> xs. exp (x - ?m))"
    using assms by (cases xs) (auto intro!: add_pos_nonneg sum_list_nonneg)
  then have "exp (log_sum_exp xs) = exp ?m * (\<Sum>x \<leftarrow> xs. exp (x - ?m))"
    by (simp add: log_sum_exp_def Let_def exp_add)
  also have "\<dots> = (\<Sum>x \<leftarrow> xs. exp ?m * exp (x - ?m))" by (simp add: sum_list_const_mult)
  also have "\<dots> = (\<Sum>x \<leftarrow> xs. exp x)" by (simp add: exp_diff)
  finally show ?thesis .
qed

section \<open>The gate loses no wake-up\<close>

datatype gate_op = Acquire | Finish | Register nat nat | Cancel nat

text \<open>Only a running continuation can finish.\<close>

fun gate_step :: "gate_op \<Rightarrow> continuation_gate \<Rightarrow> continuation_gate" where
  "gate_step Acquire g = snd (acquire_slot g)"
| "gate_step Finish g = (if cg_active g then finish_continuation_slot g else g)"
| "gate_step (Register generation event) g = register_continuation_idle_wait generation event g"
| "gate_step (Cancel event) g = cancel_continuation_idle_wait event g"

lemmas gate_defs = acquire_slot_def finish_continuation_slot_def register_continuation_idle_wait_def
  cancel_continuation_idle_wait_def

definition gate_ok :: "continuation_gate \<Rightarrow> bool" where
  "gate_ok g \<longleftrightarrow> (\<not> cg_active g \<longrightarrow> cg_waiters g = {})"

lemma gate_ok_step: "gate_ok g \<Longrightarrow> gate_ok (gate_step op g)"
  by (cases op) (auto simp: gate_ok_def gate_defs)

lemma gate_ok_fold: "gate_ok g \<Longrightarrow> gate_ok (fold gate_step ops g)"
  by (induction ops arbitrary: g) (auto simp: gate_ok_step)

definition served :: "nat \<Rightarrow> continuation_gate \<Rightarrow> bool" where
  "served event g \<longleftrightarrow> event \<in> cg_set_events g \<or> event \<in> cg_waiters g"

lemma served_fold:
  "served event g \<Longrightarrow> Cancel event \<notin> set ops \<Longrightarrow> served event (fold gate_step ops g)"
proof (induction ops arbitrary: g)
  case (Cons op ops)
  then have "served event (gate_step op g)" by (cases op) (auto simp: served_def gate_defs)
  with Cons show ?case by simp
qed simp

lemma served_register: "served event (register_continuation_idle_wait generation event g)"
  by (simp add: served_def gate_defs)

section \<open>Properties\<close>

text \<open>A history of the full-logits backend: \<open>None\<close> is an invalidation, \<open>Some\<close> an update.\<close>

fun full_history ::
  "((pyfloat array, 'r) runtime_snapshot result \<times> real \<times> real) option list \<Rightarrow> 'r full_backend \<Rightarrow> 'r full_backend" where
  "full_history [] b = b"
| "full_history (None # ops) b = full_history ops (invalidate_private_state b)"
| "full_history (Some (answer, now, elapsed) # ops) b =
     full_history ops (snd (full_update_context answer now elapsed b))"

lemma full_history_run: "full_history ops b = full.run ops b"
  by (induction ops b rule: full_history.induct) auto

lemma generation_mono: "sb_generation b \<le> sb_generation (full_history ops b)"
proof (induction ops b rule: full_history.induct)
  case (3 answer now elapsed ops b)
  have "sb_generation (snd (full_update_context answer now elapsed b)) = sb_generation b"
    using full_update_cases [of answer now elapsed b] by (cases "full_update_context answer now elapsed b") force
  with 3 show ?case by simp
qed (auto simp: invalidate_private_state_def intro: Suc_leD)

lemma generation_invalidated: "None \<in> set ops \<Longrightarrow> sb_generation b < sb_generation (full_history ops b)"
proof (induction ops b rule: full_history.induct)
  case (2 ops b)
  show ?case using generation_mono [of "invalidate_private_state b" ops] by (simp add: invalidate_private_state_def)
next
  case (3 answer now elapsed ops b)
  have "sb_generation (snd (full_update_context answer now elapsed b)) = sb_generation b"
    using full_update_cases [of answer now elapsed b] by (cases "full_update_context answer now elapsed b") force
  with 3 show ?case by simp
qed simp

text \<open>
  Claim C17. Invalidation revokes exactly: however many updates follow, a published state can be
  scored if and only if no invalidation has happened since, and then its scores are its own logits;
  a forward that was in flight across an invalidation publishes nothing.
\<close>

theorem invalidation_revokes:
  assumes "full_update_context answer now elapsed b = (Inr s, b')"
    and "list_all (\<lambda>t. 0 \<le> t \<and> t < int (length (bs_payload s))) ids"
  shows "full_score_allowed_tokens (full_history ops b') s ids =
      (if None \<in> set ops then Inl (RuntimeError ''stale state or state from another backend'')
       else Inr (map (\<lambda>t. bs_payload s ! nat t) ids))
    \<and> (None \<in> set ops \<longrightarrow> (\<forall>answer' now' elapsed'. \<exists>e.
         full_logits_finish (capture_generation b') answer' now' elapsed' (full_history ops b')
           = (Inl e, full_history ops b')))"
proof (intro conjI impI allI)
  have valid: "state_valid s (full_history ops b') \<longleftrightarrow> None \<notin> set ops"
    using full.issued_iff [of "(answer, now, elapsed)" b s b' ops] assms(1) by (simp add: full_history_run)
  have ids: "validated_token_ids ids (length (bs_payload s)) = Inr (map nat ids)"
    using assms(2) by (simp add: validated_token_ids_iff)
  show "full_score_allowed_tokens (full_history ops b') s ids =
      (if None \<in> set ops then Inl (RuntimeError ''stale state or state from another backend'')
       else Inr (map (\<lambda>t. bs_payload s ! nat t) ids))"
    by (simp add: full_score_allowed_tokens_def validate_state_def valid ids require_def)
next
  fix answer' now' elapsed'
  assume "None \<in> set ops"
  then have "capture_generation b' \<noteq> sb_generation (full_history ops b')"
    using generation_invalidated [of ops b'] by (simp add: capture_generation_def)
  then show "\<exists>e. full_logits_finish (capture_generation b') answer' now' elapsed' (full_history ops b')
           = (Inl e, full_history ops b')"
    by (simp add: full_logits_finish_def publish_def split: sum.splits array.splits)
qed

definition demo_answer :: "(pyfloat array, unit) runtime_snapshot result" where
  "demo_answer = Inr \<lparr>rt_payload = Array1 [Fin 0, Fin 1, NInf], rt_before_hash = [], rt_after_hash = [],
     rt_latency_ms = 0, rt_continuation_root = None\<rparr>"

definition demo_update :: "unit full_state result \<times> unit full_backend" where
  "demo_update = full_update_context demo_answer 0 0 (new_backend ''full_logits'' 7)"

theorem invalidation_revokes_witness:
  "full_score_allowed_tokens (snd demo_update) (projr (fst demo_update)) [1] = Inr [Fin 1]
   \<and> full_score_allowed_tokens (full_history [Some (demo_answer, 1, 0), None] (snd demo_update))
        (projr (fst demo_update)) [1] = Inl (RuntimeError ''stale state or state from another backend'')"
proof -
  have payload: "bs_payload (projr (fst demo_update)) = [Fin 0, Fin 1, NInf]"
    and "\<exists>s. fst demo_update = Inr s"
    by (simp_all add: demo_update_def demo_answer_def full_update_context_def full_logits_finish_def publish_def
        capture_generation_def Let_def)
  then have u: "full_update_context demo_answer 0 0 (new_backend ''full_logits'' 7)
      = (Inr (projr (fst demo_update)), snd demo_update)"
    by (auto simp: demo_update_def prod_eq_iff)
  have ids: "list_all (\<lambda>t. 0 \<le> t \<and> t < int (length (bs_payload (projr (fst demo_update))))) [1]"
    by (simp add: payload)
  from invalidation_revokes [OF u ids, of "[]"] invalidation_revokes [OF u ids, of "[Some (demo_answer, 1, 0), None]"]
  show ?thesis by (simp add: payload)
qed

text \<open>
  The scores of a sequence start are the log-probabilities of a softmax: over the whole
  vocabulary they sum to one, they preserve differences of logits, and the normaliser that a full
  update stores with its state is the one they are computed with.
\<close>

theorem sequence_start_is_softmax:
  assumes "full_update_context answer now elapsed b = (Inr s, b')"
    and "bs_payload s \<noteq> []" "list_all isfinite (bs_payload s)"
  shows "\<exists>scores z. score_allowed_sequence_start b' s (map int [0..<length (bs_payload s)]) = Inr scores
     \<and> bs_log_normalizer s = Some z \<and> length scores = length (bs_payload s)
     \<and> (\<forall>i < length scores. scores ! i = fin_val (bs_payload s ! i) - z)
     \<and> (\<Sum>x \<leftarrow> scores. exp x) = 1"
proof -
  let ?n = "length (bs_payload s)"
  let ?vals = "map fin_val (bs_payload s)"
  let ?scores = "map (\<lambda>t. ?vals ! t - log_sum_exp ?vals) [0..<?n]"
  have valid: "state_valid s b'" and norm: "bs_log_normalizer s = Some (log_sum_exp ?vals)"
    using full_update_cases [OF assms(1)] assms(2,3) by (auto simp: full_log_normalizer_def)
  have "validated_token_ids (map int [0..<?n]) ?n = Inr [0..<?n]"
    by (simp add: validated_token_ids_iff list_all_iff comp_def)
  then have score: "score_allowed_sequence_start b' s (map int [0..<?n]) = Inr ?scores"
    using assms(2) valid by (simp add: score_allowed_sequence_start_def validate_state_def require_def Let_def)
  have "(\<Sum>x \<leftarrow> ?scores. exp x) = (\<Sum>i \<leftarrow> [0..<?n]. exp (?vals ! i) * (1 / exp (log_sum_exp ?vals)))"
    by (simp add: exp_diff comp_def)
  also have "\<dots> = (\<Sum>i \<leftarrow> [0..<?n]. exp (?vals ! i)) * (1 / exp (log_sum_exp ?vals))"
    by (rule sum_list_mult_const)
  also have "(\<Sum>i \<leftarrow> [0..<?n]. exp (?vals ! i)) = (\<Sum>x \<leftarrow> ?vals. exp x)"
    using map_nth [of ?vals] by (metis (no_types, lifting) length_map list.map_comp comp_apply map_eq_conv)
  also have "\<dots> = exp (log_sum_exp ?vals)" using exp_log_sum_exp [of ?vals] assms(2) by simp
  finally have "(\<Sum>x \<leftarrow> ?scores. exp x) = 1" by simp
  with score norm show ?thesis by (intro exI [of _ ?scores] exI [of _ "log_sum_exp ?vals"]) auto
qed

definition demo_finite :: "unit full_state result \<times> unit full_backend" where
  "demo_finite = full_update_context (Inr \<lparr>rt_payload = Array1 [Fin 0, Fin 1], rt_before_hash = [],
     rt_after_hash = [], rt_latency_ms = 0, rt_continuation_root = None\<rparr>) 0 0 (new_backend ''full_logits'' 7)"

theorem sequence_start_is_softmax_witness:
  "\<exists>scores. score_allowed_sequence_start (snd demo_finite) (projr (fst demo_finite)) [0, 1] = Inr scores
     \<and> length scores = 2 \<and> (\<Sum>x \<leftarrow> scores. exp x) = 1"
proof -
  have payload: "bs_payload (projr (fst demo_finite)) = [Fin 0, Fin 1]" and "\<exists>s. fst demo_finite = Inr s"
    by (simp_all add: demo_finite_def full_update_context_def full_logits_finish_def publish_def
        capture_generation_def Let_def)
  then have u: "full_update_context (Inr \<lparr>rt_payload = Array1 [Fin 0, Fin 1], rt_before_hash = [],
      rt_after_hash = [], rt_latency_ms = 0, rt_continuation_root = None\<rparr>) 0 0 (new_backend ''full_logits'' 7)
      = (Inr (projr (fst demo_finite)), snd demo_finite)"
    by (auto simp: demo_finite_def prod_eq_iff)
  from sequence_start_is_softmax [OF u] show ?thesis by (auto simp: payload upt_rec)
qed

text \<open>
  Claim C30. A continuation slot loses no wake-up: after any history of the gate, a waiter registered
  for a generation and not cancelled is woken at once if that generation is over, and otherwise by
  the next release of the slot, whatever happens in between; and it is never left waiting on a free slot.
\<close>

theorem no_lost_wakeup:
  assumes "Cancel event \<notin> set later"
  shows "let g = fold gate_step later (register_continuation_idle_wait generation event (fold gate_step earlier idle_gate))
     in (event \<in> cg_set_events g \<or> event \<in> cg_waiters g \<and> cg_active g)
      \<and> (cg_active g \<longrightarrow> event \<in> cg_set_events (finish_continuation_slot g))
      \<and> (continuation_busy_generation (fold gate_step earlier idle_gate) \<noteq> Some generation \<longrightarrow> event \<in> cg_set_events g)"
proof -
  define g0 where "g0 = fold gate_step earlier idle_gate"
  define g1 where "g1 = register_continuation_idle_wait generation event g0"
  define g where "g = fold gate_step later g1"
  have ok0: "gate_ok g0" unfolding g0_def by (rule gate_ok_fold) (simp add: gate_ok_def idle_gate_def)
  then have "gate_ok g1" using gate_ok_step [of g0 "Register generation event"] by (simp add: g1_def)
  then have ok: "gate_ok g" unfolding g_def by (rule gate_ok_fold)
  have served: "served event g" unfolding g_def g1_def by (rule served_fold [OF served_register assms])
  have mono: "cg_set_events h \<subseteq> cg_set_events (fold gate_step ops h)" for ops h
  proof (induction ops arbitrary: h)
    case (Cons op ops)
    have "cg_set_events h \<subseteq> cg_set_events (gate_step op h)" by (cases op) (auto simp: gate_defs)
    with Cons [of "gate_step op h"] show ?case by auto
  qed simp
  have "event \<in> cg_set_events g1" if "continuation_busy_generation g0 \<noteq> Some generation"
    using that by (auto simp: g1_def gate_defs continuation_busy_generation_def split: if_splits)
  with mono [of g1 later] have "continuation_busy_generation g0 \<noteq> Some generation \<longrightarrow> event \<in> cg_set_events g"
    by (auto simp: g_def)
  then show ?thesis
    using served ok unfolding g0_def [symmetric] g1_def [symmetric] g_def [symmetric] Let_def
    by (auto simp: served_def gate_ok_def finish_continuation_slot_def)
qed

theorem no_lost_wakeup_witness:
  "let g = fold gate_step [Acquire, Finish] (register_continuation_idle_wait 0 5 (fold gate_step [Acquire] idle_gate))
   in 5 \<in> cg_set_events g \<or> 5 \<in> cg_waiters g \<and> cg_active g"
  using no_lost_wakeup [of 5 "[Acquire, Finish]" 0 "[Acquire]"] by (simp add: Let_def)

end
