(* ===== verification/Epoch_Publisher.thy ===== *)
theory Epoch_Publisher
  imports Prelude
begin

text \<open>
  The contract that \<open>SnapshotCoordinator\<close> and \<open>NeuralPinyinEngine\<close> share: requests take increasing
  epochs, a state becomes visible only under the epoch that is the newest request at that moment,
  and a reset takes an epoch that nothing is ever published under.  From it follows the barrier that
  secure focus relies on: once a reset has cleared the visible states, everything visible later
  was requested after it.
\<close>

text \<open>Epochs are positive, bounded by the newest one, and belong to one text or one reset.\<close>

definition epochs_disjoint :: "(nat \<Rightarrow> 'a option) \<Rightarrow> nat set \<Rightarrow> nat \<Rightarrow> bool" where
  "epochs_disjoint texts resets n \<longleftrightarrow> (\<forall>e \<in> dom texts \<union> resets. 0 < e \<and> e \<le> n) \<and> dom texts \<inter> resets = {}"

lemma epochs_add_text:
  assumes "epochs_disjoint texts resets n"
  shows "epochs_disjoint (texts(Suc n \<mapsto> x)) resets (Suc n) \<and> texts \<subseteq>\<^sub>m texts(Suc n \<mapsto> x)"
proof -
  have "Suc n \<notin> dom texts \<union> resets" using assms unfolding epochs_disjoint_def by (metis Suc_n_not_le_n)
  then show ?thesis using assms unfolding epochs_disjoint_def map_le_def by (auto simp del: domIff simp: le_SucI)
qed

lemma epochs_add_reset:
  assumes "epochs_disjoint texts resets n"
  shows "epochs_disjoint texts (insert (Suc n) resets) (Suc n)"
proof -
  have "Suc n \<notin> dom texts \<union> resets" using assms unfolding epochs_disjoint_def by (metis Suc_n_not_le_n)
  then show ?thesis using assms unfolding epochs_disjoint_def by (auto simp: le_SucI)
qed

locale epoch_publisher =
  fixes step :: "'s \<Rightarrow> 's \<Rightarrow> bool"
    and inv :: "'s \<Rightarrow> bool"
    and requested :: "'s \<Rightarrow> nat"
    and visible :: "'s \<Rightarrow> nat set"
    and resets :: "'s \<Rightarrow> nat set"
  assumes inv_step: "inv s \<Longrightarrow> step s t \<Longrightarrow> inv t"
    and requested_step: "inv s \<Longrightarrow> step s t \<Longrightarrow> requested s \<le> requested t"
    and resets_step: "inv s \<Longrightarrow> step s t \<Longrightarrow> resets s \<subseteq> resets t"
    and resets_bound: "inv s \<Longrightarrow> b \<in> resets s \<Longrightarrow> b \<le> requested s"
    and visible_step: "inv s \<Longrightarrow> step s t \<Longrightarrow> e \<in> visible t \<Longrightarrow> e \<in> visible s \<or> e = requested s \<and> e \<notin> resets s"
begin

lemma inv_steps: "step\<^sup>*\<^sup>* s t \<Longrightarrow> inv s \<Longrightarrow> inv t"
  by (induction rule: rtranclp_induct) (auto intro: inv_step)

lemma requested_steps: "step\<^sup>*\<^sup>* s t \<Longrightarrow> inv s \<Longrightarrow> requested s \<le> requested t"
  by (induction rule: rtranclp_induct) (auto intro: order_trans requested_step inv_steps)

lemma resets_steps: "step\<^sup>*\<^sup>* s t \<Longrightarrow> inv s \<Longrightarrow> resets s \<subseteq> resets t"
proof (induction rule: rtranclp_induct)
  case (step t u)
  then show ?case using resets_step [of t u] inv_steps [of s t] by blast
qed simp

lemma barrier:
  assumes "step\<^sup>*\<^sup>* s t" "inv s" "b \<in> resets s" "\<forall>e \<in> visible s. b < e"
  shows "\<forall>e \<in> visible t. b < e"
  using assms
proof (induction rule: rtranclp_induct)
  case (step t u)
  then have t: "inv t" "b \<in> resets t" "\<forall>e \<in> visible t. b < e"
    using inv_steps [OF step(1)] resets_steps [OF step(1)] by auto
  show ?case
  proof
    fix e
    assume "e \<in> visible u"
    then consider "e \<in> visible t" | "e = requested t" "e \<notin> resets t"
      using visible_step [OF t(1) step(2)] by blast
    then show "b < e"
      using t resets_bound [OF t(1,2)] by cases (auto simp: nat_less_le)
  qed
qed simp

end

end
