(* ===== verification/Realtime.thy ===== *)
theory Realtime
  imports Backends Epoch_Publisher
begin

text \<open>
  \<open>realtime.py\<close>: the coordinator that publishes only the newest requested backend state.  Each event
  is one critical section: a section under \<open>_request_lock\<close>, one under \<open>_state_lock\<close> (nested in the
  request lock for a publication), or one backend call made while holding \<open>_backend_update_lock\<close>.
  Any number of callers may run \<open>update_context\<close> and \<open>invalidate_private_state\<close> at once, next to the
  worker thread; events of different threads interleave freely.
\<close>

section \<open>The backend as the coordinator sees it\<close>

record ('b, 'p, 'r) model_api =
  api_update_context :: "pystr \<Rightarrow> pystr \<Rightarrow> 'b \<Rightarrow> ('p, 'r) backend_state result \<times> 'b"
  api_invalidate_private_state :: "'b \<Rightarrow> 'b"

section \<open>State\<close>

type_synonym context_request = "nat \<times> pystr \<times> pystr"

text \<open>Where the worker thread is; the forward and the publication run under the update lock.\<close>

datatype ('p, 'r) worker_pc = NoWorker | Polling | Waiting context_request
  | Forwarding context_request | Publishing nat "('p, 'r) backend_state" | Failed nat py_error

datatype ('p, 'r) caller_pc =
    UpdateWaiting context_request
  | UpdateForwarding context_request
  | UpdatePublishing nat "('p, 'r) backend_state"
  | UpdateReturned "('p, 'r) backend_state result"
  | ResetClearing nat
  | ResetWaiting nat
  | ResetReturned nat

datatype lock_owner = WorkerOwns | CallerOwns nat

record ('b, 'p, 'r) coordinator =
  co_backend :: 'b
  co_retained_states :: nat
  co_requested_epoch :: nat
  co_pending :: "context_request option"
  co_worker :: "('p, 'r) worker_pc"
  co_update_lock :: "lock_owner option"
  co_state :: "('p, 'r) backend_state option"
  co_states :: "(nat, ('p, 'r) backend_state) odict"
  co_last_refresh_error :: "py_error option"
  co_last_prewarm_error :: "py_error option"
  co_callers :: "nat \<Rightarrow> ('p, 'r) caller_pc option"
  co_texts :: "nat \<Rightarrow> (pystr \<times> pystr) option"
  co_resets :: "nat set"

text \<open>The last two fields only record history: the text of every request, the epochs of the resets.\<close>

definition new_coordinator :: "'b \<Rightarrow> nat \<Rightarrow> ('b, 'p, 'r) coordinator result" where
  "new_coordinator backend retained_states =
     (if retained_states < 1 then Inl (ValueError ''retained_states must be positive'')
      else Inr \<lparr>co_backend = backend, co_retained_states = retained_states, co_requested_epoch = 0,
                co_pending = None, co_worker = NoWorker, co_update_lock = None, co_state = None,
                co_states = [], co_last_refresh_error = None, co_last_prewarm_error = None,
                co_callers = Map.empty, co_texts = Map.empty, co_resets = {}\<rparr>)"

section \<open>Operations\<close>

definition retain :: "nat \<Rightarrow> (nat, 'v) odict \<Rightarrow> (nat, 'v) odict" where
  "retain n d = (let dropped = take (length d - n) (sort (od_keys d)) in filter (\<lambda>(k, v). k \<notin> set dropped) d)"

definition publish_state ::
  "('p, 'r) backend_state \<Rightarrow> ('b, 'p, 'r) coordinator \<Rightarrow> ('b, 'p, 'r) coordinator" where
  "publish_state state c = c\<lparr>co_state := Some state,
     co_states := retain (co_retained_states c) (od_set (bs_epoch state) state (co_states c))\<rparr>"

datatype coordinator_event =
    RequestUpdate pystr pystr
  | WorkerPoll | WorkerAcquire | WorkerForward | WorkerPublish | WorkerFail
  | BeginUpdate nat pystr pystr | AcquireUpdate nat | ForwardUpdate nat | PublishUpdate nat
  | BeginReset nat | ClearReset nat | WipeReset nat

definition caller_free :: "('p, 'r) caller_pc option \<Rightarrow> bool" where
  "caller_free pc = (case pc of None \<Rightarrow> True | Some (UpdateReturned _) \<Rightarrow> True | Some (ResetReturned _) \<Rightarrow> True | _ \<Rightarrow> False)"

fun coordinator_step ::
  "('b, 'p, 'r) model_api \<Rightarrow> coordinator_event \<Rightarrow> ('b, 'p, 'r) coordinator \<Rightarrow> ('b, 'p, 'r) coordinator option" where
  "coordinator_step api (RequestUpdate before after) c =
     (let e = co_requested_epoch c + 1 in
      Some (c\<lparr>co_requested_epoch := e, co_pending := Some (e, before, after),
              co_worker := (case co_worker c of NoWorker \<Rightarrow> Polling | w \<Rightarrow> w),
              co_texts := (co_texts c)(e \<mapsto> (before, after))\<rparr>))"
| "coordinator_step api WorkerPoll c = (case co_worker c of
       Polling \<Rightarrow> (case co_pending c of
           None \<Rightarrow> Some (c\<lparr>co_worker := NoWorker\<rparr>)
         | Some r \<Rightarrow> Some (c\<lparr>co_pending := None, co_worker := Waiting r\<rparr>))
     | _ \<Rightarrow> None)"
| "coordinator_step api WorkerAcquire c = (case co_worker c of
       Waiting (e, before, after) \<Rightarrow>
         if co_update_lock c \<noteq> None then None
         else if e \<noteq> co_requested_epoch c then Some (c\<lparr>co_worker := Polling\<rparr>)
         else Some (c\<lparr>co_worker := Forwarding (e, before, after), co_update_lock := Some WorkerOwns\<rparr>)
     | _ \<Rightarrow> None)"
| "coordinator_step api WorkerForward c = (case co_worker c of
       Forwarding (e, before, after) \<Rightarrow>
         (case api_update_context api before after (co_backend c) of
            (Inl err, b) \<Rightarrow> Some (c\<lparr>co_backend := b, co_worker := Failed e err, co_update_lock := None\<rparr>)
          | (Inr state, b) \<Rightarrow> Some (c\<lparr>co_backend := b, co_worker := Publishing e (state\<lparr>bs_epoch := e\<rparr>)\<rparr>))
     | _ \<Rightarrow> None)"
| "coordinator_step api WorkerPublish c = (case co_worker c of
       Publishing e state \<Rightarrow>
         let c = c\<lparr>co_worker := Polling, co_update_lock := None\<rparr> in
         if e \<noteq> co_requested_epoch c then Some c
         else Some (publish_state state (c\<lparr>co_last_refresh_error := None, co_last_prewarm_error := None\<rparr>))
     | _ \<Rightarrow> None)"
| "coordinator_step api WorkerFail c = (case co_worker c of
       Failed e err \<Rightarrow>
         let c = c\<lparr>co_worker := Polling\<rparr> in
         if e = co_requested_epoch c then Some (c\<lparr>co_last_refresh_error := Some err\<rparr>) else Some c
     | _ \<Rightarrow> None)"
| "coordinator_step api (BeginUpdate t before after) c =
     (if \<not> caller_free (co_callers c t) then None
      else let e = co_requested_epoch c + 1 in
        Some (c\<lparr>co_requested_epoch := e, co_callers := (co_callers c)(t \<mapsto> UpdateWaiting (e, before, after)),
                co_texts := (co_texts c)(e \<mapsto> (before, after))\<rparr>))"
| "coordinator_step api (AcquireUpdate t) c = (case co_callers c t of
       Some (UpdateWaiting (e, before, after)) \<Rightarrow>
         if co_update_lock c \<noteq> None then None
         else if e \<noteq> co_requested_epoch c
         then Some (c\<lparr>co_callers := (co_callers c)(t \<mapsto>
                UpdateReturned (Inl (RuntimeError ''context update was invalidated before execution'')))\<rparr>)
         else Some (c\<lparr>co_callers := (co_callers c)(t \<mapsto> UpdateForwarding (e, before, after)),
                      co_update_lock := Some (CallerOwns t)\<rparr>)
     | _ \<Rightarrow> None)"
| "coordinator_step api (ForwardUpdate t) c = (case co_callers c t of
       Some (UpdateForwarding (e, before, after)) \<Rightarrow>
         (case api_update_context api before after (co_backend c) of
            (Inl err, b) \<Rightarrow> Some (c\<lparr>co_backend := b, co_update_lock := None,
                co_callers := (co_callers c)(t \<mapsto> UpdateReturned (Inl err))\<rparr>)
          | (Inr state, b) \<Rightarrow> Some (c\<lparr>co_backend := b,
                co_callers := (co_callers c)(t \<mapsto> UpdatePublishing e (state\<lparr>bs_epoch := e\<rparr>))\<rparr>))
     | _ \<Rightarrow> None)"
| "coordinator_step api (PublishUpdate t) c = (case co_callers c t of
       Some (UpdatePublishing e state) \<Rightarrow>
         let c = c\<lparr>co_update_lock := None\<rparr> in
         if e \<noteq> co_requested_epoch c
         then Some (c\<lparr>co_callers := (co_callers c)(t \<mapsto>
                UpdateReturned (Inl (RuntimeError ''context update was invalidated before publication'')))\<rparr>)
         else Some (publish_state state (c\<lparr>co_last_prewarm_error := None,
                co_callers := (co_callers c)(t \<mapsto> UpdateReturned (Inr state))\<rparr>))
     | _ \<Rightarrow> None)"
| "coordinator_step api (BeginReset t) c =
     (if \<not> caller_free (co_callers c t) then None
      else let e = co_requested_epoch c + 1 in
        Some (c\<lparr>co_requested_epoch := e, co_pending := None, co_last_prewarm_error := None,
                co_callers := (co_callers c)(t \<mapsto> ResetClearing e), co_resets := insert e (co_resets c)\<rparr>))"
| "coordinator_step api (ClearReset t) c = (case co_callers c t of
       Some (ResetClearing e) \<Rightarrow>
         Some (c\<lparr>co_state := None, co_states := [], co_callers := (co_callers c)(t \<mapsto> ResetWaiting e)\<rparr>)
     | _ \<Rightarrow> None)"
| "coordinator_step api (WipeReset t) c = (case co_callers c t of
       Some (ResetWaiting e) \<Rightarrow>
         if co_update_lock c \<noteq> None then None
         else Some (c\<lparr>co_backend := api_invalidate_private_state api (co_backend c),
                      co_callers := (co_callers c)(t \<mapsto> ResetReturned e)\<rparr>)
     | _ \<Rightarrow> None)"

text \<open>Reads, each under the state lock.\<close>

definition coordinator_latest_state :: "('b, 'p, 'r) coordinator \<Rightarrow> ('p, 'r) backend_state option" where
  "coordinator_latest_state c = co_state c"

definition state_for_epoch :: "('b, 'p, 'r) coordinator \<Rightarrow> nat \<Rightarrow> ('p, 'r) backend_state option" where
  "state_for_epoch c epoch = map_of (co_states c) epoch"

definition coordinator_context_epoch :: "('b, 'p, 'r) coordinator \<Rightarrow> nat" where
  "coordinator_context_epoch c = (case co_state c of None \<Rightarrow> 0 | Some s \<Rightarrow> bs_epoch s)"

definition coordinator_query ::
  "(pystr \<Rightarrow> pystr \<Rightarrow> ('p, 'r) backend_state option \<Rightarrow> pystr \<Rightarrow> nat \<Rightarrow> 'a) \<Rightarrow> ('b, 'p, 'r) coordinator
     \<Rightarrow> pystr \<Rightarrow> pystr \<Rightarrow> pystr \<Rightarrow> nat \<Rightarrow> 'a" where
  "coordinator_query engine_query c before raw_keys after_text limit =
     engine_query before raw_keys (co_state c) after_text limit"

record coordinator_diagnostics =
  cd_context_epoch :: nat
  cd_requested_context_epoch :: nat
  cd_snapshot_age_ms :: "real option"
  cd_last_refresh_error :: "py_error option"
  cd_last_prewarm_error :: "py_error option"

definition coordinator_diagnostics_of :: "real \<Rightarrow> ('b, 'p, 'r) coordinator \<Rightarrow> coordinator_diagnostics" where
  "coordinator_diagnostics_of now c =
     \<lparr>cd_context_epoch = coordinator_context_epoch c, cd_requested_context_epoch = co_requested_epoch c,
      cd_snapshot_age_ms = (case co_state c of None \<Rightarrow> None
        | Some s \<Rightarrow> Some (max 0 ((now - bs_created_monotonic s) * 1000))),
      cd_last_refresh_error = co_last_refresh_error c, cd_last_prewarm_error = co_last_prewarm_error c\<rparr>"

text \<open>Exceptions of the classes \<open>OSError\<close>, \<open>TimeoutError\<close> and \<open>ValueError\<close> (with its subclasses) are absorbed.\<close>

definition service_absorbs :: "py_error \<Rightarrow> bool" where
  "service_absorbs e = (case e of ValueError _ \<Rightarrow> True | PinyinInputError _ \<Rightarrow> True | ProtocolError _ \<Rightarrow> True
     | CandidatePageError _ \<Rightarrow> True
     | QwenImeWireError _ \<Rightarrow> True | QwenImeProtocolError _ \<Rightarrow> True | UnicodeError \<Rightarrow> True
     | CandidatePageTimeout _ \<Rightarrow> True | _ \<Rightarrow> False)"

definition safe_service_query :: "(real \<Rightarrow> 'a list result) \<Rightarrow> real \<Rightarrow> 'a list result" where
  "safe_service_query query deadline_ms =
     (if deadline_ms \<le> 0 then Inr []
      else case query deadline_ms of
        Inl e \<Rightarrow> if service_absorbs e then Inr [] else Inl e
      | Inr xs \<Rightarrow> Inr xs)"

section \<open>Invariants\<close>

inductive coordinator_moves ::
  "('b, 'p, 'r) model_api \<Rightarrow> ('b, 'p, 'r) coordinator \<Rightarrow> ('b, 'p, 'r) coordinator \<Rightarrow> bool" for api where
  "coordinator_step api ev c = Some c' \<Longrightarrow> coordinator_moves api c c'"

inductive_cases coordinator_movesE: "coordinator_moves api c c'"

text \<open>A state published under epoch \<open>k\<close> is the backend's answer to the text requested at \<open>k\<close>.\<close>

definition answers ::
  "('b, 'p, 'r) model_api \<Rightarrow> ('b, 'p, 'r) coordinator \<Rightarrow> nat \<Rightarrow> ('p, 'r) backend_state \<Rightarrow> bool" where
  "answers api c k s \<longleftrightarrow> bs_epoch s = k \<and> (\<exists>before after b s0 b'. co_texts c k = Some (before, after)
     \<and> api_update_context api before after b = (Inr s0, b') \<and> s = s0\<lparr>bs_epoch := k\<rparr>)"

definition asked :: "('b, 'p, 'r) coordinator \<Rightarrow> context_request \<Rightarrow> bool" where
  "asked c r \<longleftrightarrow> (case r of (e, before, after) \<Rightarrow> co_texts c e = Some (before, after))"

definition epochs_ok :: "('b, 'p, 'r) coordinator \<Rightarrow> bool" where
  "epochs_ok c \<longleftrightarrow> epochs_disjoint (co_texts c) (co_resets c) (co_requested_epoch c)"

fun worker_ok :: "('b, 'p, 'r) model_api \<Rightarrow> ('b, 'p, 'r) coordinator \<Rightarrow> ('p, 'r) worker_pc \<Rightarrow> bool" where
  "worker_ok api c (Waiting r) = asked c r"
| "worker_ok api c (Forwarding r) = asked c r"
| "worker_ok api c (Publishing e s) = answers api c e s"
| "worker_ok api c _ = True"

fun caller_ok :: "('b, 'p, 'r) model_api \<Rightarrow> ('b, 'p, 'r) coordinator \<Rightarrow> ('p, 'r) caller_pc \<Rightarrow> bool" where
  "caller_ok api c (UpdateWaiting r) = asked c r"
| "caller_ok api c (UpdateForwarding r) = asked c r"
| "caller_ok api c (UpdatePublishing e s) = answers api c e s"
| "caller_ok api c (ResetClearing e) = (e \<in> co_resets c)"
| "caller_ok api c (ResetWaiting e) = (e \<in> co_resets c)"
| "caller_ok api c (ResetReturned e) = (e \<in> co_resets c)"
| "caller_ok api c (UpdateReturned _) = True"

definition tasks_ok :: "('b, 'p, 'r) model_api \<Rightarrow> ('b, 'p, 'r) coordinator \<Rightarrow> bool" where
  "tasks_ok api c \<longleftrightarrow> (\<forall>r. co_pending c = Some r \<longrightarrow> asked c r \<and> co_worker c \<noteq> NoWorker)
     \<and> worker_ok api c (co_worker c) \<and> (\<forall>t pc. co_callers c t = Some pc \<longrightarrow> caller_ok api c pc)"

definition store_ok :: "('b, 'p, 'r) model_api \<Rightarrow> ('b, 'p, 'r) coordinator \<Rightarrow> bool" where
  "store_ok api c \<longleftrightarrow> 1 \<le> co_retained_states c \<and> od_ok (co_states c)
     \<and> length (co_states c) \<le> co_retained_states c
     \<and> (\<forall>(k, s) \<in> set (co_states c). answers api c k s)
     \<and> (case co_state c of None \<Rightarrow> co_states c = []
        | Some s \<Rightarrow> map_of (co_states c) (bs_epoch s) = Some s \<and> (\<forall>k \<in> fst ` set (co_states c). k \<le> bs_epoch s))"

definition coordinator_ok :: "('b, 'p, 'r) model_api \<Rightarrow> ('b, 'p, 'r) coordinator \<Rightarrow> bool" where
  "coordinator_ok api c \<longleftrightarrow> epochs_ok c \<and> tasks_ok api c \<and> store_ok api c"

text \<open>Nothing that was requested is forgotten by a step: only new texts and resets are recorded.\<close>

definition grows :: "('b, 'p, 'r) coordinator \<Rightarrow> ('b, 'p, 'r) coordinator \<Rightarrow> bool" where
  "grows c c' \<longleftrightarrow> co_texts c \<subseteq>\<^sub>m co_texts c' \<and> co_resets c \<subseteq> co_resets c' \<and> co_requested_epoch c \<le> co_requested_epoch c'"

lemma grows_refl [simp]: "co_texts c' = co_texts c \<Longrightarrow> co_resets c' = co_resets c \<Longrightarrow>
    co_requested_epoch c' = co_requested_epoch c \<Longrightarrow> grows c c'"
  by (simp add: grows_def)

lemma grows_asked: "grows c c' \<Longrightarrow> asked c r \<Longrightarrow> asked c' r"
  by (auto simp: grows_def asked_def map_le_def dom_def split: prod.splits)

lemma grows_answers: "grows c c' \<Longrightarrow> answers api c k s \<Longrightarrow> answers api c' k s"
  by (fastforce simp: grows_def answers_def map_le_def dom_def)

lemma grows_worker: "grows c c' \<Longrightarrow> worker_ok api c w \<Longrightarrow> worker_ok api c' w"
  by (cases w) (auto simp: grows_asked grows_answers)

lemma grows_caller: "grows c c' \<Longrightarrow> caller_ok api c pc \<Longrightarrow> caller_ok api c' pc"
  by (cases pc) (auto simp: grows_asked grows_answers, auto simp: grows_def)

lemma publish_state_fields [simp]:
  "co_texts (publish_state s c) = co_texts c" "co_resets (publish_state s c) = co_resets c"
  "co_requested_epoch (publish_state s c) = co_requested_epoch c" "co_worker (publish_state s c) = co_worker c"
  "co_callers (publish_state s c) = co_callers c" "co_pending (publish_state s c) = co_pending c"
  "co_retained_states (publish_state s c) = co_retained_states c" "co_update_lock (publish_state s c) = co_update_lock c"
  "co_state (publish_state s c) = Some s" "co_backend (publish_state s c) = co_backend c"
  by (simp_all add: publish_state_def)

lemma step_grows:
  assumes "coordinator_step api ev c = Some c'" "epochs_ok c"
  shows "grows c c' \<and> epochs_ok c'"
proof -
  note fresh = epochs_add_text [OF assms(2) [unfolded epochs_ok_def]] epochs_add_reset [OF assms(2) [unfolded epochs_ok_def]]
  from assms(1) show ?thesis
  proof (cases ev)
    case (RequestUpdate before after)
    with assms(1) fresh show ?thesis by (auto simp: Let_def grows_def epochs_ok_def)
  next
    case (BeginUpdate t before after)
    with assms(1) fresh show ?thesis by (auto simp: Let_def grows_def epochs_ok_def split: if_splits)
  next
    case (BeginReset t)
    with assms(1) fresh show ?thesis by (auto simp: Let_def grows_def epochs_ok_def split: if_splits)
  qed (use assms in \<open>auto simp: Let_def epochs_ok_def split: worker_pc.splits caller_pc.splits option.splits
         if_splits prod.splits sum.splits\<close>)
qed

lemma answers_new:
  "co_texts c e = Some (before, after) \<Longrightarrow> fst (api_update_context api before after b) = Inr s
     \<Longrightarrow> co_texts c' = co_texts c \<Longrightarrow> answers api c' e (s\<lparr>bs_epoch := e\<rparr>)"
  by (cases "api_update_context api before after b") (auto simp: answers_def)

lemma asked_same: "co_texts c' = co_texts c \<Longrightarrow> asked c' r = asked c r"
  by (simp add: asked_def)

lemma step_worker:
  assumes "coordinator_step api ev c = Some c'" "coordinator_ok api c"
  shows "worker_ok api c' (co_worker c') \<and> (\<forall>r. co_pending c' = Some r \<longrightarrow> asked c' r \<and> co_worker c' \<noteq> NoWorker)"
proof -
  have g: "grows c c'" using step_grows [OF assms(1)] assms(2) by (simp add: coordinator_ok_def)
  have t: "tasks_ok api c" using assms(2) by (simp add: coordinator_ok_def)
  then have w: "worker_ok api c' (co_worker c)" and p: "\<forall>r. co_pending c = Some r \<longrightarrow> asked c' r \<and> co_worker c \<noteq> NoWorker"
    using grows_worker [OF g] grows_asked [OF g] by (auto simp: tasks_ok_def)
  from assms(1) show ?thesis
  proof (cases ev)
    case (RequestUpdate before after)
    with assms(1) w p show ?thesis by (auto simp: Let_def asked_def split: worker_pc.splits)
  next
    case WorkerForward
    with assms(1) obtain e before after where pc: "co_worker c = Forwarding (e, before, after)"
      by (auto split: worker_pc.splits)
    then have "co_texts c e = Some (before, after)" using t by (simp add: tasks_ok_def asked_def)
    from answers_new [OF this, of api "co_backend c"] assms(1) pc p WorkerForward show ?thesis
      by (cases "api_update_context api before after (co_backend c)") (auto simp: asked_def split: sum.splits)
  qed (use assms(1) w p in \<open>auto simp: Let_def split: worker_pc.splits caller_pc.splits option.splits
         if_splits prod.splits sum.splits\<close>)
qed

lemma step_callers:
  assumes "coordinator_step api ev c = Some c'" "coordinator_ok api c" "co_callers c' t = Some pc"
  shows "caller_ok api c' pc"
proof (cases "co_callers c t = Some pc")
  case True
  then have "caller_ok api c pc" using assms(2) by (simp add: coordinator_ok_def tasks_ok_def)
  then show ?thesis
    using grows_caller step_grows [OF assms(1)] assms(2) by (auto simp: coordinator_ok_def)
next
  case False
  have t: "\<And>u pc. co_callers c u = Some pc \<Longrightarrow> caller_ok api c pc"
    using assms(2) by (simp add: coordinator_ok_def tasks_ok_def)
  then have tt: "\<forall>pc. co_callers c t = Some pc \<longrightarrow> caller_ok api c pc" by simp
  show ?thesis
  proof (cases ev)
    case (ForwardUpdate u)
    with assms(1) obtain e before after where pc: "co_callers c u = Some (UpdateForwarding (e, before, after))"
      by (auto split: caller_pc.splits option.splits)
    then have "co_texts c e = Some (before, after)" using t [OF pc] by (simp add: asked_def)
    from answers_new [OF this, of api "co_backend c"] False assms(1,3) pc ForwardUpdate show ?thesis
      by (cases "api_update_context api before after (co_backend c)") (auto split: sum.splits if_splits)
  qed (use False assms(1,3) tt in \<open>auto simp: Let_def asked_def split: worker_pc.splits caller_pc.splits option.splits
         if_splits prod.splits sum.splits\<close>)
qed

section \<open>The retained states\<close>

lemma od_keys_filter: "od_keys (filter (\<lambda>(k, v). P k) d) = filter P (od_keys d)"
  by (induction d) auto

lemma retain_keys:
  assumes "od_ok d"
  shows "set (od_keys (retain n d)) = set (drop (length d - n) (sort (od_keys d)))" "od_ok (retain n d)"
    and "length (retain n d) = min n (length d)"
proof -
  let ?ks = "sort (od_keys d)"
  let ?m = "length d - n"
  have dist: "distinct ?ks" using assms by (simp add: od_ok_def)
  have keys: "od_keys (retain n d) = filter (\<lambda>k. k \<notin> set (take ?m ?ks)) (od_keys d)"
    by (simp add: retain_def od_keys_filter)
  have "set ?ks = set (take ?m ?ks) \<union> set (drop ?m ?ks)" by (metis append_take_drop_id set_append)
  moreover have "set (take ?m ?ks) \<inter> set (drop ?m ?ks) = {}" using dist by (simp add: set_take_disj_set_drop_if_distinct)
  ultimately show set_keys: "set (od_keys (retain n d)) = set (drop ?m ?ks)" by (auto simp: keys)
  show ok: "od_ok (retain n d)" using assms unfolding od_ok_def keys by simp
  have "length (retain n d) = card (set (od_keys (retain n d)))"
    using ok by (metis distinct_card length_map od_ok_def)
  also have "\<dots> = length (drop ?m ?ks)" unfolding set_keys using dist by (simp add: distinct_card)
  finally show "length (retain n d) = min n (length d)" by auto
qed

lemma retain_subset: "set (retain n d) \<subseteq> set d"
  by (auto simp: retain_def Let_def)

lemma retain_newest:
  assumes "od_ok d" "1 \<le> n" "map_of d k = Some v" "\<forall>j \<in> fst ` set d. j \<le> k"
  shows "map_of (retain n d) k = Some v"
proof -
  let ?ks = "sort (od_keys d)"
  have k: "k \<in> set ?ks" using assms(3) by (auto dest: map_of_SomeD intro: rev_image_eqI)
  then have ne: "?ks \<noteq> []" and pos: "0 < length d" by (auto simp del: set_sort)
  have "last ?ks \<le> k" using ne assms(4) last_in_set [OF ne] by auto
  moreover have "k \<le> last ?ks" using k sorted_sort by (rule sorted_le_last [rotated])
  ultimately have last: "last ?ks = k" by simp
  have "last (drop (length d - n) ?ks) = last ?ks" "drop (length d - n) ?ks \<noteq> []"
    using pos assms(2) by (simp_all add: not_le)
  then have "k \<in> set (drop (length d - n) ?ks)" using last by (metis last_in_set)
  then have "k \<in> fst ` set (retain n d)" using retain_keys(1) [OF assms(1), of n] by simp
  then obtain w where "(k, w) \<in> set (retain n d)" by auto
  moreover have "w = v" using assms(1,3) retain_subset calculation by (metis map_of_is_SomeI od_ok_def option.inject subsetD)
  ultimately show ?thesis using retain_keys(2) [OF assms(1), of n] by (simp add: od_ok_def)
qed

lemma publish_store_ok:
  assumes "store_ok api c" "answers api c e s" "\<forall>k \<in> fst ` set (co_states c). k \<le> e"
  shows "store_ok api (publish_state s c)"
proof -
  have e: "bs_epoch s = e" using assms(2) by (simp add: answers_def)
  let ?d = "od_set e s (co_states c)"
  have ok: "od_ok ?d" "1 \<le> co_retained_states c" using assms(1) by (auto simp: store_ok_def)
  have sub: "set (retain (co_retained_states c) ?d) \<subseteq> insert (e, s) (set (co_states c))"
    using retain_subset set_od_set_subset by (rule order_trans)
  have new: "map_of (retain (co_retained_states c) ?d) e = Some s"
    using ok assms(3) by (intro retain_newest) (auto simp: map_of_od_set)
  have same: "answers api (publish_state s c) k v = answers api c k v" for k v by (simp add: answers_def)
  show ?thesis
    using assms(1,2,3) sub new retain_keys(2,3) [OF ok(1), of "co_retained_states c"] e same
    unfolding store_ok_def by (fastforce simp: publish_state_def)
qed

lemma states_bounded:
  assumes "coordinator_ok api c" "k \<in> fst ` set (co_states c)"
  shows "k \<le> co_requested_epoch c \<and> k \<in> dom (co_texts c)"
proof -
  from assms have "k \<in> dom (co_texts c)" by (auto simp: coordinator_ok_def store_ok_def answers_def)
  with assms(1) show ?thesis by (auto simp: coordinator_ok_def epochs_ok_def epochs_disjoint_def)
qed

lemma grows_store:
  assumes "grows c c'" "store_ok api c" "co_states c' = co_states c" "co_state c' = co_state c"
    "co_retained_states c' = co_retained_states c"
  shows "store_ok api c'"
  using assms(2) grows_answers [OF assms(1)] by (cases "co_state c") (auto simp: store_ok_def assms(3-5))

text \<open>A step either leaves the store alone, clears it, or publishes the newest request.\<close>

lemma step_store:
  assumes "coordinator_step api ev c = Some c'" "coordinator_ok api c"
  shows "co_retained_states c' = co_retained_states c \<and>
    (co_states c' = co_states c \<and> co_state c' = co_state c
     \<or> co_states c' = [] \<and> co_state c' = None
     \<or> (\<exists>s c1. answers api c1 (co_requested_epoch c) s \<and> c' = publish_state s c1
         \<and> co_states c1 = co_states c \<and> co_state c1 = co_state c \<and> co_retained_states c1 = co_retained_states c
         \<and> co_texts c1 = co_texts c))"
proof (cases "ev = WorkerPublish \<or> (\<exists>t. ev = PublishUpdate t)")
  case True
  then consider "ev = WorkerPublish" | t where "ev = PublishUpdate t" by blast
  then show ?thesis
  proof cases
    case 1
    with assms(1) obtain e s where pc: "co_worker c = Publishing e s" by (auto split: worker_pc.splits)
    then have "answers api c e s" using assms(2) by (simp add: coordinator_ok_def tasks_ok_def)
    then have "answers api (c\<lparr>co_worker := Polling, co_update_lock := None, co_last_refresh_error := None,
        co_last_prewarm_error := None\<rparr>) e s" by (simp add: answers_def)
    with 1 pc assms(1) show ?thesis by (fastforce simp: Let_def split: if_splits)
  next
    case 2
    with assms(1) obtain e s where pc: "co_callers c t = Some (UpdatePublishing e s)"
      by (auto split: caller_pc.splits option.splits)
    then have "answers api c e s" using assms(2) by (force simp: coordinator_ok_def tasks_ok_def)
    then have "answers api (c\<lparr>co_update_lock := None, co_last_prewarm_error := None,
        co_callers := (co_callers c)(t \<mapsto> UpdateReturned (Inr s))\<rparr>) e s" by (simp add: answers_def)
    with 2 pc assms(1) show ?thesis by (fastforce simp: Let_def split: if_splits)
  qed
next
  case False
  with assms(1) show ?thesis
    by (cases ev) (auto simp: Let_def split: worker_pc.splits caller_pc.splits option.splits
         if_splits prod.splits sum.splits)
qed

lemma step_store_ok:
  assumes "coordinator_step api ev c = Some c'" "coordinator_ok api c"
  shows "store_ok api c'"
proof -
  have g: "grows c c'" using step_grows [OF assms(1)] assms(2) by (simp add: coordinator_ok_def)
  have st: "store_ok api c" using assms(2) by (simp add: coordinator_ok_def)
  from step_store [OF assms] consider
    "co_states c' = co_states c" "co_state c' = co_state c" "co_retained_states c' = co_retained_states c"
  | "co_states c' = []" "co_state c' = None" "co_retained_states c' = co_retained_states c"
  | s c1 where "answers api c1 (co_requested_epoch c) s" "c' = publish_state s c1"
      "co_states c1 = co_states c" "co_state c1 = co_state c" "co_retained_states c1 = co_retained_states c"
      "co_texts c1 = co_texts c"
    by (elim conjE disjE exE) simp_all
  then show ?thesis
  proof cases
    case 1
    then show ?thesis using grows_store [OF g st] by simp
  next
    case 2
    then show ?thesis using st by (simp add: store_ok_def)
  next
    case 3
    then have "store_ok api c1" using st by (cases "co_state c") (auto simp: store_ok_def answers_def)
    moreover have "\<forall>k \<in> fst ` set (co_states c1). k \<le> co_requested_epoch c"
      using states_bounded [OF assms(2)] 3(3) by simp
    ultimately show ?thesis using publish_store_ok 3(1,2) by blast
  qed
qed

lemma step_ok:
  assumes "coordinator_step api ev c = Some c'" "coordinator_ok api c"
  shows "coordinator_ok api c'"
  using step_grows [OF assms(1)] step_store_ok [OF assms] step_worker [OF assms] step_callers [OF assms] assms(2)
  by (auto simp: coordinator_ok_def tasks_ok_def)

lemma new_coordinator_ok: "new_coordinator backend n = Inr c \<Longrightarrow> coordinator_ok api c"
  by (auto simp: new_coordinator_def coordinator_ok_def epochs_ok_def epochs_disjoint_def tasks_ok_def store_ok_def
      split: if_splits)

interpretation coordinator: epoch_publisher "coordinator_moves api" "coordinator_ok api" co_requested_epoch
  "\<lambda>c. fst ` set (co_states c)" co_resets for api :: "('b, 'p, 'r) model_api"
proof unfold_locales
  fix c c' :: "('b, 'p, 'r) coordinator" and b e
  assume ok: "coordinator_ok api c"
  show "b \<le> co_requested_epoch c" if "b \<in> co_resets c"
    using ok that by (auto simp: coordinator_ok_def epochs_ok_def epochs_disjoint_def)
  assume "coordinator_moves api c c'"
  then obtain ev where st: "coordinator_step api ev c = Some c'" by (rule coordinator_movesE)
  show "coordinator_ok api c'" using step_ok [OF st ok] .
  show "co_requested_epoch c \<le> co_requested_epoch c'" "co_resets c \<subseteq> co_resets c'"
    using step_grows [OF st] ok by (auto simp: coordinator_ok_def grows_def)
  assume e: "e \<in> fst ` set (co_states c')"
  from step_store [OF st ok] show "e \<in> fst ` set (co_states c) \<or> e = co_requested_epoch c \<and> e \<notin> co_resets c"
  proof (elim conjE disjE exE)
    fix s c1
    assume a: "answers api c1 (co_requested_epoch c) s" "c' = publish_state s c1" "co_states c1 = co_states c"
      "co_texts c1 = co_texts c"
    then have "co_requested_epoch c \<in> dom (co_texts c)" by (auto simp: answers_def)
    then have "co_requested_epoch c \<notin> co_resets c"
      using ok by (auto simp: coordinator_ok_def epochs_ok_def epochs_disjoint_def)
    moreover have "e = co_requested_epoch c \<or> e \<in> fst ` set (co_states c)"
    proof -
      have "bs_epoch s = co_requested_epoch c" using a(1) by (simp add: answers_def)
      then show ?thesis
        using e a(2,3) retain_subset [of "co_retained_states c1" "od_set (bs_epoch s) s (co_states c1)"]
          set_od_set_subset [of "bs_epoch s" s "co_states c1"]
        by (fastforce simp: publish_state_def)
    qed
    ultimately show ?thesis by blast
  qed (use e in auto)
qed

section \<open>The update lock\<close>

text \<open>The epochs whose text is being forwarded, or whose result is about to be published.\<close>

fun worker_forwards :: "('p, 'r) worker_pc \<Rightarrow> nat set" where
  "worker_forwards (Forwarding (e, _, _)) = {e}"
| "worker_forwards (Publishing e _) = {e}"
| "worker_forwards _ = {}"

fun caller_forwards :: "('p, 'r) caller_pc option \<Rightarrow> nat set" where
  "caller_forwards (Some (UpdateForwarding (e, _, _))) = {e}"
| "caller_forwards (Some (UpdatePublishing e _)) = {e}"
| "caller_forwards _ = {}"

definition forwarding :: "('b, 'p, 'r) coordinator \<Rightarrow> nat set" where
  "forwarding c = worker_forwards (co_worker c)
     \<union> (\<Union>t. caller_forwards (co_callers c t))"

definition lock_ok :: "('b, 'p, 'r) coordinator \<Rightarrow> bool" where
  "lock_ok c \<longleftrightarrow> (worker_forwards (co_worker c) \<noteq> {} \<longleftrightarrow> co_update_lock c = Some WorkerOwns)
     \<and> (\<forall>t. caller_forwards (co_callers c t) \<noteq> {} \<longleftrightarrow> co_update_lock c = Some (CallerOwns t))"

lemma caller_free_forwards: "caller_free pc \<Longrightarrow> caller_forwards pc = {}"
  by (auto simp: caller_free_def split: option.splits caller_pc.splits)

lemma lock_ok_same:
  "lock_ok c \<Longrightarrow> worker_forwards (co_worker c') = worker_forwards (co_worker c)
     \<Longrightarrow> \<forall>u. caller_forwards (co_callers c' u) = caller_forwards (co_callers c u)
     \<Longrightarrow> co_update_lock c' = co_update_lock c \<Longrightarrow> lock_ok c'"
  unfolding lock_ok_def by metis

lemma caller_holds:
  assumes "lock_ok c" "caller_forwards (co_callers c t) \<noteq> {}"
  shows "co_update_lock c = Some (CallerOwns t)" "worker_forwards (co_worker c) = {}"
    "\<forall>u. u \<noteq> t \<longrightarrow> caller_forwards (co_callers c u) = {}"
  using assms unfolding lock_ok_def by (metis lock_owner.distinct(1) lock_owner.inject option.inject)+

lemma step_lock_ok:
  assumes "coordinator_step api ev c = Some c'" "lock_ok c"
  shows "lock_ok c'"
proof -
  show ?thesis
  proof (cases ev)
    case (RequestUpdate before after)
    have "worker_forwards (case w of NoWorker \<Rightarrow> Polling | w \<Rightarrow> w) = worker_forwards w" for w :: "('b, 'c) worker_pc"
      by (cases w) auto
    with RequestUpdate assms(1) have "worker_forwards (co_worker c') = worker_forwards (co_worker c)"
      "co_callers c' = co_callers c" "co_update_lock c' = co_update_lock c" by (auto simp: Let_def)
    with lock_ok_same [OF assms(2)] show ?thesis by metis
  next
    case (BeginUpdate t before after)
    with assms(1) have "worker_forwards (co_worker c') = worker_forwards (co_worker c)"
      "\<forall>u. caller_forwards (co_callers c' u) = caller_forwards (co_callers c u)" "co_update_lock c' = co_update_lock c"
      using caller_free_forwards [of "co_callers c t"] by (auto simp: Let_def split: if_splits)
    with lock_ok_same [OF assms(2)] show ?thesis by metis
  next
    case (BeginReset t)
    with assms(1) have "worker_forwards (co_worker c') = worker_forwards (co_worker c)"
      "\<forall>u. caller_forwards (co_callers c' u) = caller_forwards (co_callers c u)" "co_update_lock c' = co_update_lock c"
      using caller_free_forwards [of "co_callers c t"] by (auto simp: Let_def split: if_splits)
    with lock_ok_same [OF assms(2)] show ?thesis by metis
  next
    case (AcquireUpdate t)
    with assms show ?thesis
      by (auto simp: lock_ok_def split: caller_pc.splits option.splits if_splits)
  next
    case (ForwardUpdate t)
    with assms(1) have holds: "caller_forwards (co_callers c t) \<noteq> {}"
      by (auto split: caller_pc.splits option.splits)
    from ForwardUpdate assms(1) caller_holds [OF assms(2) holds] show ?thesis
      by (auto simp: lock_ok_def Let_def split: caller_pc.splits option.splits if_splits prod.splits sum.splits)
  next
    case (PublishUpdate t)
    with assms(1) have holds: "caller_forwards (co_callers c t) \<noteq> {}"
      by (auto split: caller_pc.splits option.splits)
    from PublishUpdate assms(1) caller_holds [OF assms(2) holds] show ?thesis
      by (auto simp: lock_ok_def Let_def split: caller_pc.splits option.splits if_splits prod.splits sum.splits)
  next
    case (ClearReset t)
    with assms(1) have "co_worker c' = co_worker c" "co_update_lock c' = co_update_lock c"
      "\<forall>u. caller_forwards (co_callers c' u) = caller_forwards (co_callers c u)"
      by (auto split: caller_pc.splits option.splits if_splits)
    with lock_ok_same [OF assms(2)] show ?thesis by metis
  next
    case (WipeReset t)
    with assms show ?thesis by (auto simp: lock_ok_def split: caller_pc.splits option.splits if_splits)
  next
    case WorkerPoll
    with assms(1) show ?thesis
      by (intro lock_ok_same [OF assms(2)]) (auto split: worker_pc.splits option.splits)
  next
    case WorkerFail
    with assms(1) show ?thesis
      by (intro lock_ok_same [OF assms(2)]) (auto simp: Let_def split: worker_pc.splits if_splits)
  qed (use assms in \<open>auto simp: lock_ok_def Let_def split: worker_pc.splits option.splits if_splits prod.splits sum.splits\<close>)
qed

lemma step_forwarding:
  assumes "coordinator_step api ev c = Some c'" "coordinator_ok api c" "e \<in> forwarding c'"
  shows "e \<in> forwarding c \<or> e = co_requested_epoch c \<and> e \<notin> co_resets c"
proof -
  have disj: "asked c (e, b, a) \<Longrightarrow> e \<notin> co_resets c" for b a
    using assms(2) by (auto simp: coordinator_ok_def epochs_ok_def epochs_disjoint_def asked_def)
  from assms(3) consider "e \<in> worker_forwards (co_worker c')"
    | t where "e \<in> caller_forwards (co_callers c' t)"
    by (auto simp: forwarding_def)
  then show ?thesis
  proof cases
    case 1
    have "e \<in> worker_forwards (co_worker c) \<or> ev = WorkerAcquire \<and> (\<exists>b a. co_worker c = Waiting (e, b, a)) \<and> e = co_requested_epoch c"
      using assms(1) 1 by (cases ev) (auto simp: Let_def split: worker_pc.splits option.splits if_splits prod.splits
          sum.splits caller_pc.splits)
    moreover have "\<forall>b a. co_worker c = Waiting (e, b, a) \<longrightarrow> asked c (e, b, a)"
      using assms(2) by (auto simp: coordinator_ok_def tasks_ok_def)
    ultimately show ?thesis using disj by (auto simp: forwarding_def)
  next
    case 2
    have "e \<in> caller_forwards (co_callers c t) \<or> (\<exists>b a. co_callers c t = Some (UpdateWaiting (e, b, a))) \<and> e = co_requested_epoch c"
      using assms(1) 2 by (cases ev) (auto simp: Let_def publish_state_def split: worker_pc.splits option.splits if_splits prod.splits
          sum.splits caller_pc.splits)
    moreover have "\<forall>b a. co_callers c t = Some (UpdateWaiting (e, b, a)) \<longrightarrow> asked c (e, b, a)"
      using assms(2) by (force simp: coordinator_ok_def tasks_ok_def)
    ultimately show ?thesis using disj by (auto simp: forwarding_def)
  qed
qed

text \<open>Forwards obey the same contract as publications, so a finished reset bars older ones.\<close>

interpretation forwards: epoch_publisher "coordinator_moves api" "coordinator_ok api" co_requested_epoch
  forwarding co_resets for api :: "('b, 'p, 'r) model_api"
proof unfold_locales
  fix c c' :: "('b, 'p, 'r) coordinator" and b e
  assume ok: "coordinator_ok api c"
  show "b \<le> co_requested_epoch c" if "b \<in> co_resets c" using coordinator.resets_bound [OF ok that] .
  assume mv: "coordinator_moves api c c'"
  show "coordinator_ok api c'" "co_requested_epoch c \<le> co_requested_epoch c'" "co_resets c \<subseteq> co_resets c'"
    using coordinator.inv_step [OF ok mv] coordinator.requested_step [OF ok mv] coordinator.resets_step [OF ok mv] .
  from mv obtain ev where "coordinator_step api ev c = Some c'" by (rule coordinator_movesE)
  then show "e \<in> forwarding c' \<Longrightarrow> e \<in> forwarding c \<or> e = co_requested_epoch c \<and> e \<notin> co_resets c"
    using step_forwarding ok by blast
qed

lemma reachable_lock_ok:
  assumes "(coordinator_moves api)\<^sup>*\<^sup>* c c'" "lock_ok c"
  shows "lock_ok c'"
  using assms by (induction rule: rtranclp_induct) (auto intro: step_lock_ok elim: coordinator_movesE)

lemma free_lock_forwarding: "lock_ok c \<Longrightarrow> co_update_lock c = None \<Longrightarrow> forwarding c = {}"
  by (auto simp: forwarding_def lock_ok_def)

section \<open>Properties\<close>

fun run_events ::
  "('b, 'p, 'r) model_api \<Rightarrow> coordinator_event list \<Rightarrow> ('b, 'p, 'r) coordinator \<Rightarrow> ('b, 'p, 'r) coordinator option" where
  "run_events api [] c = Some c"
| "run_events api (ev # evs) c = (case coordinator_step api ev c of None \<Rightarrow> None | Some c' \<Rightarrow> run_events api evs c')"

lemma run_moves: "run_events api evs c = Some c' \<Longrightarrow> (coordinator_moves api)\<^sup>*\<^sup>* c c'"
proof (induction evs arbitrary: c)
  case (Cons ev evs)
  then obtain c1 where "coordinator_step api ev c = Some c1" "run_events api evs c1 = Some c'"
    by (auto split: option.splits)
  with Cons.IH [of c1] show ?case by (meson converse_rtranclp_into_rtranclp coordinator_moves.intros)
qed simp

lemma retained_steps:
  "(coordinator_moves api)\<^sup>*\<^sup>* c d \<Longrightarrow> coordinator_ok api c \<Longrightarrow> co_retained_states d = co_retained_states c"
proof (induction rule: rtranclp_induct)
  case (step d e)
  then have "coordinator_ok api d" using coordinator.inv_steps by blast
  with step step_store show ?case by (metis coordinator_movesE)
qed simp

lemma run_reachable:
  assumes "new_coordinator backend n = Inr c0" "run_events api evs c0 = Some c"
  shows "coordinator_ok api c \<and> lock_ok c"
proof -
  have "lock_ok c0" using assms(1) by (auto simp: new_coordinator_def lock_ok_def split: if_splits)
  then show ?thesis
    using coordinator.inv_steps [OF run_moves [OF assms(2)] new_coordinator_ok [OF assms(1)]]
      reachable_lock_ok [OF run_moves [OF assms(2)]] by blast
qed

text \<open>
  Claim C28. However updates, worker steps and resets interleave, a state that the coordinator serves
  under an epoch is the backend's answer to the very text requested at that epoch; the latest state
  is the newest of the retained ones, which never exceed the bound; and at most one forward runs at a time.
\<close>

theorem served_states_answer_their_request:
  assumes "new_coordinator backend n = Inr c0" "run_events api evs c0 = Some c"
  shows "(\<forall>k s. state_for_epoch c k = Some s \<longrightarrow> bs_epoch s = k \<and> k \<le> co_requested_epoch c
        \<and> (\<exists>before after b s0 b'. co_texts c k = Some (before, after)
             \<and> api_update_context api before after b = (Inr s0, b') \<and> s = s0\<lparr>bs_epoch := k\<rparr>))
     \<and> (\<forall>s. coordinator_latest_state c = Some s \<longrightarrow> state_for_epoch c (bs_epoch s) = Some s
        \<and> (\<forall>k s'. state_for_epoch c k = Some s' \<longrightarrow> k \<le> bs_epoch s))
     \<and> length (co_states c) \<le> n \<and> (\<forall>e e'. e \<in> forwarding c \<and> e' \<in> forwarding c \<longrightarrow> e = e')"
proof -
  have ok: "coordinator_ok api c" and lock: "lock_ok c" using run_reachable [OF assms] by auto
  have "co_retained_states c = co_retained_states c0"
    using retained_steps [OF run_moves [OF assms(2)] new_coordinator_ok [OF assms(1)]] .
  then have n: "co_retained_states c = n"
    using assms(1) by (auto simp: new_coordinator_def split: if_splits)
  have one: "e = e'" if "e \<in> forwarding c" "e' \<in> forwarding c" for e e'
  proof -
    have u: "x \<in> caller_forwards pc \<Longrightarrow> y \<in> caller_forwards pc \<Longrightarrow> x = y" for pc :: "('b, 'c) caller_pc option" and x y
      by (cases pc rule: caller_forwards.cases) auto
    have v: "x \<in> worker_forwards pc \<Longrightarrow> y \<in> worker_forwards pc \<Longrightarrow> x = y" for pc :: "('b, 'c) worker_pc" and x y
      by (cases pc rule: worker_forwards.cases) auto
    show ?thesis
    proof (cases "\<exists>t. caller_forwards (co_callers c t) \<noteq> {}")
      case True
      then obtain t where t: "caller_forwards (co_callers c t) \<noteq> {}" by blast
      have "forwarding c = caller_forwards (co_callers c t)"
        using caller_holds [OF lock t] by (fastforce simp: forwarding_def)
      with that u show ?thesis by blast
    qed (use that v in \<open>auto simp: forwarding_def\<close>)
  qed
  have "\<forall>(k, s) \<in> set (co_states c). answers api c k s" "length (co_states c) \<le> n" using ok n by (auto simp: coordinator_ok_def store_ok_def)
  moreover have "k \<le> co_requested_epoch c" if "state_for_epoch c k = Some s" for k s
    using states_bounded [OF ok, of k] that
    by (auto simp: state_for_epoch_def dom_map_of_conv_image_fst [symmetric])
  moreover have "state_for_epoch c (bs_epoch s) = Some s \<and> (\<forall>k s'. state_for_epoch c k = Some s' \<longrightarrow> k \<le> bs_epoch s)"
    if "coordinator_latest_state c = Some s" for s
    using ok that by (force simp: coordinator_ok_def store_ok_def coordinator_latest_state_def state_for_epoch_def dest!: map_of_SomeD)
  ultimately show ?thesis
    using one by (auto simp: state_for_epoch_def answers_def dest!: map_of_SomeD)
qed

text \<open>
  Claim C11. Secure reset is a barrier: once \<open>invalidate_private_state\<close> has returned, whatever other
  threads were doing and do afterwards, every state that can be read and every forward that runs
  belongs to a request made after the reset.
\<close>

theorem reset_is_a_barrier:
  assumes "new_coordinator backend n = Inr c0" "run_events api evs c0 = Some c"
    and "co_callers c t = Some (ResetClearing b)" "coordinator_step api (ClearReset t) c = Some c1"
    and "run_events api evs1 c1 = Some c2" "co_callers c2 t = Some (ResetWaiting b)"
    and "coordinator_step api (WipeReset t) c2 = Some c3" "run_events api evs2 c3 = Some c4"
  shows "(\<forall>k s. state_for_epoch c4 k = Some s \<longrightarrow> b < k) \<and> (\<forall>s. coordinator_latest_state c4 = Some s \<longrightarrow> b < bs_epoch s)
     \<and> (\<forall>e \<in> forwarding c4. b < e)"
proof -
  have ok: "coordinator_ok api c" "lock_ok c" using run_reachable [OF assms(1,2)] by auto
  have b: "b \<in> co_resets c" using ok(1) assms(3) by (force simp: coordinator_ok_def tasks_ok_def)
  have mv1: "coordinator_moves api c c1" and mv3: "coordinator_moves api c2 c3"
    using coordinator_moves.intros [OF assms(4)] coordinator_moves.intros [OF assms(7)] .
  have "fst ` set (co_states c1) = {}" using assms(3,4) by auto
  moreover have "b \<in> co_resets c1" using coordinator.resets_step [OF ok(1) mv1] b by auto
  moreover have ok1: "coordinator_ok api c1" using coordinator.inv_step [OF ok(1) mv1] .
  moreover have "(coordinator_moves api)\<^sup>*\<^sup>* c1 c4"
    using run_moves [OF assms(5)] mv3 run_moves [OF assms(8)] by (meson rtranclp_trans rtranclp.rtrancl_into_rtrancl)
  ultimately have visible: "\<forall>e \<in> fst ` set (co_states c4). b < e" and ok4: "coordinator_ok api c4"
    using coordinator.barrier coordinator.inv_steps by (metis (no_types, lifting) empty_iff)+
  have lock2: "lock_ok c2"
    using reachable_lock_ok ok(2) mv1 run_moves [OF assms(5)] by (metis r_into_rtranclp)
  have ok2: "coordinator_ok api c2" using coordinator.inv_steps [OF run_moves [OF assms(5)] ok1] .
  have "co_update_lock c3 = None" "lock_ok c3"
    using assms(6,7) step_lock_ok [OF assms(7) lock2] by (auto split: if_splits)
  then have none: "forwarding c3 = {}" using free_lock_forwarding by blast
  have ok3: "coordinator_ok api c3" using coordinator.inv_step [OF ok2 mv3] .
  have "b \<in> co_resets c2" using ok2 assms(6) by (force simp: coordinator_ok_def tasks_ok_def)
  then have "b \<in> co_resets c3" using coordinator.resets_step [OF ok2 mv3] by auto
  with none have "\<forall>e \<in> forwarding c4. b < e" using forwards.barrier [OF run_moves [OF assms(8)] ok3] by simp
  moreover have "b < bs_epoch s" if "co_state c4 = Some s" for s
    using ok4 visible that by (auto simp: coordinator_ok_def store_ok_def dest!: map_of_SomeD)
  ultimately show ?thesis
    using visible by (auto simp: state_for_epoch_def coordinator_latest_state_def dest!: map_of_SomeD)
qed

text \<open>A demonstration backend that answers every text at once.\<close>

definition demo_api :: "(nat, pystr, unit) model_api" where
  "demo_api = \<lparr>api_update_context = (\<lambda>before after b.
      (Inr \<lparr>bs_epoch = b, bs_backend_kind = ''demo'', bs_before_hash = before, bs_after_hash = after,
            bs_created_monotonic = 0, bs_publication_latency_ms = 0, bs_payload = before @ after,
            bs_continuation_root = None, bs_log_normalizer = None, bs_identity = 0, bs_generation = 0\<rparr>, b + 1)),
    api_invalidate_private_state = (\<lambda>b. b)\<rparr>"

definition demo_start :: "(nat, pystr, unit) coordinator" where
  "demo_start = projr (new_coordinator 0 2)"

lemma demo_start: "new_coordinator 0 2 = Inr demo_start"
  by (simp add: demo_start_def new_coordinator_def)

definition demo_run :: "coordinator_event list \<Rightarrow> (nat, pystr, unit) coordinator" where
  "demo_run evs = the (run_events demo_api evs demo_start)"

definition demo_events :: "coordinator_event list" where
  "demo_events = [RequestUpdate (asc ''a'') [], WorkerPoll, WorkerAcquire, WorkerForward, BeginReset 0]"

lemmas demo_simps = demo_run_def demo_start_def new_coordinator_def demo_api_def demo_events_def Let_def
  publish_state_def retain_def caller_free_def

theorem served_states_answer_their_request_witness:
  "run_events demo_api [RequestUpdate [97] [], WorkerPoll, WorkerAcquire, WorkerForward, WorkerPublish] demo_start
     = Some (demo_run [RequestUpdate [97] [], WorkerPoll, WorkerAcquire, WorkerForward, WorkerPublish])
   \<and> coordinator_context_epoch (demo_run [RequestUpdate [97] [], WorkerPoll, WorkerAcquire, WorkerForward, WorkerPublish]) = 1
   \<and> length (co_states (demo_run [RequestUpdate [97] [], WorkerPoll, WorkerAcquire, WorkerForward, WorkerPublish])) \<le> 2"
proof -
  let ?evs = "[RequestUpdate [97] [], WorkerPoll, WorkerAcquire, WorkerForward, WorkerPublish]"
  have run: "run_events demo_api ?evs demo_start = Some (demo_run ?evs)" by (simp add: demo_simps)
  moreover have "coordinator_context_epoch (demo_run ?evs) = 1"
    by (simp add: demo_simps coordinator_context_epoch_def)
  ultimately show ?thesis using served_states_answer_their_request [OF demo_start run] by blast
qed

theorem reset_is_a_barrier_witness:
  "\<exists>c1 c2 c3 c4. co_callers (demo_run demo_events) 0 = Some (ResetClearing 2)
     \<and> coordinator_step demo_api (ClearReset 0) (demo_run demo_events) = Some c1
     \<and> run_events demo_api [WorkerPublish] c1 = Some c2 \<and> coordinator_step demo_api (WipeReset 0) c2 = Some c3
     \<and> run_events demo_api [BeginUpdate 1 [98] [], AcquireUpdate 1, ForwardUpdate 1] c3 = Some c4
     \<and> forwarding c4 \<noteq> {} \<and> (\<forall>e \<in> forwarding c4. 2 < e)"
proof -
  have run: "run_events demo_api demo_events demo_start = Some (demo_run demo_events)" by (simp add: demo_simps)
  have pc: "co_callers (demo_run demo_events) 0 = Some (ResetClearing 2)" by (simp add: demo_simps)
  obtain c1 where c1: "coordinator_step demo_api (ClearReset 0) (demo_run demo_events) = Some c1"
    by (simp add: demo_simps)
  obtain c2 where c2: "run_events demo_api [WorkerPublish] c1 = Some c2" "co_callers c2 0 = Some (ResetWaiting 2)"
    and step: "coordinator_step demo_api (WipeReset 0) c2 \<noteq> None"
    and later: "\<forall>c3. coordinator_step demo_api (WipeReset 0) c2 = Some c3 \<longrightarrow>
      (\<exists>c4. run_events demo_api [BeginUpdate 1 [98] [], AcquireUpdate 1, ForwardUpdate 1] c3 = Some c4
         \<and> caller_forwards (co_callers c4 1) = {3})"
    using c1 by (auto simp: demo_simps)
  then obtain c3 c4 where c3: "coordinator_step demo_api (WipeReset 0) c2 = Some c3"
    and c4: "run_events demo_api [BeginUpdate 1 [98] [], AcquireUpdate 1, ForwardUpdate 1] c3 = Some c4"
      "caller_forwards (co_callers c4 1) = {3}" by blast
  then have "forwarding c4 \<noteq> {}" by (auto simp: forwarding_def)
  with reset_is_a_barrier [OF demo_start run pc c1 c2 c3 c4(1)] pc c1 c2(1) c3 c4(1) show ?thesis by blast
qed

lemma run_append:
  "run_events api evs c = Some c1 \<Longrightarrow> run_events api evs' c1 = r \<Longrightarrow> run_events api (evs @ evs') c = r"
  by (induction evs arbitrary: c) (auto split: option.splits)

lemma poll_publishes:
  assumes "co_worker c = Polling" "co_pending c = Some (co_requested_epoch c, before, after)" "co_update_lock c = None"
    and "\<And>before after b. \<exists>s b'. api_update_context api before after b = (Inr s, b')"
  shows "\<exists>c'. run_events api [WorkerPoll, WorkerAcquire, WorkerForward, WorkerPublish] c = Some c'
     \<and> coordinator_context_epoch c' = co_requested_epoch c"
proof -
  obtain s b' where "api_update_context api before after (co_backend c) = (Inr s, b')" using assms(4) by blast
  then show ?thesis using assms(1-3) by (simp add: Let_def coordinator_context_epoch_def)
qed

definition worker_events :: "coordinator_event set" where
  "worker_events = {WorkerPoll, WorkerAcquire, WorkerForward, WorkerPublish, WorkerFail}"

lemma worker_returns_to_polling:
  assumes "tasks_ok api c" "lock_ok c" "co_pending c = Some r" "\<forall>t. co_update_lock c \<noteq> Some (CallerOwns t)"
    and succeeds: "\<And>before after b. \<exists>s b'. api_update_context api before after b = (Inr s, b')"
  shows "\<exists>evs c1. set evs \<subseteq> worker_events \<and> run_events api evs c = Some c1 \<and> co_worker c1 = Polling
     \<and> co_pending c1 = Some r \<and> co_requested_epoch c1 = co_requested_epoch c \<and> co_update_lock c1 = None"
proof -
  have free: "co_update_lock c = None" if "worker_forwards (co_worker c) = {}"
    using assms(2,4) that unfolding lock_ok_def by (metis lock_owner.exhaust not_None_eq)
  have ok: "set evs \<subseteq> worker_events" if "set evs \<subseteq> {WorkerPoll, WorkerAcquire, WorkerForward, WorkerPublish, WorkerFail}" for evs
    using that by (simp add: worker_events_def)
  show ?thesis
  proof (cases "co_worker c")
    case NoWorker
    with assms(1,3) show ?thesis by (simp add: tasks_ok_def)
  next
    case Polling
    with assms(3) free show ?thesis by (intro exI [of _ "[]"]) simp
  next
    case (Waiting q)
    obtain e before after where q: "q = (e, before, after)" by (cases q)
    obtain s b' where u: "api_update_context api before after (co_backend c) = (Inr s, b')" using succeeds by blast
    show ?thesis
    proof (cases "e = co_requested_epoch c")
      case True
      show ?thesis using Waiting q u True assms(3) free
        by (intro exI [of _ "[WorkerAcquire, WorkerForward, WorkerPublish]"]) (simp add: Let_def worker_events_def)
    next
      case False
      show ?thesis using Waiting q False assms(3) free
        by (intro exI [of _ "[WorkerAcquire]"]) (simp add: worker_events_def)
    qed
  next
    case (Forwarding q)
    obtain e before after where q: "q = (e, before, after)" by (cases q)
    obtain s b' where u: "api_update_context api before after (co_backend c) = (Inr s, b')" using succeeds by blast
    show ?thesis using Forwarding q u assms(3)
      by (intro exI [of _ "[WorkerForward, WorkerPublish]"]) (simp add: Let_def worker_events_def)
  next
    case (Publishing e s)
    show ?thesis using Publishing assms(3)
      by (intro exI [of _ "[WorkerPublish]"]) (simp add: Let_def worker_events_def)
  next
    case (Failed e err)
    show ?thesis using Failed assms(3) free
      by (intro exI [of _ "[WorkerFail]"]) (simp add: Let_def worker_events_def)
  qed
qed

text \<open>
  Claim C29. No request is stranded: in every reachable state in which the newest request is queued and
  no caller holds the update lock, the worker is alive, and its own steps alone publish that request
  if forwards succeed.
\<close>

theorem newest_request_is_published:
  assumes "new_coordinator backend n = Inr c0" "run_events api evs c0 = Some c"
    and "co_pending c = Some (co_requested_epoch c, before, after)" "\<forall>t. co_update_lock c \<noteq> Some (CallerOwns t)"
    and "\<And>before after b. \<exists>s b'. api_update_context api before after b = (Inr s, b')"
  shows "co_worker c \<noteq> NoWorker \<and> (\<exists>later c'. set later \<subseteq> {WorkerPoll, WorkerAcquire, WorkerForward, WorkerPublish, WorkerFail}
     \<and> run_events api later c = Some c' \<and> coordinator_context_epoch c' = co_requested_epoch c)"
proof -
  have ok: "tasks_ok api c" "lock_ok c" using run_reachable [OF assms(1,2)] by (auto simp: coordinator_ok_def)
  from worker_returns_to_polling [OF ok assms(3,4,5)] obtain evs1 c1 where
    c1: "set evs1 \<subseteq> worker_events" "run_events api evs1 c = Some c1" "co_worker c1 = Polling"
      "co_pending c1 = Some (co_requested_epoch c1, before, after)" "co_requested_epoch c1 = co_requested_epoch c"
      "co_update_lock c1 = None" by auto
  from poll_publishes [OF c1(3,4,6) assms(5)] obtain c' where
    "run_events api [WorkerPoll, WorkerAcquire, WorkerForward, WorkerPublish] c1 = Some c'"
    "coordinator_context_epoch c' = co_requested_epoch c" using c1(5) by auto
  with c1 run_append [OF c1(2)] ok(1) assms(3) show ?thesis
    by (intro conjI exI [of _ "evs1 @ [WorkerPoll, WorkerAcquire, WorkerForward, WorkerPublish]"] exI [of _ c'])
       (auto simp: worker_events_def tasks_ok_def)
qed

theorem newest_request_is_published_witness:
  "\<exists>later c'. run_events demo_api later (demo_run [RequestUpdate [97] [], WorkerPoll, RequestUpdate [98] []]) = Some c'
     \<and> coordinator_context_epoch c' = 2"
proof -
  let ?evs = "[RequestUpdate [97] [], WorkerPoll, RequestUpdate [98] []]"
  have run: "run_events demo_api ?evs demo_start = Some (demo_run ?evs)" by (simp add: demo_simps)
  have epoch: "co_requested_epoch (demo_run ?evs) = 2" by (simp add: demo_simps)
  have pend: "co_pending (demo_run ?evs) = Some (co_requested_epoch (demo_run ?evs), [98], [])" by (simp add: demo_simps)
  have lock: "\<forall>t. co_update_lock (demo_run ?evs) \<noteq> Some (CallerOwns t)" by (simp add: demo_simps)
  have succeeds: "\<exists>s b'. api_update_context demo_api before after b = (Inr s, b')" for before after b
    by (simp add: demo_api_def)
  from newest_request_is_published [OF demo_start run pend lock succeeds] epoch show ?thesis by auto
qed

end
