(* ===== verification/State_Result.thy ===== *)
theory State_Result
  imports Prelude
begin

text \<open>
  Methods that change an object and may raise: explicit state passing with the result type of the
  prelude, where the state reached before an exception is kept.  Two ways to reason about them: what
  a method returns (\<open>answers\<close>) and how it changes the state (the locale \<open>state_relation\<close>).
\<close>

type_synonym ('s, 'a) handler = "'s \<Rightarrow> 'a result \<times> 's"

definition hbind :: "('s, 'a) handler \<Rightarrow> ('a \<Rightarrow> ('s, 'b) handler) \<Rightarrow> ('s, 'b) handler" where
  "hbind m f s = (case m s of (Inl err, t) \<Rightarrow> (Inl err, t) | (Inr x, t) \<Rightarrow> f x t)"

definition lift_result :: "'a result \<Rightarrow> ('s, 'a) handler" where
  "lift_result r s = (r, s)"

definition reads_state :: "('s \<Rightarrow> 'a) \<Rightarrow> ('s, 'a) handler" where
  "reads_state f s = (Inr (f s), s)"

definition updates_state :: "('s \<Rightarrow> 's) \<Rightarrow> ('s, unit) handler" where
  "updates_state f s = (Inr (), f s)"

lemma hbind_simps [simp]:
  "hbind (lift_result (Inr x)) f = f x"
  "hbind (lift_result (Inl err)) f = lift_result (Inl err)"
  by (simp_all add: hbind_def lift_result_def fun_eq_iff)

lemma hbind_Inr:
  "hbind m f s = (Inr y, u) \<longleftrightarrow> (\<exists>x t. m s = (Inr x, t) \<and> f x t = (Inr y, u))"
  by (auto simp: hbind_def split: prod.splits sum.splits)

lemma hbind_cases:
  assumes "hbind m f s = (r, u)"
  obtains (raised) err where "m s = (Inl err, u)" "r = Inl err"
    | (continued) x t where "m s = (Inr x, t)" "f x t = (r, u)"
  using assms by (auto simp: hbind_def split: prod.splits sum.splits)

section \<open>What a method returns\<close>

definition answers :: "('a \<Rightarrow> bool) \<Rightarrow> ('s, 'a) handler \<Rightarrow> bool" where
  "answers P h \<longleftrightarrow> (\<forall>s x s'. h s = (Inr x, s') \<longrightarrow> P x)"

lemma answersI: "(\<And>s x s'. h s = (Inr x, s') \<Longrightarrow> P x) \<Longrightarrow> answers P h"
  by (auto simp: answers_def)

lemma answersD: "answers P h \<Longrightarrow> h s = (Inr x, s') \<Longrightarrow> P x"
  by (auto simp: answers_def)

lemma answers_bind:
  assumes "answers Q m" "\<And>x. Q x \<Longrightarrow> answers P (f x)"
  shows "answers P (hbind m f)"
  using assms by (fastforce simp: answers_def hbind_Inr)

lemma answers_then: "(\<And>x. answers P (f x)) \<Longrightarrow> answers P (hbind m f)"
  by (rule answers_bind [of "\<lambda>_. True"]) (auto simp: answers_def)

lemma answers_lift: "(\<And>x. r = Inr x \<Longrightarrow> P x) \<Longrightarrow> answers P (lift_result r)"
  by (auto simp: answers_def lift_result_def)

lemma answers_reads: "(\<And>s. P (f s)) \<Longrightarrow> answers P (reads_state f)"
  by (auto simp: answers_def reads_state_def)

section \<open>How a method changes the state\<close>

text \<open>
  A relation between an earlier and a later state that holds across every method of a class,
  whether it returns or raises.
\<close>

locale state_relation =
  fixes ok :: "'s \<Rightarrow> bool"
    and rel :: "'s \<Rightarrow> 's \<Rightarrow> bool"
  assumes rel_refl: "ok s \<Longrightarrow> rel s s"
    and rel_trans: "rel s t \<Longrightarrow> rel t u \<Longrightarrow> rel s u"
    and rel_ok: "rel s t \<Longrightarrow> ok t"
begin

definition safe :: "('s, 'a) handler \<Rightarrow> bool" where
  "safe h \<longleftrightarrow> (\<forall>s r s'. ok s \<longrightarrow> h s = (r, s') \<longrightarrow> rel s s')"

lemma safeI: "(\<And>s r s'. ok s \<Longrightarrow> h s = (r, s') \<Longrightarrow> rel s s') \<Longrightarrow> safe h"
  by (auto simp: safe_def)

lemma safeD: "safe h \<Longrightarrow> ok s \<Longrightarrow> h s = (r, s') \<Longrightarrow> rel s s'"
  by (auto simp: safe_def)

lemma safe_lift [intro]: "safe (lift_result r)"
  by (simp add: safe_def lift_result_def rel_refl)

lemma safe_reads [intro]: "safe (reads_state f)"
  by (simp add: safe_def reads_state_def rel_refl)

lemma safe_updates: "(\<And>s. ok s \<Longrightarrow> rel s (f s)) \<Longrightarrow> safe (updates_state f)"
  by (simp add: safe_def updates_state_def)

text \<open>The continuation may rely on what the method returns.\<close>

lemma safe_bind_post:
  assumes "safe m" "\<And>s x t. ok s \<Longrightarrow> m s = (Inr x, t) \<Longrightarrow> P x" "\<And>x. P x \<Longrightarrow> safe (f x)"
  shows "safe (hbind m f)"
proof (rule safeI)
  fix s r u
  assume ok: "ok s" and h: "hbind m f s = (r, u)"
  from h show "rel s u"
  proof (cases rule: hbind_cases)
    case (raised err)
    then show ?thesis using safeD [OF assms(1) ok] by blast
  next
    case (continued x t)
    then have "rel s t" "P x" using safeD [OF assms(1) ok] assms(2) [OF ok] by blast+
    moreover from this have "rel t u" using safeD [OF assms(3)] continued(2) rel_ok by blast
    ultimately show ?thesis using rel_trans by blast
  qed
qed

lemma safe_bind [intro]: "safe m \<Longrightarrow> (\<And>x. safe (f x)) \<Longrightarrow> safe (hbind m f)"
  by (rule safe_bind_post [where P = "\<lambda>_. True"]) auto

lemma safe_if: "safe f \<Longrightarrow> safe g \<Longrightarrow> safe (if b then f else g)"
  by simp

lemma rel_steps:
  assumes "step\<^sup>*\<^sup>* s t" "ok s" "\<And>u v. step u v \<Longrightarrow> ok u \<Longrightarrow> rel u v"
  shows "rel s t"
  using assms(1)
proof (induction rule: rtranclp_induct)
  case (step u v)
  from step(3) have "ok u" by (rule rel_ok)
  then show ?case using step(2,3) assms(3) rel_trans by blast
qed (use assms(2) rel_refl in simp)

end

end
