(* ===== verification/Pipe_Server.thy ===== *)
theory Pipe_Server
  imports Wire Ranker Bounded_Cache State_Result
begin

text \<open>
  The request handlers of the named-pipe service (\<open>pipe_server.py\<close>): validation of every field,
  context bindings and their revocation, the update receipt, and the mapping of every exception to
  an error response.  A message is a JSON object as \<open>decode_message\<close> returns it.  The engine is a
  record of its operations on its own state; operations the service looks up with \<open>getattr\<close> are
  options.  The pipe itself (creation, ACL, accept loop, partial reads) is Windows I/O.
\<close>

section \<open>Messages\<close>

type_synonym message = "(pystr \<times> json) list"

definition has_field :: "message \<Rightarrow> string \<Rightarrow> bool" where
  "has_field m key \<longleftrightarrow> map_of m (asc key) \<noteq> None"

definition field :: "message \<Rightarrow> string \<Rightarrow> json" where
  "field m key = (case map_of m (asc key) of None \<Rightarrow> JNull | Some v \<Rightarrow> v)"

definition obj :: "(string \<times> json) list \<Rightarrow> message" where
  "obj kvs = map (\<lambda>(k, v). (asc k, v)) kvs"

definition jstr :: "string \<Rightarrow> json" where
  "jstr s = JStr (asc s)"

definition optional_str :: "pystr option \<Rightarrow> json" where
  "optional_str v = (case v of None \<Rightarrow> JNull | Some s \<Rightarrow> JStr s)"

definition MAX_PINYIN_KEYS :: nat where "MAX_PINYIN_KEYS = 512"
definition MAX_CANDIDATES :: int where "MAX_CANDIDATES = 50"
definition MAX_COMMIT_TEXT :: nat where "MAX_COMMIT_TEXT = 32768"
definition MAX_CONTEXT_BINDINGS :: nat where "MAX_CONTEXT_BINDINGS = 8"

definition error_response :: "string \<Rightarrow> string \<Rightarrow> json \<Rightarrow> bool \<Rightarrow> message" where
  "error_response code msg request_id retryable =
     obj [(''type'', jstr ''error''), (''ok'', JBool False),
          (''error'', JDict (obj [(''code'', jstr code), (''message'', jstr msg), (''retryable'', JBool retryable)]))]
     @ (if request_id = JNull then [] else obj [(''request_id'', request_id)])"

definition int_string :: "int \<Rightarrow> string" where
  "int_string i = map char_of (int_text i)"

definition require_int :: "message \<Rightarrow> string \<Rightarrow> int \<Rightarrow> int result" where
  "require_int m key minimum =
     (case field m key of
        JInt v \<Rightarrow> if v < minimum then Inl (ProtocolError (key @ '' must be an integer >= '' @ int_string minimum)) else Inr v
      | _ \<Rightarrow> Inl (ProtocolError (key @ '' must be an integer >= '' @ int_string minimum)))"

definition is_identifier_char :: "nat \<Rightarrow> bool" where
  "is_identifier_char c \<longleftrightarrow> (48 \<le> c \<and> c \<le> 57) \<or> (65 \<le> c \<and> c \<le> 90) \<or> (97 \<le> c \<and> c \<le> 122) \<or> c \<in> {46, 95, 58, 45}"

definition valid_identifier :: "pystr \<Rightarrow> bool" where
  "valid_identifier s \<longleftrightarrow> s \<noteq> [] \<and> length s \<le> 128 \<and> list_all is_identifier_char s"

definition optional_identifier :: "message \<Rightarrow> string \<Rightarrow> pystr option result" where
  "optional_identifier m key =
     (let bad = Inl (ProtocolError (key @ '' must be a valid identifier of at most 128 characters'')) in
      case field m key of
        JNull \<Rightarrow> Inr None
      | JStr s \<Rightarrow> if valid_identifier s then Inr (Some s) else bad
      | _ \<Rightarrow> bad)"

definition is_context_session :: "pystr \<Rightarrow> bool" where
  "is_context_session s \<longleftrightarrow> length s = 32 \<and> list_all (\<lambda>c. (48 \<le> c \<and> c \<le> 57) \<or> (97 \<le> c \<and> c \<le> 102)) s"

definition require_context_session :: "message \<Rightarrow> pystr result" where
  "require_context_session m =
     (let bad = Inl (ProtocolError ''context_session must be exactly 32 lowercase hex characters'') in
      case field m ''context_session'' of JStr s \<Rightarrow> if is_context_session s then Inr s else bad | _ \<Rightarrow> bad)"

record binding =
  cb_context_session :: pystr
  cb_source_revision :: int
  cb_security_label :: pystr

text \<open>A list or an object as the label is not hashable: the set test raises \<open>TypeError\<close>.\<close>

definition security_label :: "json \<Rightarrow> pystr result" where
  "security_label v =
     (let bad = Inl (ProtocolError ''security_label must be normal or private'') in
      case v of
        JStr s \<Rightarrow> if s \<in> {asc ''normal'', asc ''private''} then Inr s else bad
      | JList _ \<Rightarrow> Inl (TypeError ''unhashable type'')
      | JDict _ \<Rightarrow> Inl (TypeError ''unhashable type'')
      | _ \<Rightarrow> bad)"

definition optional_update_binding :: "message \<Rightarrow> binding option result" where
  "optional_update_binding m =
     (let keys = [''context_session'', ''source_revision'', ''security_label''] in
      if \<not> list_ex (has_field m) keys then Inr None
      else if \<not> list_all (has_field m) keys
      then Inl (ProtocolError ''context binding fields must be supplied together'')
      else rbind (require_context_session m) (\<lambda>context_session.
           rbind (require_int m ''source_revision'' 1) (\<lambda>source_revision.
           rbind (security_label (field m ''security_label'')) (\<lambda>label.
             Inr (Some \<lparr>cb_context_session = context_session, cb_source_revision = source_revision,
                        cb_security_label = label\<rparr>)))))"

definition optional_query_identity :: "message \<Rightarrow> (pystr \<times> int) option result" where
  "optional_query_identity m =
     (if \<not> has_field m ''context_session'' \<and> \<not> has_field m ''source_revision'' then Inr None
      else if \<not> has_field m ''context_session'' \<or> \<not> has_field m ''source_revision''
      then Inl (ProtocolError ''query context identity fields must be supplied together'')
      else rbind (require_context_session m) (\<lambda>session.
           rbind (require_int m ''source_revision'' 1) (\<lambda>revision. Inr (Some (session, revision)))))"

definition require_bool :: "message \<Rightarrow> string \<Rightarrow> bool result" where
  "require_bool m key = (case field m key of JBool b \<Rightarrow> Inr b | _ \<Rightarrow> Inl (ProtocolError (key @ '' must be a boolean'')))"

definition reject_unknown_fields :: "message \<Rightarrow> string list \<Rightarrow> unit result" where
  "reject_unknown_fields m allowed =
     require (list_all (\<lambda>(k, v). k \<in> set (map asc allowed)) m) (ProtocolError ''message contains unsupported fields'')"

definition require_session_id :: "message \<Rightarrow> pystr result" where
  "require_session_id m = rbind (optional_identifier m ''session_id'') (\<lambda>s.
     case s of None \<Rightarrow> Inl (ProtocolError ''session_id is required'') | Some s \<Rightarrow> Inr s)"

definition require_raw_keys :: "json \<Rightarrow> pystr result" where
  "require_raw_keys v =
     (let bad = Inl (ProtocolError ''raw_keys must be a string of at most 512 characters'') in
      case v of JStr s \<Rightarrow> if length s > MAX_PINYIN_KEYS then bad else Inr s | _ \<Rightarrow> bad)"

definition require_limit :: "message \<Rightarrow> string \<Rightarrow> int result" where
  "require_limit m key = rbind (require_int m key 1) (\<lambda>limit.
     if limit > MAX_CANDIDATES then Inl (ProtocolError ''candidate_count must not exceed 50'') else Inr limit)"

section \<open>The engine and the server state\<close>

record 'e pipe_engine =
  pe_context_epoch :: "'e \<Rightarrow> int"
  pe_request_context_update :: "pystr \<Rightarrow> pystr \<Rightarrow> ('e, json) handler"
  pe_query :: "pystr \<Rightarrow> int \<Rightarrow> int \<Rightarrow> ('e, candidate list) handler"
  pe_has_snapshot :: "('e \<Rightarrow> int \<Rightarrow> bool) option"
  pe_context_kind :: "('e \<Rightarrow> int \<Rightarrow> string) option"
  pe_reset :: "('e, unit) handler option"
  pe_commit :: "(pystr \<Rightarrow> ('e, unit) handler) option"
  pe_reset_private_context :: "('e, unit) handler option"
  pe_clear_history :: "('e, unit) handler option"

record update_receipt =
  ur_client_epoch :: int
  ur_request_id :: pystr
  ur_session_id :: "pystr option"
  ur_binding :: "binding option"
  ur_assigned_epoch :: int

record 'e server =
  sv_engine :: 'e
  sv_latest_client_context_epoch :: int
  sv_requested_context_epoch :: int
  sv_last_context_error :: "pystr option"
  sv_context_bindings :: "(int, binding) odict"
  sv_latest_source_revisions :: "(pystr, int) odict"
  sv_context_update_receipt :: "update_receipt option"

definition new_server :: "'e \<Rightarrow> int \<Rightarrow> 'e server result" where
  "new_server engine max_instances =
     (if max_instances < 1 then Inl (ValueError ''max_instances must be positive'')
      else Inr \<lparr>sv_engine = engine, sv_latest_client_context_epoch = 0, sv_requested_context_epoch = 0,
                sv_last_context_error = None, sv_context_bindings = [], sv_latest_source_revisions = [],
                sv_context_update_receipt = None\<rparr>)"

definition on_engine :: "('e, 'a) handler \<Rightarrow> ('e server, 'a) handler" where
  "on_engine h s = (let (r, e) = h (sv_engine s) in (r, s\<lparr>sv_engine := e\<rparr>))"

definition optionally :: "('e, unit) handler option \<Rightarrow> ('e server, unit) handler" where
  "optionally h = (case h of None \<Rightarrow> lift_result (Inr ()) | Some h \<Rightarrow> on_engine h)"


section \<open>Bindings\<close>

definition remember_binding :: "int \<Rightarrow> binding option \<Rightarrow> 'e server \<Rightarrow> 'e server" where
  "remember_binding epoch b s = (case b of
     None \<Rightarrow> s
   | Some b \<Rightarrow> s\<lparr>sv_context_bindings := od_put MAX_CONTEXT_BINDINGS epoch b (sv_context_bindings s)\<rparr>)"

definition is_stale_context_update :: "int \<Rightarrow> binding option \<Rightarrow> 'e server \<Rightarrow> bool" where
  "is_stale_context_update client_epoch b s = (case b of
     None \<Rightarrow> client_epoch \<le> sv_latest_client_context_epoch s
   | Some b \<Rightarrow> (case map_of (sv_latest_source_revisions s) (cb_context_session b) of
         None \<Rightarrow> False
       | Some latest \<Rightarrow> cb_source_revision b \<le> latest))"

definition remember_context_update :: "int \<Rightarrow> binding option \<Rightarrow> 'e server \<Rightarrow> 'e server" where
  "remember_context_update client_epoch b s = (case b of
     None \<Rightarrow> s\<lparr>sv_latest_client_context_epoch := client_epoch\<rparr>
   | Some b \<Rightarrow> s\<lparr>sv_latest_source_revisions :=
         od_put MAX_CONTEXT_BINDINGS (cb_context_session b) (cb_source_revision b) (sv_latest_source_revisions s)\<rparr>)"

definition bound_to :: "'e server \<Rightarrow> int \<Rightarrow> pystr \<Rightarrow> int \<Rightarrow> bool" where
  "bound_to s epoch context_session source_revision \<longleftrightarrow> (\<exists>b. map_of (sv_context_bindings s) epoch = Some b
     \<and> cb_context_session b = context_session \<and> cb_source_revision b = source_revision)"

lemma bound_to_code [code]:
  "bound_to s epoch context_session source_revision = (case map_of (sv_context_bindings s) epoch of
     None \<Rightarrow> False | Some b \<Rightarrow> cb_context_session b = context_session \<and> cb_source_revision b = source_revision)"
  by (auto simp: bound_to_def split: option.splits)

definition binding_error :: "message \<Rightarrow> int \<Rightarrow> ('e server, message option) handler" where
  "binding_error m requested_epoch s = (rbind (optional_query_identity m) (\<lambda>identity.
     case identity of
       None \<Rightarrow> Inr None
     | Some (context_session, source_revision) \<Rightarrow>
         if requested_epoch = 0
         then Inr (Some (error_response ''context_session_mismatch''
                ''context identity requires a nonzero model epoch'' (field m ''request_id'') False))
         else if \<not> bound_to s requested_epoch context_session source_revision
         then Inr (Some (error_response ''context_session_mismatch''
                ''requested editor context identity does not match model epoch'' (field m ''request_id'') False))
         else Inr None), s)"

section \<open>Handlers\<close>

definition handle_health :: "'e pipe_engine \<Rightarrow> message \<Rightarrow> ('e server, message) handler" where
  "handle_health en m = reads_state (\<lambda>s. let ready = pe_context_epoch en (sv_engine s) in
     obj [(''type'', jstr ''health''), (''ok'', JBool True), (''ready'', JBool (ready > 0)),
          (''context_updating'', JBool (sv_requested_context_epoch s > ready)),
          (''context_epoch'', JInt ready), (''requested_context_epoch'', JInt (sv_requested_context_epoch s)),
          (''last_context_error'', optional_str (sv_last_context_error s))])"

record context_update =
  cu_epoch :: int
  cu_binding :: "binding option"
  cu_request_id :: "pystr option"
  cu_session_id :: "pystr option"
  cu_before :: pystr
  cu_after :: pystr

definition parse_context_update :: "message \<Rightarrow> context_update result" where
  "parse_context_update m =
     rbind (require_int m ''context_epoch'' 1) (\<lambda>epoch.
     rbind (optional_update_binding m) (\<lambda>b.
     rbind (optional_identifier m ''request_id'') (\<lambda>request_id.
     rbind (optional_identifier m ''session_id'') (\<lambda>session_id.
     case (field m ''before'', if has_field m ''after'' then field m ''after'' else JStr []) of
       (JStr before, JStr after) \<Rightarrow>
         Inr \<lparr>cu_epoch = epoch, cu_binding = b, cu_request_id = request_id, cu_session_id = session_id,
              cu_before = before, cu_after = after\<rparr>
     | _ \<Rightarrow> Inl (ProtocolError ''before and after must be strings'')))))"

definition accepted_update :: "context_update \<Rightarrow> int \<Rightarrow> 'e server \<Rightarrow> 'e server" where
  "accepted_update u assigned s =
     (let s = remember_context_update (cu_epoch u) (cu_binding u) s;
          s = remember_binding assigned (cu_binding u)
                (s\<lparr>sv_requested_context_epoch := assigned, sv_last_context_error := None\<rparr>)
      in case cu_request_id u of
           None \<Rightarrow> s
         | Some request_id \<Rightarrow> s\<lparr>sv_context_update_receipt := Some
             \<lparr>ur_client_epoch = cu_epoch u, ur_request_id = request_id, ur_session_id = cu_session_id u,
              ur_binding = cu_binding u, ur_assigned_epoch = assigned\<rparr>\<rparr>)"

definition apply_context_update :: "'e pipe_engine \<Rightarrow> context_update \<Rightarrow> ('e server, message) handler" where
  "apply_context_update en u s =
     (if is_stale_context_update (cu_epoch u) (cu_binding u) s
      then (Inr (obj [(''type'', jstr ''context_update''), (''ok'', JBool True), (''accepted'', JBool False),
              (''stale'', JBool True), (''context_epoch'', JInt (sv_requested_context_epoch s)),
              (''client_context_epoch'', JInt (cu_epoch u))]), s)
      else hbind (updates_state (\<lambda>s. s\<lparr>sv_context_update_receipt := None\<rparr>)) (\<lambda>_.
           hbind (on_engine (pe_request_context_update en (cu_before u) (cu_after u))) (\<lambda>assigned.
           case assigned of
             JInt assigned \<Rightarrow> hbind (updates_state (accepted_update u assigned)) (\<lambda>_.
               lift_result (Inr (obj [(''type'', jstr ''context_update''), (''ok'', JBool True), (''accepted'', JBool True),
                 (''context_epoch'', JInt assigned), (''client_context_epoch'', JInt (cu_epoch u))])))
           | _ \<Rightarrow> lift_result (Inl (RuntimeError ''engine returned an invalid context epoch'')))) s)"

definition handle_context_update :: "'e pipe_engine \<Rightarrow> message \<Rightarrow> ('e server, message) handler" where
  "handle_context_update en m = hbind (lift_result (parse_context_update m)) (apply_context_update en)"

definition receipt_matches ::
  "int \<Rightarrow> pystr \<Rightarrow> pystr option \<Rightarrow> binding option \<Rightarrow> update_receipt option \<Rightarrow> update_receipt option" where
  "receipt_matches epoch request_id session_id b receipt = (case receipt of
     None \<Rightarrow> None
   | Some r \<Rightarrow> if ur_client_epoch r = epoch \<and> ur_request_id r = request_id \<and> ur_session_id r = session_id \<and> ur_binding r = b
               then Some r else None)"

definition handle_context_update_receipt :: "message \<Rightarrow> ('e server, message) handler" where
  "handle_context_update_receipt m =
     hbind (lift_result (
       rbind (reject_unknown_fields m [''type'', ''request_id'', ''session_id'', ''context_epoch'', ''context_session'',
                ''source_revision'', ''security_label'']) (\<lambda>_.
       rbind (require_int m ''context_epoch'' 1) (\<lambda>epoch.
       rbind (optional_identifier m ''request_id'') (\<lambda>request_id.
       case request_id of
         None \<Rightarrow> Inl (ProtocolError ''request_id is required'')
       | Some request_id \<Rightarrow>
           rbind (optional_identifier m ''session_id'') (\<lambda>session_id.
           rbind (optional_update_binding m) (\<lambda>b. Inr (epoch, request_id, session_id, b)))))))) (\<lambda>(epoch, request_id, session_id, b).
     reads_state (\<lambda>s. let matched = receipt_matches epoch request_id session_id b (sv_context_update_receipt s) in
       obj [(''type'', jstr ''context_update_receipt''), (''ok'', JBool True), (''accepted'', JBool (matched \<noteq> None)),
            (''client_context_epoch'', JInt epoch),
            (''context_epoch'', JInt (case matched of None \<Rightarrow> 0 | Some r \<Rightarrow> ur_assigned_epoch r))]))"

definition resolve_requested_epoch :: "'e pipe_engine \<Rightarrow> message \<Rightarrow> int \<Rightarrow> ('e server, int \<times> message option) handler" where
  "resolve_requested_epoch en m requested_epoch =
     hbind (binding_error m requested_epoch) (\<lambda>err.
     case err of
       Some err \<Rightarrow> lift_result (Inr (requested_epoch, Some err))
     | None \<Rightarrow> reads_state (\<lambda>s. let latest = pe_context_epoch en (sv_engine s) in
         if requested_epoch = 0 then (latest, None)
         else if requested_epoch > latest
         then (requested_epoch, Some (error_response ''context_not_ready''
                 ''requested model context snapshot is not ready'' (field m ''request_id'') True))
         else if requested_epoch < latest
                 \<and> (case pe_has_snapshot en of None \<Rightarrow> False | Some has \<Rightarrow> \<not> has (sv_engine s) requested_epoch)
         then (requested_epoch, Some (error_response ''context_expired''
                 ''requested model context snapshot has expired'' (field m ''request_id'') False))
         else (requested_epoch, None)))"

text \<open>\<open>candidate.to_dict()\<close>.\<close>

definition float_option :: "real option \<Rightarrow> json" where
  "float_option v = (case v of None \<Rightarrow> JNull | Some r \<Rightarrow> JFloat (Fin r))"

definition candidate_to_dict :: "candidate \<Rightarrow> message" where
  "candidate_to_dict c = obj
     [(''text'', JStr (c_text c)), (''pinyin'', JStr (c_pinyin c)), (''consumed_keys'', JInt (int (c_consumed_keys c))),
      (''score'', float_option (c_score c)), (''context_epoch'', JInt (c_context_epoch c)), (''coverage'', JBool (c_coverage c)),
      (''completes_input'', JBool (c_completes_input c)), (''syllables'', JInt (c_syllables c)),
      (''token_id'', (case c_token_id c of None \<Rightarrow> JNull | Some t \<Rightarrow> JInt t)),
      (''constraint_kind'', jstr (c_constraint_kind c)), (''script'', jstr (c_script c)),
      (''model_score'', float_option (c_model_score c)), (''constraint_cost'', JFloat (Fin (c_constraint_cost c))),
      (''language_prior'', JFloat (Fin (c_language_prior c))), (''total_score'', JFloat (Fin (c_total_score c))),
      (''token_path'', JList (map JInt (c_token_path c))), (''ranking_tier'', JInt (c_ranking_tier c)),
      (''static_rank'', JInt (c_static_rank c)), (''predicted_syllables'', JInt (int (c_predicted_syllables c)))]"

definition epoch_value :: "int \<Rightarrow> candidate \<Rightarrow> json" where
  "epoch_value epoch c = JDict (od_set (asc ''context_epoch'') (JInt epoch) (candidate_to_dict c))"


record query_request =
  qr_session_id :: pystr
  qr_revision :: int
  qr_epoch :: int
  qr_raw_keys :: pystr
  qr_limit :: int

definition parse_query :: "message \<Rightarrow> json \<Rightarrow> string \<Rightarrow> query_request result" where
  "parse_query m raw_value limit_key =
     rbind (require_session_id m) (\<lambda>session_id.
     rbind (require_int m ''revision'' 0) (\<lambda>revision.
     rbind (require_int m ''context_epoch'' 0) (\<lambda>epoch.
     rbind (require_raw_keys raw_value) (\<lambda>raw_keys.
     rbind (require_limit m limit_key) (\<lambda>limit.
       Inr \<lparr>qr_session_id = session_id, qr_revision = revision, qr_epoch = epoch, qr_raw_keys = raw_keys,
            qr_limit = limit\<rparr>)))))"

text \<open>
  The common body of the two query handlers; \<open>shape\<close> builds the response from the resolved epoch, the
  latest epoch and the candidates.
\<close>

definition run_query ::
  "'e pipe_engine \<Rightarrow> message \<Rightarrow> query_request \<Rightarrow> (int \<Rightarrow> int \<Rightarrow> json list \<Rightarrow> 'e server \<Rightarrow> message) \<Rightarrow> ('e server, message) handler" where
  "run_query en m q shape =
     hbind (resolve_requested_epoch en m (qr_epoch q)) (\<lambda>(epoch, err).
     case err of
       Some err \<Rightarrow> lift_result (Inr err)
     | None \<Rightarrow>
         hbind (reads_state (\<lambda>s. pe_context_epoch en (sv_engine s))) (\<lambda>latest.
         hbind (on_engine (pe_query en (qr_raw_keys q) (qr_limit q) epoch)) (\<lambda>candidates.
           reads_state (shape epoch latest (map (epoch_value epoch) candidates)))))"

definition handle_query_pinyin :: "'e pipe_engine \<Rightarrow> message \<Rightarrow> ('e server, message) handler" where
  "handle_query_pinyin en m =
     hbind (lift_result (parse_query m (if has_field m ''raw_keys'' then field m ''raw_keys'' else field m ''raw_pinyin'')
              (if has_field m ''candidate_count'' then ''candidate_count'' else ''candidates''))) (\<lambda>q.
     run_query en m q (\<lambda>epoch latest shown s.
       obj [(''type'', jstr ''candidates''), (''ok'', JBool True), (''session_id'', JStr (qr_session_id q)),
            (''revision'', JInt (qr_revision q)), (''context_epoch'', JInt epoch),
            (''stale'', JBool (shown = [] \<and> epoch < latest)), (''candidates'', JList shown)]))"

definition handle_query_candidates :: "'e pipe_engine \<Rightarrow> message \<Rightarrow> ('e server, message) handler" where
  "handle_query_candidates en m =
     hbind (lift_result (parse_query m (field m ''raw_keys'') ''candidate_count'')) (\<lambda>q.
     run_query en m q (\<lambda>epoch latest shown s.
       obj [(''type'', jstr ''candidates''), (''ok'', JBool True), (''session_id'', JStr (qr_session_id q)),
            (''revision'', JInt (qr_revision q)), (''context_epoch'', JInt epoch), (''stale'', JBool (epoch < latest)),
            (''input_mode'', jstr (case pe_context_kind en of None \<Rightarrow> ''ambiguous'' | Some kind \<Rightarrow> kind (sv_engine s) epoch)),
            (''candidates'', JList shown)]))"

definition handle_reset :: "'e pipe_engine \<Rightarrow> message \<Rightarrow> ('e server, message) handler" where
  "handle_reset en m =
     hbind (lift_result (optional_identifier m ''session_id'')) (\<lambda>session_id.
     hbind (updates_state (\<lambda>s. s\<lparr>sv_context_update_receipt := None,
              sv_requested_context_epoch := pe_context_epoch en (sv_engine s), sv_last_context_error := None\<rparr>)) (\<lambda>_.
     hbind (optionally (pe_reset en)) (\<lambda>_.
     reads_state (\<lambda>s. obj [(''type'', jstr ''reset''), (''ok'', JBool True), (''session_id'', optional_str session_id),
       (''context_epoch'', JInt (pe_context_epoch en (sv_engine s)))]))))"

definition handle_commit :: "'e pipe_engine \<Rightarrow> message \<Rightarrow> ('e server, message) handler" where
  "handle_commit en m =
     hbind (lift_result (
       rbind (reject_unknown_fields m [''type'', ''request_id'', ''session_id'', ''revision'', ''text'']) (\<lambda>_.
       rbind (require_session_id m) (\<lambda>session_id.
       rbind (require_int m ''revision'' 0) (\<lambda>revision.
       let bad = Inl (ProtocolError ''text must be a string of at most 32768 characters'') in
       case field m ''text'' of
         JStr s \<Rightarrow> if length s > MAX_COMMIT_TEXT then bad else Inr (session_id, revision, s)
       | _ \<Rightarrow> bad))))) (\<lambda>(session_id, revision, s).
     hbind (optionally (map_option (\<lambda>commit. commit s) (pe_commit en))) (\<lambda>_.
     lift_result (Inr (obj [(''type'', jstr ''commit''), (''ok'', JBool True), (''accepted'', JBool True),
       (''session_id'', JStr session_id), (''revision'', JInt revision)]))))"

text \<open>
  A cleanup call of secure focus: its exception is remembered, not raised, so the second call still
  runs.
\<close>

definition attempt :: "('e, unit) handler option \<Rightarrow> ('e server, bool) handler" where
  "attempt h s = (case optionally h s of (Inl _, s) \<Rightarrow> (Inr False, s) | (Inr _, s) \<Rightarrow> (Inr True, s))"

definition secure_cleanup :: "'e pipe_engine \<Rightarrow> ('e server, unit) handler" where
  "secure_cleanup en =
     hbind (updates_state (\<lambda>s. s\<lparr>sv_context_update_receipt := None, sv_context_bindings := []\<rparr>)) (\<lambda>_.
     hbind (attempt (pe_reset_private_context en)) (\<lambda>first.
     hbind (attempt (pe_clear_history en)) (\<lambda>second.
     lift_result (if first \<and> second then Inr () else Inl (RuntimeError ''secure context cleanup failed'')))))"

definition parse_focus :: "message \<Rightarrow> (pystr \<times> bool \<times> bool) result" where
  "parse_focus m =
     rbind (reject_unknown_fields m [''type'', ''request_id'', ''session_id'', ''focused'', ''secure'']) (\<lambda>_.
     rbind (require_session_id m) (\<lambda>session_id.
     rbind (require_bool m ''focused'') (\<lambda>focused.
     rbind (require_bool m ''secure'') (\<lambda>secure. Inr (session_id, focused, secure)))))"

definition handle_focus :: "'e pipe_engine \<Rightarrow> message \<Rightarrow> ('e server, message) handler" where
  "handle_focus en m = hbind (lift_result (parse_focus m)) (\<lambda>(session_id, focused, secure).
     hbind (if secure then secure_cleanup en else lift_result (Inr ())) (\<lambda>_.
     lift_result (Inr (obj [(''type'', jstr ''focus''), (''ok'', JBool True), (''accepted'', JBool True),
       (''session_id'', JStr session_id), (''focused'', JBool focused), (''secure'', JBool secure)]))))"

definition handle_fatal :: "message \<Rightarrow> ('e server, message) handler" where
  "handle_fatal m = lift_result (
     rbind (reject_unknown_fields m [''type'', ''request_id'', ''session_id'', ''revision'']) (\<lambda>_.
     rbind (require_session_id m) (\<lambda>session_id.
     rbind (require_int m ''revision'' 0) (\<lambda>revision.
       Inr (obj [(''type'', jstr ''fatal''), (''ok'', JBool True), (''acknowledged'', JBool True),
         (''service_alive'', JBool True), (''session_id'', JStr session_id), (''revision'', JInt revision)])))))"

definition handlers :: "'e pipe_engine \<Rightarrow> (string \<times> (message \<Rightarrow> ('e server, message) handler)) list" where
  "handlers en =
     [(''health'', handle_health en), (''context_update'', handle_context_update en),
      (''context_update_receipt'', handle_context_update_receipt), (''query_pinyin'', handle_query_pinyin en),
      (''query_candidates'', handle_query_candidates en), (''reset'', handle_reset en), (''commit'', handle_commit en),
      (''focus'', handle_focus en), (''fatal'', handle_fatal)]"

text \<open>The two \<open>except\<close> clauses: \<open>str(error)\<close> of a protocol error, and everything else.\<close>

definition exception_response :: "pystr option \<Rightarrow> py_error \<Rightarrow> message" where
  "exception_response request_id err = (case err of
     ProtocolError msg \<Rightarrow> error_response ''invalid_request'' msg (optional_str request_id) False
   | _ \<Rightarrow> error_response ''internal_error'' ''request processing failed'' (optional_str request_id) True)"

definition guarded :: "pystr option \<Rightarrow> ('s, message) handler \<Rightarrow> 's \<Rightarrow> message \<times> 's" where
  "guarded request_id h s = (case h s of (Inl err, s) \<Rightarrow> (exception_response request_id err, s) | (Inr r, s) \<Rightarrow> (r, s))"

definition with_request_id :: "pystr option \<Rightarrow> message \<Rightarrow> message" where
  "with_request_id request_id r = (case request_id of None \<Rightarrow> r | Some i \<Rightarrow> od_set (asc ''request_id'') (JStr i) r)"

definition dispatch ::
  "(string \<times> (message \<Rightarrow> ('e server, message) handler)) list \<Rightarrow> pystr option \<Rightarrow> message \<Rightarrow> ('e server, message) handler" where
  "dispatch table request_id m = (case field m ''type'' of
     JStr t \<Rightarrow> (case map_of (map (\<lambda>(k, h). (asc k, h)) table) t of
         None \<Rightarrow> lift_result (Inr (error_response ''unknown_message_type'' ''unsupported message type'' (optional_str request_id) False))
       | Some h \<Rightarrow> hbind (h m) (\<lambda>r. lift_result (Inr (with_request_id request_id r))))
   | _ \<Rightarrow> lift_result (Inl (ProtocolError ''type must be a string'')))"

definition serve :: "(string \<times> (message \<Rightarrow> ('e server, message) handler)) list \<Rightarrow> message \<Rightarrow> 'e server \<Rightarrow> message \<times> 'e server" where
  "serve table m s = (case optional_identifier m ''request_id'' of
     Inl err \<Rightarrow> (exception_response None err, s)
   | Inr request_id \<Rightarrow> guarded request_id (dispatch table request_id m) s)"

definition handle_message :: "'e pipe_engine \<Rightarrow> message \<Rightarrow> 'e server \<Rightarrow> message \<times> 'e server" where
  "handle_message en = serve (handlers en)"


section \<open>Moves\<close>

text \<open>
  The server's moves: a message is handled, or the engine moves on its own.  A handler runs as one
  move: \<open>_context_forward_lock\<close> serialises the handlers that change bindings, the others only read them.
\<close>

inductive server_moves :: "'e pipe_engine \<Rightarrow> ('e \<Rightarrow> 'e \<Rightarrow> bool) \<Rightarrow> 'e server \<Rightarrow> 'e server \<Rightarrow> bool" for en background where
  message: "server_moves en background s (snd (handle_message en m s))"
| engine: "background (sv_engine s) e \<Longrightarrow> server_moves en background s (s\<lparr>sv_engine := e\<rparr>)"

lemma on_engine_bindings: "on_engine h s = (r, s') \<Longrightarrow> sv_context_bindings s' = sv_context_bindings s"
  by (auto simp: on_engine_def Let_def split: prod.splits)

lemma attempt_bindings: "attempt h s = (r, s') \<Longrightarrow> sv_context_bindings s' = sv_context_bindings s"
  by (auto simp: attempt_def optionally_def lift_result_def dest: on_engine_bindings split: prod.splits sum.splits option.splits)

lemma secure_cleanup_clears: "secure_cleanup en s = (r, s') \<Longrightarrow> sv_context_bindings s' = []"
  by (auto simp: secure_cleanup_def hbind_def updates_state_def lift_result_def dest!: attempt_bindings
    split: prod.splits sum.splits)

text \<open>A well-formed secure focus message, whatever the engine does with it.\<close>

definition is_secure_focus :: "message \<Rightarrow> bool" where
  "is_secure_focus m \<longleftrightarrow> field m ''type'' = jstr ''focus'' \<and> (case optional_identifier m ''request_id'' of Inl _ \<Rightarrow> False | Inr _ \<Rightarrow> True)
     \<and> (case parse_focus m of Inr (_, _, secure) \<Rightarrow> secure | _ \<Rightarrow> False)"

lemma dispatch_focus:
  "field m ''type'' = jstr ''focus''
     \<Longrightarrow> dispatch (handlers en) i m = hbind (handle_focus en m) (\<lambda>r. lift_result (Inr (with_request_id i r)))"
  by (simp add: dispatch_def handlers_def jstr_def asc_def)

lemma secure_focus_clears:
  assumes "is_secure_focus m"
  shows "sv_context_bindings (snd (handle_message en m s)) = []"
proof -
  obtain i where i: "optional_identifier m ''request_id'' = Inr i" "field m ''type'' = jstr ''focus''"
    using assms by (auto simp: is_secure_focus_def split: sum.splits)
  obtain sid foc where p: "parse_focus m = Inr (sid, foc, True)"
    using assms by (auto simp: is_secure_focus_def split: sum.splits)
  show ?thesis
    using secure_cleanup_clears [of en s]
    by (auto simp: handle_message_def serve_def guarded_def i dispatch_focus handle_focus_def p hbind_def lift_result_def
      split: prod.splits sum.splits)
qed

lemma exception_response_ok: "field (exception_response i err) ''ok'' = JBool False"
  by (simp add: exception_response_def error_response_def field_def obj_def asc_def jstr_def split: py_error.split)

lemma error_response_ok: "field (error_response code msg i retry) ''ok'' = JBool False"
  by (simp add: error_response_def field_def obj_def asc_def jstr_def)

lemma with_request_id_ok: "field (with_request_id i r) ''ok'' = field r ''ok''"
  by (simp add: with_request_id_def field_def map_of_od_set asc_def split: option.split)

text \<open>A query that names an editor context is refused unless its epoch is bound to that context.\<close>

lemma unbound_run_query:
  assumes "has_field m ''context_session''" "map_of (sv_context_bindings s) (qr_epoch q) = None"
  shows "(\<exists>err. run_query en m q shape s = (Inl err, s))
     \<or> (\<exists>r. run_query en m q shape s = (Inr r, s) \<and> field r ''ok'' = JBool False)"
proof (cases "optional_query_identity m")
  case (Inl err)
  then show ?thesis by (simp add: run_query_def resolve_requested_epoch_def hbind_def binding_error_def)
next
  case (Inr identity)
  then obtain session revision where i: "optional_query_identity m = Inr (Some (session, revision))"
    using assms(1) by (auto simp: optional_query_identity_def result_splits split: if_splits)
  then show ?thesis
    using assms(2)
    by (auto simp: run_query_def resolve_requested_epoch_def hbind_def binding_error_def bound_to_def lift_result_def error_response_ok)
qed

definition is_query :: "message \<Rightarrow> bool" where
  "is_query m \<longleftrightarrow> field m ''type'' = jstr ''query_pinyin'' \<or> field m ''type'' = jstr ''query_candidates''"

lemma parse_query_epoch: "parse_query m raw key = Inr q \<Longrightarrow> field m ''context_epoch'' = JInt (qr_epoch q)"
  by (auto simp: parse_query_def require_int_def result_splits split: json.splits if_splits)

lemma unbound_query_refused:
  assumes "is_query m" "has_field m ''context_session''" "field m ''context_epoch'' = JInt e"
    and "map_of (sv_context_bindings s) e = None"
  shows "field (fst (handle_message en m s)) ''ok'' = JBool False"
proof -
  have refused: "(\<exists>err. hbind (lift_result (parse_query m raw key)) (\<lambda>q. run_query en m q (shape q)) s = (Inl err, s))
     \<or> (\<exists>r. hbind (lift_result (parse_query m raw key)) (\<lambda>q. run_query en m q (shape q)) s = (Inr r, s) \<and> field r ''ok'' = JBool False)"
    for raw key shape
  proof (cases "parse_query m raw key")
    case (Inl err)
    then show ?thesis by (simp add: lift_result_def)
  next
    case (Inr q)
    then have "qr_epoch q = e" using parse_query_epoch assms(3) by fastforce
    then show ?thesis using unbound_run_query [OF assms(2), of s q] assms(4) Inr by simp
  qed
  have "\<exists>h. (\<forall>i. dispatch (handlers en) i m = hbind h (\<lambda>r. lift_result (Inr (with_request_id i r))))
     \<and> ((\<exists>err. h s = (Inl err, s)) \<or> (\<exists>r. h s = (Inr r, s) \<and> field r ''ok'' = JBool False))"
    using assms(1)
  proof (unfold is_query_def, elim disjE)
    assume "field m ''type'' = jstr ''query_pinyin''"
    then show ?thesis
      by (intro exI [of _ "handle_query_pinyin en m"] conjI)
        (simp add: dispatch_def handlers_def jstr_def asc_def, simp only: handle_query_pinyin_def refused)
  next
    assume "field m ''type'' = jstr ''query_candidates''"
    then show ?thesis
      by (intro exI [of _ "handle_query_candidates en m"] conjI)
        (simp add: dispatch_def handlers_def jstr_def asc_def, simp only: handle_query_candidates_def refused)
  qed
  then obtain h where h: "\<And>i. dispatch (handlers en) i m = hbind h (\<lambda>r. lift_result (Inr (with_request_id i r)))"
    and r: "(\<exists>err. h s = (Inl err, s)) \<or> (\<exists>r. h s = (Inr r, s) \<and> field r ''ok'' = JBool False)" by blast
  from r show ?thesis
    by (auto simp: handle_message_def serve_def guarded_def h hbind_def lift_result_def exception_response_ok with_request_id_ok
      split: sum.splits)
qed

section \<open>What every handler keeps\<close>

text \<open>An engine operation that keeps the engine's invariant and its newest epoch.\<close>

definition keeps :: "('e \<Rightarrow> bool) \<Rightarrow> ('e \<Rightarrow> int) \<Rightarrow> ('e, 'a) handler \<Rightarrow> bool" where
  "keeps live newest h \<longleftrightarrow> (\<forall>e r e'. live e \<longrightarrow> h e = (r, e') \<longrightarrow> live e' \<and> newest e \<le> newest e')"

text \<open>
  The engine contract: requests are numbered upwards, every other operation and the engine's own
  threads keep the numbering.
\<close>

locale context_engine =
  fixes en :: "'e pipe_engine"
    and live :: "'e \<Rightarrow> bool"
    and newest :: "'e \<Rightarrow> int"
    and background :: "'e \<Rightarrow> 'e \<Rightarrow> bool"
  assumes request_law: "live e \<Longrightarrow> pe_request_context_update en before after e = (r, e')
      \<Longrightarrow> live e' \<and> newest e \<le> newest e' \<and> (\<forall>n. r = Inr (JInt n) \<longrightarrow> newest e < n \<and> n \<le> newest e')"
    and query_law: "keeps live newest (pe_query en raw limit epoch)"
    and reset_law: "pe_reset en = Some h \<Longrightarrow> keeps live newest h"
    and commit_law: "pe_commit en = Some f \<Longrightarrow> keeps live newest (f s)"
    and private_law: "pe_reset_private_context en = Some h \<Longrightarrow> keeps live newest h"
    and history_law: "pe_clear_history en = Some h \<Longrightarrow> keeps live newest h"
    and background_law: "live e \<Longrightarrow> background e e' \<Longrightarrow> live e' \<and> newest e \<le> newest e'"

lemma accepted_engine [simp]: "sv_engine (accepted_update u n s) = sv_engine s"
  by (simp add: accepted_update_def remember_context_update_def remember_binding_def Let_def split: option.split)

lemma accepted_bindings: "sv_context_bindings (accepted_update u n s) = (case cu_binding u of
    None \<Rightarrow> sv_context_bindings s | Some b \<Rightarrow> od_put MAX_CONTEXT_BINDINGS n b (sv_context_bindings s))"
  by (simp add: accepted_update_def remember_context_update_def remember_binding_def Let_def split: option.split)

lemma accepted_revisions: "sv_latest_source_revisions (accepted_update u n s) = (case cu_binding u of
    None \<Rightarrow> sv_latest_source_revisions s
  | Some b \<Rightarrow> od_put MAX_CONTEXT_BINDINGS (cb_context_session b) (cb_source_revision b) (sv_latest_source_revisions s))"
  by (simp add: accepted_update_def remember_context_update_def remember_binding_def Let_def split: option.split)

context context_engine begin

definition server_ok :: "'e server \<Rightarrow> bool" where
  "server_ok s \<longleftrightarrow> live (sv_engine s) \<and> od_ok (sv_context_bindings s)
     \<and> length (sv_context_bindings s) \<le> MAX_CONTEXT_BINDINGS
     \<and> length (sv_latest_source_revisions s) \<le> MAX_CONTEXT_BINDINGS
     \<and> (\<forall>e \<in> fst ` set (sv_context_bindings s). e \<le> newest (sv_engine s))"

text \<open>From one state to a later one: no epoch that existed before gets a binding it did not have.\<close>

definition advances :: "'e server \<Rightarrow> 'e server \<Rightarrow> bool" where
  "advances s s' \<longleftrightarrow> server_ok s' \<and> newest (sv_engine s) \<le> newest (sv_engine s')
     \<and> (\<forall>e b. e \<le> newest (sv_engine s) \<longrightarrow> map_of (sv_context_bindings s') e = Some b
          \<longrightarrow> map_of (sv_context_bindings s) e = Some b)"

end

text \<open>Every handler stays in this relation, whether it answers or raises.\<close>

sublocale context_engine \<subseteq> state_relation server_ok advances
proof unfold_locales
  show "server_ok s \<Longrightarrow> advances s s" for s by (simp add: advances_def)
  show "advances s t \<Longrightarrow> advances t u \<Longrightarrow> advances s u" for s t u
    unfolding advances_def by (meson order_trans)
  show "advances s t \<Longrightarrow> server_ok t" for s t by (simp add: advances_def)
qed

context context_engine begin

lemma safe_engine: "keeps live newest h \<Longrightarrow> safe (on_engine h)"
  by (fastforce simp: safe_def on_engine_def keeps_def advances_def server_ok_def Let_def split: prod.splits)

lemma safe_optionally: "(\<And>k. h = Some k \<Longrightarrow> keeps live newest k) \<Longrightarrow> safe (optionally h)"
  by (cases h) (auto simp: optionally_def safe_engine)

lemma safe_attempt: "safe (optionally h) \<Longrightarrow> safe (attempt h)"
  by (auto simp: safe_def attempt_def split: prod.splits sum.splits)

lemma safe_update:
  assumes "\<And>s. sv_engine (f s) = sv_engine s" "\<And>s. sv_latest_source_revisions (f s) = sv_latest_source_revisions s"
    and "\<And>s. sv_context_bindings (f s) = sv_context_bindings s \<or> sv_context_bindings (f s) = []"
  shows "safe (updates_state f)"
  unfolding safe_def updates_state_def
proof (intro allI impI)
  fix s r s'
  assume "server_ok s" "(Inr (), f s) = (r, s')"
  then show "advances s s'" using assms(1,2) [of s] assms(3) [of s] by (auto simp: advances_def server_ok_def)
qed

lemma safe_result: "(\<And>x. r = Inr x \<Longrightarrow> safe (f x)) \<Longrightarrow> safe (hbind (lift_result r) f)"
  by (cases r) auto

lemma accepted_update_advances:
  assumes "server_ok s" "newest (sv_engine s) < n" "server_ok t" "sv_context_bindings t = sv_context_bindings s"
    "n \<le> newest (sv_engine t)"
  shows "advances s (accepted_update u n t)"
proof -
  let ?w = "accepted_update u n t"
  have e: "sv_engine ?w = sv_engine t" by simp
  have od: "od_ok (sv_context_bindings s)" using assms(1) by (simp add: server_ok_def)
  have b: "sv_context_bindings ?w = (case cu_binding u of None \<Rightarrow> sv_context_bindings s
      | Some bd \<Rightarrow> od_put MAX_CONTEXT_BINDINGS n bd (sv_context_bindings s))"
    by (simp add: accepted_bindings assms(4) split: option.split)
  have "fst ` set (sv_context_bindings ?w) \<subseteq> insert n (fst ` set (sv_context_bindings s))"
    unfolding b by (simp add: keys_put_subset subset_insertI split: option.split)
  then have "\<forall>k \<in> fst ` set (sv_context_bindings ?w). k \<le> newest (sv_engine t)"
    using assms(3,4,5) unfolding server_ok_def by (metis insertE subsetD)
  moreover have "od_ok (sv_context_bindings ?w)" "length (sv_context_bindings ?w) \<le> MAX_CONTEXT_BINDINGS"
    using assms(1) unfolding b by (auto simp: server_ok_def length_put split: option.split)
  moreover have "length (sv_latest_source_revisions ?w) \<le> MAX_CONTEXT_BINDINGS"
    using assms(3) by (auto simp: server_ok_def accepted_revisions length_put split: option.split)
  ultimately have "server_ok ?w" using assms(3) by (simp add: server_ok_def)
  moreover have "map_of (sv_context_bindings s) k = Some bd"
    if "k \<le> newest (sv_engine s)" "map_of (sv_context_bindings ?w) k = Some bd" for k bd
  proof -
    have "k \<noteq> n" using assms(2) that(1) by auto
    then show ?thesis using that(2) map_of_put_other [OF od] unfolding b by (auto split: option.splits)
  qed
  ultimately show ?thesis using assms(2,5) by (simp add: advances_def)
qed

lemma apply_context_update_safe: "safe (apply_context_update en u)"
  unfolding safe_def
proof (intro allI impI)
  fix s r s'
  assume ok: "server_ok s" and h: "apply_context_update en u s = (r, s')"
  obtain r1 e1 where q: "pe_request_context_update en (cu_before u) (cu_after u) (sv_engine s) = (r1, e1)" by fastforce
  have live: "live (sv_engine s)" using ok by (simp add: server_ok_def)
  note law = request_law [OF live q]
  define t where "t = s\<lparr>sv_context_update_receipt := None, sv_engine := e1\<rparr>"
  have t: "advances s t" using ok law unfolding t_def by (fastforce simp: advances_def server_ok_def)
  then have okt: "server_ok t" by (simp add: advances_def)
  have shape: "s' = s \<or> s' = t \<or> (\<exists>n. r1 = Inr (JInt n) \<and> s' = accepted_update u n t)"
    using h q by (auto simp: apply_context_update_def hbind_def updates_state_def on_engine_def lift_result_def t_def
      Let_def split: if_splits sum.splits json.splits)
  have "advances s (accepted_update u n t)" if "r1 = Inr (JInt n)" for n
    by (rule accepted_update_advances [OF ok _ okt]) (use law that in \<open>auto simp: t_def\<close>)
  then show "advances s s'" using shape t ok rel_refl by blast
qed

lemma safe_binding_error: "safe (binding_error m e)"
  by (simp add: safe_def binding_error_def rel_refl)

lemmas safe_rules = safe_bind safe_lift safe_reads safe_binding_error safe_if

lemma run_query_safe: "safe (run_query en m q shape)"
proof -
  have "safe (resolve_requested_epoch en m e)" for e
    unfolding resolve_requested_epoch_def by (intro safe_rules) (auto split: option.split)
  then show ?thesis
    unfolding run_query_def
    by (intro safe_rules) (auto intro!: safe_rules safe_engine query_law split: option.split)
qed

lemma secure_cleanup_safe: "safe (secure_cleanup en)"
  unfolding secure_cleanup_def
  by (intro safe_rules safe_update safe_attempt safe_optionally) (auto intro: private_law history_law)

lemma handler_safe: "(k, h) \<in> set (handlers en) \<Longrightarrow> safe (h m)"
proof -
  have "safe (handle_health en m)" "safe (handle_fatal m)" "safe (handle_context_update_receipt m)"
    by (auto simp: handle_health_def handle_fatal_def handle_context_update_receipt_def intro!: safe_rules split: prod.split)
  moreover have "safe (handle_context_update en m)"
    unfolding handle_context_update_def by (intro safe_rules apply_context_update_safe)
  moreover have "safe (handle_query_pinyin en m)" "safe (handle_query_candidates en m)"
    unfolding handle_query_pinyin_def handle_query_candidates_def by (intro safe_rules run_query_safe)+
  moreover have "safe (handle_reset en m)"
    unfolding handle_reset_def by (intro safe_rules safe_update safe_optionally) (auto intro: reset_law)
  moreover have "safe (handle_commit en m)"
    unfolding handle_commit_def
    by (intro safe_rules) (auto split: prod.split intro!: safe_rules safe_optionally intro: commit_law)
  moreover have "safe (handle_focus en m)"
    unfolding handle_focus_def
    by (intro safe_rules) (auto split: prod.split intro!: safe_rules secure_cleanup_safe)
  ultimately show "safe (h m)" if "(k, h) \<in> set (handlers en)"
    using that by (auto simp: handlers_def)
qed

lemma handle_message_advances: "server_ok s \<Longrightarrow> advances s (snd (handle_message en m s))"
proof -
  assume ok: "server_ok s"
  have "safe (dispatch (handlers en) i m)" for i
    unfolding dispatch_def
    by (auto intro!: safe_rules dest!: map_of_SomeD intro: handler_safe split: json.split option.split)
  then show ?thesis
    using ok by (auto simp: handle_message_def serve_def guarded_def rel_refl dest: safeD split: sum.split prod.split)
qed

lemma server_moves_advances: "server_moves en background s t \<Longrightarrow> server_ok s \<Longrightarrow> advances s t"
proof (induction rule: server_moves.induct)
  case (engine s e)
  then have "live (sv_engine s)" by (simp add: server_ok_def)
  from background_law [OF this engine(1)] have "live e \<and> newest (sv_engine s) \<le> newest e" .
  then show ?case using engine by (force simp: advances_def server_ok_def)
qed (rule handle_message_advances)

lemma server_steps_advance: "(server_moves en background)\<^sup>*\<^sup>* s t \<Longrightarrow> server_ok s \<Longrightarrow> advances s t"
  using rel_steps server_moves_advances by blast

lemma revoked_stays_revoked:
  assumes "server_ok s" "is_secure_focus f" "(server_moves en background)\<^sup>*\<^sup>* (snd (handle_message en f s)) t"
    and "is_query m" "has_field m ''context_session''" "field m ''context_epoch'' = JInt e" "e \<le> newest (sv_engine s)"
  shows "field (fst (handle_message en m t)) ''ok'' = JBool False"
proof (rule unbound_query_refused [OF assms(4-6)])
  let ?u = "snd (handle_message en f s)"
  have u: "advances s ?u" using assms(1) by (rule handle_message_advances)
  then have "advances ?u t" using server_steps_advance [OF assms(3)] by (simp add: advances_def)
  moreover have "e \<le> newest (sv_engine ?u)" using u assms(7) by (simp add: advances_def)
  moreover have "sv_context_bindings ?u = []" using secure_focus_clears [OF assms(2)] .
  ultimately show "map_of (sv_context_bindings t) e = None"
    unfolding advances_def by (metis map_of.simps(1) not_None_eq)
qed

lemma new_server_ok: "live e \<Longrightarrow> new_server e k = Inr s \<Longrightarrow> server_ok s"
  by (auto simp: new_server_def server_ok_def split: if_splits)

end


section \<open>Responses\<close>

text \<open>
  A response is a JSON object with distinct keys: \<open>ok\<close> true and no error, or of type \<open>error\<close> with
  \<open>ok\<close> false and an object of code, message and retryable.
\<close>

definition well_formed_response :: "message \<Rightarrow> bool" where
  "well_formed_response r \<longleftrightarrow> distinct (map fst r) \<and>
     (field r ''ok'' = JBool True \<and> \<not> has_field r ''error''
      \<or> field r ''ok'' = JBool False \<and> field r ''type'' = jstr ''error''
        \<and> (case field r ''error'' of JDict e \<Rightarrow> map fst e = map asc [''code'', ''message'', ''retryable''] | _ \<Rightarrow> False))"

definition echoes :: "json \<Rightarrow> message \<Rightarrow> bool" where
  "echoes request_id r \<longleftrightarrow> field r ''request_id'' = request_id"

definition good_response :: "json \<Rightarrow> message \<Rightarrow> bool" where
  "good_response request_id r \<longleftrightarrow> well_formed_response r
     \<and> (echoes request_id r \<or> field r ''ok'' = JBool True \<and> \<not> has_field r ''request_id'')"

lemmas message_simps = well_formed_response_def echoes_def good_response_def field_def has_field_def obj_def asc_def jstr_def

lemma good_error: "good_response i (error_response code msg i retry)"
  by (simp add: message_simps error_response_def)

lemma resolve_answers:
  "answers (\<lambda>(e, err). case err of None \<Rightarrow> True | Some r \<Rightarrow> good_response (field m ''request_id'') r) (resolve_requested_epoch en m epoch)"
proof -
  have "answers (\<lambda>err. case err of None \<Rightarrow> True | Some r \<Rightarrow> good_response (field m ''request_id'') r) (binding_error m epoch)"
    by (rule answersI, cases "optional_query_identity m") (auto simp: binding_error_def good_error split: option.splits if_splits)
  then show ?thesis
    unfolding resolve_requested_epoch_def
    by (rule answers_bind) (auto intro!: answers_lift answers_reads simp: good_error Let_def split: option.splits if_splits)
qed

lemma run_query_answers:
  assumes "\<And>epoch latest shown s. good_response (field m ''request_id'') (shape epoch latest shown s)"
  shows "answers (good_response (field m ''request_id'')) (run_query en m q shape)"
  unfolding run_query_def
  by (rule answers_bind [OF resolve_answers])
    (auto intro!: answers_lift answers_reads answers_then assms split: option.splits)

lemma apply_update_answers: "answers (good_response i) (apply_context_update en u)"
proof -
  have stale: "good_response i (obj [(''type'', t), (''ok'', JBool True), (''accepted'', a), (''stale'', b), (''context_epoch'', c),
      (''client_context_epoch'', d)])" for t a b c d by (simp add: message_simps)
  have fresh: "answers (good_response i) (hbind m (\<lambda>_. hbind n (\<lambda>assigned. case assigned of
      JInt assigned \<Rightarrow> hbind (g assigned) (\<lambda>_. lift_result (Inr (obj [(''type'', t), (''ok'', JBool True), (''accepted'', a),
        (''context_epoch'', JInt assigned), (''client_context_epoch'', d)])))
    | _ \<Rightarrow> lift_result (Inl err))))" for m n g t a d err
    by (auto intro!: answers_then answers_lift simp: message_simps split: json.split)
  show ?thesis
    by (rule answersI, unfold apply_context_update_def, split if_splits)
      (auto dest: answersD [OF fresh] simp: stale)
qed

lemma handler_answers: "(k, h) \<in> set (handlers en) \<Longrightarrow> answers (good_response (field m ''request_id'')) (h m)"
proof -
  let ?P = "good_response (field m ''request_id'')"
  have "answers ?P (handle_health en m)" "answers ?P (handle_context_update_receipt m)" "answers ?P (handle_reset en m)"
    "answers ?P (handle_commit en m)" "answers ?P (handle_focus en m)"
    unfolding handle_health_def handle_context_update_receipt_def handle_reset_def handle_commit_def handle_focus_def
    by (auto intro!: answers_then answers_lift answers_reads simp: message_simps Let_def split: prod.split)
  moreover have "answers ?P (handle_fatal m)"
    unfolding handle_fatal_def by (rule answers_lift) (auto simp: message_simps result_splits)
  moreover have "answers ?P (handle_context_update en m)"
    unfolding handle_context_update_def by (intro answers_then apply_update_answers)
  moreover have "answers ?P (handle_query_pinyin en m)" "answers ?P (handle_query_candidates en m)"
    unfolding handle_query_pinyin_def handle_query_candidates_def
    by (intro answers_then run_query_answers; simp add: message_simps)+
  ultimately show "answers ?P (h m)" if "(k, h) \<in> set (handlers en)"
    using that by (auto simp: handlers_def)
qed

lemma optional_identifier_field: "optional_identifier m key = Inr i \<Longrightarrow> field m key = optional_str i"
  by (auto simp: optional_identifier_def optional_str_def Let_def split: json.splits if_splits)

lemma good_with_request_id:
  assumes "good_response (optional_str i) r"
  shows "well_formed_response (with_request_id i r) \<and> echoes (optional_str i) (with_request_id i r)"
proof (cases i)
  case None
  then show ?thesis using assms
    by (auto simp: good_response_def with_request_id_def optional_str_def echoes_def has_field_def field_def)
next
  case (Some j)
  have d: "distinct (map fst (od_set (asc ''request_id'') (JStr j) r))"
    if "distinct (map fst r)" using that by (simp add: distinct_update)
  show ?thesis using assms d Some
    by (auto simp: good_response_def well_formed_response_def echoes_def with_request_id_def optional_str_def has_field_def field_def
      map_of_od_set asc_def)
qed

text \<open>
  Every message is answered, whatever it holds and whatever the engine does, with a
  well-formed response: a success or an error object, that carries the request's own valid
  \<open>request_id\<close> and no other.
\<close>

theorem responses_well_formed:
  "well_formed_response (fst (handle_message en m s))
   \<and> echoes (case optional_identifier m ''request_id'' of Inl _ \<Rightarrow> JNull | Inr i \<Rightarrow> optional_str i) (fst (handle_message en m s))"
proof -
  have exn: "well_formed_response (exception_response i err) \<and> echoes (optional_str i) (exception_response i err)" for i err
    by (cases err) (simp_all add: exception_response_def message_simps error_response_def optional_str_def split: option.split)
  have bad: "well_formed_response (error_response code msg (optional_str i) retry)
     \<and> echoes (optional_str i) (error_response code msg (optional_str i) retry)" for code msg i retry
    by (simp add: message_simps error_response_def)
  have "well_formed_response (fst (guarded i (dispatch (handlers en) i m) s))
     \<and> echoes (optional_str i) (fst (guarded i (dispatch (handlers en) i m) s))"
    if "optional_identifier m ''request_id'' = Inr i" for i
  proof -
    have "answers (\<lambda>r. well_formed_response r \<and> echoes (optional_str i) r) (hbind (h m) (\<lambda>r. lift_result (Inr (with_request_id i r))))"
      if "(k, h) \<in> set (handlers en)" for k h
      using handler_answers [OF that, of m]
      by (rule answers_bind) (auto intro!: answers_lift good_with_request_id simp: optional_identifier_field [OF \<open>_ = Inr i\<close>])
    then have "answers (\<lambda>r. well_formed_response r \<and> echoes (optional_str i) r) (dispatch (handlers en) i m)"
      unfolding dispatch_def by (auto intro!: answers_lift bad dest!: map_of_SomeD split: json.split option.split)
    then show ?thesis
      by (auto simp: guarded_def exn dest: answersD split: sum.split prod.split)
  qed
  then show ?thesis
    using exn [of None] by (simp add: handle_message_def serve_def optional_str_def split: sum.split)
qed

end
