(* ===== verification/Pipe_Connection.thy ===== *)
theory Pipe_Connection
  imports Pipe_Server
begin

text \<open>
  One connection of the named pipe (\<open>_serve_connection\<close>): frames are read until the peer is gone,
  each is answered before the next is read.  The bytes the peer ever sends are the input; the pipe
  handle itself is Windows I/O.
\<close>

text \<open>How the loop ends: the peer left, a protocol error was answered, or an exception left the thread.\<close>

datatype connection_end = PeerGone | ProtocolClosed | ThreadDied py_error

definition protocol_error_frame :: "float_codec \<Rightarrow> string \<Rightarrow> bytes" where
  "protocol_error_frame fc msg = (case encode_message fc (error_response ''protocol_error'' msg JNull False) of
     Inl _ \<Rightarrow> [] | Inr frame \<Rightarrow> frame)"

text \<open>\<open>except ProtocolError\<close> writes an error and ends; every other exception ends the thread.\<close>

definition end_connection :: "float_codec \<Rightarrow> py_error \<Rightarrow> bytes \<times> connection_end" where
  "end_connection fc err = (case err of
     ProtocolError msg \<Rightarrow> (protocol_error_frame fc msg, ProtocolClosed)
   | _ \<Rightarrow> ([], ThreadDied err))"

text \<open>\<open>_read_message\<close> on the bytes that are still to come: \<open>None\<close> is the \<open>EOFError\<close> of \<open>_read_exact\<close>.\<close>

definition read_message :: "float_codec \<Rightarrow> bytes \<Rightarrow> (message result \<times> bytes) option" where
  "read_message fc input =
     (if length input < 4 then None
      else let declared = le_value (take 4 input); rest = drop 4 input in
        if declared > MAX_MESSAGE_BYTES then Some (Inl (ProtocolError ''declared message is too large''), rest)
        else if length rest < declared then None
        else Some (decode_message fc (take 4 input @ take declared rest), drop declared rest))"

lemma read_message_shorter: "read_message fc input = Some (r, rest) \<Longrightarrow> length rest < length input"
  by (auto simp: read_message_def Let_def split: if_splits)

function serve_connection ::
  "float_codec \<Rightarrow> (message \<Rightarrow> 's \<Rightarrow> message \<times> 's) \<Rightarrow> bytes \<Rightarrow> 's \<Rightarrow> bytes \<times> 's \<times> connection_end" where
  "serve_connection fc handler input s = (case read_message fc input of
     None \<Rightarrow> ([], s, PeerGone)
   | Some (Inl err, _) \<Rightarrow> (let (frame, e) = end_connection fc err in (frame, s, e))
   | Some (Inr m, rest) \<Rightarrow>
       (let (response, s) = handler m s in
        case encode_message fc response of
          Inl err \<Rightarrow> (let (frame, e) = end_connection fc err in (frame, s, e))
        | Inr frame \<Rightarrow> (let (out, s, e) = serve_connection fc handler rest s in (frame @ out, s, e))))"
  by pat_completeness auto

termination
  by (relation "measure (\<lambda>(fc, handler, input, s). length input)") (auto dest: read_message_shorter)

declare serve_connection.simps [simp del]

section \<open>What a client sees\<close>

text \<open>The messages handled one after the other: the responses and the final state.\<close>

fun exchange :: "(message \<Rightarrow> 's \<Rightarrow> message \<times> 's) \<Rightarrow> message list \<Rightarrow> 's \<Rightarrow> message list \<times> 's" where
  "exchange handler [] s = ([], s)"
| "exchange handler (m # ms) s = (let (r, s) = handler m s; (rs, s) = exchange handler ms s in (r # rs, s))"

definition incomplete :: "bytes \<Rightarrow> bool" where
  "incomplete tail \<longleftrightarrow> length tail < 4
     \<or> le_value (take 4 tail) \<le> MAX_MESSAGE_BYTES \<and> length tail < 4 + le_value (take 4 tail)"

lemma read_frame:
  assumes "decode_message fc f = Inr m"
  shows "read_message fc (f @ rest) = Some (Inr m, rest)"
proof -
  have f: "4 \<le> length f" "le_value (take 4 f) \<le> MAX_MESSAGE_BYTES" "length (drop 4 f) = le_value (take 4 f)"
    using assms by (auto simp: decode_message_def Let_def split: if_splits)
  then have "take 4 f @ drop 4 f = f" by simp
  then show ?thesis using f assms by (simp add: read_message_def Let_def)
qed

lemma read_incomplete: "incomplete tail \<Longrightarrow> read_message fc tail = None"
  by (auto simp: incomplete_def read_message_def Let_def)

text \<open>
  Claim C22. A connection answers every complete frame, in order, with the encoded response of the
  request, each handled in the state its predecessors left; an unfinished frame at the end changes
  nothing.
\<close>

theorem connection_answers_in_order:
  assumes "list_all2 (\<lambda>m f. decode_message fc f = Inr m) ms frames"
    and "exchange (handle_message en) ms s = (rs, s')"
    and "list_all2 (\<lambda>r out. encode_message fc r = Inr out) rs outs"
    and "incomplete tail"
  shows "serve_connection fc (handle_message en) (concat frames @ tail) s = (concat outs, s', PeerGone)"
  using assms(1-3)
proof (induction arbitrary: s rs outs rule: list_all2_induct)
  case Nil
  then show ?case using read_incomplete [OF assms(4)] by (subst serve_connection.simps) simp
next
  case (Cons m ms f frames)
  obtain r s1 where r: "handle_message en m s = (r, s1)" by fastforce
  obtain rs1 where rs: "rs = r # rs1" "exchange (handle_message en) ms s1 = (rs1, s')"
    using Cons.prems(1) r by (auto simp: Let_def split: prod.splits)
  obtain out outs1 where outs: "outs = out # outs1" "encode_message fc r = Inr out"
      "list_all2 (\<lambda>r out. encode_message fc r = Inr out) rs1 outs1"
    using Cons.prems(2) rs(1) by (auto simp: list_all2_Cons1)
  have "read_message fc (f @ concat frames @ tail) = Some (Inr m, concat frames @ tail)" using Cons.hyps(1) by (rule read_frame)
  then show ?case
    using Cons.IH [OF rs(2) outs(3)] r outs(1,2) by (subst serve_connection.simps) simp
qed

text \<open>A frame that is not JSON raises no protocol error: the thread ends without an answer.\<close>

lemma malformed_frame_is_not_answered:
  "serve_connection demo_floats handler (le_bytes 4 1 @ [123]) s = ([], s, ThreadDied (ValueError ''JSONDecodeError''))"
proof -
  have "read_message demo_floats (le_bytes 4 1 @ [123]) = Some (Inl (ValueError ''JSONDecodeError''), [])" by code_simp
  then show ?thesis by (subst serve_connection.simps) (simp add: end_connection_def)
qed

definition counting_engine :: "int pipe_engine" where
  "counting_engine = \<lparr>
     pe_context_epoch = \<lambda>e. e, pe_request_context_update = \<lambda>before after e. (Inr (JInt (e + 1)), e + 1),
     pe_query = \<lambda>raw limit epoch e. (Inr [], e), pe_has_snapshot = None, pe_context_kind = None, pe_reset = None,
     pe_commit = None, pe_reset_private_context = None, pe_clear_history = None\<rparr>"

definition counting_server :: "int server" where
  "counting_server = \<lparr>sv_engine = 0, sv_latest_client_context_epoch = 0, sv_requested_context_epoch = 0,
     sv_last_context_error = None, sv_context_bindings = [], sv_latest_source_revisions = [], sv_context_update_receipt = None\<rparr>"

definition counted_messages :: "message list" where
  "counted_messages =
     [obj [(''type'', jstr ''context_update''), (''context_epoch'', JInt 1), (''before'', jstr ''a'')],
      obj [(''type'', jstr ''health''), (''request_id'', jstr ''r1'')], obj [(''type'', JNull)]]"

definition counted_frames :: "bytes list" where
  "counted_frames = map (\<lambda>m. projr (encode_message demo_floats m)) counted_messages"

definition counted_answers :: "message list" where
  "counted_answers = fst (exchange (handle_message counting_engine) counted_messages counting_server)"

theorem connection_answers_in_order_witness:
  "serve_connection demo_floats (handle_message counting_engine) (concat counted_frames @ [7, 0, 0, 0, 123]) counting_server
     = (concat (map (\<lambda>r. projr (encode_message demo_floats r)) counted_answers),
        snd (exchange (handle_message counting_engine) counted_messages counting_server), PeerGone)
   \<and> map (\<lambda>r. field r ''ok'') counted_answers = [JBool True, JBool True, JBool False]"
proof
  have "list_all2 (\<lambda>m f. decode_message demo_floats f = Inr m) counted_messages counted_frames" by code_simp
  moreover have "exchange (handle_message counting_engine) counted_messages counting_server
     = (counted_answers, snd (exchange (handle_message counting_engine) counted_messages counting_server))"
    by (simp add: counted_answers_def)
  moreover have "list_all2 (\<lambda>r out. encode_message demo_floats r = Inr out) counted_answers
      (map (\<lambda>r. projr (encode_message demo_floats r)) counted_answers)" by code_simp
  moreover have "incomplete [7, 0, 0, 0, 123]" by code_simp
  ultimately show "serve_connection demo_floats (handle_message counting_engine) (concat counted_frames @ [7, 0, 0, 0, 123])
      counting_server = (concat (map (\<lambda>r. projr (encode_message demo_floats r)) counted_answers),
        snd (exchange (handle_message counting_engine) counted_messages counting_server), PeerGone)"
    by (rule connection_answers_in_order)
  show "map (\<lambda>r. field r ''ok'') counted_answers = [JBool True, JBool True, JBool False]" by code_simp
qed

end
