(* ===== verification/Neural_Engine.thy ===== *)
theory Neural_Engine
  imports Epoch_Publisher Ranker
begin

text \<open>
  \<open>NeuralPinyinEngine\<close> (\<open>engine.py\<close>): logits snapshots published only for the newest request, retained
  for four epochs, and the reset of secure focus.  An event is one critical section (under
  \<open>_request_lock\<close>, with \<open>_snapshot_lock\<close> nested for a publication, or under \<open>_snapshot_lock\<close> alone) or
  one call of the model backend, which runs under no engine lock; events of the worker thread and of
  any number of callers interleave freely.  The backend is an argument.
\<close>

section \<open>State\<close>

record logits_snapshot =
  ls_epoch :: nat
  ls_logits :: "real list"
  ls_after_text :: pystr

record 'b snapshot_api =
  sa_create_snapshot :: "pystr \<Rightarrow> pystr \<Rightarrow> 'b \<Rightarrow> logits_snapshot result \<times> 'b"
  sa_invalidate_context_cache :: "'b \<Rightarrow> 'b"

type_synonym epoch_request = "nat \<times> pystr \<times> pystr"

text \<open>\<open>DeadWorker\<close>: an exception has ended the thread, and \<open>_context_worker\<close> still refers to it.\<close>

datatype engine_worker = NoWorker | Polling | Forwarding epoch_request | Publishing nat logits_snapshot | DeadWorker

datatype engine_caller =
    UpdateForwarding epoch_request
  | UpdatePublishing nat logits_snapshot
  | UpdateReturned "logits_snapshot result"
  | ResetClearing nat
  | ResetReturned nat

record 'b neural_engine =
  ne_backend :: 'b
  ne_snapshot :: "logits_snapshot option"
  ne_snapshots :: "(nat, logits_snapshot) odict"
  ne_requested_epoch :: nat
  ne_pending :: "epoch_request option"
  ne_worker :: engine_worker
  ne_callers :: "nat \<Rightarrow> engine_caller option"
  ne_texts :: "nat \<Rightarrow> (pystr \<times> pystr) option"
  ne_resets :: "nat set"

text \<open>
  The last two fields only record history.  The constructor refuses an index that was built for
  another tokenizer, model, revision or pypinyin.
\<close>

record index_identity =
  ii_tokenizer_hash :: "pystr option"
  ii_model_id :: "pystr option"
  ii_revision :: "pystr option"
  ii_pypinyin_version :: "pystr option"

definition new_engine :: "'b \<Rightarrow> index_identity \<Rightarrow> index_identity \<Rightarrow> 'b neural_engine result" where
  "new_engine backend expected actual =
     rbind (require (ii_tokenizer_hash expected = ii_tokenizer_hash actual)
              (RuntimeError ''tokenizer/index mismatch; rebuild the pinyin index'')) (\<lambda>_.
     rbind (require (ii_model_id expected = ii_model_id actual)
              (RuntimeError ''model/index mismatch; rebuild the pinyin index'')) (\<lambda>_.
     rbind (require (ii_revision expected = ii_revision actual)
              (RuntimeError ''model revision/index mismatch; rebuild the pinyin index'')) (\<lambda>_.
     rbind (require (ii_pypinyin_version expected = ii_pypinyin_version actual)
              (RuntimeError ''pypinyin/index mismatch; rebuild the pinyin index'')) (\<lambda>_.
       Inr \<lparr>ne_backend = backend, ne_snapshot = None, ne_snapshots = [], ne_requested_epoch = 0, ne_pending = None,
            ne_worker = NoWorker, ne_callers = Map.empty, ne_texts = Map.empty, ne_resets = {}\<rparr>))))"

definition RETAINED_SNAPSHOTS :: nat where "RETAINED_SNAPSHOTS = 4"

definition publish_snapshot :: "logits_snapshot \<Rightarrow> 'b neural_engine \<Rightarrow> 'b neural_engine" where
  "publish_snapshot s c = c\<lparr>ne_snapshot := Some s,
     ne_snapshots := od_evict RETAINED_SNAPSHOTS (od_set (ls_epoch s) s (ne_snapshots c))\<rparr>"

section \<open>Events\<close>

datatype engine_event =
    RequestUpdate pystr pystr
  | WorkerPoll | WorkerForward | WorkerPublish
  | BeginUpdate nat pystr pystr | ForwardUpdate nat | PublishUpdate nat
  | BeginReset nat | ClearReset nat

definition engine_caller_free :: "engine_caller option \<Rightarrow> bool" where
  "engine_caller_free pc = (case pc of None \<Rightarrow> True | Some (UpdateReturned _) \<Rightarrow> True | Some (ResetReturned _) \<Rightarrow> True | _ \<Rightarrow> False)"

text \<open>\<open>request_context_update\<close>: the newest context replaces a pending one; a missing or dead worker is replaced.\<close>

definition request_context_update :: "pystr \<Rightarrow> pystr \<Rightarrow> 'b neural_engine \<Rightarrow> nat \<times> 'b neural_engine" where
  "request_context_update before after c =
     (let e = ne_requested_epoch c + 1 in
      (e, c\<lparr>ne_requested_epoch := e, ne_pending := Some (e, before, after),
            ne_worker := (case ne_worker c of NoWorker \<Rightarrow> Polling | DeadWorker \<Rightarrow> Polling | w \<Rightarrow> w),
            ne_texts := (ne_texts c)(e \<mapsto> (before, after))\<rparr>))"

definition begin_reset :: "'b snapshot_api \<Rightarrow> 'b neural_engine \<Rightarrow> nat \<times> 'b neural_engine" where
  "begin_reset api c =
     (let e = ne_requested_epoch c + 1 in
      (e, c\<lparr>ne_requested_epoch := e, ne_pending := None,
            ne_backend := sa_invalidate_context_cache api (ne_backend c), ne_resets := insert e (ne_resets c)\<rparr>))"

definition clear_snapshots :: "'b neural_engine \<Rightarrow> 'b neural_engine" where
  "clear_snapshots c = c\<lparr>ne_snapshot := None, ne_snapshots := []\<rparr>"

definition publish_if_newest :: "nat \<Rightarrow> logits_snapshot \<Rightarrow> 'b neural_engine \<Rightarrow> 'b neural_engine" where
  "publish_if_newest e s c = (if e = ne_requested_epoch c then publish_snapshot s c else c)"

fun engine_step :: "'b snapshot_api \<Rightarrow> engine_event \<Rightarrow> 'b neural_engine \<Rightarrow> 'b neural_engine option" where
  "engine_step api (RequestUpdate before after) c = Some (snd (request_context_update before after c))"
| "engine_step api WorkerPoll c = (case ne_worker c of
       Polling \<Rightarrow> (case ne_pending c of
           None \<Rightarrow> Some (c\<lparr>ne_worker := NoWorker\<rparr>)
         | Some r \<Rightarrow> Some (c\<lparr>ne_pending := None, ne_worker := Forwarding r\<rparr>))
     | _ \<Rightarrow> None)"
| "engine_step api WorkerForward c = (case ne_worker c of
       Forwarding (e, before, after) \<Rightarrow>
         (case sa_create_snapshot api before after (ne_backend c) of
            (Inl err, b) \<Rightarrow> Some (c\<lparr>ne_backend := b, ne_worker := DeadWorker\<rparr>)
          | (Inr s, b) \<Rightarrow> Some (c\<lparr>ne_backend := b, ne_worker := Publishing e (s\<lparr>ls_epoch := e\<rparr>)\<rparr>))
     | _ \<Rightarrow> None)"
| "engine_step api WorkerPublish c = (case ne_worker c of
       Publishing e s \<Rightarrow> Some (publish_if_newest e s (c\<lparr>ne_worker := Polling\<rparr>))
     | _ \<Rightarrow> None)"
| "engine_step api (BeginUpdate t before after) c =
     (if \<not> engine_caller_free (ne_callers c t) then None
      else let e = ne_requested_epoch c + 1 in
        Some (c\<lparr>ne_requested_epoch := e, ne_callers := (ne_callers c)(t \<mapsto> UpdateForwarding (e, before, after)),
                ne_texts := (ne_texts c)(e \<mapsto> (before, after))\<rparr>))"
| "engine_step api (ForwardUpdate t) c = (case ne_callers c t of
       Some (UpdateForwarding (e, before, after)) \<Rightarrow>
         (case sa_create_snapshot api before after (ne_backend c) of
            (Inl err, b) \<Rightarrow> Some (c\<lparr>ne_backend := b, ne_callers := (ne_callers c)(t \<mapsto> UpdateReturned (Inl err))\<rparr>)
          | (Inr s, b) \<Rightarrow> Some (c\<lparr>ne_backend := b,
                ne_callers := (ne_callers c)(t \<mapsto> UpdatePublishing e (s\<lparr>ls_epoch := e\<rparr>))\<rparr>))
     | _ \<Rightarrow> None)"
| "engine_step api (PublishUpdate t) c = (case ne_callers c t of
       Some (UpdatePublishing e s) \<Rightarrow>
         Some (publish_if_newest e s (c\<lparr>ne_callers := (ne_callers c)(t \<mapsto> UpdateReturned (Inr s))\<rparr>))
     | _ \<Rightarrow> None)"
| "engine_step api (BeginReset t) c =
     (if \<not> engine_caller_free (ne_callers c t) then None
      else let (e, c) = begin_reset api c in Some (c\<lparr>ne_callers := (ne_callers c)(t \<mapsto> ResetClearing e)\<rparr>))"
| "engine_step api (ClearReset t) c = (case ne_callers c t of
       Some (ResetClearing e) \<Rightarrow> Some (clear_snapshots (c\<lparr>ne_callers := (ne_callers c)(t \<mapsto> ResetReturned e)\<rparr>))
     | _ \<Rightarrow> None)"

text \<open>Reads, each under the snapshot lock; ranking then runs on the immutable snapshot.\<close>

definition engine_context_epoch :: "'b neural_engine \<Rightarrow> nat" where
  "engine_context_epoch c = (case ne_snapshot c of None \<Rightarrow> 0 | Some s \<Rightarrow> ls_epoch s)"

definition engine_has_snapshot :: "'b neural_engine \<Rightarrow> nat \<Rightarrow> bool" where
  "engine_has_snapshot c epoch \<longleftrightarrow> epoch \<in> set (od_keys (ne_snapshots c))"

definition engine_query ::
  "unicode_db \<Rightarrow> partition \<Rightarrow> pystr \<Rightarrow> int \<Rightarrow> nat option \<Rightarrow> 'b neural_engine \<Rightarrow> pinyin_index \<Rightarrow> (candidate list \<times> pinyin_index) result" where
  "engine_query db argpartition raw_pinyin limit context_epoch c ix =
     (case (case context_epoch of Some e \<Rightarrow> map_of (ne_snapshots c) e | None \<Rightarrow> ne_snapshot c) of
        None \<Rightarrow> Inr ([], ix)
      | Some s \<Rightarrow> rank_candidates db argpartition ix raw_pinyin (ls_logits s) (int (ls_epoch s)) limit (ls_after_text s))"

text \<open>\<open>reset_private_context\<close> of a caller that nothing interrupts, and \<open>clear_history\<close>, which has nothing to clear.\<close>

definition reset_private_context :: "'b snapshot_api \<Rightarrow> 'b neural_engine \<Rightarrow> 'b neural_engine" where
  "reset_private_context api c = clear_snapshots (snd (begin_reset api c))"

definition clear_history :: "'b neural_engine \<Rightarrow> 'b neural_engine" where
  "clear_history c = c"

section \<open>The epoch contract\<close>

definition answers_request :: "'b snapshot_api \<Rightarrow> 'b neural_engine \<Rightarrow> nat \<Rightarrow> logits_snapshot \<Rightarrow> bool" where
  "answers_request api c k s \<longleftrightarrow> ls_epoch s = k \<and> (\<exists>before after b s0 b'. ne_texts c k = Some (before, after)
     \<and> sa_create_snapshot api before after b = (Inr s0, b') \<and> s = s0\<lparr>ls_epoch := k\<rparr>)"

definition was_asked :: "'b neural_engine \<Rightarrow> epoch_request \<Rightarrow> bool" where
  "was_asked c r \<longleftrightarrow> (case r of (e, before, after) \<Rightarrow> ne_texts c e = Some (before, after))"

fun engine_worker_ok :: "'b snapshot_api \<Rightarrow> 'b neural_engine \<Rightarrow> engine_worker \<Rightarrow> bool" where
  "engine_worker_ok api c (Forwarding r) = was_asked c r"
| "engine_worker_ok api c (Publishing e s) = answers_request api c e s"
| "engine_worker_ok api c _ = True"

fun engine_caller_ok :: "'b snapshot_api \<Rightarrow> 'b neural_engine \<Rightarrow> engine_caller \<Rightarrow> bool" where
  "engine_caller_ok api c (UpdateForwarding r) = was_asked c r"
| "engine_caller_ok api c (UpdatePublishing e s) = answers_request api c e s"
| "engine_caller_ok api c (ResetClearing e) = (e \<in> ne_resets c)"
| "engine_caller_ok api c (ResetReturned e) = (e \<in> ne_resets c)"
| "engine_caller_ok api c (UpdateReturned _) = True"

definition engine_ok :: "'b snapshot_api \<Rightarrow> 'b neural_engine \<Rightarrow> bool" where
  "engine_ok api c \<longleftrightarrow> epochs_disjoint (ne_texts c) (ne_resets c) (ne_requested_epoch c)
     \<and> (\<forall>r. ne_pending c = Some r \<longrightarrow> was_asked c r) \<and> engine_worker_ok api c (ne_worker c)
     \<and> (\<forall>t pc. ne_callers c t = Some pc \<longrightarrow> engine_caller_ok api c pc)
     \<and> length (ne_snapshots c) \<le> RETAINED_SNAPSHOTS \<and> od_ok (ne_snapshots c)
     \<and> (\<forall>ks \<in> set (ne_snapshots c). answers_request api c (fst ks) (snd ks))
     \<and> (\<forall>s. ne_snapshot c = Some s \<longrightarrow> (ls_epoch s, s) \<in> set (ne_snapshots c))"

definition extends_history :: "'b neural_engine \<Rightarrow> 'b neural_engine \<Rightarrow> bool" where
  "extends_history c c' \<longleftrightarrow> ne_texts c \<subseteq>\<^sub>m ne_texts c' \<and> ne_resets c \<subseteq> ne_resets c' \<and> ne_requested_epoch c \<le> ne_requested_epoch c'"

lemma extends_asked: "extends_history c c' \<Longrightarrow> was_asked c r \<Longrightarrow> was_asked c' r"
  by (auto simp: extends_history_def was_asked_def map_le_def dom_def split: prod.splits)

lemma extends_answers: "extends_history c c' \<Longrightarrow> answers_request api c k s \<Longrightarrow> answers_request api c' k s"
  by (fastforce simp: extends_history_def answers_request_def map_le_def dom_def)

lemma extends_worker: "extends_history c c' \<Longrightarrow> engine_worker_ok api c w \<Longrightarrow> engine_worker_ok api c' w"
  by (cases w) (auto simp: extends_asked extends_answers)

lemma extends_caller: "extends_history c c' \<Longrightarrow> engine_caller_ok api c pc \<Longrightarrow> engine_caller_ok api c' pc"
  by (cases pc) (auto simp: extends_asked extends_answers, auto simp: extends_history_def)

lemma publish_if_newest_fields [simp]:
  "ne_texts (publish_if_newest e s c) = ne_texts c" "ne_resets (publish_if_newest e s c) = ne_resets c"
  "ne_requested_epoch (publish_if_newest e s c) = ne_requested_epoch c" "ne_worker (publish_if_newest e s c) = ne_worker c"
  "ne_callers (publish_if_newest e s c) = ne_callers c" "ne_pending (publish_if_newest e s c) = ne_pending c"
  by (simp_all add: publish_if_newest_def publish_snapshot_def)

text \<open>The step relation, and what one event can change.\<close>

inductive engine_moves :: "'b snapshot_api \<Rightarrow> 'b neural_engine \<Rightarrow> 'b neural_engine \<Rightarrow> bool" for api where
  "engine_step api ev c = Some c' \<Longrightarrow> engine_moves api c c'"

inductive_cases engine_movesE: "engine_moves api c c'"

lemma engine_step_history:
  assumes "engine_step api ev c = Some c'" "epochs_disjoint (ne_texts c) (ne_resets c) (ne_requested_epoch c)"
  shows "extends_history c c' \<and> epochs_disjoint (ne_texts c') (ne_resets c') (ne_requested_epoch c')"
proof -
  note fresh = epochs_add_text [OF assms(2)] epochs_add_reset [OF assms(2)]
  show ?thesis
    using assms fresh
    by (cases ev) (auto simp: extends_history_def request_context_update_def begin_reset_def clear_snapshots_def Let_def
      split: engine_worker.splits engine_caller.splits option.splits if_splits prod.splits sum.splits)
qed


lemma stored_newest:
  assumes "length d \<le> cap" "0 < cap"
  shows "(k, v) \<in> set (od_evict cap (od_set k v d))"
proof (cases "k \<in> fst ` set d")
  case True
  then have "od_evict cap (od_set k v d) = od_set k v d"
    using assms(1) by (simp add: od_evict_drop length_od_set_old)
  moreover have "map_of (od_set k v d) k = Some v" by (simp add: map_of_od_set)
  ultimately show ?thesis by (metis map_of_SomeD)
next
  case False
  then show ?thesis using assms by (simp add: od_evict_drop od_set_append)
qed

lemma stored_subset: "set (od_evict cap (od_set k v d)) \<subseteq> insert (k, v) (set d)"
  by (meson order_trans set_evict set_od_set_subset)

lemma answers_created:
  "ne_texts c e = Some (before, after) \<Longrightarrow> sa_create_snapshot api before after b = (Inr s, b')
     \<Longrightarrow> ne_texts c' = ne_texts c \<Longrightarrow> answers_request api c' e (s\<lparr>ls_epoch := e\<rparr>)"
  by (auto simp: answers_request_def)

lemma asked_same_texts: "ne_texts c' = ne_texts c \<Longrightarrow> was_asked c' r = was_asked c r"
  by (simp add: was_asked_def)

lemma engine_step_worker:
  assumes "engine_step api ev c = Some c'" "engine_ok api c"
  shows "engine_worker_ok api c' (ne_worker c') \<and> (\<forall>r. ne_pending c' = Some r \<longrightarrow> was_asked c' r)"
proof -
  have ext: "extends_history c c'" using engine_step_history [OF assms(1)] assms(2) by (simp add: engine_ok_def)
  have w: "engine_worker_ok api c' (ne_worker c)" and p: "\<forall>r. ne_pending c = Some r \<longrightarrow> was_asked c' r"
    using assms(2) extends_worker [OF ext] extends_asked [OF ext] by (auto simp: engine_ok_def)
  from assms(1) show ?thesis
  proof (cases ev)
    case (RequestUpdate before after)
    with assms(1) w p show ?thesis
      by (auto simp: request_context_update_def Let_def was_asked_def split: engine_worker.splits)
  next
    case WorkerForward
    with assms obtain e before after where f: "ne_worker c = Forwarding (e, before, after)"
      by (auto split: engine_worker.splits)
    then have "ne_texts c e = Some (before, after)" using assms(2) by (simp add: engine_ok_def was_asked_def)
    then show ?thesis using assms(1) WorkerForward f p answers_created [of c e before after api "ne_backend c" _ _ c']
      by (auto split: prod.splits sum.splits)
  qed (use assms(1) w p in \<open>auto simp: begin_reset_def clear_snapshots_def Let_def
      split: engine_worker.splits engine_caller.splits option.splits if_splits prod.splits sum.splits\<close>)
qed

lemma engine_step_callers:
  assumes "engine_step api ev c = Some c'" "engine_ok api c" "ne_callers c' t = Some pc"
  shows "engine_caller_ok api c' pc"
proof -
  have ext: "extends_history c c'" using engine_step_history [OF assms(1)] assms(2) by (simp add: engine_ok_def)
  have old: "engine_caller_ok api c' pc'" if "ne_callers c u = Some pc'" for u pc'
    using assms(2) that extends_caller [OF ext] by (auto simp: engine_ok_def)
  from assms(1) show ?thesis
  proof (cases ev)
    case (ForwardUpdate u)
    with assms obtain e before after where f: "ne_callers c u = Some (UpdateForwarding (e, before, after))"
      by (auto split: option.splits engine_caller.splits)
    then have "ne_texts c e = Some (before, after)" using assms(2) by (force simp: engine_ok_def was_asked_def)
    then show ?thesis
      using assms(1,3) ForwardUpdate f old answers_created [of c e before after api "ne_backend c" _ _ c']
      by (auto split: prod.splits sum.splits if_splits)
  next
    case (ClearReset u)
    with assms obtain e where e: "ne_callers c u = Some (ResetClearing e)"
      by (auto split: option.splits engine_caller.splits)
    then have "e \<in> ne_resets c" using assms(2) by (force simp: engine_ok_def)
    then show ?thesis using assms(1,3) ClearReset e old by (auto simp: clear_snapshots_def split: if_splits)
  qed (use assms(1,3) old in \<open>auto simp: request_context_update_def begin_reset_def clear_snapshots_def Let_def was_asked_def
      split: engine_worker.splits engine_caller.splits option.splits if_splits prod.splits sum.splits\<close>)
qed

text \<open>An event leaves the store alone, clears it, or publishes an answer to the newest request.\<close>

definition publishes :: "'b snapshot_api \<Rightarrow> 'b neural_engine \<Rightarrow> 'b neural_engine \<Rightarrow> logits_snapshot \<Rightarrow> bool" where
  "publishes api c c' s \<longleftrightarrow> answers_request api c (ne_requested_epoch c) s
     \<and> ne_snapshots c' = od_evict RETAINED_SNAPSHOTS (od_set (ls_epoch s) s (ne_snapshots c)) \<and> ne_snapshot c' = Some s"

lemma engine_step_store:
  assumes "engine_step api ev c = Some c'" "engine_ok api c"
  shows "ne_snapshots c' = ne_snapshots c \<and> ne_snapshot c' = ne_snapshot c
     \<or> ne_snapshots c' = [] \<and> ne_snapshot c' = None \<or> (\<exists>s. publishes api c c' s)"
proof -
  have w: "engine_worker_ok api c (ne_worker c)" and ca: "\<And>t pc. ne_callers c t = Some pc \<Longrightarrow> engine_caller_ok api c pc"
    using assms(2) by (auto simp: engine_ok_def)
  from assms(1) show ?thesis
  proof (cases ev)
    case WorkerPublish
    then obtain e s where p: "ne_worker c = Publishing e s" "c' = publish_if_newest e s (c\<lparr>ne_worker := Polling\<rparr>)"
      using assms(1) by (auto split: engine_worker.splits)
    then have "e = ne_requested_epoch c \<Longrightarrow> publishes api c c' s"
      using w by (simp add: publish_if_newest_def publish_snapshot_def publishes_def)
    then show ?thesis using p(2) by (auto simp: publish_if_newest_def)
  next
    case (PublishUpdate t)
    then obtain e s where p: "ne_callers c t = Some (UpdatePublishing e s)"
        "c' = publish_if_newest e s (c\<lparr>ne_callers := (ne_callers c)(t \<mapsto> UpdateReturned (Inr s))\<rparr>)"
      using assms(1) by (auto split: option.splits engine_caller.splits)
    then have "e = ne_requested_epoch c \<Longrightarrow> publishes api c c' s"
      using ca [OF p(1)] by (simp add: publish_if_newest_def publish_snapshot_def publishes_def)
    then show ?thesis using p(2) by (auto simp: publish_if_newest_def)
  qed (use assms(1) in \<open>auto simp: request_context_update_def begin_reset_def clear_snapshots_def Let_def
      split: engine_worker.splits engine_caller.splits option.splits if_splits prod.splits sum.splits\<close>)
qed

lemma engine_step_ok:
  assumes "engine_step api ev c = Some c'" "engine_ok api c"
  shows "engine_ok api c'"
proof -
  have ext: "extends_history c c'" and ep: "epochs_disjoint (ne_texts c') (ne_resets c') (ne_requested_epoch c')"
    using engine_step_history [OF assms(1)] assms(2) by (simp_all add: engine_ok_def)
  have old: "\<forall>ks \<in> set (ne_snapshots c). answers_request api c' (fst ks) (snd ks)" "length (ne_snapshots c) \<le> RETAINED_SNAPSHOTS"
      "od_ok (ne_snapshots c)" "\<forall>s. ne_snapshot c = Some s \<longrightarrow> (ls_epoch s, s) \<in> set (ne_snapshots c)"
    using assms(2) extends_answers [OF ext] by (auto simp: engine_ok_def)
  have "length (ne_snapshots c') \<le> RETAINED_SNAPSHOTS \<and> od_ok (ne_snapshots c')
     \<and> (\<forall>ks \<in> set (ne_snapshots c'). answers_request api c' (fst ks) (snd ks))
     \<and> (\<forall>s. ne_snapshot c' = Some s \<longrightarrow> (ls_epoch s, s) \<in> set (ne_snapshots c'))"
    using engine_step_store [OF assms]
  proof (elim disjE exE)
    fix s assume p: "publishes api c c' s"
    then have eq: "ls_epoch s = ne_requested_epoch c" by (simp add: publishes_def answers_request_def)
    have s: "answers_request api c' (ls_epoch s) s"
      using extends_answers [OF ext] p unfolding publishes_def eq by blast
    have "set (ne_snapshots c') \<subseteq> insert (ls_epoch s, s) (set (ne_snapshots c))"
      using p unfolding publishes_def by (metis stored_subset)
    then have "\<forall>ks \<in> set (ne_snapshots c'). answers_request api c' (fst ks) (snd ks)" using s old(1) by auto
    moreover have "(ls_epoch s, s) \<in> set (ne_snapshots c')"
      using p stored_newest [OF old(2)] by (simp add: publishes_def RETAINED_SNAPSHOTS_def)
    ultimately show ?thesis using p old(3) by (simp add: publishes_def)
  qed (use old in auto)
  then show ?thesis
    using ep engine_step_worker [OF assms] engine_step_callers [OF assms] by (auto simp: engine_ok_def)
qed

lemma new_engine_ok: "new_engine backend expected actual = Inr c \<Longrightarrow> engine_ok api c"
  by (auto simp: new_engine_def engine_ok_def epochs_disjoint_def result_splits)

interpretation engine: epoch_publisher "engine_moves api" "engine_ok api" ne_requested_epoch
  "\<lambda>c. fst ` set (ne_snapshots c)" ne_resets for api :: "'b snapshot_api"
proof unfold_locales
  fix c c' :: "'b neural_engine" and b e
  assume ok: "engine_ok api c"
  show "b \<le> ne_requested_epoch c" if "b \<in> ne_resets c"
    using ok that by (auto simp: engine_ok_def epochs_disjoint_def)
  assume "engine_moves api c c'"
  then obtain ev where st: "engine_step api ev c = Some c'" by (rule engine_movesE)
  show "engine_ok api c'" using engine_step_ok [OF st ok] .
  show "ne_requested_epoch c \<le> ne_requested_epoch c'" "ne_resets c \<subseteq> ne_resets c'"
    using engine_step_history [OF st] ok by (auto simp: engine_ok_def extends_history_def)
  assume e: "e \<in> fst ` set (ne_snapshots c')"
  from engine_step_store [OF st ok] show "e \<in> fst ` set (ne_snapshots c) \<or> e = ne_requested_epoch c \<and> e \<notin> ne_resets c"
  proof (elim disjE exE)
    fix s assume p: "publishes api c c' s"
    then have "e = ls_epoch s \<or> e \<in> fst ` set (ne_snapshots c)"
      using e stored_subset [of RETAINED_SNAPSHOTS "ls_epoch s" s "ne_snapshots c"] by (auto simp: publishes_def)
    moreover have "ls_epoch s = ne_requested_epoch c" "ne_requested_epoch c \<in> dom (ne_texts c)"
      using p by (auto simp: publishes_def answers_request_def)
    moreover from this have "ne_requested_epoch c \<notin> ne_resets c"
      using ok by (auto simp: engine_ok_def epochs_disjoint_def)
    ultimately show ?thesis by auto
  qed (use e in auto)
qed


section \<open>Two histories the locks allow\<close>

text \<open>
  When the model raises, the worker thread ends.  A request that arrived during the forward stays
  pending, and no worker event is possible until another request starts a new thread.
\<close>

definition engine_run :: "'b snapshot_api \<Rightarrow> engine_event list \<Rightarrow> 'b neural_engine \<Rightarrow> 'b neural_engine" where
  "engine_run api evs c = foldl (\<lambda>c ev. case engine_step api ev c of None \<Rightarrow> c | Some c' \<Rightarrow> c') c evs"

lemma worker_death_strands_request:
  assumes "new_engine backend expected actual = Inr c" "sa_create_snapshot api b1 a1 backend = (Inl err, backend')"
    and "d = engine_run api [RequestUpdate b1 a1, WorkerPoll, RequestUpdate b2 a2, WorkerForward] c"
  shows "ne_pending d = Some (2, b2, a2)" "ne_requested_epoch d = 2"
    and "list_all (\<lambda>ev. engine_step api ev d = None) [WorkerPoll, WorkerForward, WorkerPublish]"
  using assms by (auto simp: new_engine_def result_splits engine_run_def request_context_update_def Let_def)

text \<open>
  A reset takes its epoch under the request lock and clears the published states afterwards.  A
  request made and published in between is wiped although it is the newest.
\<close>

lemma late_clear_wipes_newer:
  assumes "new_engine backend expected actual = Inr c" "\<And>b. sa_create_snapshot api before after b = (Inr s, b)"
    and "d = engine_run api [BeginReset 0, RequestUpdate before after, WorkerPoll, WorkerForward, WorkerPublish] c"
  shows "engine_context_epoch d = 2" "ne_requested_epoch d = 2"
    and "engine_context_epoch (engine_run api [ClearReset 0] d) = 0" "ne_requested_epoch (engine_run api [ClearReset 0] d) = 2"
  using assms
  by (auto simp: new_engine_def result_splits engine_run_def request_context_update_def begin_reset_def clear_snapshots_def
    engine_caller_free_def publish_if_newest_def publish_snapshot_def engine_context_epoch_def Let_def)

end
