(* ===== verification/Neural_Service.thy ===== *)
theory Neural_Service
  imports Pipe_Server Neural_Engine
begin

text \<open>
  The pipe service on the index engine: \<open>NeuralPinyinEngine\<close> supplies the operations that
  \<open>NamedPipeServer\<close> calls, and satisfies the contract its handlers rely on.  The engine's own
  threads move between the messages.  The two theorems are what secure focus is for: the contexts
  known before it cannot be queried again, and the model states behind them are gone.
\<close>

section \<open>The engine behind the pipe\<close>

type_synonym 'b indexed_engine = "'b neural_engine \<times> pinyin_index"

definition service_request :: "pystr \<Rightarrow> pystr \<Rightarrow> ('b indexed_engine, json) handler" where
  "service_request before after e =
     (let (n, c) = request_context_update before after (fst e) in (Inr (JInt (int n)), (c, snd e)))"

definition service_query :: "unicode_db \<Rightarrow> partition \<Rightarrow> pystr \<Rightarrow> int \<Rightarrow> int \<Rightarrow> ('b indexed_engine, candidate list) handler" where
  "service_query db argpartition raw_pinyin limit epoch e =
     (case engine_query db argpartition raw_pinyin limit (Some (nat epoch)) (fst e) (snd e) of
        Inl err \<Rightarrow> (Inl err, e)
      | Inr (candidates, ix) \<Rightarrow> (Inr candidates, (fst e, ix)))"

definition neural_ops :: "unicode_db \<Rightarrow> partition \<Rightarrow> 'b snapshot_api \<Rightarrow> 'b indexed_engine pipe_engine" where
  "neural_ops db argpartition api = \<lparr>
     pe_context_epoch = \<lambda>e. int (engine_context_epoch (fst e)),
     pe_request_context_update = service_request,
     pe_query = service_query db argpartition,
     pe_has_snapshot = Some (\<lambda>e epoch. engine_has_snapshot (fst e) (nat epoch)),
     pe_context_kind = None, pe_reset = None, pe_commit = None,
     pe_reset_private_context = Some (\<lambda>e. (Inr (), (reset_private_context api (fst e), snd e))),
     pe_clear_history = Some (\<lambda>e. (Inr (), (clear_history (fst e), snd e)))\<rparr>"

definition service_moves ::
  "unicode_db \<Rightarrow> partition \<Rightarrow> 'b snapshot_api \<Rightarrow> 'b indexed_engine server \<Rightarrow> 'b indexed_engine server \<Rightarrow> bool" where
  "service_moves db argpartition api =
     server_moves (neural_ops db argpartition api) (\<lambda>e e'. engine_moves api (fst e) (fst e') \<and> snd e' = snd e)"

section \<open>The contract\<close>

text \<open>Past a reset: every published state was requested after it.\<close>

definition past :: "'b snapshot_api \<Rightarrow> nat set \<Rightarrow> 'b indexed_engine \<Rightarrow> bool" where
  "past api B e \<longleftrightarrow> engine_ok api (fst e) \<and> B \<subseteq> ne_resets (fst e) \<and> (\<forall>b \<in> B. \<forall>k \<in> fst ` set (ne_snapshots (fst e)). b < k)"

definition newest_epoch :: "'b indexed_engine \<Rightarrow> int" where
  "newest_epoch e = int (ne_requested_epoch (fst e))"

lemma past_moves:
  assumes "engine_moves api c c'" "past api B (c, ix)"
  shows "past api B (c', ix') \<and> ne_requested_epoch c \<le> ne_requested_epoch c'"
proof -
  have ok: "engine_ok api c" "B \<subseteq> ne_resets c" using assms(2) by (auto simp: past_def)
  have "(engine_moves api)\<^sup>*\<^sup>* c c'" using assms(1) by blast
  then have "\<forall>k \<in> fst ` set (ne_snapshots c'). b < k" if "b \<in> B" for b
    using engine.barrier [of api c c' b] ok that assms(2) by (auto simp: past_def)
  then show ?thesis
    using engine.inv_step [OF ok(1) assms(1)] engine.resets_step [OF ok(1) assms(1)] engine.requested_step [OF ok(1) assms(1)] ok(2)
    by (auto simp: past_def)
qed

lemma request_moves: "engine_moves api c (snd (request_context_update before after c))"
  by (rule engine_moves.intros [of api "RequestUpdate before after"]) simp

lemma reset_engine_ok: "engine_ok api c \<Longrightarrow> engine_ok api (reset_private_context api c)"
proof -
  assume ok: "engine_ok api c"
  let ?d = "reset_private_context api c"
  have d: "ne_texts ?d = ne_texts c" "ne_resets ?d = insert (Suc (ne_requested_epoch c)) (ne_resets c)"
    "ne_requested_epoch ?d = Suc (ne_requested_epoch c)" "ne_worker ?d = ne_worker c" "ne_callers ?d = ne_callers c"
    "ne_pending ?d = None" "ne_snapshots ?d = []" "ne_snapshot ?d = None"
    by (simp_all add: reset_private_context_def begin_reset_def clear_snapshots_def Let_def)
  then have ext: "extends_history c ?d" by (auto simp: extends_history_def)
  have "epochs_disjoint (ne_texts ?d) (ne_resets ?d) (ne_requested_epoch ?d)"
    using ok epochs_add_reset unfolding d by (auto simp: engine_ok_def)
  then show ?thesis
    using ok extends_worker [OF ext] extends_caller [OF ext] by (auto simp: engine_ok_def d)
qed

lemma reset_past:
  assumes "past api B e"
  shows "past api (insert (Suc (ne_requested_epoch (fst e))) B) (reset_private_context api (fst e), ix)"
  using assms reset_engine_ok [of api "fst e"]
  by (auto simp: past_def reset_private_context_def begin_reset_def clear_snapshots_def Let_def)

interpretation service: context_engine "neural_ops db argpartition api" "past api B" newest_epoch
  "\<lambda>e e'. engine_moves api (fst e) (fst e') \<and> snd e' = snd e"
  for db argpartition and api :: "'b snapshot_api" and B
proof unfold_locales
  fix e e' :: "'b indexed_engine" and before after r
  assume p: "past api B e"
  show "past api B e' \<and> newest_epoch e \<le> newest_epoch e' \<and> (\<forall>n. r = Inr (JInt n) \<longrightarrow> newest_epoch e < n \<and> n \<le> newest_epoch e')"
    if "pe_request_context_update (neural_ops db argpartition api) before after e = (r, e')"
    using that p past_moves [OF request_moves [of api "fst e" before after], of B "snd e" "snd e"]
    by (auto simp: neural_ops_def service_request_def newest_epoch_def request_context_update_def Let_def)
  show "past api B e' \<and> newest_epoch e \<le> newest_epoch e'" if "engine_moves api (fst e) (fst e') \<and> snd e' = snd e"
    using that p past_moves [of api "fst e" "fst e'" B "snd e" "snd e'"] by (cases e') (auto simp: newest_epoch_def)
next
  show "keeps (past api B) newest_epoch (pe_query (neural_ops db argpartition api) raw limit epoch)" for raw limit epoch
    by (auto simp: keeps_def neural_ops_def service_query_def newest_epoch_def past_def split: sum.splits)
  show "keeps (past api B) newest_epoch h" if "pe_reset_private_context (neural_ops db argpartition api) = Some h" for h
  proof -
    have "past api B (reset_private_context api c, ix)" if "past api B (c, ix)" for c ix
      using reset_past [OF that, of ix] by (auto simp: past_def)
    then show ?thesis
      using that
      by (auto simp: keeps_def neural_ops_def newest_epoch_def reset_private_context_def begin_reset_def clear_snapshots_def Let_def)
  qed
qed (auto simp: keeps_def neural_ops_def clear_history_def)

section \<open>Secure focus\<close>

lemma new_service_ok:
  assumes "new_engine backend expected actual = Inr c" "new_server (c, ix) k = Inr s"
  shows "service.server_ok api {} s"
  using service.new_server_ok [OF _ assms(2), of api "{}"] new_engine_ok [OF assms(1), of api] by (simp add: past_def)

lemma reaches_ok:
  assumes "new_engine backend expected actual = Inr c" "new_server (c, ix) k = Inr s"
    and "(service_moves db argpartition api)\<^sup>*\<^sup>* s t"
  shows "service.server_ok api {} t"
  using service.server_steps_advance [OF assms(3) [unfolded service_moves_def] new_service_ok [OF assms(1,2)]]
  by (simp add: service.advances_def)

text \<open>
  Claim C4. Secure focus revokes every editor context.  In any history of the service started on a
  new engine, after a well-formed secure focus message and any further moves of clients and engine
  threads, a query that names an editor context and an epoch that existed at the focus is answered
  with an error.  Each message is one move.
\<close>

theorem secure_focus_revokes_context:
  assumes "new_engine backend expected actual = Inr c" "new_server (c, ix) k = Inr s0"
    and "(service_moves db argpartition api)\<^sup>*\<^sup>* s0 s"
    and "is_secure_focus f" "after = snd (handle_message (neural_ops db argpartition api) f s)"
    and "(service_moves db argpartition api)\<^sup>*\<^sup>* after t"
    and "is_query m" "has_field m ''context_session''" "field m ''context_epoch'' = JInt e"
    and "e \<le> int (ne_requested_epoch (fst (sv_engine s)))"
  shows "field (fst (handle_message (neural_ops db argpartition api) m t)) ''ok'' = JBool False"
  using service.revoked_stays_revoked [OF reaches_ok [OF assms(1-3)] assms(4), of db argpartition t m e] assms(5-10)
  by (simp add: service_moves_def newest_epoch_def)

lemma secure_focus_resets:
  assumes "is_secure_focus f"
  shows "\<exists>ix. sv_engine (snd (handle_message (neural_ops db argpartition api) f s))
     = (reset_private_context api (fst (sv_engine s)), ix)"
proof -
  obtain i where i: "optional_identifier f ''request_id'' = Inr i" "field f ''type'' = jstr ''focus''"
    using assms by (auto simp: is_secure_focus_def split: sum.splits)
  obtain sid foc where p: "parse_focus f = Inr (sid, foc, True)"
    using assms by (auto simp: is_secure_focus_def split: sum.splits)
  show ?thesis
    by (simp add: handle_message_def serve_def guarded_def i dispatch_focus handle_focus_def p hbind_def lift_result_def
      secure_cleanup_def updates_state_def attempt_def optionally_def on_engine_def neural_ops_def clear_history_def Let_def)
qed

text \<open>
  Secure focus forgets the model states: after a well-formed secure focus message and any
  further moves, every snapshot that a query can address was requested after that message.
\<close>

theorem secure_focus_forgets_states:
  assumes "new_engine backend expected actual = Inr c" "new_server (c, ix) k = Inr s0"
    and "(service_moves db argpartition api)\<^sup>*\<^sup>* s0 s"
    and "is_secure_focus f" "after = snd (handle_message (neural_ops db argpartition api) f s)"
    and "(service_moves db argpartition api)\<^sup>*\<^sup>* after t" "engine_has_snapshot (fst (sv_engine t)) e"
  shows "ne_requested_epoch (fst (sv_engine s)) < e"
proof -
  let ?b = "Suc (ne_requested_epoch (fst (sv_engine s)))"
  have ok: "service.server_ok api {} s" using assms(1-3) by (rule reaches_ok)
  have "service.server_ok api {} after"
    using service.handle_message_advances [OF ok, of db argpartition f] assms(5) by (simp add: service.advances_def)
  moreover have "past api {?b} (sv_engine after)"
    using secure_focus_resets [OF assms(4), of db argpartition api s] reset_past [of api "{}" "sv_engine s"] ok assms(5)
    by (auto simp: service.server_ok_def)
  ultimately have "service.server_ok api {?b} after" by (simp add: service.server_ok_def)
  then have "service.server_ok api {?b} t"
    using service.server_steps_advance [OF assms(6) [unfolded service_moves_def]] by (simp add: service.advances_def)
  then show ?thesis using assms(7) by (auto simp: service.server_ok_def past_def engine_has_snapshot_def)
qed

section \<open>A session\<close>

text \<open>A history: a context is typed, its state published and queried; then a secure field takes the focus.\<close>

definition demo_api :: "nat snapshot_api" where
  "demo_api = \<lparr>
     sa_create_snapshot = \<lambda>before after b.
       (Inr \<lparr>ls_epoch = 0, ls_logits = [0, 0, 0, 0, 0, 0, 0, 3, 0, 5], ls_after_text = after\<rparr>, b + 1),
     sa_invalidate_context_cache = \<lambda>b. 0\<rparr>"

definition demo_ops :: "nat indexed_engine pipe_engine" where
  "demo_ops = neural_ops ascii_db sorting_partition demo_api"

definition no_identity :: index_identity where
  "no_identity = \<lparr>ii_tokenizer_hash = None, ii_model_id = None, ii_revision = None, ii_pypinyin_version = None\<rparr>"

definition value_of :: "'a result \<Rightarrow> 'a" where
  "value_of r = (case r of Inr x \<Rightarrow> x | Inl _ \<Rightarrow> undefined)"

definition demo_server :: "nat indexed_engine server" where
  "demo_server = value_of (new_server (value_of (new_engine 0 no_identity no_identity), demo_index) 4)"

definition demo_session :: json where
  "demo_session = JStr (asc ''0123456789abcdef0123456789abcdef'')"

definition demo_update :: message where
  "demo_update = obj [(''type'', jstr ''context_update''), (''context_epoch'', JInt 1), (''context_session'', demo_session),
     (''source_revision'', JInt 1), (''security_label'', jstr ''normal''), (''before'', jstr ''ni'')]"

definition demo_query :: message where
  "demo_query = obj [(''type'', jstr ''query_candidates''), (''session_id'', jstr ''a''), (''revision'', JInt 0),
     (''context_epoch'', JInt 1), (''context_session'', demo_session), (''source_revision'', JInt 1),
     (''raw_keys'', JStr [120, 105, 39, 97, 110]), (''candidate_count'', JInt 5)]"

definition demo_focus :: message where
  "demo_focus = obj [(''type'', jstr ''focus''), (''session_id'', jstr ''a''), (''focused'', JBool True), (''secure'', JBool True)]"

definition on_neural :: "('b neural_engine \<Rightarrow> 'b neural_engine) \<Rightarrow> 'b indexed_engine server \<Rightarrow> 'b indexed_engine server" where
  "on_neural f s = s\<lparr>sv_engine := (f (fst (sv_engine s)), snd (sv_engine s))\<rparr>"

lemma engine_run_reached: "(service_moves db argpartition api)\<^sup>*\<^sup>* s (on_neural (engine_run api evs) s)"
proof (induction evs rule: rev_induct)
  case Nil
  then show ?case by (simp add: engine_run_def on_neural_def)
next
  case (snoc ev evs)
  let ?s = "on_neural (engine_run api evs) s"
  let ?t = "on_neural (engine_run api (evs @ [ev])) s"
  show ?case
  proof (cases "engine_step api ev (fst (sv_engine ?s))")
    case None
    then have "?t = ?s" by (simp add: engine_run_def on_neural_def)
    then show ?thesis using snoc by simp
  next
    case (Some c)
    then have t: "?t = ?s\<lparr>sv_engine := (c, snd (sv_engine s))\<rparr>" by (simp add: engine_run_def on_neural_def)
    have "service_moves db argpartition api ?s ?t"
      unfolding service_moves_def t
      by (rule server_moves.engine) (use Some in \<open>auto simp: on_neural_def intro: engine_moves.intros\<close>)
    with snoc show ?thesis by (rule rtranclp.rtrancl_into_rtrancl)
  qed
qed

definition demo_typed :: "nat indexed_engine server" where
  "demo_typed = on_neural (engine_run demo_api [WorkerPoll, WorkerForward, WorkerPublish])
     (snd (handle_message demo_ops demo_update demo_server))"

definition demo_secure :: "nat indexed_engine server" where
  "demo_secure = snd (handle_message demo_ops demo_focus demo_typed)"

definition demo_later :: "nat indexed_engine server" where
  "demo_later = on_neural (engine_run demo_api [WorkerPoll, WorkerForward, WorkerPublish])
     (snd (handle_message demo_ops (od_set (asc ''source_revision'') (JInt 2) demo_update) demo_secure))"

lemma demo_engine_new: "new_engine (0::nat) no_identity no_identity = Inr (fst (sv_engine demo_server))"
  by (simp add: new_engine_def no_identity_def demo_server_def value_of_def new_server_def require_def)

lemma demo_server_new: "new_server (fst (sv_engine demo_server), demo_index) 4 = Inr demo_server"
  by (simp add: demo_server_def value_of_def new_server_def)

lemma demo_message_moves: "service_moves ascii_db sorting_partition demo_api s (snd (handle_message demo_ops m s))"
  unfolding service_moves_def demo_ops_def by (rule server_moves.message)

lemma demo_typed_reached: "(service_moves ascii_db sorting_partition demo_api)\<^sup>*\<^sup>* demo_server demo_typed"
  unfolding demo_typed_def using demo_message_moves engine_run_reached by (rule converse_rtranclp_into_rtranclp)

lemma demo_later_reached: "(service_moves ascii_db sorting_partition demo_api)\<^sup>*\<^sup>* demo_secure demo_later"
  unfolding demo_later_def using demo_message_moves engine_run_reached by (rule converse_rtranclp_into_rtranclp)

lemma demo_secure_after:
  "demo_secure = snd (handle_message (neural_ops ascii_db sorting_partition demo_api) demo_focus demo_typed)"
  by (simp add: demo_secure_def demo_ops_def)

theorem secure_focus_revokes_context_witness:
  "field (fst (handle_message demo_ops demo_query demo_typed)) ''ok'' = JBool True
   \<and> field (fst (handle_message demo_ops demo_query demo_later)) ''ok'' = JBool False"
proof
  show "field (fst (handle_message demo_ops demo_query demo_typed)) ''ok'' = JBool True" by code_simp
  have "is_secure_focus demo_focus" "is_query demo_query" "has_field demo_query ''context_session''"
    "field demo_query ''context_epoch'' = JInt 1" by code_simp+
  moreover have "1 \<le> int (ne_requested_epoch (fst (sv_engine demo_typed)))" by code_simp
  ultimately show "field (fst (handle_message demo_ops demo_query demo_later)) ''ok'' = JBool False"
    unfolding demo_ops_def
    using secure_focus_revokes_context [OF demo_engine_new demo_server_new demo_typed_reached _ demo_secure_after demo_later_reached]
    by blast
qed

theorem secure_focus_forgets_states_witness:
  "engine_has_snapshot (fst (sv_engine demo_typed)) 1 \<and> ne_requested_epoch (fst (sv_engine demo_typed)) < 3"
proof
  show "engine_has_snapshot (fst (sv_engine demo_typed)) 1" by code_simp
  have "is_secure_focus demo_focus" "engine_has_snapshot (fst (sv_engine demo_later)) 3" by code_simp+
  then show "ne_requested_epoch (fst (sv_engine demo_typed)) < 3"
    using secure_focus_forgets_states [OF demo_engine_new demo_server_new demo_typed_reached _ demo_secure_after demo_later_reached]
    by blast
qed

end
