(* ===== verification/Candidate_Pages.thy ===== *)
theory Candidate_Pages
  imports State_Result Latin_Prefix Partial_Matcher Wire
begin

text \<open>
  Revision-scoped candidate paging (\<open>NeuralCandidatePageManager\<close> of \<open>neural_candidates.py\<close>): search
  sessions with frozen pages, one score origin per session, a frontier that is expanded by the model
  within an absolute deadline.  The state is the manager; the clock is a sequence of readings, each
  \<open>self.clock()\<close> taking the next one; the model backend, the hash and the identifiers it draws are
  arguments.  Scores are reals once \<open>math.isfinite\<close> has passed them; rounding to 32 bits is left out.
\<close>

definition CHINESE_PAGE_SIZE :: nat where "CHINESE_PAGE_SIZE = 7"
definition LATIN_PAGE_SIZE :: nat where "LATIN_PAGE_SIZE = 5"
definition MAX_ACTIVE_SEARCH_SESSIONS :: nat where "MAX_ACTIVE_SEARCH_SESSIONS = 4"
definition SEARCH_SESSION_IDLE_SECONDS :: real where "SEARCH_SESSION_IDLE_SECONDS = 15"
definition MAX_FROZEN_CANDIDATES :: nat where "MAX_FROZEN_CANDIDATES = 180"
definition PAGE_MODEL_TOKENS :: nat where "PAGE_MODEL_TOKENS = 16"
definition PAGE_HAN_CHARACTERS :: nat where "PAGE_HAN_CHARACTERS = 64"
definition MAX_FRONTIER_PER_BUCKET :: nat where "MAX_FRONTIER_PER_BUCKET = 32"
definition PAGE0_DEADLINE_MS :: real where "PAGE0_DEADLINE_MS = 35"
definition NEXT_PAGE_DEADLINE_MS :: real where "NEXT_PAGE_DEADLINE_MS = 120"
definition MAX_ROOT_HAN_PLAN_CACHE :: nat where "MAX_ROOT_HAN_PLAN_CACHE = 256"
definition SINGLE_INITIAL_FREQUENCY_BUCKET :: nat where "SINGLE_INITIAL_FREQUENCY_BUCKET = 32"

section \<open>Data\<close>

datatype language_mode = ChineseFirst | LatinFirst

record candidate_page =
  cp_candidate_set_id :: pystr
  cp_page_index :: nat
  cp_page_size :: nat
  cp_has_more :: bool
  cp_candidates :: "candidate list"
  cp_candidate_ids :: "pystr list"
  cp_score_source :: string
  cp_search_depth :: nat
  cp_length_bucket :: "nat option"
  cp_elapsed_ms :: real
  cp_timeout_count :: nat

record search_identity =
  si_client_session_id :: pystr
  si_composition_revision :: int
  si_context_epoch :: int
  si_context_session :: "pystr option"
  si_source_revision :: "int option"
  si_mode :: language_mode
  si_raw_keys :: pystr

record search_path =
  sp_text :: pystr
  sp_pinyin_path :: "pystr list"
  sp_token_path :: "int list"
  sp_score :: real
  sp_predicted_syllables :: nat
  sp_script :: string

record plan_entry =
  rp_text :: pystr
  rp_pinyin :: pystr
  rp_normalized_text :: pystr
  rp_consumed_keys :: nat
  rp_completes_input :: bool
  rp_syllables :: int
  rp_token_id :: int
  rp_ranking_tier :: int
  rp_static_rank :: int
  rp_predicted_syllables :: nat
  rp_token_path :: "int list"

record 'r search_session =
  ss_candidate_set_id :: pystr
  ss_identity :: search_identity
  ss_score_source :: string
  ss_continuation_root :: "'r option"
  ss_pending :: "candidate list"
  ss_frontier :: "search_path list"
  ss_frozen_pages :: "(nat, candidate_page) odict"
  ss_seen_candidates :: "(pystr \<times> nat) list"
  ss_expanded_paths :: "int list list"
  ss_last_used :: real
  ss_search_depth :: nat
  ss_timeout_count :: nat
  ss_exhausted :: bool

record page_metrics =
  mx_page_index :: "nat option"
  mx_count :: "nat option"
  mx_search_depth :: "nat option"
  mx_length_bucket :: "nat option"
  mx_elapsed_ms :: "real option"
  mx_timeout_count :: nat

text \<open>
  The manager: the objects it owns, the number of clock readings taken and of identifiers drawn.  The
  sets \<open>seen_candidates\<close> and \<open>expanded_paths\<close> of a session are lists read as sets.
\<close>

record ('b, 'r) page_manager =
  pm_backend :: 'b
  pm_matcher :: "matcher option"
  pm_completions :: "latin_completion list"
  pm_baseline_scores :: "pyfloat list option"
  pm_baseline_root :: "'r option"
  pm_single_letter :: "(pystr \<times> language_mode, candidate list) odict"
  pm_sessions :: "(pystr, 'r search_session) odict"
  pm_root_han_plans :: "(pystr, plan_entry list) odict"
  pm_metrics :: page_metrics
  pm_entries_by_token :: "(int, entry list) odict"
  pm_token_ids :: "int list"
  pm_readings :: nat
  pm_drawn :: nat

text \<open>\<open>continue_from_root\<close> is looked up with \<open>getattr\<close>: a backend without it is \<open>None\<close>.\<close>

record ('b, 's, 'r) page_env =
  px_clock :: "nat \<Rightarrow> real"
  px_uuid :: "nat \<Rightarrow> pystr"
  px_sha256_hex :: "bytes \<Rightarrow> pystr"
  px_db :: unicode_db
  px_score_allowed_tokens :: "'s \<Rightarrow> int list \<Rightarrow> ('b, pyfloat list) handler"
  px_state_root :: "'s \<Rightarrow> 'r option"
  px_continue_from_root :: "('r \<Rightarrow> int list list \<Rightarrow> int list list \<Rightarrow> real \<Rightarrow> ('b, pyfloat list list option) handler) option"

section \<open>Keys and identifiers\<close>

text \<open>A missing score is minus infinity; negated and compared, it comes last.\<close>

definition negated_score :: "real option \<Rightarrow> bool \<times> real" where
  "negated_score v = (case v of None \<Rightarrow> (True, 0) | Some r \<Rightarrow> (False, - r))"

definition page_candidate_key ::
  "unicode_db \<Rightarrow> candidate \<Rightarrow> int \<times> bool \<times> nat \<times> int \<times> (bool \<times> real) \<times> int \<times> pystr \<times> int list \<times> pystr" where
  "page_candidate_key db c =
     (c_ranking_tier c, \<not> c_completes_input c, c_predicted_syllables c, c_static_rank c, negated_score (c_model_score c),
      - int (c_consumed_keys c), nfkc db (c_text c), c_token_path c, c_pinyin c)"

definition latin_key :: "unicode_db \<Rightarrow> candidate \<Rightarrow> (bool \<times> real) \<times> pystr \<times> int list" where
  "latin_key db c = (negated_score (c_model_score c), casefold db (nfkc db (c_text c)), c_token_path c)"

definition single_initial_static_ranks :: "pmatch list \<Rightarrow> pystr \<Rightarrow> (int, nat) odict" where
  "single_initial_static_ranks matches raw =
     (if length raw \<noteq> 1 then []
      else let token_ids = sorted_list_of_set (set (List.map_filter (\<lambda>m. e_token_id (pm_entry m)) matches))
           in zip token_ids (map (\<lambda>rank. rank div SINGLE_INITIAL_FREQUENCY_BUCKET) [0..<length token_ids]))"

definition page_candidate_id :: "('b, 's, 'r) page_env \<Rightarrow> pystr \<Rightarrow> nat \<Rightarrow> nat \<Rightarrow> candidate \<Rightarrow> pystr result" where
  "page_candidate_id env candidate_set_id page_index offset c =
     rbind (utf8_encode (c_text c)) (\<lambda>encoded.
       Inr (take 24 (px_sha256_hex env
         (map word_of_nat candidate_set_id @ le_bytes 4 page_index @ le_bytes 2 offset
          @ map word_of_nat (int_text (int (c_consumed_keys c))) @ [58]
          @ map word_of_nat (join [44] (map int_text (c_token_path c))) @ [58] @ encoded))))"

definition page_literal :: "pystr \<Rightarrow> int \<Rightarrow> candidate" where
  "page_literal raw_keys context_epoch =
     \<lparr>c_text = raw_keys, c_pinyin = [], c_consumed_keys = length raw_keys, c_score = None,
      c_context_epoch = context_epoch, c_coverage = True, c_completes_input = True, c_syllables = 0, c_token_id = None,
      c_constraint_kind = ''literal'', c_script = script_value (detect_script raw_keys), c_model_score = None,
      c_constraint_cost = 0, c_language_prior = 0, c_total_score = 0, c_token_path = [], c_ranking_tier = 1000000,
      c_static_rank = 0, c_predicted_syllables = 0\<rparr>"

definition seen_key :: "unicode_db \<Rightarrow> candidate \<Rightarrow> pystr \<times> nat" where
  "seen_key db c = (nfkc db (c_text c), c_consumed_keys c)"

section \<open>The manager\<close>

definition group_by_token :: "entry list \<Rightarrow> (int, entry list) odict" where
  "group_by_token es = fold (\<lambda>e grouped. case e_token_id e of
       None \<Rightarrow> grouped
     | Some t \<Rightarrow> if e_coverage e \<or> length (e_text e) > PAGE_HAN_CHARACTERS then grouped
         else od_set t ((case map_of grouped t of None \<Rightarrow> [] | Some es \<Rightarrow> es) @ [e]) grouped) es []"

definition new_page_manager :: "'b \<Rightarrow> pinyin_index option \<Rightarrow> latin_completion list \<Rightarrow> ('b, 'r) page_manager" where
  "new_page_manager backend ix completions =
     (let m = map_option new_matcher ix;
          grouped = (case m of None \<Rightarrow> [] | Some m \<Rightarrow> group_by_token (mt_entries m))
      in \<lparr>pm_backend = backend, pm_matcher = m, pm_completions = completions, pm_baseline_scores = None,
          pm_baseline_root = None, pm_single_letter = [], pm_sessions = [], pm_root_han_plans = [],
          pm_metrics = \<lparr>mx_page_index = None, mx_count = None, mx_search_depth = None, mx_length_bucket = None,
                        mx_elapsed_ms = None, mx_timeout_count = 0\<rparr>,
          pm_entries_by_token = grouped, pm_token_ids = sort (od_keys grouped), pm_readings = 0, pm_drawn = 0\<rparr>)"

definition install_baseline_scores :: "pyfloat list \<Rightarrow> 'r option \<Rightarrow> (('b, 'r) page_manager, unit) handler" where
  "install_baseline_scores scores start =
     hbind (lift_result (require (scores \<noteq> [] \<and> NaN \<notin> set scores)
              (ValueError ''empty-context baseline scores must not contain NaN''))) (\<lambda>_.
       updates_state (\<lambda>m. m\<lparr>pm_baseline_scores := Some scores, pm_baseline_root := start, pm_single_letter := [],
                            pm_sessions := []\<rparr>))"

definition clear_page_sessions :: "('b, 'r) page_manager \<Rightarrow> ('b, 'r) page_manager" where
  "clear_page_sessions m = m\<lparr>pm_sessions := []\<rparr>"

definition read_clock :: "('b, 's, 'r) page_env \<Rightarrow> (('b, 'r) page_manager, real) handler" where
  "read_clock env m = (Inr (px_clock env (pm_readings m)), m\<lparr>pm_readings := pm_readings m + 1\<rparr>)"

text \<open>\<open>_raise_if_query_expired\<close>: without a deadline the clock is not read.\<close>

definition raise_if_query_expired :: "('b, 's, 'r) page_env \<Rightarrow> real option \<Rightarrow> (('b, 'r) page_manager, unit) handler" where
  "raise_if_query_expired env deadline = (case deadline of
     None \<Rightarrow> lift_result (Inr ())
   | Some d \<Rightarrow> hbind (read_clock env) (\<lambda>now.
       lift_result (require (\<not> now \<ge> d) (CandidatePageTimeout ''candidate page deadline expired''))))"

definition on_backend :: "('b, 'a) handler \<Rightarrow> (('b, 'r) page_manager, 'a) handler" where
  "on_backend h m = (let (r, b) = h (pm_backend m) in (r, m\<lparr>pm_backend := b\<rparr>))"


section \<open>Root scores\<close>

text \<open>\<open>RuntimeError\<close>, \<open>ValueError\<close> with its subclasses, and \<open>IndexError\<close> make the candidates unavailable.\<close>

definition caught_while_scoring :: "py_error \<Rightarrow> bool" where
  "caught_while_scoring err = (case err of
     KeyError \<Rightarrow> False | TypeError _ \<Rightarrow> False | CandidatePageTimeout _ \<Rightarrow> False | EOFError \<Rightarrow> False | BackendFailure \<Rightarrow> False
   | _ \<Rightarrow> True)"

definition score_root :: "('b, 's, 'r) page_env \<Rightarrow> 's option \<Rightarrow> int list \<Rightarrow> (('b, 'r) page_manager, pyfloat list) handler" where
  "score_root env state token_ids m =
     (let unavailable = replicate (length token_ids) NInf in
      if token_ids = [] then (Inr [], m)
      else case state of
        Some st \<Rightarrow> (case on_backend (px_score_allowed_tokens env st token_ids) m of
            (Inr scores, m) \<Rightarrow> (Inr scores, m)
          | (Inl err, m) \<Rightarrow> if caught_while_scoring err then (Inr unavailable, m) else (Inl err, m))
      | None \<Rightarrow> (case pm_baseline_scores m of
            None \<Rightarrow> (Inr unavailable, m)
          | Some scores \<Rightarrow>
              if list_ex (\<lambda>t. t < 0 \<or> t \<ge> int (length scores)) token_ids then (Inr unavailable, m)
              else (Inr (map (\<lambda>t. scores ! nat t) token_ids), m)))"

definition plan_match :: "matcher \<Rightarrow> parsed_input \<Rightarrow> pmatch \<Rightarrow> bool" where
  "plan_match matcher parsed p \<longleftrightarrow> pm_next_position p > 0 \<and> e_token_id (pm_entry p) \<noteq> None \<and> \<not> e_coverage (pm_entry p)
     \<and> length (e_text (pm_entry p)) \<le> PAGE_HAN_CHARACTERS"

definition plan_of_match :: "parsed_input \<Rightarrow> (int, nat) odict \<Rightarrow> pmatch \<Rightarrow> plan_entry" where
  "plan_of_match parsed ranks p =
     (let e = pm_entry p; raw = pi_compact parsed; token_id = the (e_token_id e);
          complete = (pm_next_position p = length raw)
      in \<lparr>rp_text = e_text e, rp_pinyin = e_display_pinyin e, rp_normalized_text = e_normalized_text e,
          rp_consumed_keys = raw_characters_for_letters parsed (pm_next_position p), rp_completes_input = complete,
          rp_syllables = e_syllables e, rp_token_id = token_id, rp_ranking_tier = (if e_pinyin e = raw then 0 else 1),
          rp_static_rank = (case map_of ranks token_id of None \<Rightarrow> 0 | Some r \<Rightarrow> int r),
          rp_predicted_syllables = (if complete then pm_completion_syllables p else 0), rp_token_path = []\<rparr>)"

text \<open>The plan of a raw input is kept for the last 256 inputs; reading it moves it to the end.\<close>

definition root_han_plan :: "('b, 's, 'r) page_env \<Rightarrow> real option \<Rightarrow> pystr \<Rightarrow> (('b, 'r) page_manager, plan_entry list) handler" where
  "root_han_plan env deadline raw_keys m = (case map_of (pm_root_han_plans m) raw_keys of
     Some plan \<Rightarrow> (Inr plan, m\<lparr>pm_root_han_plans := od_move_to_end raw_keys (pm_root_han_plans m)\<rparr>)
   | None \<Rightarrow> (case (pm_matcher m, parse_raw_pinyin (px_db env) raw_keys) of
         (None, _) \<Rightarrow> (Inr [], m)
       | (_, Inl _) \<Rightarrow> (Inr [], m)
       | (Some matcher, Inr parsed) \<Rightarrow>
           let raw = pi_compact parsed in
           if raw = [] then (Inr [], m)
           else let (found, matcher) = neural_matches raw 0 {} False matcher;
                    matches = filter (plan_match matcher parsed) found
                in hbind (raise_if_query_expired env deadline) (\<lambda>_.
                     let plan = map (plan_of_match parsed (single_initial_static_ranks matches raw)) matches in
                     hbind (updates_state (\<lambda>m. m\<lparr>pm_root_han_plans :=
                         od_evict MAX_ROOT_HAN_PLAN_CACHE (od_set raw_keys plan (pm_root_han_plans m))\<rparr>)) (\<lambda>_.
                     lift_result (Inr plan))) (m\<lparr>pm_matcher := Some matcher\<rparr>)))"

definition plan_sort_key ::
  "plan_entry \<Rightarrow> real \<Rightarrow> int \<times> bool \<times> nat \<times> int \<times> real \<times> int \<times> pystr \<times> int list \<times> pystr" where
  "plan_sort_key p v = (rp_ranking_tier p, \<not> rp_completes_input p, rp_predicted_syllables p, rp_static_rank p, - v,
     - int (rp_consumed_keys p), rp_normalized_text p, [rp_token_id p], rp_pinyin p)"

text \<open>The checkpoint of the scoring loops: every 64 entries.\<close>

definition checkpoint :: "('b, 's, 'r) page_env \<Rightarrow> real option \<Rightarrow> nat \<Rightarrow> (('b, 'r) page_manager, unit) handler" where
  "checkpoint env deadline index = (if index mod 64 = 0 then raise_if_query_expired env deadline else lift_result (Inr ()))"

definition offer_plan_entry ::
  "plan_entry \<Rightarrow> pyfloat \<Rightarrow> (pystr \<times> nat, plan_entry \<times> real) odict \<Rightarrow> (pystr \<times> nat, plan_entry \<times> real) odict" where
  "offer_plan_entry p score best =
     (if length (if rp_token_path p = [] then [rp_token_id p] else rp_token_path p) \<noteq> 1 then best
      else case score of
        Fin v \<Rightarrow> best_put (\<lambda>(p, v) (q, w). plan_sort_key p v < plan_sort_key q w)
                   (rp_normalized_text p, rp_consumed_keys p) (p, v) best
      | _ \<Rightarrow> best)"

fun best_plan_entries ::
  "('b, 's, 'r) page_env \<Rightarrow> real option \<Rightarrow> nat \<Rightarrow> (plan_entry \<times> pyfloat) list \<Rightarrow> (pystr \<times> nat, plan_entry \<times> real) odict
     \<Rightarrow> (('b, 'r) page_manager, (pystr \<times> nat, plan_entry \<times> real) odict) handler" where
  "best_plan_entries env deadline index [] best = lift_result (Inr best)"
| "best_plan_entries env deadline index ((p, score) # rest) best =
     hbind (checkpoint env deadline index) (\<lambda>_. best_plan_entries env deadline (index + 1) rest (offer_plan_entry p score best))"

definition plan_candidate :: "int \<Rightarrow> plan_entry \<Rightarrow> real \<Rightarrow> candidate" where
  "plan_candidate epoch p v =
     \<lparr>c_text = rp_text p, c_pinyin = rp_pinyin p, c_consumed_keys = rp_consumed_keys p, c_score = Some v,
      c_context_epoch = epoch, c_coverage = False, c_completes_input = rp_completes_input p, c_syllables = rp_syllables p,
      c_token_id = Some (rp_token_id p), c_constraint_kind = ''pinyin'', c_script = ''han'', c_model_score = Some v,
      c_constraint_cost = 0, c_language_prior = 0, c_total_score = v, c_token_path = [rp_token_id p],
      c_ranking_tier = rp_ranking_tier p, c_static_rank = rp_static_rank p,
      c_predicted_syllables = rp_predicted_syllables p\<rparr>"

text \<open>\<open>zip(..., strict=True)\<close> yields the common prefix before it raises.\<close>

definition materialize_root_han_candidates ::
  "('b, 's, 'r) page_env \<Rightarrow> real option \<Rightarrow> plan_entry list \<Rightarrow> 's option \<Rightarrow> int \<Rightarrow> (('b, 'r) page_manager, candidate list) handler" where
  "materialize_root_han_candidates env deadline plan state epoch =
     hbind (score_root env state (map rp_token_id plan)) (\<lambda>scores.
     hbind (raise_if_query_expired env deadline) (\<lambda>_.
     hbind (best_plan_entries env deadline 0 (zip plan scores) []) (\<lambda>best.
     hbind (lift_result (zip_strict plan scores)) (\<lambda>_.
     let selected = take MAX_FROZEN_CANDIDATES (sort_key (\<lambda>(p, v). plan_sort_key p v) (map snd best)) in
     hbind (raise_if_query_expired env deadline) (\<lambda>_.
       lift_result (Inr (map (\<lambda>(p, v). plan_candidate epoch p v) selected)))))))"

definition root_han_candidates ::
  "('b, 's, 'r) page_env \<Rightarrow> real option \<Rightarrow> pystr \<Rightarrow> 's option \<Rightarrow> int \<Rightarrow> (('b, 'r) page_manager, candidate list) handler" where
  "root_han_candidates env deadline raw_keys state epoch =
     hbind (raise_if_query_expired env deadline) (\<lambda>_.
     hbind (root_han_plan env deadline raw_keys) (\<lambda>plan.
     hbind (raise_if_query_expired env deadline) (\<lambda>_.
     if plan = [] then lift_result (Inr [])
     else hbind (materialize_root_han_candidates env deadline plan state epoch) (\<lambda>result.
          hbind (raise_if_query_expired env deadline) (\<lambda>_. lift_result (Inr result))))))"

definition latin_root_compatible :: "unicode_db \<Rightarrow> pystr \<Rightarrow> latin_completion \<Rightarrow> bool" where
  "latin_root_compatible db raw_keys l \<longleftrightarrow>
     prefix (casefold db raw_keys) (casefold db (lc_text l)) \<and> length (lc_token_path l) = 1"

definition latin_root_candidate :: "unicode_db \<Rightarrow> pystr \<Rightarrow> int \<Rightarrow> latin_completion \<Rightarrow> real \<Rightarrow> candidate" where
  "latin_root_candidate db raw_keys epoch l v =
     \<lparr>c_text = lc_text l, c_pinyin = [], c_consumed_keys = length raw_keys, c_score = Some v, c_context_epoch = epoch,
      c_coverage = False, c_completes_input = (casefold db (lc_text l) = casefold db raw_keys), c_syllables = 0,
      c_token_id = Some (hd (lc_token_path l)), c_constraint_kind = ''latin_prefix'', c_script = ''latin'',
      c_model_score = Some v, c_constraint_cost = 0, c_language_prior = 0, c_total_score = v,
      c_token_path = [hd (lc_token_path l)], c_ranking_tier = 0, c_static_rank = 0, c_predicted_syllables = 0\<rparr>"

fun finite_latin ::
  "('b, 's, 'r) page_env \<Rightarrow> real option \<Rightarrow> pystr \<Rightarrow> int \<Rightarrow> nat \<Rightarrow> (latin_completion \<times> pyfloat) list
     \<Rightarrow> (('b, 'r) page_manager, candidate list) handler" where
  "finite_latin env deadline raw_keys epoch index [] = lift_result (Inr [])"
| "finite_latin env deadline raw_keys epoch index ((l, score) # rest) =
     hbind (checkpoint env deadline index) (\<lambda>_.
     hbind (finite_latin env deadline raw_keys epoch (index + 1) rest) (\<lambda>cs.
       lift_result (Inr (case score of Fin v \<Rightarrow> latin_root_candidate (px_db env) raw_keys epoch l v # cs | _ \<Rightarrow> cs))))"

definition root_latin_candidates ::
  "('b, 's, 'r) page_env \<Rightarrow> real option \<Rightarrow> pystr \<Rightarrow> 's option \<Rightarrow> int \<Rightarrow> (('b, 'r) page_manager, candidate list) handler" where
  "root_latin_candidates env deadline raw_keys state epoch =
     hbind (raise_if_query_expired env deadline) (\<lambda>_.
     hbind (reads_state (\<lambda>m. filter (latin_root_compatible (px_db env) raw_keys) (pm_completions m))) (\<lambda>compatible.
     if compatible = [] then lift_result (Inr [])
     else hbind (score_root env state (map (\<lambda>l. hd (lc_token_path l)) compatible)) (\<lambda>scores.
          hbind (raise_if_query_expired env deadline) (\<lambda>_.
          hbind (finite_latin env deadline raw_keys epoch 0 (zip compatible scores)) (\<lambda>cs.
          hbind (lift_result (zip_strict compatible scores)) (\<lambda>_. lift_result (Inr cs)))))))"


section \<open>Root candidates\<close>

fun interleave_by_score :: "candidate list \<Rightarrow> candidate list \<Rightarrow> candidate list" where
  "interleave_by_score [] latin = latin"
| "interleave_by_score (h # han) [] = h # han"
| "interleave_by_score (h # han) (l # latin) =
     (if negated_score (c_model_score l) < negated_score (c_model_score h) then l # interleave_by_score (h # han) latin
      else h # interleave_by_score han (l # latin))"

definition merge_chinese_first :: "candidate list \<Rightarrow> candidate list \<Rightarrow> candidate list" where
  "merge_chinese_first han latin = (case han of [] \<Rightarrow> latin | h # han \<Rightarrow> h # interleave_by_score han latin)"

definition can_continue :: "candidate \<Rightarrow> bool" where
  "can_continue c \<longleftrightarrow> c_completes_input c \<and> c_token_path c \<noteq> [] \<and> length (c_token_path c) < PAGE_MODEL_TOKENS
     \<and> length (c_text c) < PAGE_HAN_CHARACTERS"

definition path_of_candidate :: "candidate \<Rightarrow> search_path" where
  "path_of_candidate c =
     \<lparr>sp_text = c_text c, sp_pinyin_path = filter (\<lambda>part. part \<noteq> []) (split_on quote (c_pinyin c)),
      sp_token_path = c_token_path c, sp_score = (case c_model_score c of None \<Rightarrow> 0 | Some v \<Rightarrow> v),
      sp_predicted_syllables = c_predicted_syllables c, sp_script = ''han''\<rparr>"

definition frontier_from_candidates :: "unicode_db \<Rightarrow> candidate list \<Rightarrow> search_path list" where
  "frontier_from_candidates db cs =
     map path_of_candidate (dedup_by c_token_path [] (filter can_continue (sort_key (page_candidate_key db) cs)))"

definition fresh_root_candidates ::
  "('b, 's, 'r) page_env \<Rightarrow> real option \<Rightarrow> pystr \<Rightarrow> language_mode \<Rightarrow> 's option \<Rightarrow> int
     \<Rightarrow> (('b, 'r) page_manager, candidate list \<times> search_path list \<times> string) handler" where
  "fresh_root_candidates env deadline raw_keys mode state epoch =
     hbind (root_han_candidates env deadline raw_keys state epoch) (\<lambda>han.
     hbind (raise_if_query_expired env deadline) (\<lambda>_.
     hbind (root_latin_candidates env deadline raw_keys state epoch) (\<lambda>latin.
     hbind (raise_if_query_expired env deadline) (\<lambda>_.
     let source = (if state \<noteq> None then ''context'' else ''baseline'');
         ordered_latin = sort_key (latin_key (px_db env)) latin
     in case mode of
          LatinFirst \<Rightarrow> lift_result (Inr (ordered_latin, [], source))
        | ChineseFirst \<Rightarrow>
            let ordered_han = sort_key (page_candidate_key (px_db env)) han;
                ordered = merge_chinese_first ordered_han ordered_latin
            in reads_state (\<lambda>m.
                 (if ordered = [] \<and> pm_baseline_scores m \<noteq> None then [page_literal raw_keys epoch] else ordered,
                  frontier_from_candidates (px_db env) ordered_han, source))))))"

definition root_candidates ::
  "('b, 's, 'r) page_env \<Rightarrow> real option \<Rightarrow> pystr \<Rightarrow> language_mode \<Rightarrow> 's option \<Rightarrow> int \<Rightarrow> bool
     \<Rightarrow> (('b, 'r) page_manager, candidate list \<times> search_path list \<times> string) handler" where
  "root_candidates env deadline raw_keys mode state epoch allow_prewarm_cache =
     hbind (raise_if_query_expired env deadline) (\<lambda>_.
     hbind (reads_state (\<lambda>m. if state = None \<and> allow_prewarm_cache then map_of (pm_single_letter m) (raw_keys, mode) else None)) (\<lambda>cached.
     case cached of
       None \<Rightarrow> fresh_root_candidates env deadline raw_keys mode state epoch
     | Some cs \<Rightarrow>
         (let candidates = map (\<lambda>c. c\<lparr>c_context_epoch := epoch\<rparr>) cs in
          hbind (raise_if_query_expired env deadline) (\<lambda>_.
          lift_result (Inr (candidates, frontier_from_candidates (px_db env) (filter (\<lambda>c. c_script c = ''han'') candidates),
            ''baseline''))))))"

text \<open>Which objects are reserved is decided by identity: here by position.\<close>

definition freeze_single_letter_prewarm :: "candidate list \<Rightarrow> language_mode \<Rightarrow> candidate list" where
  "freeze_single_letter_prewarm cs mode =
     (if length cs \<le> MAX_FROZEN_CANDIDATES then cs
      else if mode = LatinFirst then take MAX_FROZEN_CANDIDATES cs
      else
        let han = filter (\<lambda>i. c_script (cs ! i) = ''han'') [0..<length cs];
            latin = filter (\<lambda>i. c_script (cs ! i) = ''latin'') [0..<length cs];
            reserved = take (CHINESE_PAGE_SIZE - (if latin \<noteq> [] then 1 else 0)) han @ take 1 latin
        in map (\<lambda>i. cs ! i) (take MAX_FROZEN_CANDIDATES (reserved @ filter (\<lambda>i. i \<notin> set reserved) [0..<length cs])))"

fun prewarm_pages :: "('b, 's, 'r) page_env \<Rightarrow> (pystr \<times> language_mode) list \<Rightarrow> (('b, 'r) page_manager, unit) handler" where
  "prewarm_pages env [] = lift_result (Inr ())"
| "prewarm_pages env ((raw, mode) # rest) =
     hbind (root_candidates env None raw mode None 0 False) (\<lambda>(candidates, _, _).
     hbind (updates_state (\<lambda>m. m\<lparr>pm_single_letter :=
         od_set (raw, mode) (freeze_single_letter_prewarm candidates mode) (pm_single_letter m)\<rparr>)) (\<lambda>_.
     prewarm_pages env rest))"

definition prewarm_single_letter_pages :: "('b, 's, 'r) page_env \<Rightarrow> (('b, 'r) page_manager, unit) handler" where
  "prewarm_single_letter_pages env =
     hbind (reads_state (\<lambda>m. pm_baseline_scores m = None)) (\<lambda>missing.
     if missing then lift_result (Inl (RuntimeError ''empty-context neural baseline is not ready''))
     else prewarm_pages env (concat (map (\<lambda>c. [([c], ChineseFirst), ([c], LatinFirst)]) [97..<123])))"

section \<open>Sessions\<close>

text \<open>A session never combines root scores of one origin with continuation scores of another.\<close>

definition select_score_origin ::
  "('b, 's, 'r) page_env \<Rightarrow> 's option \<Rightarrow> ('b, 'r) page_manager \<Rightarrow> 's option \<times> 'r option \<times> string" where
  "select_score_origin env state m =
     (if px_continue_from_root env = None then (state, None, if state \<noteq> None then ''context'' else ''baseline'')
      else case state of
        None \<Rightarrow> (None, pm_baseline_root m, ''baseline'')
      | Some st \<Rightarrow> (case px_state_root env st of
            Some r \<Rightarrow> (state, Some r, ''context'')
          | None \<Rightarrow> (None, pm_baseline_root m, ''baseline'')))"

definition drop_stale_sessions :: "search_identity \<Rightarrow> (pystr, 'r search_session) odict \<Rightarrow> (pystr, 'r search_session) odict" where
  "drop_stale_sessions identity = filter (\<lambda>(_, old).
     \<not> (si_client_session_id (ss_identity old) = si_client_session_id identity \<and> ss_identity old \<noteq> identity))"

definition start_search ::
  "('b, 's, 'r) page_env \<Rightarrow> search_identity \<Rightarrow> pystr \<Rightarrow> candidate list \<Rightarrow> search_path list \<Rightarrow> 'r option \<Rightarrow> string \<Rightarrow> real
     \<Rightarrow> 'r search_session" where
  "start_search env identity candidate_set_id candidates frontier continuation_root source now =
     \<lparr>ss_candidate_set_id = candidate_set_id, ss_identity = identity, ss_score_source = source,
      ss_continuation_root = continuation_root, ss_pending = candidates, ss_frontier = frontier, ss_frozen_pages = [],
      ss_seen_candidates = map (seen_key (px_db env)) (filter (\<lambda>c. c_constraint_kind c \<noteq> ''literal'') candidates),
      ss_expanded_paths = [], ss_last_used = now, ss_search_depth = 1, ss_timeout_count = 0,
      ss_exhausted = (si_mode identity = LatinFirst \<or> frontier = [] \<or> px_continue_from_root env = None
                      \<or> continuation_root = None)\<rparr>"

text \<open>A new session gets the next identifier; the oldest session makes room for it.\<close>

definition open_session :: "('b, 's, 'r) page_env \<Rightarrow> (pystr \<Rightarrow> real \<Rightarrow> 'r search_session) \<Rightarrow> (('b, 'r) page_manager, pystr) handler" where
  "open_session env f =
     hbind (reads_state (\<lambda>m. px_uuid env (pm_drawn m))) (\<lambda>i.
     hbind (updates_state (\<lambda>m. m\<lparr>pm_drawn := pm_drawn m + 1\<rparr>)) (\<lambda>_.
     hbind (read_clock env) (\<lambda>now.
     hbind (updates_state (\<lambda>m. m\<lparr>pm_sessions := od_put MAX_ACTIVE_SEARCH_SESSIONS i (f i now) (pm_sessions m)\<rparr>)) (\<lambda>_.
     lift_result (Inr i)))))"

definition new_session ::
  "('b, 's, 'r) page_env \<Rightarrow> real option \<Rightarrow> search_identity \<Rightarrow> 's option \<Rightarrow> (('b, 'r) page_manager, pystr) handler" where
  "new_session env deadline identity state =
     hbind (updates_state (\<lambda>m. m\<lparr>pm_sessions := drop_stale_sessions identity (pm_sessions m)\<rparr>)) (\<lambda>_.
     hbind (raise_if_query_expired env deadline) (\<lambda>_.
     hbind (reads_state (select_score_origin env state)) (\<lambda>(score_state, continuation_root, source).
     hbind (raise_if_query_expired env deadline) (\<lambda>_.
     hbind (root_candidates env deadline (si_raw_keys identity) (si_mode identity) score_state (si_context_epoch identity) True)
       (\<lambda>(candidates, frontier, _).
     hbind (raise_if_query_expired env deadline) (\<lambda>_.
     let latin = (si_mode identity = LatinFirst);
         candidates = (if latin then take LATIN_PAGE_SIZE candidates else candidates);
         frontier = (if latin then [] else frontier)
     in open_session env (\<lambda>i now. start_search env identity i candidates frontier continuation_root source now)))))))"

definition expire_sessions :: "('b, 's, 'r) page_env \<Rightarrow> (('b, 'r) page_manager, unit) handler" where
  "expire_sessions env = hbind (read_clock env) (\<lambda>now.
     updates_state (\<lambda>m. m\<lparr>pm_sessions :=
       filter (\<lambda>(_, s). \<not> ss_last_used s < now - SEARCH_SESSION_IDLE_SECONDS) (pm_sessions m)\<rparr>))"


section \<open>Expanding the frontier\<close>

text \<open>
  The methods that take a session run on the session object and the manager; \<open>with_session\<close> runs one
  on the object that is stored, so its changes stay when it raises.
\<close>

type_synonym ('b, 'r) paged = "'r search_session \<times> ('b, 'r) page_manager"

definition on_manager :: "(('b, 'r) page_manager, 'a) handler \<Rightarrow> (('b, 'r) paged, 'a) handler" where
  "on_manager h = (\<lambda>(ss, m). let (r, m) = h m in (r, (ss, m)))"

definition on_session :: "('r search_session \<Rightarrow> 'r search_session) \<Rightarrow> (('b, 'r) paged, unit) handler" where
  "on_session f = updates_state (\<lambda>(ss, m). (f ss, m))"

definition reads_session :: "('r search_session \<Rightarrow> 'a) \<Rightarrow> (('b, 'r) paged, 'a) handler" where
  "reads_session f = reads_state (\<lambda>(ss, m). f ss)"

definition with_session :: "pystr \<Rightarrow> (('b, 'r) paged, 'a) handler \<Rightarrow> (('b, 'r) page_manager, 'a) handler" where
  "with_session candidate_set_id h m = (case map_of (pm_sessions m) candidate_set_id of
     None \<Rightarrow> (Inl KeyError, m)
   | Some ss \<Rightarrow> (let (r, (ss, m)) = h (ss, m) in
       (r, m\<lparr>pm_sessions := od_set candidate_set_id ss (pm_sessions m)\<rparr>)))"

definition open_path :: "'r search_session \<Rightarrow> search_path \<Rightarrow> bool" where
  "open_path ss p \<longleftrightarrow> sp_script p = ''han'' \<and> sp_token_path p \<notin> set (ss_expanded_paths ss)"

definition minimum_future_bucket :: "'r search_session \<Rightarrow> nat option" where
  "minimum_future_bucket ss =
     (let buckets = map (\<lambda>p. sp_predicted_syllables p + 1) (filter (open_path ss) (ss_frontier ss))
      in if buckets = [] then None else Some (Min (set buckets)))"

definition closed_bucket :: "nat \<Rightarrow> candidate \<Rightarrow> bool" where
  "closed_bucket minimum_future c \<longleftrightarrow>
     c_script c \<noteq> ''han'' \<or> \<not> c_completes_input c \<or> c_predicted_syllables c < minimum_future"

definition freezable_candidates :: "'r search_session \<Rightarrow> candidate list" where
  "freezable_candidates ss =
     (if ss_exhausted ss then ss_pending ss
      else case minimum_future_bucket ss of
        None \<Rightarrow> ss_pending ss
      | Some minimum_future \<Rightarrow> filter (closed_bucket minimum_future) (ss_pending ss))"

definition frontier_key :: "search_path \<Rightarrow> nat \<times> real \<times> nat \<times> pystr \<times> int list" where
  "frontier_key p = (sp_predicted_syllables p, - sp_score p, length (sp_token_path p), sp_text p, sp_token_path p)"

fun retain_paths :: "int list list \<Rightarrow> search_path list \<Rightarrow> (nat, nat) odict \<Rightarrow> search_path list" where
  "retain_paths expanded [] counts = []"
| "retain_paths expanded (p # ps) counts =
     (if sp_token_path p \<in> set expanded then retain_paths expanded ps counts
      else let count = (case map_of counts (sp_predicted_syllables p) of None \<Rightarrow> 0 | Some n \<Rightarrow> n) in
        if count \<ge> MAX_FRONTIER_PER_BUCKET then retain_paths expanded ps counts
        else p # retain_paths expanded ps (od_set (sp_predicted_syllables p) (count + 1) counts))"

definition prune_frontier :: "'r search_session \<Rightarrow> 'r search_session" where
  "prune_frontier ss = ss\<lparr>ss_frontier := retain_paths (ss_expanded_paths ss) (sort_key frontier_key (ss_frontier ss)) []\<rparr>"

record expansion =
  xp_pending :: "candidate list"
  xp_frontier :: "search_path list"
  xp_seen :: "(pystr \<times> nat) list"
  xp_counts :: "(nat, nat) odict"
  xp_produced :: nat

definition continued_candidate :: "search_identity \<Rightarrow> search_path \<Rightarrow> candidate" where
  "continued_candidate identity p =
     \<lparr>c_text = sp_text p, c_pinyin = join [quote] (sp_pinyin_path p), c_consumed_keys = length (si_raw_keys identity),
      c_score = Some (sp_score p), c_context_epoch = si_context_epoch identity, c_coverage = False,
      c_completes_input = True, c_syllables = int (length (sp_pinyin_path p)), c_token_id = Some (hd (sp_token_path p)),
      c_constraint_kind = ''pinyin'', c_script = ''han'', c_model_score = Some (sp_score p), c_constraint_cost = 0,
      c_language_prior = 0, c_total_score = sp_score p, c_token_path = sp_token_path p, c_ranking_tier = 0,
      c_static_rank = 0, c_predicted_syllables = sp_predicted_syllables p\<rparr>"

definition extend_search :: "search_path \<Rightarrow> int \<Rightarrow> real \<Rightarrow> entry \<Rightarrow> search_path" where
  "extend_search parent token_id v e =
     \<lparr>sp_text = sp_text parent @ e_text e, sp_pinyin_path = sp_pinyin_path parent @ e_syllable_path e,
      sp_token_path = sp_token_path parent @ [token_id], sp_score = sp_score parent + v,
      sp_predicted_syllables = sp_predicted_syllables parent + length (e_syllable_path e), sp_script = ''han''\<rparr>"

definition record_continuation ::
  "unicode_db \<Rightarrow> search_identity \<Rightarrow> search_path \<Rightarrow> int \<Rightarrow> real \<Rightarrow> entry \<Rightarrow> expansion \<Rightarrow> expansion" where
  "record_continuation db identity parent token_id v e x =
     (let p = extend_search parent token_id v e; predicted = sp_predicted_syllables p;
          count = (case map_of (xp_counts x) predicted of None \<Rightarrow> 0 | Some n \<Rightarrow> n) + 1;
          counted = x\<lparr>xp_counts := od_set predicted count (xp_counts x)\<rparr>;
          key = (nfkc db (sp_text p), length (si_raw_keys identity));
          shown = (if key \<in> set (xp_seen counted) then counted
                   else counted\<lparr>xp_seen := key # xp_seen counted,
                          xp_pending := xp_pending counted @ [continued_candidate identity p],
                          xp_produced := xp_produced counted + 1\<rparr>)
      in if length (sp_text p) > PAGE_HAN_CHARACTERS \<or> length (sp_token_path p) > PAGE_MODEL_TOKENS then x
         else if count > MAX_FRONTIER_PER_BUCKET then counted
         else if length (sp_token_path p) < PAGE_MODEL_TOKENS \<and> length (sp_text p) < PAGE_HAN_CHARACTERS
         then shown\<lparr>xp_frontier := xp_frontier shown @ [p]\<rparr>
         else shown)"

text \<open>The scored tokens from the best down; the loop stops after 32 new candidates or at the deadline.\<close>

fun expand_tokens ::
  "('b, 's, 'r) page_env \<Rightarrow> real \<Rightarrow> search_identity \<Rightarrow> (int, entry list) odict \<Rightarrow> search_path \<Rightarrow> (int \<times> real) list \<Rightarrow> expansion
     \<Rightarrow> (('b, 'r) page_manager, expansion) handler" where
  "expand_tokens env deadline identity entries parent [] x = lift_result (Inr x)"
| "expand_tokens env deadline identity entries parent ((token_id, v) # rest) x = (case map_of entries token_id of
       None \<Rightarrow> lift_result (Inl KeyError)
     | Some es \<Rightarrow>
         let x = fold (record_continuation (px_db env) identity parent token_id v) es x in
         if xp_produced x \<ge> MAX_FRONTIER_PER_BUCKET then lift_result (Inr x)
         else hbind (read_clock env) (\<lambda>now.
           if now \<ge> deadline then lift_result (Inr x)
           else expand_tokens env deadline identity entries parent rest x))"

definition finite_scores :: "int list \<Rightarrow> pyfloat list \<Rightarrow> (int \<times> real) list" where
  "finite_scores token_ids scores =
     sort_key (\<lambda>(_, v). - v) (List.map_filter (\<lambda>(t, s). case s of Fin v \<Rightarrow> Some (t, v) | _ \<Rightarrow> None) (zip token_ids scores))"

definition put_expansion :: "search_path \<Rightarrow> expansion \<Rightarrow> 'r search_session \<Rightarrow> 'r search_session" where
  "put_expansion parent x ss =
     (let ss = prune_frontier (ss\<lparr>ss_pending := xp_pending x, ss_frontier := xp_frontier x, ss_seen_candidates := xp_seen x,
                                  ss_search_depth := max (ss_search_depth ss) (length (sp_token_path parent) + 1)\<rparr>)
      in if ss_frontier ss = [] then ss\<lparr>ss_exhausted := True\<rparr> else ss)"

text \<open>The continuation of one parent; \<open>None\<close> from the backend, or no time left, puts the parent back.\<close>

definition undo_expansion :: "search_path \<Rightarrow> 'r search_session \<Rightarrow> 'r search_session" where
  "undo_expansion parent ss = ss\<lparr>ss_frontier := parent # ss_frontier ss,
     ss_expanded_paths := removeAll (sp_token_path parent) (ss_expanded_paths ss)\<rparr>"

definition expand_parent ::
  "('b, 's, 'r) page_env \<Rightarrow> real \<Rightarrow> search_path \<Rightarrow> ('r \<Rightarrow> int list list \<Rightarrow> int list list \<Rightarrow> real \<Rightarrow> ('b, pyfloat list list option) handler)
     \<Rightarrow> 'r \<Rightarrow> (('b, 'r) paged, nat) handler" where
  "expand_parent env deadline parent continuation r =
     hbind (on_manager (read_clock env)) (\<lambda>now.
     if (deadline - now) * 1000 \<le> 0 then hbind (on_session (undo_expansion parent)) (\<lambda>_. lift_result (Inr 0))
     else hbind (reads_state (\<lambda>(ss, m). pm_token_ids m)) (\<lambda>token_ids.
       hbind (on_manager (on_backend (continuation r [sp_token_path parent] [token_ids] ((deadline - now) * 1000)))) (\<lambda>scored.
       case scored of
         None \<Rightarrow> hbind (on_session (undo_expansion parent)) (\<lambda>_. lift_result (Inr 0))
       | Some batch \<Rightarrow>
           if length batch \<noteq> 1 then lift_result (Inl (RuntimeError ''continuation scorer returned an invalid batch''))
           else if length (hd batch) \<noteq> length token_ids
           then lift_result (Inl (RuntimeError ''continuation scorer returned an invalid score vector''))
           else hbind (reads_state (\<lambda>(ss, m). (ss, pm_entries_by_token m))) (\<lambda>(ss, entries).
             hbind (on_manager (expand_tokens env deadline (ss_identity ss) entries parent (finite_scores token_ids (hd batch))
               \<lparr>xp_pending = ss_pending ss, xp_frontier = ss_frontier ss, xp_seen = ss_seen_candidates ss, xp_counts = [],
                xp_produced = 0\<rparr>)) (\<lambda>x.
             hbind (on_session (put_expansion parent x)) (\<lambda>_. lift_result (Inr (xp_produced x))))))))"

text \<open>The next parent: the first path of the pruned frontier, which holds no expanded path.\<close>

definition expand_one_frontier :: "('b, 's, 'r) page_env \<Rightarrow> real \<Rightarrow> (('b, 'r) paged, nat) handler" where
  "expand_one_frontier env deadline = (\<lambda>(ss, m).
     let exhausted = (Inr 0, (ss\<lparr>ss_exhausted := True\<rparr>, m)) in
     if ss_frontier ss = [] \<or> pm_token_ids m = [] then exhausted
     else case (px_continue_from_root env, ss_continuation_root ss) of
       (Some continuation, Some r) \<Rightarrow>
         (let ss = prune_frontier ss in
          case dropWhile (\<lambda>p. sp_token_path p \<in> set (ss_expanded_paths ss)) (ss_frontier ss) of
            [] \<Rightarrow> (Inr 0, (ss\<lparr>ss_frontier := [], ss_exhausted := True\<rparr>, m))
          | parent # rest \<Rightarrow> expand_parent env deadline parent continuation r
              (ss\<lparr>ss_frontier := rest, ss_expanded_paths := sp_token_path parent # ss_expanded_paths ss\<rparr>, m))
     | _ \<Rightarrow> exhausted)"


section \<open>Freezing a page\<close>

text \<open>
  The loop of \<open>_ensure_freezable\<close> with fuel; \<open>Page_Termination\<close> shows when the fuel does not matter.
\<close>

fun ensure_freezable :: "nat \<Rightarrow> ('b, 's, 'r) page_env \<Rightarrow> nat \<Rightarrow> real \<Rightarrow> (('b, 'r) paged, unit) handler" where
  "ensure_freezable fuel env page_size deadline =
     hbind (reads_session (\<lambda>ss. ss_exhausted ss \<or> length (freezable_candidates ss) \<ge> page_size)) (\<lambda>done.
     if done then lift_result (Inr ())
     else hbind (on_manager (read_clock env)) (\<lambda>now.
       if now \<ge> deadline then lift_result (Inr ())
       else hbind (expand_one_frontier env deadline) (\<lambda>produced.
         hbind (on_session (\<lambda>ss. ss\<lparr>ss_pending := sort_key (page_candidate_key (px_db env)) (ss_pending ss)\<rparr>)) (\<lambda>_.
         if produced = 0 then lift_result (Inr ())
         else case fuel of
           0 \<Rightarrow> lift_result (Inl (RuntimeError ''out of fuel''))
         | Suc fuel \<Rightarrow> ensure_freezable fuel env page_size deadline))))"

declare ensure_freezable.simps [simp del]

definition take_pending :: "candidate list \<Rightarrow> (('b, 'r) paged, candidate list) handler" where
  "take_pending chosen = hbind (on_session (\<lambda>ss. ss\<lparr>ss_pending := filter (\<lambda>c. c \<notin> set chosen) (ss_pending ss)\<rparr>)) (\<lambda>_.
     lift_result (Inr chosen))"

definition page0_rows :: "nat \<Rightarrow> candidate list \<Rightarrow> candidate list \<Rightarrow> candidate list \<Rightarrow> candidate list" where
  "page0_rows page_size han latin literal =
     (let han_limit = (if latin \<noteq> [] then page_size - 1 else page_size)
      in if han = [] then take page_size (if latin \<noteq> [] then latin else literal)
         else take han_limit han @ take (page_size - min (length han) han_limit) latin)"

definition page0_choice :: "language_mode \<Rightarrow> nat \<Rightarrow> candidate list \<Rightarrow> candidate list" where
  "page0_choice mode page_size freezable =
     (if mode = LatinFirst then take page_size freezable
      else page0_rows page_size (filter (\<lambda>c. c_script c = ''han'') freezable) (filter (\<lambda>c. c_script c = ''latin'') freezable)
             (filter (\<lambda>c. c_constraint_kind c = ''literal'') freezable))"

definition take_page0 :: "nat \<Rightarrow> (('b, 'r) paged, candidate list) handler" where
  "take_page0 page_size =
     hbind (reads_session (\<lambda>ss. page0_choice (si_mode (ss_identity ss)) page_size (freezable_candidates ss))) take_pending"

definition count_timeout :: "('b, 'r) paged \<Rightarrow> ('b, 'r) paged" where
  "count_timeout = (\<lambda>(ss, m). (ss\<lparr>ss_timeout_count := ss_timeout_count ss + 1\<rparr>,
     m\<lparr>pm_metrics := (pm_metrics m)\<lparr>mx_timeout_count := mx_timeout_count (pm_metrics m) + 1\<rparr>\<rparr>))"

definition take_next_page :: "nat \<Rightarrow> ('b, 's, 'r) page_env \<Rightarrow> nat \<Rightarrow> real \<Rightarrow> (('b, 'r) paged, candidate list) handler" where
  "take_next_page fuel env page_size deadline =
     hbind (ensure_freezable fuel env page_size deadline) (\<lambda>_.
     hbind (reads_session (\<lambda>ss. (freezable_candidates ss, ss_exhausted ss))) (\<lambda>(freezable, exhausted).
     if length freezable < page_size \<and> \<not> exhausted
     then hbind (updates_state count_timeout) (\<lambda>_.
       lift_result (Inl (CandidatePageTimeout ''candidate page search exceeded its absolute deadline'')))
     else take_pending (take page_size freezable)))"

definition page_bucket :: "candidate list \<Rightarrow> nat option" where
  "page_bucket cs = (let buckets = map c_predicted_syllables (filter (\<lambda>c. c_script c = ''han'') cs)
     in if buckets = [] then None else Some (Min (set buckets)))"

definition frozen_count :: "'r search_session \<Rightarrow> nat" where
  "frozen_count ss = sum_list (map (\<lambda>(_, page). length (cp_candidates page)) (ss_frozen_pages ss))"

definition make_page :: "'r search_session \<Rightarrow> nat \<Rightarrow> nat \<Rightarrow> candidate list \<Rightarrow> pystr list \<Rightarrow> candidate_page" where
  "make_page ss page_index page_size selected ids =
     \<lparr>cp_candidate_set_id = ss_candidate_set_id ss, cp_page_index = page_index, cp_page_size = page_size,
      cp_has_more = (ss_pending ss \<noteq> [] \<or> \<not> ss_exhausted ss), cp_candidates = selected, cp_candidate_ids = ids,
      cp_score_source = ss_score_source ss, cp_search_depth = ss_search_depth ss, cp_length_bucket = page_bucket selected,
      cp_elapsed_ms = 0, cp_timeout_count = ss_timeout_count ss\<rparr>"

definition freeze_selected :: "('b, 's, 'r) page_env \<Rightarrow> nat \<Rightarrow> nat \<Rightarrow> candidate list \<Rightarrow> (('b, 'r) paged, candidate_page) handler" where
  "freeze_selected env page_index page_size selected =
     hbind (reads_session (\<lambda>ss. ss)) (\<lambda>ss.
     if selected = [] \<and> page_index > 0 \<and> ss_exhausted ss
     then lift_result (Inl (CandidatePageError ''candidate search is exhausted''))
     else
       let selected = (if selected = [] then [page_literal (si_raw_keys (ss_identity ss)) (si_context_epoch (ss_identity ss))]
                       else selected);
           selected = take (MAX_FROZEN_CANDIDATES - frozen_count ss) selected
       in if selected = []
          then lift_result (Inl (CandidatePageError ''candidate set reached the frozen-candidate safety limit''))
          else hbind (lift_result (rmap (\<lambda>(offset, c). page_candidate_id env (ss_candidate_set_id ss) page_index offset c)
                 (zip [0..<length selected] selected))) (\<lambda>ids.
            let page = make_page ss page_index page_size selected ids in
            hbind (on_session (\<lambda>ss. ss\<lparr>ss_frozen_pages := od_set page_index page (ss_frozen_pages ss)\<rparr>)) (\<lambda>_.
            lift_result (Inr page))))"

definition freeze_next_page ::
  "nat \<Rightarrow> ('b, 's, 'r) page_env \<Rightarrow> nat \<Rightarrow> nat \<Rightarrow> real \<Rightarrow> (('b, 'r) paged, candidate_page) handler" where
  "freeze_next_page fuel env page_index page_size deadline =
     hbind (if page_index = 0 then take_page0 page_size else take_next_page fuel env page_size deadline)
       (freeze_selected env page_index page_size)"

section \<open>Queries\<close>

record page_query =
  pq_identity :: search_identity
  pq_page_index :: int
  pq_candidate_set_id :: "pystr option"
  pq_deadline_ms :: "real option"
  pq_deadline_started :: "real option"

definition page_size_of :: "language_mode \<Rightarrow> nat" where
  "page_size_of mode = (if mode = ChineseFirst then CHINESE_PAGE_SIZE else LATIN_PAGE_SIZE)"

definition page_deadline_ms :: "page_query \<Rightarrow> real" where
  "page_deadline_ms q =
     (if pq_page_index q = 0
      then (case pq_deadline_ms q of None \<Rightarrow> PAGE0_DEADLINE_MS | Some d \<Rightarrow> min PAGE0_DEADLINE_MS d)
      else (case pq_deadline_ms q of None \<Rightarrow> NEXT_PAGE_DEADLINE_MS | Some d \<Rightarrow> d))"

definition validate_query :: "page_query \<Rightarrow> unit result" where
  "validate_query q =
     (if page_deadline_ms q \<le> 0 then Inl (CandidatePageTimeout ''candidate page deadline expired'')
      else if si_raw_keys (pq_identity q) = [] then Inl (CandidatePageError ''raw_keys must be non-empty'')
      else if pq_page_index q < 0 then Inl (CandidatePageError ''page_index must be non-negative'')
      else if si_composition_revision (pq_identity q) < 0
      then Inl (CandidatePageError ''composition_revision must be non-negative'')
      else Inr ())"

text \<open>A page after the first: the stored session, or the page itself when it is frozen already.\<close>

definition next_page_index :: "'r search_session \<Rightarrow> nat" where
  "next_page_index ss = (if ss_frozen_pages ss = [] then 0 else Max (fst ` set (ss_frozen_pages ss)) + 1)"

definition lookup_session :: "page_query \<Rightarrow> ('b, 'r) page_manager \<Rightarrow> (pystr \<times> candidate_page option) result" where
  "lookup_session q m = (case pq_candidate_set_id q of
     None \<Rightarrow> Inl (CandidatePageError ''candidate_set_id is required after page 0'')
   | Some i \<Rightarrow> (case map_of (pm_sessions m) i of
       None \<Rightarrow> Inl (CandidatePageError ''candidate_set_id is unknown or expired'')
     | Some ss \<Rightarrow>
         if ss_identity ss \<noteq> pq_identity q
         then Inl (CandidatePageError ''candidate_set_id does not match the current composition'')
         else case map_of (ss_frozen_pages ss) (nat (pq_page_index q)) of
           Some page \<Rightarrow> Inr (i, Some page)
         | None \<Rightarrow>
             if pq_page_index q \<noteq> int (next_page_index ss)
             then Inl (CandidatePageError ''new candidate pages must be requested in increasing order'')
             else Inr (i, None)))"

definition touch_session :: "('b, 's, 'r) page_env \<Rightarrow> pystr \<Rightarrow> (('b, 'r) page_manager, unit) handler" where
  "touch_session env i = hbind (read_clock env) (\<lambda>now.
     hbind (with_session i (on_session (\<lambda>ss. ss\<lparr>ss_last_used := now\<rparr>))) (\<lambda>_.
     updates_state (\<lambda>m. m\<lparr>pm_sessions := od_move_to_end i (pm_sessions m)\<rparr>)))"

definition record_page_metrics :: "candidate_page \<Rightarrow> ('b, 'r) page_manager \<Rightarrow> ('b, 'r) page_manager" where
  "record_page_metrics page m = m\<lparr>pm_metrics := (pm_metrics m)\<lparr>mx_page_index := Some (cp_page_index page),
     mx_count := Some (length (cp_candidates page)), mx_search_depth := Some (cp_search_depth page),
     mx_length_bucket := cp_length_bucket page, mx_elapsed_ms := Some (cp_elapsed_ms page)\<rparr>\<rparr>"

definition answer_page ::
  "nat \<Rightarrow> ('b, 's, 'r) page_env \<Rightarrow> page_query \<Rightarrow> real \<Rightarrow> real \<Rightarrow> pystr \<Rightarrow> (('b, 'r) page_manager, candidate_page) handler" where
  "answer_page fuel env q started deadline i =
     hbind (raise_if_query_expired env (Some deadline)) (\<lambda>_.
     let k = nat (pq_page_index q) in
     hbind (with_session i (freeze_next_page fuel env k (page_size_of (si_mode (pq_identity q))) deadline)) (\<lambda>page.
     hbind (read_clock env) (\<lambda>now.
     let page = page\<lparr>cp_elapsed_ms := max 0 ((now - started) * 1000)\<rparr> in
     hbind (with_session i (on_session (\<lambda>ss. ss\<lparr>ss_frozen_pages := od_set k page (ss_frozen_pages ss)\<rparr>))) (\<lambda>_.
     hbind (touch_session env i) (\<lambda>_.
     hbind (updates_state (record_page_metrics page)) (\<lambda>_.
     lift_result (Inr page)))))))"

definition query_page ::
  "nat \<Rightarrow> ('b, 's, 'r) page_env \<Rightarrow> page_query \<Rightarrow> 's option \<Rightarrow> (('b, 'r) page_manager, candidate_page) handler" where
  "query_page fuel env q state =
     hbind (case pq_deadline_started q of None \<Rightarrow> read_clock env | Some started \<Rightarrow> lift_result (Inr started)) (\<lambda>started.
     hbind (lift_result (validate_query q)) (\<lambda>_.
     let deadline = started + page_deadline_ms q / 1000 in
     hbind (raise_if_query_expired env (Some deadline)) (\<lambda>_.
     hbind (expire_sessions env) (\<lambda>_.
     if pq_page_index q = 0
     then hbind (new_session env (Some deadline) (pq_identity q) state) (\<lambda>i.
          hbind (raise_if_query_expired env (Some deadline)) (\<lambda>_.
          answer_page fuel env q started deadline i))
     else hbind (\<lambda>m. (lookup_session q m, m)) (\<lambda>(i, frozen).
       case frozen of
         Some page \<Rightarrow> hbind (touch_session env i) (\<lambda>_. lift_result (Inr page))
       | None \<Rightarrow> answer_page fuel env q started deadline i)))))"

end
