(* ===== verification/Page_Search.thy ===== *)
theory Page_Search
  imports Candidate_Pages
begin

text \<open>
  The search phase of a candidate session: what one expansion adds, the invariant of the session
  while its frontier is expanded, and why the expansion loop ends.
\<close>

section \<open>One expansion\<close>

text \<open>What the continuation of a parent adds, over the tokens \<open>T\<close> it may take.\<close>

definition new_path :: "int set \<Rightarrow> search_path \<Rightarrow> search_path \<Rightarrow> bool" where
  "new_path T parent p \<longleftrightarrow> sp_script p = ''han'' \<and> sp_predicted_syllables parent < sp_predicted_syllables p \<and> length (sp_token_path p) < PAGE_MODEL_TOKENS
     \<and> (\<exists>t \<in> T. sp_token_path p = sp_token_path parent @ [t])"

definition new_candidate :: "unicode_db \<Rightarrow> search_path \<Rightarrow> expansion \<Rightarrow> expansion \<Rightarrow> candidate \<Rightarrow> bool" where
  "new_candidate db parent x y c \<longleftrightarrow> c_constraint_kind c = ''pinyin'' \<and> seen_key db c \<notin> set (xp_seen x)
     \<and> seen_key db c \<in> set (xp_seen y) \<and> sp_predicted_syllables parent < c_predicted_syllables c"

definition grows :: "unicode_db \<Rightarrow> int set \<Rightarrow> search_path \<Rightarrow> expansion \<Rightarrow> expansion \<Rightarrow> bool" where
  "grows db T parent x y \<longleftrightarrow> set (xp_seen x) \<subseteq> set (xp_seen y)
     \<and> set (xp_pending x) \<subseteq> set (xp_pending y)
     \<and> (\<forall>c \<in> set (xp_pending y). c \<in> set (xp_pending x) \<or> new_candidate db parent x y c)
     \<and> (\<forall>p \<in> set (xp_frontier y). p \<in> set (xp_frontier x) \<or> new_path T parent p)"

lemma expansion_refl: "grows db T parent x x"
  by (simp add: grows_def)

lemma expansion_trans: "grows db T parent x y \<Longrightarrow> grows db T parent y z \<Longrightarrow> grows db T parent x z"
  unfolding grows_def new_candidate_def by blast

lemma record_continuation_grows:
  assumes "e_syllable_path e \<noteq> []" "token_id \<in> T"
  shows "grows db T parent x (record_continuation db identity parent token_id v e x)"
  using assms
  by (auto simp: grows_def record_continuation_def Let_def new_candidate_def new_path_def seen_key_def continued_candidate_def
    extend_search_def)

definition spelled :: "entry list \<Rightarrow> bool" where
  "spelled es \<longleftrightarrow> list_all (\<lambda>e. e_syllable_path e \<noteq> []) es"

lemma fold_record_grows:
  assumes "spelled es" "token_id \<in> T"
  shows "grows db T parent x (fold (record_continuation db identity parent token_id v) es x)"
  using assms(1)
proof (induction es arbitrary: x)
  case (Cons e es)
  then have "grows db T parent x (record_continuation db identity parent token_id v e x)"
    using record_continuation_grows [OF _ assms(2)] by (simp add: spelled_def)
  with Cons show ?case by (auto simp: spelled_def intro: expansion_trans)
qed (simp add: expansion_refl)

lemma expand_tokens_grows:
  assumes "\<forall>(t, es) \<in> set entries. spelled es"
    and "expand_tokens env deadline identity entries parent scored x m = (Inr y, m')" "fst ` set scored \<subseteq> T"
  shows "grows (px_db env) T parent x y \<and> (\<exists>n. m' = m\<lparr>pm_readings := n\<rparr>)"
  using assms(2,3)
proof (induction scored arbitrary: x m)
  case Nil
  then show ?case by (auto simp: lift_result_def expansion_refl intro: exI [of _ "pm_readings m"])
next
  case (Cons tv scored)
  obtain t v where tv: "tv = (t, v)" by (cases tv)
  obtain es where es: "map_of entries t = Some es"
    using Cons.prems(1) tv by (auto simp: lift_result_def split: option.splits)
  then have "spelled es" using assms(1) by (auto dest: map_of_SomeD)
  let ?x = "fold (record_continuation (px_db env) identity parent t v) es x"
  have g: "grows (px_db env) T parent x ?x" using \<open>spelled es\<close> Cons.prems(2) tv by (intro fold_record_grows) auto
  show ?case
  proof (cases "y = ?x \<and> (\<exists>n. m' = m\<lparr>pm_readings := n\<rparr>)")
    case True
    with g show ?thesis by simp
  next
    case False
    have self: "\<exists>n. m = m\<lparr>pm_readings := n\<rparr>" by (rule exI [of _ "pm_readings m"]) simp
    have "expand_tokens env deadline identity entries parent scored ?x (m\<lparr>pm_readings := pm_readings m + 1\<rparr>) = (Inr y, m')"
      using Cons.prems(1) tv es False self
      by (auto simp: Let_def lift_result_def hbind_def read_clock_def split: if_splits)
    from Cons.IH [OF this] Cons.prems(2) have "grows (px_db env) T parent ?x y" "\<exists>n. m' = m\<lparr>pm_readings := n\<rparr>" by auto
    with g show ?thesis by (auto intro: expansion_trans)
  qed
qed

lemma finite_scores_tokens: "fst ` set (finite_scores token_ids scores) \<subseteq> set token_ids"
  by (auto simp: finite_scores_def List.map_filter_def dest: set_zip_leftD split: pyfloat.splits prod.splits)

lemma retain_paths_subset: "set (retain_paths expanded ps counts) \<subseteq> {p \<in> set ps. sp_token_path p \<notin> set expanded}"
  by (induction expanded ps counts rule: retain_paths.induct) (auto simp: Let_def)

lemma prune_fields [simp]:
  "ss_candidate_set_id (prune_frontier ss) = ss_candidate_set_id ss" "ss_identity (prune_frontier ss) = ss_identity ss"
  "ss_frozen_pages (prune_frontier ss) = ss_frozen_pages ss" "ss_pending (prune_frontier ss) = ss_pending ss"
  "ss_seen_candidates (prune_frontier ss) = ss_seen_candidates ss" "ss_expanded_paths (prune_frontier ss) = ss_expanded_paths ss"
  "ss_exhausted (prune_frontier ss) = ss_exhausted ss"
  by (simp_all add: prune_frontier_def)

lemma prune_subset: "set (ss_frontier (prune_frontier ss)) \<subseteq> {p \<in> set (ss_frontier ss). sp_token_path p \<notin> set (ss_expanded_paths ss)}"
  using retain_paths_subset by (force simp: prune_frontier_def)


section \<open>The search phase of a session\<close>

definition frozen :: "'r search_session \<Rightarrow> candidate set" where
  "frozen ss = (\<Union>(k, page) \<in> set (ss_frozen_pages ss). set (cp_candidates page))"

text \<open>A completing Han candidate: the ones the length buckets order.\<close>

definition bucketed :: "candidate \<Rightarrow> bool" where
  "bucketed c \<longleftrightarrow> c_script c = ''han'' \<and> c_completes_input c"

text \<open>A candidate behind every length bucket that is on a page already.\<close>

definition behind :: "candidate set \<Rightarrow> candidate \<Rightarrow> bool" where
  "behind D c \<longleftrightarrow> (\<forall>d \<in> D. bucketed d \<longrightarrow> c_predicted_syllables d < c_predicted_syllables c)"

definition beyond :: "candidate set \<Rightarrow> search_path \<Rightarrow> bool" where
  "beyond D p \<longleftrightarrow> (\<forall>d \<in> D. bucketed d \<longrightarrow> c_predicted_syllables d \<le> sp_predicted_syllables p)"

lemma beyond_behind: "beyond D p \<Longrightarrow> sp_predicted_syllables p < c_predicted_syllables c \<Longrightarrow> behind D c"
  by (force simp: beyond_def behind_def)

lemma beyond_less: "beyond D p \<Longrightarrow> sp_predicted_syllables p < sp_predicted_syllables q \<Longrightarrow> beyond D q"
  by (force simp: beyond_def)

definition search_ok :: "unicode_db \<Rightarrow> 'r search_session \<Rightarrow> bool" where
  "search_ok db ss \<longleftrightarrow> frozen ss \<inter> set (ss_pending ss) = {}
     \<and> (\<forall>c \<in> frozen ss \<union> set (ss_pending ss). c_constraint_kind c \<noteq> ''literal'' \<longrightarrow> seen_key db c \<in> set (ss_seen_candidates ss))
     \<and> (\<forall>c \<in> set (ss_pending ss). c_constraint_kind c = ''literal'' \<longrightarrow> c = page_literal (si_raw_keys (ss_identity ss)) (si_context_epoch (ss_identity ss)))
     \<and> (\<forall>p \<in> set (ss_frontier ss). sp_script p = ''han'')
     \<and> (\<not> ss_exhausted ss \<longrightarrow> (\<forall>p \<in> set (ss_frontier ss). open_path ss p \<longrightarrow> beyond (frozen ss) p))"

definition searches :: "'r search_session \<Rightarrow> 'r search_session \<Rightarrow> bool" where
  "searches ss ss' \<longleftrightarrow> ss_candidate_set_id ss' = ss_candidate_set_id ss \<and> ss_identity ss' = ss_identity ss
     \<and> ss_frozen_pages ss' = ss_frozen_pages ss
     \<and> (\<forall>c \<in> set (ss_pending ss'). c \<in> set (ss_pending ss) \<or> behind (frozen ss) c)"

definition same_tables :: "('b, 'r) page_manager \<Rightarrow> ('b, 'r) page_manager \<Rightarrow> bool" where
  "same_tables m m' \<longleftrightarrow> pm_sessions m' = pm_sessions m \<and> pm_drawn m' = pm_drawn m
     \<and> pm_entries_by_token m' = pm_entries_by_token m \<and> pm_token_ids m' = pm_token_ids m
     \<and> pm_single_letter m' = pm_single_letter m"

definition tables_ok :: "('b, 'r) page_manager \<Rightarrow> bool" where
  "tables_ok m \<longleftrightarrow> (\<forall>(t, es) \<in> set (pm_entries_by_token m). spelled es)"

definition paged_ok :: "unicode_db \<Rightarrow> ('b, 'r) paged \<Rightarrow> bool" where
  "paged_ok db = (\<lambda>(ss, m). search_ok db ss \<and> tables_ok m)"

definition paged_rel :: "unicode_db \<Rightarrow> ('b, 'r) paged \<Rightarrow> ('b, 'r) paged \<Rightarrow> bool" where
  "paged_rel db = (\<lambda>(ss, m) (ss', m'). search_ok db ss' \<and> tables_ok m' \<and> searches ss ss' \<and> same_tables m m')"

interpretation paging: state_relation "paged_ok db" "paged_rel db" for db
proof unfold_locales
  show "paged_ok db s \<Longrightarrow> paged_rel db s s" for s :: "('b, 'r) paged"
    by (auto simp: paged_ok_def paged_rel_def searches_def same_tables_def)
  show "paged_rel db s t \<Longrightarrow> paged_ok db t" for s t :: "('b, 'r) paged"
    by (auto simp: paged_ok_def paged_rel_def)
  show "paged_rel db s t \<Longrightarrow> paged_rel db t u \<Longrightarrow> paged_rel db s u" for s t u :: "('b, 'r) paged"
  proof -
    assume "paged_rel db s t" "paged_rel db t u"
    moreover obtain s1 m1 t1 m2 u1 m3 where p: "s = (s1, m1)" "t = (t1, m2)" "u = (u1, m3)" by (metis surj_pair)
    ultimately have st: "searches s1 t1" "same_tables m1 m2" and tu: "searches t1 u1" "same_tables m2 m3" "search_ok db u1" "tables_ok m3"
      by (auto simp: paged_rel_def)
    have "frozen t1 = frozen s1" using st(1) by (simp add: searches_def frozen_def)
    then have "searches s1 u1" using st(1) tu(1) unfolding searches_def by (metis (no_types, lifting))
    moreover have "same_tables m1 m3" using st(2) tu(2) by (simp add: same_tables_def)
    ultimately show ?thesis using tu p by (simp add: paged_rel_def)
  qed
qed

lemma same_tables_ok: "same_tables m m' \<Longrightarrow> tables_ok m \<Longrightarrow> tables_ok m'"
  by (simp add: same_tables_def tables_ok_def)

lemma safe_on_manager:
  assumes "\<And>m r m'. h m = (r, m') \<Longrightarrow> same_tables m m'"
  shows "paging.safe db (on_manager h)"
proof (rule paging.safeI)
  fix s r s'
  assume ok: "paged_ok db s" and h: "on_manager h s = (r, s')"
  obtain ss m where s: "s = (ss, m)" by (cases s)
  obtain r1 m1 where "h m = (r1, m1)" by fastforce
  then show "paged_rel db s s'"
    using h ok assms [of m r1 m1] same_tables_ok [of m m1] s
    by (auto simp: on_manager_def paged_ok_def paged_rel_def searches_def)
qed

lemma read_clock_tables: "read_clock env m = (r, m') \<Longrightarrow> same_tables m m'"
  by (auto simp: read_clock_def same_tables_def)

lemma on_backend_tables: "on_backend h m = (r, m') \<Longrightarrow> same_tables m m'"
  by (auto simp: on_backend_def same_tables_def Let_def split: prod.splits)

lemma safe_on_session:
  assumes "\<And>ss. search_ok db ss \<Longrightarrow> search_ok db (f ss) \<and> searches ss (f ss)"
  shows "paging.safe db (on_session f)"
  unfolding on_session_def
  by (rule paging.safe_updates) (use assms in \<open>auto simp: paged_ok_def paged_rel_def same_tables_def\<close>)

lemma safe_reads_session: "paging.safe db (reads_session f)"
  unfolding reads_session_def by (rule paging.safe_reads)

lemma searches_same_pending:
  "ss_candidate_set_id ss' = ss_candidate_set_id ss \<Longrightarrow> ss_identity ss' = ss_identity ss \<Longrightarrow> ss_frozen_pages ss' = ss_frozen_pages ss
     \<Longrightarrow> set (ss_pending ss') \<subseteq> set (ss_pending ss) \<Longrightarrow> searches ss ss'"
  by (auto simp: searches_def)


lemma put_expansion_fields [simp]:
  "ss_candidate_set_id (put_expansion parent x ss) = ss_candidate_set_id ss" "ss_identity (put_expansion parent x ss) = ss_identity ss"
  "ss_frozen_pages (put_expansion parent x ss) = ss_frozen_pages ss" "ss_pending (put_expansion parent x ss) = xp_pending x"
  "ss_seen_candidates (put_expansion parent x ss) = xp_seen x" "ss_expanded_paths (put_expansion parent x ss) = ss_expanded_paths ss"
  by (simp_all add: put_expansion_def Let_def)

lemma put_expansion_frontier:
  "set (ss_frontier (put_expansion parent x ss)) \<subseteq> {p \<in> set (xp_frontier x). sp_token_path p \<notin> set (ss_expanded_paths ss)}"
  "ss_exhausted ss \<Longrightarrow> ss_exhausted (put_expansion parent x ss)"
  using prune_subset [of "ss\<lparr>ss_pending := xp_pending x, ss_frontier := xp_frontier x, ss_seen_candidates := xp_seen x,
     ss_search_depth := max (ss_search_depth ss) (length (sp_token_path parent) + 1)\<rparr>"]
  by (auto simp: put_expansion_def Let_def)

lemma put_expansion_ok:
  assumes ok: "search_ok db ss" "\<not> ss_exhausted ss"
    and parent: "\<forall>p \<in> set (parent # ss_frontier ss). beyond (frozen ss) p"
    and g: "grows db T parent \<lparr>xp_pending = ss_pending ss, xp_frontier = ss_frontier ss, xp_seen = ss_seen_candidates ss,
      xp_counts = [], xp_produced = 0\<rparr> x"
  shows "search_ok db (put_expansion parent x ss) \<and> searches ss (put_expansion parent x ss)"
proof -
  let ?s = "put_expansion parent x ss"
  have fr: "frozen ?s = frozen ss" by (simp add: frozen_def)
  have new: "c \<in> set (ss_pending ss) \<or> (c_constraint_kind c = ''pinyin'' \<and> seen_key db c \<notin> set (ss_seen_candidates ss)
      \<and> seen_key db c \<in> set (xp_seen x) \<and> sp_predicted_syllables parent < c_predicted_syllables c)" if "c \<in> set (xp_pending x)" for c
    using g that by (auto simp: grows_def new_candidate_def)
  have seen: "set (ss_seen_candidates ss) \<subseteq> set (xp_seen x)" using g by (simp add: grows_def)
  have "c \<in> set (ss_pending ss) \<or> behind (frozen ss) c" if "c \<in> set (ss_pending ?s)" for c
    using new [of c] that beyond_behind [of "frozen ss" parent c] parent by auto
  then have "searches ss ?s" by (simp add: searches_def)
  moreover have "frozen ?s \<inter> set (ss_pending ?s) = {}"
  proof -
    have "c \<notin> frozen ss" if "c \<in> set (xp_pending x)" for c
    proof
      assume c: "c \<in> frozen ss"
      with ok have "c \<notin> set (ss_pending ss)" by (auto simp: search_ok_def)
      with new [OF that] have "c_constraint_kind c = ''pinyin''" "seen_key db c \<notin> set (ss_seen_candidates ss)" by auto
      with ok c show False by (auto simp: search_ok_def)
    qed
    then show ?thesis unfolding fr by auto
  qed
  moreover have "seen_key db c \<in> set (xp_seen x)"
    if "c \<in> frozen ss \<union> set (xp_pending x)" "c_constraint_kind c \<noteq> ''literal''" for c
    using that new [of c] ok seen by (auto simp: search_ok_def)
  moreover have "c = page_literal (si_raw_keys (ss_identity ss)) (si_context_epoch (ss_identity ss))"
    if "c \<in> set (xp_pending x)" "c_constraint_kind c = ''literal''" for c
    using that new [of c] ok by (auto simp: search_ok_def)
  moreover have "sp_script p = ''han'' \<and> beyond (frozen ss) p" if "p \<in> set (ss_frontier ?s)" for p
  proof -
    have "p \<in> set (ss_frontier ss) \<or> new_path T parent p"
      using put_expansion_frontier(1) [of parent x ss] g that by (auto simp: grows_def)
    then show ?thesis using ok(1) parent beyond_less [of "frozen ss" parent p] by (auto simp: search_ok_def new_path_def)
  qed
  ultimately show ?thesis unfolding search_ok_def fr by simp
qed

lemma undo_expansion_ok:
  assumes "search_ok db ss" "\<forall>p \<in> set (parent # ss_frontier ss). beyond (frozen ss) p" "sp_script parent = ''han''"
  shows "search_ok db (undo_expansion parent ss) \<and> searches ss (undo_expansion parent ss)"
proof -
  have "frozen (undo_expansion parent ss) = frozen ss" by (simp add: frozen_def undo_expansion_def)
  then show ?thesis using assms unfolding search_ok_def searches_def by (auto simp: undo_expansion_def)
qed

lemma expand_tokens_tables:
  "expand_tokens env deadline identity entries parent scored x m = (r, m') \<Longrightarrow> same_tables m m'"
proof (induction scored arbitrary: x m)
  case (Cons tv scored)
  obtain t v where tv: "tv = (t, v)" by (cases tv)
  show ?case
  proof (cases "map_of entries t")
    case (Some es)
    let ?x = "fold (record_continuation (px_db env) identity parent t v) es x"
    let ?m = "m\<lparr>pm_readings := pm_readings m + 1\<rparr>"
    have "m' = m \<or> m' = ?m \<or> expand_tokens env deadline identity entries parent scored ?x ?m = (r, m')"
      using Cons.prems Some tv
      by (auto simp: Let_def lift_result_def hbind_def read_clock_def split: if_splits)
    then show ?thesis using Cons.IH [of ?x ?m] by (auto simp: same_tables_def)
  qed (use Cons.prems tv in \<open>auto simp: lift_result_def same_tables_def\<close>)
qed (auto simp: lift_result_def same_tables_def)

text \<open>The backend's answer and what is done with it.\<close>

definition start_expansion :: "'r search_session \<Rightarrow> expansion" where
  "start_expansion ss = \<lparr>xp_pending = ss_pending ss, xp_frontier = ss_frontier ss, xp_seen = ss_seen_candidates ss,
     xp_counts = [], xp_produced = 0\<rparr>"

definition run_expansion ::
  "('b, 's, 'r) page_env \<Rightarrow> real \<Rightarrow> search_path \<Rightarrow> pyfloat list \<Rightarrow> 'r search_session \<Rightarrow> ('b, 'r) page_manager
     \<Rightarrow> expansion result \<times> ('b, 'r) page_manager" where
  "run_expansion env deadline parent scores ss m =
     expand_tokens env deadline (ss_identity ss) (pm_entries_by_token m) parent (finite_scores (pm_token_ids m) scores)
       (start_expansion ss) m"

lemma expand_parent_cases:
  assumes "expand_parent env deadline parent continuation r0 (ss, m) = (r, s')"
  obtains (undone) m' where "s' = (undo_expansion parent ss, m')" "same_tables m m'" "r = Inr 0"
    | (raised) m' err where "s' = (ss, m')" "same_tables m m'" "r = Inl err"
    | (expanded) m2 m' scores x where "run_expansion env deadline parent scores ss m2 = (Inr x, m')" "same_tables m m2"
        "same_tables m m'" "s' = (put_expansion parent x ss, m')" "r = Inr (xp_produced x)"
proof -
  define m1 where "m1 = m\<lparr>pm_readings := pm_readings m + 1\<rparr>"
  define left where "left = (deadline - px_clock env (pm_readings m)) * 1000"
  obtain scored m2 where q: "on_backend (continuation r0 [sp_token_path parent] [pm_token_ids m1] left) m1 = (scored, m2)" by fastforce
  have t: "same_tables m m1" "same_tables m m2" "pm_token_ids m2 = pm_token_ids m1"
    using on_backend_tables [OF q] by (auto simp: m1_def same_tables_def)
  show thesis
  proof (cases "left \<le> 0")
    case True
    then have "(r, s') = (Inr 0, (undo_expansion parent ss, m1))"
      using assms by (simp add: expand_parent_def hbind_def on_manager_def read_clock_def on_session_def updates_state_def
        lift_result_def left_def m1_def)
    then show thesis using undone t(1) by blast
  next
    case False
    have step: "(r, s') = (case scored of
        Inl err \<Rightarrow> (Inl err, (ss, m2))
      | Inr None \<Rightarrow> (Inr 0, (undo_expansion parent ss, m2))
      | Inr (Some batch) \<Rightarrow>
          if length batch \<noteq> 1 then (Inl (RuntimeError ''continuation scorer returned an invalid batch''), (ss, m2))
          else if length (hd batch) \<noteq> length (pm_token_ids m1)
          then (Inl (RuntimeError ''continuation scorer returned an invalid score vector''), (ss, m2))
          else (case run_expansion env deadline parent (hd batch) ss m2 of
              (Inl err, m3) \<Rightarrow> (Inl err, (ss, m3))
            | (Inr x, m3) \<Rightarrow> (Inr (xp_produced x), (put_expansion parent x ss, m3))))"
      using False q assms [symmetric] t(3)
      by (auto simp: expand_parent_def hbind_def on_manager_def read_clock_def on_session_def updates_state_def lift_result_def
        reads_state_def left_def m1_def run_expansion_def start_expansion_def split: sum.splits option.splits prod.splits)
    have tables: "same_tables m m3" if "run_expansion env deadline parent scores ss m2 = (a, m3)" for scores a m3
      using expand_tokens_tables [OF that [unfolded run_expansion_def]] t(2) by (simp add: same_tables_def)
    show thesis
      using step t(2) tables
      by (auto split: sum.splits option.splits if_splits prod.splits intro: undone raised expanded)
  qed
qed

lemma run_expansion_grows:
  assumes "tables_ok m" "run_expansion env deadline parent scores ss m = (Inr x, m')"
  shows "grows (px_db env) (set (pm_token_ids m)) parent (start_expansion ss) x"
  using expand_tokens_grows [OF _ assms(2) [unfolded run_expansion_def] finite_scores_tokens] assms(1)
  by (simp add: tables_ok_def)

lemma expand_parent_rel:
  assumes ok: "paged_ok db (ss, m)" "\<not> ss_exhausted ss" "px_db env = db"
    and parent: "\<forall>p \<in> set (parent # ss_frontier ss). beyond (frozen ss) p" "sp_script parent = ''han''"
    and h: "expand_parent env deadline parent continuation r0 (ss, m) = (r, s')"
  shows "paged_rel db (ss, m) s'"
proof -
  have self: "paged_rel db (ss, m) (ss', m')" if "search_ok db ss' \<and> searches ss ss'" "same_tables m m'" for ss' m'
    using that ok(1) same_tables_ok [OF that(2)] by (simp add: paged_rel_def paged_ok_def)
  have sok: "search_ok db ss" and tok: "tables_ok m" using ok(1) by (auto simp: paged_ok_def)
  from h show ?thesis
  proof (cases rule: expand_parent_cases)
    case (undone m')
    then show ?thesis using self [OF undo_expansion_ok [OF sok parent]] by simp
  next
    case (raised m' err)
    then show ?thesis using self [of ss] sok by (simp add: searches_def)
  next
    case (expanded m2 m' scores x)
    then have "grows db (set (pm_token_ids m2)) parent (start_expansion ss) x"
      using run_expansion_grows same_tables_ok [OF _ tok] ok(3) by blast
    then have "search_ok db (put_expansion parent x ss) \<and> searches ss (put_expansion parent x ss)"
      using put_expansion_ok [OF sok ok(2) parent(1)] by (simp add: start_expansion_def)
    then show ?thesis using self expanded by blast
  qed
qed

lemma search_ok_update:
  assumes "search_ok db ss" "ss_candidate_set_id ss' = ss_candidate_set_id ss" "ss_identity ss' = ss_identity ss"
    "ss_frozen_pages ss' = ss_frozen_pages ss" "set (ss_pending ss') \<subseteq> set (ss_pending ss)"
    "ss_seen_candidates ss' = ss_seen_candidates ss"
    "set (ss_frontier ss') \<subseteq> set (ss_frontier ss)" "set (ss_expanded_paths ss) \<subseteq> set (ss_expanded_paths ss')"
    "ss_exhausted ss \<longrightarrow> ss_exhausted ss'"
  shows "search_ok db ss' \<and> searches ss ss'"
proof -
  have "frozen ss' = frozen ss" using assms(4) by (simp add: frozen_def)
  moreover have "open_path ss' p \<longrightarrow> open_path ss p" for p using assms(8) by (auto simp: open_path_def)
  ultimately show ?thesis using assms unfolding search_ok_def searches_def by (auto 0 3)
qed

definition choose_parent :: "search_path \<Rightarrow> search_path list \<Rightarrow> 'r search_session \<Rightarrow> 'r search_session" where
  "choose_parent parent others ss =
     (prune_frontier ss)\<lparr>ss_frontier := others, ss_expanded_paths := sp_token_path parent # ss_expanded_paths ss\<rparr>"

lemma expand_one_cases:
  assumes "expand_one_frontier env deadline (ss, m) = (r, s')"
  obtains (stopped) ss' where "s' = (ss', m)" "r = Inr 0" "ss' = ss\<lparr>ss_exhausted := True\<rparr>
        \<or> ss' = (prune_frontier ss)\<lparr>ss_frontier := [], ss_exhausted := True\<rparr>"
    | (continued) parent others continuation r0 where
        "expand_parent env deadline parent continuation r0 (choose_parent parent others ss, m) = (r, s')"
        "\<forall>p \<in> set (parent # others). p \<in> set (ss_frontier ss) \<and> sp_token_path p \<notin> set (ss_expanded_paths ss)"
        "px_continue_from_root env = Some continuation"
proof (cases "ss_frontier ss = [] \<or> pm_token_ids m = [] \<or> px_continue_from_root env = None \<or> ss_continuation_root ss = None")
  case True
  then have "(r, s') = (Inr 0, (ss\<lparr>ss_exhausted := True\<rparr>, m))"
    using assms by (auto simp: expand_one_frontier_def Let_def split: option.splits if_splits)
  then show thesis using stopped by blast
next
  case False
  then obtain continuation r0 where c: "px_continue_from_root env = Some continuation" "ss_continuation_root ss = Some r0" by auto
  define rest where "rest = dropWhile (\<lambda>p. sp_token_path p \<in> set (ss_expanded_paths ss)) (ss_frontier (prune_frontier ss))"
  have step: "(r, s') = (case rest of [] \<Rightarrow> (Inr 0, ((prune_frontier ss)\<lparr>ss_frontier := [], ss_exhausted := True\<rparr>, m))
      | parent # rest \<Rightarrow> expand_parent env deadline parent continuation r0 (choose_parent parent rest ss, m))"
    using assms [symmetric] False c by (simp add: expand_one_frontier_def Let_def rest_def choose_parent_def cong: list.case_cong)
  show thesis
  proof (cases rest)
    case Nil
    then show thesis using step stopped by simp
  next
    case (Cons parent others)
    have "set (parent # others) \<subseteq> set (ss_frontier (prune_frontier ss))"
      using Cons unfolding rest_def by (metis set_dropWhileD subsetI)
    then show thesis using step Cons continued [of parent continuation r0 others] prune_subset [of ss] c(1) by auto
  qed
qed

lemma expand_one_frontier_rel:
  assumes "px_db env = db" and ok: "paged_ok db (ss, m)" and open_search: "\<not> ss_exhausted ss"
    and h: "expand_one_frontier env deadline (ss, m) = (r, s')"
  shows "paged_rel db (ss, m) s'"
proof -
  have self: "paged_rel db (ss, m) (ss', m)" if "search_ok db ss' \<and> searches ss ss'" for ss'
    using that ok by (simp add: paged_rel_def paged_ok_def same_tables_def)
  have sok: "search_ok db ss" using ok by (simp add: paged_ok_def)
  from h show ?thesis
  proof (cases rule: expand_one_cases)
    case (stopped ss')
    have "search_ok db ss' \<and> searches ss ss'"
      by (rule search_ok_update [OF sok]) (use stopped(3) in auto)
    then show ?thesis using self stopped(1) by simp
  next
    case (continued parent others continuation r0)
    let ?q = "choose_parent parent others ss"
    have sub: "set others \<subseteq> set (ss_frontier ss)" using continued(2) by auto
    have beyond: "\<forall>p \<in> set (parent # others). beyond (frozen ss) p" "sp_script parent = ''han''"
      using continued(2) sok open_search by (auto simp: search_ok_def open_path_def)
    have q: "search_ok db ?q \<and> searches ss ?q"
      by (rule search_ok_update [OF sok]) (use sub in \<open>auto simp: choose_parent_def\<close>)
    have fq: "frozen ?q = frozen ss" "ss_frontier ?q = others" "ss_exhausted ?q = ss_exhausted ss"
      by (simp_all add: frozen_def choose_parent_def)
    have "paged_rel db (?q, m) s'"
      by (rule expand_parent_rel [OF _ _ assms(1) _ _ continued(1)]) (use q ok open_search beyond fq in \<open>auto simp: paged_ok_def\<close>)
    then show ?thesis using self [OF q] paging.rel_trans by blast
  qed
qed

definition sort_pending :: "unicode_db \<Rightarrow> ('b, 'r) paged \<Rightarrow> ('b, 'r) paged" where
  "sort_pending db = (\<lambda>(ss, m). (ss\<lparr>ss_pending := sort_key (page_candidate_key db) (ss_pending ss)\<rparr>, m))"

definition after_expansion :: "('b, 's, 'r) page_env \<Rightarrow> real \<Rightarrow> ('b, 'r) paged \<Rightarrow> nat result \<times> ('b, 'r) paged" where
  "after_expansion env deadline = (\<lambda>(ss, m). case expand_one_frontier env deadline (ss, m\<lparr>pm_readings := pm_readings m + 1\<rparr>) of
     (Inl err, s) \<Rightarrow> (Inl err, s) | (Inr n, s) \<Rightarrow> (Inr n, sort_pending (px_db env) s))"

lemma ensure_step:
  "ensure_freezable fuel env page_size deadline (ss, m) =
     (if ss_exhausted ss \<or> length (freezable_candidates ss) \<ge> page_size then (Inr (), (ss, m))
      else if px_clock env (pm_readings m) \<ge> deadline then (Inr (), (ss, m\<lparr>pm_readings := pm_readings m + 1\<rparr>))
      else case after_expansion env deadline (ss, m) of
        (Inl err, s) \<Rightarrow> (Inl err, s)
      | (Inr n, s) \<Rightarrow> if n = 0 then (Inr (), s)
          else (case fuel of 0 \<Rightarrow> (Inl (RuntimeError ''out of fuel''), s) | Suc fuel \<Rightarrow> ensure_freezable fuel env page_size deadline s))"
  by (subst ensure_freezable.simps)
    (auto simp: hbind_def reads_session_def reads_state_def on_manager_def read_clock_def lift_result_def on_session_def
      updates_state_def after_expansion_def sort_pending_def split: prod.splits sum.splits nat.splits)

lemma sort_pending_rel: "paged_ok db s \<Longrightarrow> paged_rel db s (sort_pending db s)"
proof -
  assume ok: "paged_ok db s"
  obtain ss m where s: "s = (ss, m)" by (cases s)
  have "search_ok db ss" using ok s by (simp add: paged_ok_def)
  from search_ok_update [OF this, of "ss\<lparr>ss_pending := sort_key (page_candidate_key db) (ss_pending ss)\<rparr>"]
  show ?thesis using ok s by (auto simp: paged_ok_def paged_rel_def sort_pending_def same_tables_def)
qed

lemma after_expansion_rel:
  assumes "px_db env = db" "paged_ok db (ss, m)" "\<not> ss_exhausted ss" "after_expansion env deadline (ss, m) = (r, s')"
  shows "paged_rel db (ss, m) s'"
proof -
  let ?m = "m\<lparr>pm_readings := pm_readings m + 1\<rparr>"
  obtain r1 s1 where e: "expand_one_frontier env deadline (ss, ?m) = (r1, s1)" by (metis surj_pair)
  have m: "paged_rel db (ss, m) (ss, ?m)"
    using assms(2) by (auto simp: paged_ok_def paged_rel_def searches_def same_tables_def tables_ok_def)
  then have "paged_rel db (ss, ?m) s1" using expand_one_frontier_rel [OF assms(1) _ assms(3) e] paging.rel_ok by blast
  then have s1: "paged_rel db (ss, m) s1" using m paging.rel_trans by blast
  then have "paged_rel db (ss, m) (sort_pending db s1)"
    using sort_pending_rel [of db s1] paging.rel_trans [of db "(ss, m)" s1] paging.rel_ok by blast
  then show ?thesis using assms(1,4) e s1 by (auto simp: after_expansion_def split: sum.splits)
qed

lemma ensure_freezable_rel:
  assumes "px_db env = db" "paged_ok db s" "ensure_freezable fuel env page_size deadline s = (r, s')"
  shows "paged_rel db s s'"
  using assms(2,3)
proof (induction fuel arbitrary: s)
  case 0
  obtain ss m where s: "s = (ss, m)" by (cases s)
  have "paged_rel db (ss, m) (ss, m\<lparr>pm_readings := pm_readings m + 1\<rparr>)"
    using 0(1) s by (auto simp: paged_ok_def paged_rel_def searches_def same_tables_def tables_ok_def)
  then show ?case
    using 0 s after_expansion_rel [OF assms(1)] paging.rel_refl [OF 0(1)]
    by (auto simp: ensure_step split: if_splits sum.splits prod.splits)
next
  case (Suc fuel)
  obtain ss m where s: "s = (ss, m)" by (cases s)
  have "paged_rel db (ss, m) (ss, m\<lparr>pm_readings := pm_readings m + 1\<rparr>)"
    using Suc.prems(1) s by (auto simp: paged_ok_def paged_rel_def searches_def same_tables_def tables_ok_def)
  moreover have "paged_rel db (ss, m) s'" if "after_expansion env deadline (ss, m) = (Inr n, t)" "\<not> ss_exhausted ss"
      "ensure_freezable fuel env page_size deadline t = (r, s')" for n t
  proof -
    have "paged_rel db (ss, m) t" using after_expansion_rel [OF assms(1) _ that(2,1)] Suc.prems(1) s by simp
    then show ?thesis using Suc.IH [OF _ that(3)] paging.rel_ok paging.rel_trans by blast
  qed
  ultimately show ?case
    using Suc.prems s after_expansion_rel [OF assms(1)] paging.rel_refl [OF Suc.prems(1)]
    by (auto simp: ensure_step split: if_splits sum.splits prod.splits)
qed

section \<open>The expansion loop ends\<close>

text \<open>
  Every expansion that finds something new marks a token path that was not marked before, and the
  paths that can ever be marked are the lists over the tokens at hand up to a fixed length.
\<close>

definition path_universe :: "int set \<Rightarrow> nat \<Rightarrow> int list set" where
  "path_universe T L = {xs. set xs \<subseteq> T \<and> length xs \<le> L}"

definition paths_within :: "int set \<Rightarrow> nat \<Rightarrow> ('b, 'r) paged \<Rightarrow> bool" where
  "paths_within T L = (\<lambda>(ss, m). tables_ok m \<and> finite T \<and> PAGE_MODEL_TOKENS \<le> L \<and> set (pm_token_ids m) \<subseteq> T
     \<and> (\<forall>p \<in> set (ss_frontier ss). sp_token_path p \<in> path_universe T L))"

definition unmarked :: "int set \<Rightarrow> nat \<Rightarrow> ('b, 'r) paged \<Rightarrow> nat" where
  "unmarked T L = (\<lambda>(ss, m). card (path_universe T L - set (ss_expanded_paths ss)))"

lemma finite_universe: "finite T \<Longrightarrow> finite (path_universe T L)"
  unfolding path_universe_def by (rule finite_lists_length_le)

lemma expansion_marks:
  assumes within: "paths_within T L (ss, m)" and h: "expand_one_frontier env deadline (ss, m) = (Inr n, s')" and n: "n > 0"
  shows "paths_within T L s' \<and> unmarked T L s' < unmarked T L (ss, m)"
  using h
proof (cases rule: expand_one_cases)
  case (continued parent others continuation r0)
  let ?q = "choose_parent parent others ss"
  from continued(1) show ?thesis
  proof (cases rule: expand_parent_cases)
    case (expanded m2 m' scores x)
    let ?s = "put_expansion parent x ?q"
    have m2: "tables_ok m2" "pm_token_ids m2 = pm_token_ids m"
      using within expanded(2) same_tables_ok by (auto simp: paths_within_def same_tables_def)
    have m': "tables_ok m'" "pm_token_ids m' = pm_token_ids m"
      using within expanded(3) same_tables_ok by (auto simp: paths_within_def same_tables_def)
    have g: "grows (px_db env) (set (pm_token_ids m)) parent (start_expansion ?q) x"
      using run_expansion_grows [OF m2(1) expanded(1)] m2(2) by simp
    have par: "sp_token_path parent \<in> path_universe T L" "sp_token_path parent \<notin> set (ss_expanded_paths ss)"
      using continued(2) within by (auto simp: paths_within_def)
    have "sp_token_path p \<in> path_universe T L" if "p \<in> set (ss_frontier ?s)" for p
    proof -
      have "p \<in> set others \<or> new_path (set (pm_token_ids m)) parent p"
        using g that put_expansion_frontier(1) [of parent x ?q]
        by (auto simp: grows_def start_expansion_def choose_parent_def)
      then show ?thesis
        using within continued(2) par(1) unfolding paths_within_def new_path_def path_universe_def by fastforce
    qed
    then have "paths_within T L s'" using within m' expanded(4) by (simp add: paths_within_def)
    moreover have "set (ss_expanded_paths ?s) = insert (sp_token_path parent) (set (ss_expanded_paths ss))"
      by (simp add: choose_parent_def)
    then have "path_universe T L - set (ss_expanded_paths ?s) \<subset> path_universe T L - set (ss_expanded_paths ss)"
      using par by auto
    then have "unmarked T L s' < unmarked T L (ss, m)"
      using within expanded(4) by (auto simp: unmarked_def paths_within_def intro!: psubset_card_mono finite_Diff finite_universe)
    ultimately show ?thesis by simp
  qed (use n in auto)
qed (use n in auto)

lemma expansion_decreases:
  assumes "paths_within T L (ss, m)" "after_expansion env deadline (ss, m) = (Inr n, t)" "n > 0"
  shows "paths_within T L t \<and> unmarked T L t < unmarked T L (ss, m)"
proof -
  let ?m = "m\<lparr>pm_readings := pm_readings m + 1\<rparr>"
  obtain r1 t' where e: "expand_one_frontier env deadline (ss, ?m) = (r1, t')" by (metis surj_pair)
  then have t': "expand_one_frontier env deadline (ss, ?m) = (Inr n, t')" "t = sort_pending (px_db env) t'"
    using assms(2) by (auto simp: after_expansion_def split: sum.splits)
  have "paths_within T L (ss, ?m)" using assms(1) by (simp add: paths_within_def tables_ok_def)
  from expansion_marks [OF this t'(1) assms(3)] show ?thesis
    using t'(2) by (cases t') (auto simp: paths_within_def unmarked_def sort_pending_def)
qed

lemma ensure_fuel:
  assumes "paths_within T L s" "unmarked T L s \<le> fuel"
  shows "ensure_freezable (fuel + k) env page_size deadline s = ensure_freezable fuel env page_size deadline s"
  using assms
proof (induction fuel arbitrary: s rule: less_induct)
  case (less fuel)
  obtain ss m where s: "s = (ss, m)" by (cases s)
  note smaller = expansion_decreases [OF less.prems(1) [unfolded s]]
  have "(case fuel + k of 0 \<Rightarrow> (Inl (RuntimeError ''out of fuel''), t) | Suc f \<Rightarrow> ensure_freezable f env page_size deadline t)
      = (case fuel of 0 \<Rightarrow> (Inl (RuntimeError ''out of fuel''), t) | Suc f \<Rightarrow> ensure_freezable f env page_size deadline t)"
    if "after_expansion env deadline (ss, m) = (Inr n, t)" "n > 0" for n t
  proof (cases fuel)
    case 0
    then show ?thesis using smaller [OF that] less.prems(2) s by simp
  next
    case (Suc f)
    then have "unmarked T L t \<le> f" using smaller [OF that] less.prems(2) s by simp
    then have "ensure_freezable (f + k) env page_size deadline t = ensure_freezable f env page_size deadline t"
      using less.IH [of f t] Suc smaller [OF that] by simp
    then show ?thesis using Suc by simp
  qed
  then show ?case unfolding s ensure_step by (auto split: sum.splits prod.splits)
qed

lemma within_some:
  assumes "tables_ok m"
  shows "\<exists>T L. paths_within T L (ss, m)"
proof -
  let ?T = "set (pm_token_ids m) \<union> (\<Union>p \<in> set (ss_frontier ss). set (sp_token_path p))"
  let ?L = "PAGE_MODEL_TOKENS + sum_list (map (\<lambda>p. length (sp_token_path p)) (ss_frontier ss))"
  have "length (sp_token_path p) \<le> sum_list (map (\<lambda>p. length (sp_token_path p)) (ss_frontier ss))" if "p \<in> set (ss_frontier ss)" for p
    using that by (simp add: member_le_sum_list)
  then have "paths_within ?T ?L (ss, m)"
    using assms by (force simp: paths_within_def path_universe_def)
  then show ?thesis by blast
qed

end
