(* ===== verification/Page_Queries.thy ===== *)
theory Page_Queries
  imports Page_Search
begin

text \<open>
  Freezing a page and answering queries: the invariant of a session with its frozen pages, what any
  history of queries keeps of it, and the properties of the paging protocol.
\<close>

section \<open>Frozen pages\<close>

definition page_ok :: "'r search_session \<Rightarrow> nat \<Rightarrow> candidate_page \<Rightarrow> bool" where
  "page_ok ss k page \<longleftrightarrow> cp_page_index page = k \<and> cp_candidate_set_id page = ss_candidate_set_id ss
     \<and> cp_page_size page = page_size_of (si_mode (ss_identity ss)) \<and> cp_candidates page \<noteq> []
     \<and> length (cp_candidates page) \<le> cp_page_size page \<and> length (cp_candidate_ids page) = length (cp_candidates page)"

definition pages_ok :: "'r search_session \<Rightarrow> bool" where
  "pages_ok ss \<longleftrightarrow> map fst (ss_frozen_pages ss) = [0..<length (ss_frozen_pages ss)]
     \<and> list_all (\<lambda>(k, page). page_ok ss k page) (ss_frozen_pages ss)
     \<and> sorted_wrt (\<lambda>(_, page) (_, page'). set (cp_candidates page) \<inter> set (cp_candidates page') = {}) (ss_frozen_pages ss)
     \<and> frozen_count ss \<le> MAX_FROZEN_CANDIDATES"

text \<open>A session and a later state of it: its pages are a prefix, and what is new comes behind them.\<close>

definition evolves :: "'r search_session \<Rightarrow> 'r search_session \<Rightarrow> bool" where
  "evolves ss ss' \<longleftrightarrow> ss_candidate_set_id ss' = ss_candidate_set_id ss \<and> ss_identity ss' = ss_identity ss
     \<and> prefix (ss_frozen_pages ss) (ss_frozen_pages ss')
     \<and> (\<forall>c \<in> frozen ss' \<union> set (ss_pending ss'). c \<in> frozen ss \<union> set (ss_pending ss) \<or> behind (frozen ss) c)"

lemma evolves_refl: "evolves ss ss"
  by (simp add: evolves_def)

lemma frozen_mono: "prefix (ss_frozen_pages ss) (ss_frozen_pages ss') \<Longrightarrow> frozen ss \<subseteq> frozen ss'"
  by (auto simp: frozen_def prefix_def)

lemma behind_mono: "D \<subseteq> D' \<Longrightarrow> behind D' c \<Longrightarrow> behind D c"
  by (auto simp: behind_def)

lemma evolves_trans:
  assumes "evolves s t" "evolves t u"
  shows "evolves s u"
proof -
  have "behind (frozen t) c \<Longrightarrow> behind (frozen s) c" for c
    using assms(1) behind_mono frozen_mono by (metis evolves_def)
  then show ?thesis using assms unfolding evolves_def by (metis prefix_order.trans)
qed

lemma searches_evolves: "searches ss ss' \<Longrightarrow> evolves ss ss'"
  by (auto simp: searches_def evolves_def frozen_def)

lemma searches_pages: "searches ss ss' \<Longrightarrow> pages_ok ss \<Longrightarrow> pages_ok ss'"
  by (simp add: searches_def pages_ok_def page_ok_def frozen_count_def)

section \<open>Choosing a page\<close>

definition literal_of :: "'r search_session \<Rightarrow> candidate" where
  "literal_of ss = page_literal (si_raw_keys (ss_identity ss)) (si_context_epoch (ss_identity ss))"

lemma minimum_future_positive:
  assumes "minimum_future_bucket ss = Some n"
  shows "n > 0"
proof -
  let ?b = "map (\<lambda>p. sp_predicted_syllables p + 1) (filter (open_path ss) (ss_frontier ss))"
  have "?b \<noteq> []" "n = Min (set ?b)" using assms unfolding minimum_future_bucket_def Let_def by (auto split: if_splits)
  then have "n \<in> set ?b" using Min_in [of "set ?b"] by (metis List.finite_set set_empty)
  then show ?thesis by auto
qed

lemma literal_freezable:
  assumes "literal_of ss \<in> set (ss_pending ss)"
  shows "literal_of ss \<in> set (freezable_candidates ss)"
proof -
  have "closed_bucket n (literal_of ss)" if "n > 0" for n
    using that by (simp add: closed_bucket_def literal_of_def page_literal_def)
  then show ?thesis using assms minimum_future_positive [of ss] by (auto simp: freezable_candidates_def split: option.split)
qed

lemma page0_rows_bounds:
  "set (page0_rows n han latin literal) \<subseteq> set han \<union> set latin \<union> set literal" "length (page0_rows n han latin literal) \<le> n"
  by (auto simp: page0_rows_def Let_def dest: in_set_takeD)

lemma page0_rows_empty: "2 \<le> n \<Longrightarrow> page0_rows n han latin literal = [] \<Longrightarrow> han = [] \<and> latin = [] \<and> literal = []"
  by (auto simp: page0_rows_def Let_def split: if_splits)

lemma page0_choice_subset: "set (page0_choice mode n cs) \<subseteq> set cs"
proof -
  have "set (filter P cs) \<subseteq> set cs" for P by auto
  then show ?thesis using page0_rows_bounds(1) set_take_subset unfolding page0_choice_def by (smt (verit) Un_least subset_trans)
qed

lemma page0_choice_length: "length (page0_choice mode n cs) \<le> n"
  by (simp add: page0_choice_def page0_rows_bounds(2))

lemma page0_choice_literal:
  assumes "c_constraint_kind c = ''literal''" "c \<in> set cs" "2 \<le> n"
  shows "page0_choice mode n cs \<noteq> []"
proof
  let ?lit = "filter (\<lambda>c. c_constraint_kind c = ''literal'') cs"
  assume e: "page0_choice mode n cs = []"
  have "c \<in> set ?lit" using assms(1,2) by simp
  then have lit: "?lit \<noteq> []" by (metis empty_iff empty_set)
  show False
  proof (cases "mode = LatinFirst")
    case True
    have "take n cs = []" using e unfolding page0_choice_def if_P [OF True] .
    then show False using assms(2,3) by (simp add: take_eq_Nil)
  next
    case False
    show False using e lit page0_rows_empty [OF assms(3)] unfolding page0_choice_def if_not_P [OF False] by blast
  qed
qed

lemma freezable_subset: "set (freezable_candidates ss) \<subseteq> set (ss_pending ss)"
  by (auto simp: freezable_candidates_def split: option.splits)

text \<open>What is chosen is closed: no open path can still produce a candidate of its bucket or a shorter one.\<close>

lemma freezable_beyond:
  assumes "c \<in> set (freezable_candidates ss)" "\<not> ss_exhausted ss" "p \<in> set (ss_frontier ss)" "open_path ss p" "bucketed c"
  shows "c_predicted_syllables c \<le> sp_predicted_syllables p"
proof -
  let ?b = "map (\<lambda>p. sp_predicted_syllables p + 1) (filter (open_path ss) (ss_frontier ss))"
  have in_b: "sp_predicted_syllables p + 1 \<in> set ?b" using assms(3,4) by force
  then have "?b \<noteq> []" by (metis empty_iff empty_set)
  then have some: "minimum_future_bucket ss = Some (Min (set ?b))"
    unfolding minimum_future_bucket_def Let_def by simp
  have "Min (set ?b) \<le> sp_predicted_syllables p + 1" using in_b by (intro Min_le) auto
  moreover have "c_predicted_syllables c < Min (set ?b)"
    using assms(1,2,5) some by (auto simp: freezable_candidates_def closed_bucket_def bucketed_def)
  ultimately show ?thesis by linarith
qed

definition choose_page :: "nat \<Rightarrow> ('b, 's, 'r) page_env \<Rightarrow> nat \<Rightarrow> nat \<Rightarrow> real \<Rightarrow> (('b, 'r) paged, candidate list) handler" where
  "choose_page fuel env k n deadline = (if k = 0 then take_page0 n else take_next_page fuel env n deadline)"

lemma choose_page_cases:
  assumes "choose_page fuel env k n deadline (ss, m) = (r, (ss', m'))" "paged_ok db (ss, m)" "px_db env = db" "2 \<le> n"
  obtains (raised) err where "r = Inl err" "paged_rel db (ss, m) (ss', m')"
    | (chosen) cs ss1 where "r = Inr cs" "paged_rel db (ss, m) (ss1, m')"
        "ss' = ss1\<lparr>ss_pending := filter (\<lambda>c. c \<notin> set cs) (ss_pending ss1)\<rparr>" "set cs \<subseteq> set (freezable_candidates ss1)"
        "length cs \<le> n" "k = 0 \<and> cs = [] \<Longrightarrow> literal_of ss1 \<notin> set (ss_pending ss1)" "k = 0 \<Longrightarrow> ss1 = ss"
        "k \<noteq> 0 \<and> cs = [] \<Longrightarrow> ss_exhausted ss1"
proof (cases "k = 0")
  case True
  let ?cs = "page0_choice (si_mode (ss_identity ss)) n (freezable_candidates ss)"
  have "r = Inr ?cs" "m' = m" "ss' = ss\<lparr>ss_pending := filter (\<lambda>c. c \<notin> set ?cs) (ss_pending ss)\<rparr>"
    using assms(1) True
    by (auto simp: choose_page_def take_page0_def take_pending_def hbind_def reads_session_def reads_state_def on_session_def
      updates_state_def lift_result_def)
  moreover have "literal_of ss \<notin> set (ss_pending ss)" if "?cs = []"
    using page0_choice_literal [OF _ literal_freezable assms(4)] that by (auto simp: literal_of_def page_literal_def)
  ultimately show thesis
    using chosen [of ?cs ss] paging.rel_refl [OF assms(2)] page0_choice_subset [of _ n "freezable_candidates ss"] page0_choice_length [of _ n "freezable_candidates ss"] True by blast
next
  case False
  obtain r1 ss1 m1 where e: "ensure_freezable fuel env n deadline (ss, m) = (r1, (ss1, m1))" by (metis surj_pair)
  have rel: "paged_rel db (ss, m) (ss1, m1)" using ensure_freezable_rel [OF assms(3,2) e] .
  show thesis
  proof (cases "\<exists>err. r1 = Inl err")
    case True
    then have "(ss', m') = (ss1, m1) \<and> (\<exists>err. r = Inl err)"
      using assms(1) e False by (auto simp: choose_page_def take_next_page_def hbind_def)
    then show thesis using raised rel by blast
  next
    case no_error: False
    show thesis
    proof (cases "length (freezable_candidates ss1) < n \<and> \<not> ss_exhausted ss1")
      case True
      have "\<exists>err. r = Inl err" and st: "(ss', m') = count_timeout (ss1, m1)"
        using assms(1) e False no_error True
        by (auto simp: choose_page_def take_next_page_def hbind_def reads_session_def reads_state_def updates_state_def
          lift_result_def split: sum.splits)
      moreover have "paged_rel db (ss1, m1) (count_timeout (ss1, m1))"
      proof -
        have "search_ok db (fst (count_timeout (ss1, m1))) \<and> searches ss1 (fst (count_timeout (ss1, m1)))"
          by (rule search_ok_update) (use rel in \<open>auto simp: paged_rel_def count_timeout_def\<close>)
        then show ?thesis using rel by (auto simp: paged_rel_def count_timeout_def same_tables_def tables_ok_def)
      qed
      ultimately show thesis using raised rel paging.rel_trans by metis
    next
      case False2: False
      let ?cs = "take n (freezable_candidates ss1)"
      have "r = Inr ?cs" "m' = m1" "ss' = ss1\<lparr>ss_pending := filter (\<lambda>c. c \<notin> set ?cs) (ss_pending ss1)\<rparr>"
        using assms(1) e False no_error False2
        by (auto simp: choose_page_def take_next_page_def take_pending_def hbind_def reads_session_def reads_state_def
          on_session_def updates_state_def lift_result_def split: sum.splits)
      moreover have "ss_exhausted ss1" if "?cs = []" using that False2 assms(4) by auto
      ultimately show thesis using chosen [of ?cs ss1] rel False by (auto dest: in_set_takeD)
    qed
  qed
qed

section \<open>Freezing\<close>

definition session_ok :: "unicode_db \<Rightarrow> 'r search_session \<Rightarrow> bool" where
  "session_ok db ss \<longleftrightarrow> search_ok db ss \<and> pages_ok ss"

definition without :: "candidate list \<Rightarrow> 'r search_session \<Rightarrow> 'r search_session" where
  "without cs ss = ss\<lparr>ss_pending := filter (\<lambda>c. c \<notin> set cs) (ss_pending ss)\<rparr>"

definition with_page :: "candidate_page \<Rightarrow> 'r search_session \<Rightarrow> 'r search_session" where
  "with_page page ss = ss\<lparr>ss_frozen_pages := ss_frozen_pages ss @ [(length (ss_frozen_pages ss), page)]\<rparr>"

lemma without_ok: "session_ok db ss \<Longrightarrow> session_ok db (without cs ss) \<and> searches ss (without cs ss)"
proof -
  assume ok: "session_ok db ss"
  then have "search_ok db (without cs ss) \<and> searches ss (without cs ss)"
    by (intro search_ok_update) (auto simp: session_ok_def without_def)
  then show ?thesis using ok searches_pages by (auto simp: session_ok_def)
qed

lemma frozen_with_page: "frozen (with_page page ss) = frozen ss \<union> set (cp_candidates page)"
  by (auto simp: frozen_def with_page_def)

lemma with_page_ok:
  assumes ok: "session_ok db ss" and page: "page_ok ss (length (ss_frozen_pages ss)) page"
    and cap: "length (cp_candidates page) \<le> MAX_FROZEN_CANDIDATES - frozen_count ss"
    and new: "set (cp_candidates page) \<subseteq> set (freezable_candidates ss) \<inter> set cs
      \<or> ss_frozen_pages ss = [] \<and> cp_candidates page = [literal_of ss] \<and> literal_of ss \<notin> set (ss_pending ss)"
  shows "session_ok db (with_page page (without cs ss)) \<and> evolves ss (with_page page (without cs ss))"
proof -
  let ?s = "with_page page (without cs ss)" and ?N = "set (cp_candidates page)"
  have wo: "search_ok db (without cs ss)" "searches ss (without cs ss)" "frozen (without cs ss) = frozen ss"
    using without_ok [OF ok, of cs] by (auto simp: session_ok_def frozen_def without_def)
  have fr: "frozen ?s = frozen ss \<union> ?N" by (simp add: frozen_with_page wo(3))
  have sok: "search_ok db ss" using ok by (simp add: session_ok_def)
  have pend: "set (ss_pending ?s) = set (ss_pending ss) - set cs" by (auto simp: with_page_def without_def)
  have N: "?N \<subseteq> set (ss_pending ss) \<and> ?N \<subseteq> set cs \<or> ss_frozen_pages ss = [] \<and> ?N = {literal_of ss} \<and> literal_of ss \<notin> set (ss_pending ss)"
    using new freezable_subset [of ss] by auto
  have fields: "ss_identity ?s = ss_identity ss" "ss_seen_candidates ?s = ss_seen_candidates ss" "ss_frontier ?s = ss_frontier ss"
    "ss_exhausted ?s = ss_exhausted ss" "open_path ?s = open_path ss"
    by (auto simp: with_page_def without_def open_path_def fun_eq_iff)
  have lit: "bucketed (literal_of ss) \<Longrightarrow> c_predicted_syllables (literal_of ss) \<le> n" for n
    by (simp add: literal_of_def page_literal_def)
  have "frozen ?s \<inter> set (ss_pending ?s) = {}"
    using sok N unfolding fr pend by (auto simp: search_ok_def)
  moreover have "seen_key db c \<in> set (ss_seen_candidates ss)"
    if "c \<in> frozen ?s \<union> set (ss_pending ?s)" "c_constraint_kind c \<noteq> ''literal''" for c
    using that sok N unfolding fr pend by (auto simp: search_ok_def literal_of_def page_literal_def)
  moreover have "beyond (frozen ?s) p" if "\<not> ss_exhausted ss" "p \<in> set (ss_frontier ss)" "open_path ss p" for p
  proof -
    have "c_predicted_syllables d \<le> sp_predicted_syllables p" if "d \<in> ?N" "bucketed d" for d
      using new freezable_beyond [OF _ \<open>\<not> ss_exhausted ss\<close> \<open>p \<in> _\<close> \<open>open_path ss p\<close> that(2)] lit that by auto
    then show ?thesis using sok that unfolding fr by (auto simp: search_ok_def beyond_def)
  qed
  ultimately have "search_ok db ?s" using sok pend unfolding search_ok_def fields by auto
  moreover have "pages_ok ?s"
  proof -
    let ?ps = "ss_frozen_pages ss"
    have pok: "pages_ok ss" using ok by (simp add: session_ok_def)
    have ps: "ss_frozen_pages ?s = ?ps @ [(length ?ps, page)]" by (simp add: with_page_def without_def)
    have disjoint: "set (cp_candidates p) \<inter> ?N = {}" if "(k, p) \<in> set ?ps" for k p
    proof -
      have "set (cp_candidates p) \<subseteq> frozen ss" using that by (force simp: frozen_def)
      then show ?thesis using N sok that by (auto simp: search_ok_def)
    qed
    have "frozen_count ?s = frozen_count ss + length (cp_candidates page)" by (simp add: frozen_count_def ps)
    moreover have "frozen_count ss + length (cp_candidates page) \<le> MAX_FROZEN_CANDIDATES"
    proof -
      have "frozen_count ss \<le> MAX_FROZEN_CANDIDATES" using pok by (simp add: pages_ok_def)
      with cap show ?thesis by linarith
    qed
    moreover have "page_ok ?s = page_ok ss" by (simp add: fun_eq_iff page_ok_def with_page_def without_def)
    moreover have "\<forall>(k, p) \<in> set ?ps. set (cp_candidates p) \<inter> ?N = {}" using disjoint by blast
    ultimately show ?thesis using pok cap page unfolding pages_ok_def ps by (simp add: sorted_wrt_append case_prod_beta)
  qed
  moreover have "evolves ss ?s"
  proof -
    have "c \<in> frozen ss \<union> set (ss_pending ss) \<or> behind (frozen ss) c" if "c \<in> frozen ?s \<union> set (ss_pending ?s)" for c
    proof -
      have "behind (frozen ss) c" if "ss_frozen_pages ss = []" using that by (simp add: behind_def frozen_def)
      then show ?thesis using \<open>c \<in> _\<close> N unfolding fr pend by auto
    qed
    then show ?thesis by (auto simp: evolves_def with_page_def without_def)
  qed
  ultimately show ?thesis by (simp add: session_ok_def)
qed


lemma page_fields [simp]:
  "cp_candidates (make_page ss k n cs ids) = cs" "cp_page_index (make_page ss k n cs ids) = k"
  "cp_candidate_set_id (make_page ss k n cs ids) = ss_candidate_set_id ss" "cp_page_size (make_page ss k n cs ids) = n"
  "cp_candidate_ids (make_page ss k n cs ids) = ids"
  by (simp_all add: make_page_def)

lemma freeze_selected_cases:
  assumes "freeze_selected env k n cs (ss, m) = (r, (ss', m'))" "k \<notin> fst ` set (ss_frozen_pages ss)"
  obtains (raised) err where "r = Inl err" "ss' = ss" "m' = m"
    | (froze) page where "r = Inr page" "m' = m" "ss' = ss\<lparr>ss_frozen_pages := ss_frozen_pages ss @ [(k, page)]\<rparr>"
        "cp_candidates page \<noteq> []" "cp_page_index page = k" "cp_candidate_set_id page = ss_candidate_set_id ss"
        "cp_page_size page = n" "length (cp_candidate_ids page) = length (cp_candidates page)"
        "cp_candidates page = take (MAX_FROZEN_CANDIDATES - frozen_count ss) (if cs = [] then [literal_of ss] else cs)"
        "cs = [] \<Longrightarrow> k = 0 \<or> \<not> ss_exhausted ss"
proof -
  let ?cs = "take (MAX_FROZEN_CANDIDATES - frozen_count ss) (if cs = [] then [literal_of ss] else cs)"
  define ids where "ids = rmap (\<lambda>(offset, c). page_candidate_id env (ss_candidate_set_id ss) k offset c) (zip [0..<length ?cs] ?cs)"
  show thesis
  proof (cases "(cs = [] \<and> k > 0 \<and> ss_exhausted ss) \<or> ?cs = [] \<or> (\<exists>err. ids = Inl err)")
    case True
    then have "(\<exists>err. r = Inl err) \<and> ss' = ss \<and> m' = m"
      using assms(1) unfolding ids_def literal_of_def
      by (auto simp: freeze_selected_def hbind_def reads_session_def reads_state_def lift_result_def Let_def split: if_splits)
    then show thesis using raised by blast
  next
    case False
    then obtain names where ids: "ids = Inr names" by (cases ids) auto
    let ?page = "make_page ss k n ?cs names"
    have "(r, (ss', m')) = (Inr ?page, (ss\<lparr>ss_frozen_pages := od_set k ?page (ss_frozen_pages ss)\<rparr>, m))"
      using assms(1) [symmetric] False ids unfolding ids_def literal_of_def
      by (auto simp: freeze_selected_def hbind_def reads_session_def reads_state_def lift_result_def Let_def on_session_def
        updates_state_def split: if_splits)
    moreover have "od_set k ?page (ss_frozen_pages ss) = ss_frozen_pages ss @ [(k, ?page)]"
      using assms(2) by (rule od_set_append)
    moreover have "length names = length ?cs" using rmap_Inr_length [OF ids [unfolded ids_def]] by simp
    ultimately show thesis using froze [of ?page] False by auto
  qed
qed


lemma freeze_cases:
  assumes h: "freeze_next_page fuel env k n deadline (ss, m) = (r, (ss', m'))"
    and ok: "session_ok db ss" "tables_ok m" "px_db env = db"
    and k: "k = length (ss_frozen_pages ss)" "n = page_size_of (si_mode (ss_identity ss))"
  obtains (raised) err where "r = Inl err" "session_ok db ss'" "evolves ss ss'" "ss_frozen_pages ss' = ss_frozen_pages ss"
        "same_tables m m'"
    | (froze) page where "r = Inr page" "same_tables m m'" "ss_frozen_pages ss' = ss_frozen_pages ss @ [(k, page)]"
        "\<And>e. session_ok db (ss'\<lparr>ss_frozen_pages := ss_frozen_pages ss @ [(k, page\<lparr>cp_elapsed_ms := e\<rparr>)]\<rparr>)"
        "\<And>e. evolves ss (ss'\<lparr>ss_frozen_pages := ss_frozen_pages ss @ [(k, page\<lparr>cp_elapsed_ms := e\<rparr>)]\<rparr>)"
proof -
  have n: "2 \<le> n" by (simp add: k(2) page_size_of_def CHINESE_PAGE_SIZE_def LATIN_PAGE_SIZE_def)
  have pok: "paged_ok db (ss, m)" using ok by (simp add: paged_ok_def session_ok_def)
  have fresh: "k \<notin> fst ` set (ss_frozen_pages ss)"
  proof -
    have "fst ` set (ss_frozen_pages ss) = {0..<k}"
      using ok(1) k(1) unfolding session_ok_def pages_ok_def by (metis list.set_map set_upt)
    then show ?thesis by simp
  qed
  obtain r1 s1 m1 where c: "choose_page fuel env k n deadline (ss, m) = (r1, (s1, m1))" by (metis surj_pair)
  have step: "freeze_next_page fuel env k n deadline (ss, m) = (case r1 of Inl err \<Rightarrow> (Inl err, (s1, m1))
      | Inr cs \<Rightarrow> freeze_selected env k n cs (s1, m1))"
    using c by (simp add: freeze_next_page_def choose_page_def hbind_def split: sum.split)
  from c pok ok(3) n show thesis
  proof (cases rule: choose_page_cases)
    case (raised err)
    then have "ss' = s1" "m' = m1" "r = Inl err" using h step by auto
    moreover have "searches ss s1" "search_ok db s1" "same_tables m m1" using raised(2) by (auto simp: paged_rel_def)
    moreover have "pages_ok s1" using \<open>searches ss s1\<close> searches_pages ok(1) by (auto simp: session_ok_def)
    ultimately show thesis using that(1) searches_evolves by (auto simp: session_ok_def searches_def)
  next
    case (chosen cs ss1)
    have rel: "searches ss ss1" "search_ok db ss1" "same_tables m m1" using chosen(2) by (auto simp: paged_rel_def)
    have ok1: "session_ok db ss1" using rel searches_pages ok(1) by (auto simp: session_ok_def)
    have pages: "ss_frozen_pages ss1 = ss_frozen_pages ss" "ss_identity ss1 = ss_identity ss" using rel(1) by (auto simp: searches_def)
    have s1: "s1 = without cs ss1" using chosen(3) by (simp add: without_def)
    have w: "ss_frozen_pages s1 = ss_frozen_pages ss" "frozen_count s1 = frozen_count ss1" "literal_of s1 = literal_of ss1"
      "ss_exhausted s1 = ss_exhausted ss1" "ss_candidate_set_id s1 = ss_candidate_set_id ss1"
      by (simp_all add: s1 without_def pages frozen_count_def literal_of_def)
    have "freeze_selected env k n cs (s1, m1) = (r, (ss', m'))" using h step chosen(1) by simp
    moreover have "k \<notin> fst ` set (ss_frozen_pages s1)" using fresh w(1) by simp
    ultimately show thesis
    proof (cases rule: freeze_selected_cases)
      case (raised err)
      have "session_ok db s1 \<and> searches ss1 s1" unfolding s1 by (rule without_ok [OF ok1])
      then have "session_ok db s1" "evolves ss s1" using searches_evolves rel(1) evolves_trans by blast+
      then show thesis using that(1) raised rel(3) w(1) by simp
    next
      case (froze page)
      have new: "set (cp_candidates page) \<subseteq> set (freezable_candidates ss1) \<inter> set cs
        \<or> ss_frozen_pages ss1 = [] \<and> cp_candidates page = [literal_of ss1] \<and> literal_of ss1 \<notin> set (ss_pending ss1)"
      proof (cases "cs = []")
        case True
        then have "k = 0" using froze(10) chosen(8) w(4) by (cases "k = 0") auto
        then have "ss_frozen_pages ss1 = []" using k(1) pages(1) by simp
        moreover have "cp_candidates page = [literal_of ss1]"
          using froze(4,9) True w(3) by (cases "MAX_FROZEN_CANDIDATES - frozen_count s1") auto
        ultimately show ?thesis using chosen(6) True \<open>k = 0\<close> by simp
      next
        case False
        then have "set (cp_candidates page) \<subseteq> set cs" using froze(9) by (simp add: set_take_subset)
        then show ?thesis using chosen(4) by blast
      qed
      have len: "length (cp_candidates page) \<le> n"
        using froze(9) chosen(5) n by auto
      have final: "session_ok db (with_page (page\<lparr>cp_elapsed_ms := e\<rparr>) s1) \<and> evolves ss1 (with_page (page\<lparr>cp_elapsed_ms := e\<rparr>) s1)" for e
        unfolding s1
      proof (rule with_page_ok [OF ok1])
        show "page_ok ss1 (length (ss_frozen_pages ss1)) (page\<lparr>cp_elapsed_ms := e\<rparr>)"
          using froze len w(5) k pages by (simp add: page_ok_def)
        show "length (cp_candidates (page\<lparr>cp_elapsed_ms := e\<rparr>)) \<le> MAX_FROZEN_CANDIDATES - frozen_count ss1"
          using froze(9) w(2) by simp
      qed (use new in auto)
      have eq: "ss'\<lparr>ss_frozen_pages := ss_frozen_pages ss @ [(k, page\<lparr>cp_elapsed_ms := e\<rparr>)]\<rparr>
          = with_page (page\<lparr>cp_elapsed_ms := e\<rparr>) s1" for e
        using froze(3) w(1) k(1) by (simp add: with_page_def)
      have good: "session_ok db (ss'\<lparr>ss_frozen_pages := ss_frozen_pages ss @ [(k, page\<lparr>cp_elapsed_ms := e\<rparr>)]\<rparr>)"
        "evolves ss (ss'\<lparr>ss_frozen_pages := ss_frozen_pages ss @ [(k, page\<lparr>cp_elapsed_ms := e\<rparr>)]\<rparr>)" for e
        unfolding eq using final evolves_trans [OF searches_evolves [OF rel(1)]] by blast+
      have "same_tables m m'" "ss_frozen_pages ss' = ss_frozen_pages ss @ [(k, page)]" using froze(2,3) rel(3) w(1) by simp_all
      then show thesis using that(2) froze(1) good by blast
    qed
  qed
qed


section \<open>The manager\<close>

text \<open>A literal among the candidates of a raw input is the literal of that input.\<close>

definition literal_only :: "pystr \<Rightarrow> candidate list \<Rightarrow> bool" where
  "literal_only raw cs \<longleftrightarrow> (\<forall>c \<in> set cs. c_constraint_kind c = ''literal'' \<longrightarrow> c = page_literal raw (c_context_epoch c))"

definition manager_ok :: "(nat \<Rightarrow> pystr) \<Rightarrow> unicode_db \<Rightarrow> ('b, 'r) page_manager \<Rightarrow> bool" where
  "manager_ok uuid db m \<longleftrightarrow> inj (uuid) \<and> tables_ok m \<and> od_ok (pm_sessions m)
     \<and> length (pm_sessions m) \<le> MAX_ACTIVE_SEARCH_SESSIONS
     \<and> (\<forall>((raw, _), cs) \<in> set (pm_single_letter m). literal_only raw cs)
     \<and> (\<forall>(i, ss) \<in> set (pm_sessions m). i = ss_candidate_set_id ss \<and> i \<in> uuid ` {..<pm_drawn m} \<and> session_ok db ss)"

definition manager_rel :: "(nat \<Rightarrow> pystr) \<Rightarrow> unicode_db \<Rightarrow> ('b, 'r) page_manager \<Rightarrow> ('b, 'r) page_manager \<Rightarrow> bool" where
  "manager_rel uuid db m m' \<longleftrightarrow> manager_ok uuid db m' \<and> pm_drawn m \<le> pm_drawn m'
     \<and> (\<forall>i ss'. map_of (pm_sessions m') i = Some ss' \<longrightarrow> i \<in> uuid ` {..<pm_drawn m}
          \<longrightarrow> (\<exists>ss. map_of (pm_sessions m) i = Some ss \<and> evolves ss ss'))"

interpretation managing: state_relation "manager_ok uuid db" "manager_rel uuid db" for uuid db
proof unfold_locales
  show "manager_ok uuid db s \<Longrightarrow> manager_rel uuid db s s" for s
    using evolves_refl by (auto simp: manager_rel_def)
  show "manager_rel uuid db s t \<Longrightarrow> manager_ok uuid db t" for s t by (simp add: manager_rel_def)
  show "manager_rel uuid db s t \<Longrightarrow> manager_rel uuid db t u \<Longrightarrow> manager_rel uuid db s u" for s t u
  proof -
    assume st: "manager_rel uuid db s t" and tu: "manager_rel uuid db t u"
    have "\<exists>ss. map_of (pm_sessions s) i = Some ss \<and> evolves ss ss'"
      if i: "map_of (pm_sessions u) i = Some ss'" "i \<in> uuid ` {..<pm_drawn s}" for i ss'
    proof -
      have "i \<in> uuid ` {..<pm_drawn t}" using i(2) st by (auto simp: manager_rel_def)
      then obtain ss1 where "map_of (pm_sessions t) i = Some ss1" "evolves ss1 ss'"
        using tu i(1) by (auto simp: manager_rel_def)
      then show ?thesis using st i(2) evolves_trans unfolding manager_rel_def by blast
    qed
    then show ?thesis using st tu by (auto simp: manager_rel_def)
  qed
qed

interpretation tables: state_relation "\<lambda>_. True" same_tables
  by unfold_locales (auto simp: same_tables_def)

lemma tables_manager: "same_tables m m' \<Longrightarrow> manager_ok uuid db m \<Longrightarrow> manager_rel uuid db m m'"
  using evolves_refl by (auto simp: same_tables_def manager_rel_def manager_ok_def tables_ok_def)

lemma tables_safe: "tables.safe h \<Longrightarrow> managing.safe uuid db h"
  by (auto simp: tables.safe_def managing.safe_def intro: tables_manager)

text \<open>Methods that leave the sessions, the identifiers and the tables alone.\<close>

lemma tables_updates: "(\<And>m. same_tables m (f m)) \<Longrightarrow> tables.safe (updates_state f)"
  by (rule tables.safe_updates)

lemma tables_clock: "tables.safe (read_clock env)"
  by (rule tables.safeI) (rule read_clock_tables)

lemma tables_raise: "tables.safe (raise_if_query_expired env d)"
  unfolding raise_if_query_expired_def
  by (auto intro!: tables.safe_bind tables.safe_lift tables_clock split: option.split)

lemma tables_checkpoint: "tables.safe (checkpoint env d i)"
  by (simp add: checkpoint_def tables_raise tables.safe_lift)

lemma tables_score: "tables.safe (score_root env st ids)"
  by (rule tables.safeI)
    (auto simp: score_root_def Let_def same_tables_def split: if_splits option.splits prod.splits sum.splits
      dest!: on_backend_tables)

lemma tables_plan: "tables.safe (root_han_plan env d raw)"
proof (rule tables.safeI)
  fix m r m'
  assume "root_han_plan env d raw m = (r, m')"
  moreover have "same_tables m0 m'" if "hbind (raise_if_query_expired env d) (\<lambda>_. hbind (updates_state (\<lambda>m. m\<lparr>pm_root_han_plans := f m\<rparr>))
      (\<lambda>_. lift_result (Inr plan))) m0 = (r, m')" for f plan m0
  proof -
    have "tables.safe (hbind (raise_if_query_expired env d) (\<lambda>_. hbind (updates_state (\<lambda>m. m\<lparr>pm_root_han_plans := f m\<rparr>))
      (\<lambda>_. lift_result (Inr plan))))"
      by (intro tables.safe_bind tables_raise tables_updates tables.safe_lift) (simp add: same_tables_def)
    from tables.safeD [OF this TrueI that] show ?thesis .
  qed
  ultimately show "same_tables m m'"
    by (fastforce simp: root_han_plan_def Let_def same_tables_def split: option.splits sum.splits if_splits prod.splits)
qed

lemma tables_best: "tables.safe (best_plan_entries env d i ps best)"
  by (induction ps arbitrary: i best) (auto intro!: tables.safe_bind tables_checkpoint tables.safe_lift)

lemma tables_finite_latin: "tables.safe (finite_latin env d raw e i ls)"
  by (induction ls arbitrary: i) (auto intro!: tables.safe_bind tables_checkpoint tables.safe_lift)

lemma tables_root: "tables.safe (root_candidates env d raw mode st e cached)"
proof -
  have "tables.safe (root_han_candidates env d raw st e)"
    unfolding root_han_candidates_def materialize_root_han_candidates_def Let_def
    by (auto intro!: tables.safe_bind tables.safe_lift tables_raise tables_plan tables_score tables_best)
  moreover have "tables.safe (root_latin_candidates env d raw st e)"
    unfolding root_latin_candidates_def
    by (auto intro!: tables.safe_bind tables.safe_lift tables.safe_reads tables_raise tables_score tables_finite_latin)
  ultimately show ?thesis
    unfolding root_candidates_def fresh_root_candidates_def Let_def
    by (auto intro!: tables.safe_bind tables.safe_lift tables.safe_reads tables_raise split: option.split language_mode.split)
qed


section \<open>What a new session starts from\<close>

definition good_roots :: "pystr \<Rightarrow> int \<Rightarrow> candidate list \<times> search_path list \<times> string \<Rightarrow> bool" where
  "good_roots raw epoch = (\<lambda>(cs, frontier, _). (\<forall>c \<in> set cs. c_constraint_kind c = ''literal'' \<longrightarrow> c = page_literal raw epoch)
     \<and> (\<forall>p \<in> set frontier. sp_script p = ''han''))"

lemma frontier_han: "p \<in> set (frontier_from_candidates db cs) \<Longrightarrow> sp_script p = ''han''"
  by (auto simp: frontier_from_candidates_def path_of_candidate_def)

lemma set_interleave: "set (interleave_by_score han latin) = set han \<union> set latin"
  by (induction han latin rule: interleave_by_score.induct) auto

lemma set_merge: "set (merge_chinese_first han latin) = set han \<union> set latin"
  by (cases han) (auto simp: merge_chinese_first_def set_interleave)

lemma han_roots_kind: "answers (\<lambda>cs. \<forall>c \<in> set cs. c_constraint_kind c = ''pinyin'') (root_han_candidates env d raw st e)"
proof -
  have "answers (\<lambda>cs. \<forall>c \<in> set cs. c_constraint_kind c = ''pinyin'') (materialize_root_han_candidates env d plan st e)" for plan
    unfolding materialize_root_han_candidates_def Let_def
    by (intro answers_then answers_lift) (auto simp: plan_candidate_def)
  then have "answers (\<lambda>cs. \<forall>c \<in> set cs. c_constraint_kind c = ''pinyin'')
      (hbind (materialize_root_han_candidates env d plan st e) (\<lambda>result. hbind (raise_if_query_expired env d) (\<lambda>_. lift_result (Inr result))))" for plan
    by (rule answers_bind) (auto intro!: answers_then answers_lift)
  then show ?thesis
    unfolding root_han_candidates_def
    by (intro answers_then [where m = "raise_if_query_expired env d"] answers_then [where m = "root_han_plan env d raw"])
      (auto intro: answers_lift)
qed

lemma latin_roots_kind: "answers (\<lambda>cs. \<forall>c \<in> set cs. c_constraint_kind c = ''latin_prefix'') (root_latin_candidates env d raw st e)"
proof -
  have fin: "answers (\<lambda>cs. \<forall>c \<in> set cs. c_constraint_kind c = ''latin_prefix'') (finite_latin env d raw e i ls)" for i ls
  proof (induction ls arbitrary: i)
    case (Cons a ls)
    obtain l v where "a = (l, v)" by (cases a)
    then show ?case
      by (auto intro!: answers_then answers_bind [OF Cons.IH] answers_lift simp: latin_root_candidate_def split: pyfloat.splits)
  qed (auto intro: answers_lift)
  show ?thesis
    unfolding root_latin_candidates_def
    by (intro answers_then) (auto intro!: answers_lift answers_then answers_bind [OF fin])
qed

lemma fresh_roots_good: "answers (good_roots raw e) (fresh_root_candidates env d raw mode st e)"
  unfolding fresh_root_candidates_def Let_def
proof (rule answers_bind [OF han_roots_kind], rule answers_then, rule answers_bind [OF latin_roots_kind], rule answers_then)
  fix han latin :: "candidate list"
  assume "\<forall>c \<in> set han. c_constraint_kind c = ''pinyin''" "\<forall>c \<in> set latin. c_constraint_kind c = ''latin_prefix''"
  then show "answers (good_roots raw e) (case mode of
      ChineseFirst \<Rightarrow> reads_state (\<lambda>m.
        (if merge_chinese_first (sort_key (page_candidate_key (px_db env)) han) (sort_key (latin_key (px_db env)) latin) = []
            \<and> pm_baseline_scores m \<noteq> None then [page_literal raw e]
         else merge_chinese_first (sort_key (page_candidate_key (px_db env)) han) (sort_key (latin_key (px_db env)) latin),
         frontier_from_candidates (px_db env) (sort_key (page_candidate_key (px_db env)) han),
         if st \<noteq> None then ''context'' else ''baseline''))
    | LatinFirst \<Rightarrow> lift_result (Inr (sort_key (latin_key (px_db env)) latin, [], if st \<noteq> None then ''context'' else ''baseline'')))"
    by (auto intro!: answers_reads answers_lift simp: good_roots_def set_merge frontier_han split: language_mode.split if_splits)
qed

lemma literal_epoch: "(page_literal raw a)\<lparr>c_context_epoch := e\<rparr> = page_literal raw e"
  by (simp add: page_literal_def)

lemma root_candidates_good:
  assumes "manager_ok uuid db m" "root_candidates env d raw mode st e cached m = (Inr x, m')"
  shows "good_roots raw e x"
proof -
  have t: "same_tables m m'" if "raise_if_query_expired env d m = (Inr u, m')" for u m'
    using tables.safeD [OF tables_raise TrueI that] .
  obtain u m1 where m1: "raise_if_query_expired env d m = (Inr u, m1)"
    and rest: "(case (if st = None \<and> cached then map_of (pm_single_letter m1) (raw, mode) else None) of
        None \<Rightarrow> fresh_root_candidates env d raw mode st e
      | Some cs \<Rightarrow> (let candidates = map (\<lambda>c. c\<lparr>c_context_epoch := e\<rparr>) cs in
          hbind (raise_if_query_expired env d) (\<lambda>_. lift_result (Inr (candidates,
            frontier_from_candidates (px_db env) (filter (\<lambda>c. c_script c = ''han'') candidates), ''baseline''))))) m1 = (Inr x, m')"
    using assms(2) unfolding root_candidates_def by (auto simp: hbind_Inr reads_state_def)
  show ?thesis
  proof (cases "if st = None \<and> cached then map_of (pm_single_letter m1) (raw, mode) else None")
    case None
    then show ?thesis using rest answersD [OF fresh_roots_good] by simp
  next
    case (Some cs)
    then have "((raw, mode), cs) \<in> set (pm_single_letter m)"
      using t [OF m1] by (auto simp: same_tables_def dest: map_of_SomeD split: if_splits)
    then have "literal_only raw cs" using assms(1) by (auto simp: manager_ok_def)
    then have "\<forall>c \<in> set (map (\<lambda>c. c\<lparr>c_context_epoch := e\<rparr>) cs). c_constraint_kind c = ''literal'' \<longrightarrow> c = page_literal raw e"
      by (auto simp: literal_only_def) (metis literal_epoch)
    moreover have "fst x = map (\<lambda>c. c\<lparr>c_context_epoch := e\<rparr>) cs" "\<forall>p \<in> set (fst (snd x)). sp_script p = ''han''"
      using rest Some frontier_han by (auto simp: Let_def hbind_Inr lift_result_def)
    ultimately show ?thesis by (auto simp: good_roots_def split: prod.splits)
  qed
qed


lemma start_search_ok:
  assumes "good_roots (si_raw_keys identity) (si_context_epoch identity) (cs, frontier, source0)" "set cs' \<subseteq> set cs"
    and "set frontier' \<subseteq> set frontier"
  shows "session_ok (px_db env) (start_search env identity i cs' frontier' r source now)"
  using assms
  by (auto simp: session_ok_def search_ok_def pages_ok_def start_search_def frozen_def frozen_count_def good_roots_def beyond_def)

lemma open_session_result:
  "open_session env f m = (Inr (px_uuid env (pm_drawn m)), m\<lparr>pm_drawn := pm_drawn m + 1, pm_readings := pm_readings m + 1,
     pm_sessions := od_put MAX_ACTIVE_SEARCH_SESSIONS (px_uuid env (pm_drawn m))
       (f (px_uuid env (pm_drawn m)) (px_clock env (pm_readings m))) (pm_sessions m)\<rparr>)"
  by (simp add: open_session_def hbind_def reads_state_def updates_state_def read_clock_def lift_result_def)

lemma set_put: "set (od_put cap k v d) \<subseteq> insert (k, v) (set d)"
proof -
  have "od_del k (od_set k v d) = od_del k d" "set (od_del k d) \<subseteq> set d" by (induction d) auto
  then show ?thesis using set_evict [of cap "od_del k d @ [(k, v)]"] by (auto simp: od_put_def move_set_last)
qed

lemma open_session_safe:
  assumes "\<And>i now. session_ok (px_db env) (f i now)" "\<And>i now. ss_candidate_set_id (f i now) = i"
  shows "managing.safe (px_uuid env) (px_db env) (open_session env f)"
proof (rule managing.safeI)
  fix m r m'
  assume ok: "manager_ok (px_uuid env) (px_db env) m" and h: "open_session env f m = (r, m')"
  let ?i = "px_uuid env (pm_drawn m)"
  have m': "m' = m\<lparr>pm_drawn := pm_drawn m + 1, pm_readings := pm_readings m + 1,
      pm_sessions := od_put MAX_ACTIVE_SEARCH_SESSIONS ?i (f ?i (px_clock env (pm_readings m))) (pm_sessions m)\<rparr>"
    using h by (simp add: open_session_result)
  have fresh: "?i \<notin> px_uuid env ` {..<pm_drawn m}" using ok by (auto simp: manager_ok_def inj_def)
  have "set (pm_sessions m') \<subseteq> insert (?i, f ?i (px_clock env (pm_readings m))) (set (pm_sessions m))"
    using set_put by (simp add: m')
  then have "manager_ok (px_uuid env) (px_db env) m'"
    using ok assms unfolding manager_ok_def m' by (auto simp: length_put tables_ok_def lessThan_Suc)
  moreover have "\<exists>ss. map_of (pm_sessions m) i = Some ss \<and> evolves ss ss'"
    if "map_of (pm_sessions m') i = Some ss'" "i \<in> px_uuid env ` {..<pm_drawn m}" for i ss'
  proof -
    have "i \<noteq> ?i" using that(2) fresh by metis
    then have "map_of (pm_sessions m) i = Some ss'"
      using that(1) map_of_put_other [of "pm_sessions m"] ok by (auto simp: m' manager_ok_def)
    then show ?thesis using evolves_refl by blast
  qed
  ultimately show "manager_rel (px_uuid env) (px_db env) m m'" by (auto simp: manager_rel_def m')
qed


lemma manager_subset:
  assumes "manager_ok uuid db m" "set (pm_sessions m') \<subseteq> set (pm_sessions m)" "od_ok (pm_sessions m')"
    "length (pm_sessions m') \<le> length (pm_sessions m)"
    "pm_drawn m' = pm_drawn m" "pm_entries_by_token m' = pm_entries_by_token m"
    "\<forall>((raw, mode), cs) \<in> set (pm_single_letter m'). literal_only raw cs"
  shows "manager_rel uuid db m m'"
proof -
  have "manager_ok uuid db m'" using assms unfolding manager_ok_def by (auto simp: tables_ok_def)
  moreover have "map_of (pm_sessions m) i = Some ss" if "map_of (pm_sessions m') i = Some ss" for i ss
  proof -
    have "(i, ss) \<in> set (pm_sessions m)" using map_of_SomeD [OF that] assms(2) by blast
    then show ?thesis using assms(1) by (simp add: manager_ok_def od_ok_def)
  qed
  ultimately show ?thesis using evolves_refl assms(5) by (auto simp: manager_rel_def)
qed

lemma od_ok_filter: "od_ok d \<Longrightarrow> od_ok (filter P d)"
  by (auto simp: od_ok_def distinct_map inj_on_def)

lemma filter_sessions_safe: "managing.safe uuid db (updates_state (\<lambda>m. m\<lparr>pm_sessions := filter (P m) (pm_sessions m)\<rparr>))"
  by (rule managing.safe_updates, rule manager_subset) (auto simp: manager_ok_def od_ok_filter)

lemma new_session_safe:
  shows "managing.safe (px_uuid env) (px_db env) (new_session env d identity st)"
proof -
  let ?start = "\<lambda>continuation_root source (cs, frontier, _). open_session env (\<lambda>i now. start_search env identity i
    (if si_mode identity = LatinFirst then take LATIN_PAGE_SIZE cs else cs) (if si_mode identity = LatinFirst then [] else frontier)
    continuation_root source now)"
  have start: "managing.safe (px_uuid env) (px_db env) (hbind (raise_if_query_expired env d) (\<lambda>_. ?start r0 source x))"
    if "good_roots (si_raw_keys identity) (si_context_epoch identity) x" for r0 source x
  proof -
    obtain cs frontier s0 where x: "x = (cs, frontier, s0)" by (cases x)
    have "managing.safe (px_uuid env) (px_db env) (?start r0 source x)"
      unfolding x prod.case
    proof (rule open_session_safe)
      show "session_ok (px_db env) (start_search env identity i (if si_mode identity = LatinFirst then take LATIN_PAGE_SIZE cs else cs)
        (if si_mode identity = LatinFirst then [] else frontier) r0 source now)" for i now
        by (rule start_search_ok [OF that [unfolded x]]) (auto dest: in_set_takeD)
    qed (simp add: start_search_def)
    then show ?thesis by (rule managing.safe_bind [OF tables_safe [OF tables_raise]])
  qed
  have roots: "managing.safe (px_uuid env) (px_db env)
      (hbind (root_candidates env d (si_raw_keys identity) (si_mode identity) score_state (si_context_epoch identity) True)
        (\<lambda>x. hbind (raise_if_query_expired env d) (\<lambda>_. ?start r0 source x)))" for score_state r0 source
    by (rule managing.safe_bind_post [OF tables_safe [OF tables_root] root_candidates_good start])
  have eq: "new_session env d identity st =
     hbind (updates_state (\<lambda>m. m\<lparr>pm_sessions := drop_stale_sessions identity (pm_sessions m)\<rparr>)) (\<lambda>_.
     hbind (raise_if_query_expired env d) (\<lambda>_.
     hbind (reads_state (select_score_origin env st)) (\<lambda>(score_state, r0, source).
     hbind (raise_if_query_expired env d) (\<lambda>_.
     hbind (root_candidates env d (si_raw_keys identity) (si_mode identity) score_state (si_context_epoch identity) True)
        (\<lambda>x. hbind (raise_if_query_expired env d) (\<lambda>_. ?start r0 source x))))))"
    by (simp add: new_session_def Let_def case_prod_beta case_prod_beta')
  show ?thesis
    unfolding eq drop_stale_sessions_def
    by (auto intro!: managing.safe_bind filter_sessions_safe managing.safe_reads tables_safe [OF tables_raise] roots split: prod.split)
qed

lemma new_session_result:
  assumes ok: "manager_ok (px_uuid env) db m" and h: "new_session env d identity st m = (Inr i, m')"
  shows "\<exists>ss. map_of (pm_sessions m') i = Some ss \<and> ss_frozen_pages ss = [] \<and> ss_identity ss = identity"
proof -
  let ?m0 = "m\<lparr>pm_sessions := drop_stale_sessions identity (pm_sessions m)\<rparr>"
  have ok0: "od_ok (pm_sessions ?m0)" using ok by (simp add: manager_ok_def drop_stale_sessions_def od_ok_filter)
  obtain m1 m2 score_state r0 source x m3 m4 where m:
    "raise_if_query_expired env d ?m0 = (Inr (), m1)" "raise_if_query_expired env d m1 = (Inr (), m2)"
    "root_candidates env d (si_raw_keys identity) (si_mode identity) score_state (si_context_epoch identity) True m2 = (Inr x, m3)"
    "raise_if_query_expired env d m3 = (Inr (), m4)"
    "(case x of (cs, frontier, _) \<Rightarrow> open_session env (\<lambda>i now. start_search env identity i
        (if si_mode identity = LatinFirst then take LATIN_PAGE_SIZE cs else cs)
        (if si_mode identity = LatinFirst then [] else frontier) r0 source now)) m4 = (Inr i, m')"
    using h unfolding new_session_def Let_def by (auto simp: hbind_Inr updates_state_def reads_state_def case_prod_beta)
  have "same_tables ?m0 m1" "same_tables m1 m2" "same_tables m2 m3" "same_tables m3 m4"
    using tables.safeD [OF tables_raise TrueI] tables.safeD [OF tables_root TrueI] m by blast+
  then have "od_ok (pm_sessions m4)" using ok0 by (simp add: same_tables_def)
  then show ?thesis
    using m(5) map_of_put_same [of "pm_sessions m4" MAX_ACTIVE_SEARCH_SESSIONS]
    by (auto simp: open_session_result start_search_def MAX_ACTIVE_SEARCH_SESSIONS_def split: prod.splits)
qed

end
