(* ===== verification/Page_Protocol.thy ===== *)
theory Page_Protocol
  imports Page_Queries
begin

text \<open>
  The manager over a history of calls: every operation keeps the invariant of the sessions, and what
  that means for a client that asks for one page after another.
\<close>

section \<open>Answering a query\<close>

lemma map_of_sessions: "od_ok d \<Longrightarrow> (i, v) \<in> set d \<longleftrightarrow> map_of d i = Some v"
  by (simp add: od_ok_def)

lemma od_length: "od_ok d \<Longrightarrow> length d = card (fst ` set d)"
  using distinct_card [of "od_keys d"] by (simp add: od_ok_def)

lemma keys_of_maps: "(\<And>j. map_of d j = map_of d' j) \<Longrightarrow> fst ` set d = fst ` set d'"
  using dom_map_of_conv_image_fst [of d] dom_map_of_conv_image_fst [of d'] by (auto simp: dom_def)

definition puts_session :: "pystr \<Rightarrow> 'r search_session \<Rightarrow> ('b, 'r) page_manager \<Rightarrow> ('b, 'r) page_manager \<Rightarrow> bool" where
  "puts_session i ss m m' \<longleftrightarrow> (pm_sessions m' = od_set i ss (pm_sessions m) \<or> pm_sessions m' = od_move_to_end i (od_set i ss (pm_sessions m)))
     \<and> pm_drawn m' = pm_drawn m \<and> pm_entries_by_token m' = pm_entries_by_token m \<and> pm_single_letter m' = pm_single_letter m"

lemma puts_session_rel:
  assumes ok: "manager_ok uuid db m" and ss: "map_of (pm_sessions m) i = Some ss" "evolves ss ss'" "session_ok db ss'"
    and puts: "puts_session i ss' m m'"
  shows "manager_rel uuid db m m'"
proof -
  have od: "od_ok (pm_sessions m)" "od_ok (pm_sessions m')" using ok puts by (auto simp: manager_ok_def puts_session_def)
  have at: "map_of (pm_sessions m') j = (if j = i then Some ss' else map_of (pm_sessions m) j)" for j
    using puts by (auto simp: puts_session_def map_of_od_set map_of_move)
  have i: "i \<in> fst ` set (pm_sessions m)" using ss(1) by (force dest: map_of_SomeD)
  have "length (pm_sessions m') = length (pm_sessions m)"
    using puts od(1) length_od_set_old [OF i] by (auto simp: puts_session_def length_od_move)
  moreover have "j = ss_candidate_set_id s \<and> j \<in> uuid ` {..<pm_drawn m} \<and> session_ok db s" if "map_of (pm_sessions m') j = Some s" for j s
  proof (cases "j = i")
    case True
    have "(i, ss) \<in> set (pm_sessions m)" using ss(1) by (rule map_of_SomeD)
    then have "i = ss_candidate_set_id ss \<and> i \<in> uuid ` {..<pm_drawn m}" using ok by (auto simp: manager_ok_def)
    then show ?thesis using that True at ss(2,3) by (auto simp: evolves_def)
  next
    case False
    then have "(j, s) \<in> set (pm_sessions m)" using that at by (simp add: map_of_SomeD)
    then show ?thesis using ok by (auto simp: manager_ok_def)
  qed
  ultimately have "manager_ok uuid db m'"
    using ok puts od(2) by (auto simp: manager_ok_def puts_session_def tables_ok_def map_of_sessions)
  moreover have "\<exists>s. map_of (pm_sessions m) j = Some s \<and> evolves s s'" if "map_of (pm_sessions m') j = Some s'" for j s'
    using that ss at [of j] evolves_refl by (auto split: if_splits)
  ultimately show ?thesis using puts by (auto simp: manager_rel_def puts_session_def)
qed

lemma session_of: "manager_ok uuid db m \<Longrightarrow> map_of (pm_sessions m) i = Some ss \<Longrightarrow> session_ok db ss \<and> ss_candidate_set_id ss = i"
  by (force simp: manager_ok_def dest: map_of_SomeD)

lemma touch_result:
  assumes "map_of (pm_sessions m) i = Some ss"
  obtains m' ss' where "touch_session env i m = (Inr (), m')" "puts_session i ss' m m'" "\<exists>t. ss' = ss\<lparr>ss_last_used := t\<rparr>"
proof -
  let ?s = "ss\<lparr>ss_last_used := px_clock env (pm_readings m)\<rparr>"
  let ?m = "m\<lparr>pm_readings := pm_readings m + 1, pm_sessions := od_move_to_end i (od_set i ?s (pm_sessions m))\<rparr>"
  have "touch_session env i m = (Inr (), ?m)"
    using assms by (simp add: touch_session_def hbind_def read_clock_def with_session_def on_session_def updates_state_def)
  moreover have "puts_session i ?s m ?m" by (simp add: puts_session_def)
  ultimately show thesis using that by blast
qed

lemma used_ok: "session_ok db (ss\<lparr>ss_last_used := t\<rparr>) = session_ok db ss" "evolves s (ss\<lparr>ss_last_used := t\<rparr>) = evolves s ss"
  by (auto simp: session_ok_def search_ok_def pages_ok_def page_ok_def evolves_def frozen_def frozen_count_def open_path_def case_prod_beta)

lemma touch_safe:
  assumes "manager_ok uuid db m" "map_of (pm_sessions m) i = Some ss" "touch_session env i m = (r, m')"
  shows "manager_rel uuid db m m' \<and> r = Inr ()"
proof -
  obtain m1 ss' where t: "touch_session env i m = (Inr (), m1)" "puts_session i ss' m m1" "\<exists>t. ss' = ss\<lparr>ss_last_used := t\<rparr>"
    using touch_result [OF assms(2)] .
  have "session_ok db ss'" "evolves ss ss'" using t(3) session_of [OF assms(1,2)] used_ok evolves_refl by metis+
  then have "manager_rel uuid db m m1" using puts_session_rel [OF assms(1,2) _ _ t(2)] by blast
  then show ?thesis using assms(3) t(1) by simp
qed


text \<open>What happens after the page is frozen: its elapsed time is filled in and the session is touched.\<close>

definition settle :: "('b, 's, 'r) page_env \<Rightarrow> real \<Rightarrow> nat \<Rightarrow> pystr \<Rightarrow> candidate_page \<Rightarrow> (('b, 'r) page_manager, candidate_page) handler" where
  "settle env started k i page =
     hbind (read_clock env) (\<lambda>now.
     let page = page\<lparr>cp_elapsed_ms := max 0 ((now - started) * 1000)\<rparr> in
     hbind (with_session i (on_session (\<lambda>ss. ss\<lparr>ss_frozen_pages := od_set k page (ss_frozen_pages ss)\<rparr>))) (\<lambda>_.
     hbind (touch_session env i) (\<lambda>_.
     hbind (updates_state (record_page_metrics page)) (\<lambda>_.
     lift_result (Inr page)))))"

lemma answer_settle:
  "answer_page fuel env q started deadline i =
     hbind (raise_if_query_expired env (Some deadline)) (\<lambda>_.
     hbind (with_session i (freeze_next_page fuel env (nat (pq_page_index q)) (page_size_of (si_mode (pq_identity q))) deadline))
       (settle env started (nat (pq_page_index q)) i))"
  by (simp add: answer_page_def settle_def [abs_def] Let_def)

lemma od_set_set: "od_set k v (od_set k w d) = od_set k v d"
  by (induction d) auto

lemma od_set_last: "k \<notin> fst ` set d \<Longrightarrow> od_set k v (d @ [(k, w)]) = d @ [(k, v)]"
  by (induction d) auto

lemma settle_result:
  assumes "map_of (pm_sessions m) i = Some ss"
  obtains e t m' where "settle env started k i page m = (Inr (page\<lparr>cp_elapsed_ms := e\<rparr>), m')"
    "puts_session i (ss\<lparr>ss_frozen_pages := od_set k (page\<lparr>cp_elapsed_ms := e\<rparr>) (ss_frozen_pages ss), ss_last_used := t\<rparr>) m m'"
proof -
  let ?e = "max 0 ((px_clock env (pm_readings m) - started) * 1000)"
  let ?p = "page\<lparr>cp_elapsed_ms := ?e\<rparr>"
  let ?ss = "ss\<lparr>ss_frozen_pages := od_set k ?p (ss_frozen_pages ss), ss_last_used := px_clock env (pm_readings m + 1)\<rparr>"
  let ?m = "record_page_metrics ?p (m\<lparr>pm_readings := pm_readings m + 2, pm_sessions := od_move_to_end i (od_set i ?ss (pm_sessions m))\<rparr>)"
  have "settle env started k i page m = (Inr ?p, ?m)"
    using assms
    by (simp add: settle_def touch_session_def hbind_def read_clock_def with_session_def on_session_def updates_state_def
      lift_result_def Let_def map_of_od_set od_set_set)
  moreover have "puts_session i ?ss m ?m" by (simp add: puts_session_def record_page_metrics_def)
  ultimately show thesis using that by blast
qed

lemma puts_session_tables: "same_tables m m1 \<Longrightarrow> puts_session i ss m1 m2 \<Longrightarrow> puts_session i ss m m2"
  by (auto simp: same_tables_def puts_session_def)

lemma puts_session_twice:
  assumes "same_tables m m1" "puts_session i ss (m1\<lparr>pm_sessions := od_set i s (pm_sessions m1)\<rparr>) m2"
  shows "puts_session i ss m m2"
  using assms by (auto simp: same_tables_def puts_session_def od_set_set)

lemma puts_session_at: "puts_session i ss m m' \<Longrightarrow> map_of (pm_sessions m') i = Some ss"
  by (auto simp: puts_session_def map_of_od_set map_of_move)

lemma answer_page_rel:
  assumes ok: "manager_ok (px_uuid env) (px_db env) m" and ss: "map_of (pm_sessions m) i = Some ss"
    and q: "nat (pq_page_index q) = length (ss_frozen_pages ss)" "ss_identity ss = pq_identity q"
    and h: "answer_page fuel env q started deadline i m = (r, m')"
  shows "manager_rel (px_uuid env) (px_db env) m m' \<and> (\<forall>page. r = Inr page \<longrightarrow>
    (\<exists>ss'. map_of (pm_sessions m') i = Some ss' \<and> (nat (pq_page_index q), page) \<in> set (ss_frozen_pages ss')))"
proof -
  let ?rel = "manager_rel (px_uuid env) (px_db env)" and ?k = "nat (pq_page_index q)"
  let ?n = "page_size_of (si_mode (pq_identity q))"
  obtain r0 m0 where m0: "raise_if_query_expired env (Some deadline) m = (r0, m0)" by (metis surj_pair)
  have t0: "same_tables m m0" using tables.safeD [OF tables_raise TrueI m0] .
  then have ok0: "manager_ok (px_uuid env) (px_db env) m0" "map_of (pm_sessions m0) i = Some ss" "?rel m m0"
    using tables_manager [OF t0 ok] managing.rel_ok ss by (auto simp: same_tables_def)
  show ?thesis
  proof (cases r0)
    case (Inl err)
    then show ?thesis using h m0 ok0 by (auto simp: answer_settle hbind_def)
  next
    case (Inr u)
    obtain r1 ss1 m1 where f: "freeze_next_page fuel env ?k ?n deadline (ss, m0) = (r1, (ss1, m1))" by (metis surj_pair)
    let ?m1 = "m1\<lparr>pm_sessions := od_set i ss1 (pm_sessions m1)\<rparr>"
    have step: "(r, m') = (case r1 of Inl err \<Rightarrow> (Inl err, ?m1) | Inr page \<Rightarrow> settle env started ?k i page ?m1)"
      using h m0 Inr f ok0(2) by (simp add: answer_settle hbind_def with_session_def split: sum.split)
    have sok: "session_ok (px_db env) ss" and tok: "tables_ok m0"
      using session_of [OF ok0(1,2)] ok0(1) by (auto simp: manager_ok_def)
    have n: "?n = page_size_of (si_mode (ss_identity ss))" by (simp add: q(2))
    from f sok tok refl q(1) n show ?thesis
    proof (cases rule: freeze_cases)
      case (raised err)
      then have m': "m' = ?m1" "r = Inl err" using step by auto
      have "puts_session i ss1 m0 m'" by (rule puts_session_tables [OF raised(5)]) (simp add: puts_session_def m')
      then show ?thesis
        using puts_session_rel [OF ok0(1,2) raised(3,2)] managing.rel_trans [OF ok0(3)] m'(2) by blast
    next
      case (froze page)
      have at1: "map_of (pm_sessions ?m1) i = Some ss1" by (simp add: map_of_od_set)
      obtain e t where s: "settle env started ?k i page ?m1 = (Inr (page\<lparr>cp_elapsed_ms := e\<rparr>), m')"
        "puts_session i (ss1\<lparr>ss_frozen_pages := od_set ?k (page\<lparr>cp_elapsed_ms := e\<rparr>) (ss_frozen_pages ss1), ss_last_used := t\<rparr>) ?m1 m'"
      proof (rule settle_result [OF at1, of env started ?k page])
        fix e t m2
        assume a: "settle env started ?k i page ?m1 = (Inr (page\<lparr>cp_elapsed_ms := e\<rparr>), m2)"
          "puts_session i (ss1\<lparr>ss_frozen_pages := od_set ?k (page\<lparr>cp_elapsed_ms := e\<rparr>) (ss_frozen_pages ss1), ss_last_used := t\<rparr>) ?m1 m2"
        have "m2 = m'" using a(1) step froze(1) by simp
        then show thesis using that a by blast
      qed
      let ?page = "page\<lparr>cp_elapsed_ms := e\<rparr>"
      let ?ss = "ss1\<lparr>ss_frozen_pages := ss_frozen_pages ss @ [(?k, ?page)], ss_last_used := t\<rparr>"
      have "fst ` set (ss_frozen_pages ss) = {0..<?k}"
        using sok q(1) unfolding session_ok_def pages_ok_def by (metis list.set_map set_upt)
      then have "od_set ?k ?page (ss_frozen_pages ss1) = ss_frozen_pages ss @ [(?k, ?page)]"
        using froze(3) by (simp add: od_set_last)
      then have puts: "puts_session i ?ss m0 m'" using puts_session_twice [OF froze(2) s(2)] by simp
      have "session_ok (px_db env) ?ss" "evolves ss ?ss" using froze(4,5) [of e] by (simp_all only: used_ok)
      then have "?rel m0 m'" using puts_session_rel [OF ok0(1,2) _ _ puts] by blast
      then show ?thesis
        using managing.rel_trans [OF ok0(3)] puts_session_at [OF puts] step s(1) froze(1) by auto
    qed
  qed
qed


section \<open>Every operation keeps the invariant\<close>

lemma expire_safe: "managing.safe uuid db (expire_sessions env)"
  unfolding expire_sessions_def
  by (rule managing.safe_bind [OF tables_safe [OF tables_clock]]) (rule filter_sessions_safe)

lemma install_safe: "managing.safe uuid db (install_baseline_scores scores start)"
  unfolding install_baseline_scores_def
  by (rule managing.safe_bind [OF managing.safe_lift]) (rule managing.safe_updates, rule manager_subset, auto)

lemma clear_rel: "manager_ok uuid db m \<Longrightarrow> manager_rel uuid db m (clear_page_sessions m)"
  unfolding clear_page_sessions_def by (rule manager_subset) (auto simp: manager_ok_def)

lemma freeze_prewarm_subset: "set (freeze_single_letter_prewarm cs mode) \<subseteq> set cs"
proof -
  let ?han = "filter (\<lambda>i. c_script (cs ! i) = ''han'') [0..<length cs]"
  let ?latin = "filter (\<lambda>i. c_script (cs ! i) = ''latin'') [0..<length cs]"
  have idx: "cs ! i \<in> set cs" if "i \<in> set (take n (take k ?han @ take 1 ?latin @ filter P [0..<length cs]))" for n k P i
    using that by (auto dest!: in_set_takeD)
  show ?thesis
    using idx by (auto simp: freeze_single_letter_prewarm_def Let_def simp del: take_append dest: in_set_takeD)
qed

lemma prewarm_pages_safe: "managing.safe uuid (px_db env) (prewarm_pages env ps)"
proof (induction ps)
  case (Cons p ps)
  obtain raw mode where p: "p = (raw, mode)" by (cases p)
  have "managing.safe uuid (px_db env) (updates_state (\<lambda>m. m\<lparr>pm_single_letter :=
      od_set (raw, mode) (freeze_single_letter_prewarm (fst x) mode) (pm_single_letter m)\<rparr>))"
    if "good_roots raw 0 x" for x
  proof (rule managing.safe_updates, rule manager_subset)
    fix m
    assume ok: "manager_ok uuid (px_db env) m"
    have "literal_only raw (freeze_single_letter_prewarm (fst x) mode)"
      using that freeze_prewarm_subset [of "fst x" mode] by (auto simp: literal_only_def good_roots_def page_literal_def split: prod.splits)
    then show "\<forall>((raw, mode), cs) \<in> set (pm_single_letter (m\<lparr>pm_single_letter :=
        od_set (raw, mode) (freeze_single_letter_prewarm (fst x) mode) (pm_single_letter m)\<rparr>)). literal_only raw cs"
      using ok set_od_set_subset [of "(raw, mode)" _ "pm_single_letter m"] by (fastforce simp: manager_ok_def)
  qed (auto simp: manager_ok_def)
  then have continue: "managing.safe uuid (px_db env) (case x of (candidates, _, _) \<Rightarrow> hbind (updates_state (\<lambda>m. m\<lparr>pm_single_letter :=
      od_set (raw, mode) (freeze_single_letter_prewarm candidates mode) (pm_single_letter m)\<rparr>)) (\<lambda>_. prewarm_pages env ps))"
    if "good_roots raw 0 x" for x
    using that Cons.IH by (auto intro!: managing.safe_bind split: prod.split)
  show ?case
    unfolding p prewarm_pages.simps
    by (rule managing.safe_bind_post [OF tables_safe [OF tables_root] root_candidates_good continue])
qed (auto intro: managing.safe_lift)

lemma prewarm_safe: "managing.safe uuid (px_db env) (prewarm_single_letter_pages env)"
  unfolding prewarm_single_letter_pages_def
  by (intro managing.safe_bind managing.safe_reads managing.safe_if managing.safe_lift prewarm_pages_safe)


section \<open>Queries keep the invariant\<close>

lemma lookup_cases:
  assumes "lookup_session q m = Inr (i, known)" "manager_ok uuid db m"
  obtains ss where "map_of (pm_sessions m) i = Some ss" "ss_identity ss = pq_identity q" "session_ok db ss"
    "known = map_of (ss_frozen_pages ss) (nat (pq_page_index q))" "pq_candidate_set_id q = Some i"
    "known = None \<longrightarrow> nat (pq_page_index q) = length (ss_frozen_pages ss)"
proof -
  obtain ss where ss: "map_of (pm_sessions m) i = Some ss" "ss_identity ss = pq_identity q"
    and i: "pq_candidate_set_id q = Some i"
    using assms(1) by (auto simp: lookup_session_def split: option.splits if_splits)
  have known: "known = map_of (ss_frozen_pages ss) (nat (pq_page_index q))"
    and new: "known = None \<Longrightarrow> pq_page_index q = int (next_page_index ss)"
    using assms(1) ss(1) by (auto simp: lookup_session_def split: option.splits if_splits)
  have sok: "session_ok db ss" using session_of [OF assms(2) ss(1)] by simp
  have "next_page_index ss = length (ss_frozen_pages ss)"
  proof (cases "ss_frozen_pages ss = []")
    case False
    have keys: "fst ` set (ss_frozen_pages ss) = {0..<length (ss_frozen_pages ss)}"
      using sok unfolding session_ok_def pages_ok_def by (metis list.set_map set_upt)
    have "Max {0..<length (ss_frozen_pages ss)} = length (ss_frozen_pages ss) - 1"
      using False by (intro Max_eqI) auto
    then show ?thesis using False keys by (simp add: next_page_index_def)
  qed (simp add: next_page_index_def)
  then have "known = None \<longrightarrow> nat (pq_page_index q) = length (ss_frozen_pages ss)" using new by simp
  then show thesis by (rule that [OF ss sok known i])
qed

lemma answered_page_stored:
  assumes "manager_ok (px_uuid env) (px_db env) m" "map_of (pm_sessions m) i = Some ss" "ss_identity ss = pq_identity q"
    "nat (pq_page_index q) = length (ss_frozen_pages ss)" "answer_page fuel env q started deadline i m = (Inr page, m')"
  shows "\<exists>ss'. map_of (pm_sessions m') i = Some ss' \<and> (nat (pq_page_index q), page) \<in> set (ss_frozen_pages ss')"
  using answer_page_rel [OF assms(1,2,4,3,5)] by blast

text \<open>The part of a query that finds or opens the session and then answers.\<close>

definition serve_page :: "nat \<Rightarrow> ('b, 's, 'r) page_env \<Rightarrow> page_query \<Rightarrow> 's option \<Rightarrow> real \<Rightarrow> (('b, 'r) page_manager, candidate_page) handler" where
  "serve_page fuel env q state started =
     (let deadline = started + page_deadline_ms q / 1000 in
     if pq_page_index q = 0
     then hbind (new_session env (Some deadline) (pq_identity q) state) (\<lambda>i.
          hbind (raise_if_query_expired env (Some deadline)) (\<lambda>_. answer_page fuel env q started deadline i))
     else hbind (\<lambda>m. (lookup_session q m, m)) (\<lambda>(i, frozen).
       case frozen of
         Some page \<Rightarrow> hbind (touch_session env i) (\<lambda>_. lift_result (Inr page))
       | None \<Rightarrow> answer_page fuel env q started deadline i))"

lemma query_serve:
  "query_page fuel env q state =
     hbind (case pq_deadline_started q of None \<Rightarrow> read_clock env | Some started \<Rightarrow> lift_result (Inr started)) (\<lambda>started.
     hbind (lift_result (validate_query q)) (\<lambda>_.
     hbind (raise_if_query_expired env (Some (started + page_deadline_ms q / 1000))) (\<lambda>_.
     hbind (expire_sessions env) (\<lambda>_. serve_page fuel env q state started))))"
  by (simp add: query_page_def serve_page_def Let_def)

definition page_stored :: "page_query \<Rightarrow> candidate_page \<Rightarrow> ('b, 'r) page_manager \<Rightarrow> bool" where
  "page_stored q page m \<longleftrightarrow> (\<exists>i ss. map_of (pm_sessions m) i = Some ss \<and> ss_identity ss = pq_identity q
     \<and> (pq_page_index q \<noteq> 0 \<longrightarrow> pq_candidate_set_id q = Some i) \<and> (nat (pq_page_index q), page) \<in> set (ss_frozen_pages ss))"


lemma serve_page_result:
  assumes ok: "manager_ok (px_uuid env) (px_db env) m" and h: "serve_page fuel env q state started m = (r, m')"
  shows "manager_rel (px_uuid env) (px_db env) m m' \<and> (\<forall>page. r = Inr page \<longrightarrow> page_stored q page m')"
proof -
  let ?rel = "manager_rel (px_uuid env) (px_db env)" and ?d = "Some (started + page_deadline_ms q / 1000)"
  have answered: "?rel m m' \<and> (\<forall>page. r = Inr page \<longrightarrow> page_stored q page m')"
    if "?rel m m1" "map_of (pm_sessions m1) i = Some ss" "nat (pq_page_index q) = length (ss_frozen_pages ss)"
      "ss_identity ss = pq_identity q" "answer_page fuel env q started (the ?d) i m1 = (r, m')"
      "pq_page_index q \<noteq> 0 \<longrightarrow> pq_candidate_set_id q = Some i" for m1 i ss
  proof -
    have ok1: "manager_ok (px_uuid env) (px_db env) m1" using managing.rel_ok [OF that(1)] .
    note answer = answer_page_rel [OF ok1 that(2-5)]
    have "ss_identity ss' = pq_identity q" if "map_of (pm_sessions m') i = Some ss'" for ss'
    proof -
      have "i \<in> px_uuid env ` {..<pm_drawn m1}" using ok1 \<open>map_of (pm_sessions m1) i = Some ss\<close> by (force simp: manager_ok_def dest: map_of_SomeD)
      then have "evolves ss ss'" using answer that \<open>map_of (pm_sessions m1) i = Some ss\<close> by (fastforce simp: manager_rel_def)
      then show ?thesis using \<open>ss_identity ss = _\<close> by (simp add: evolves_def)
    qed
    then show ?thesis using answer managing.rel_trans [OF that(1)] that(6) unfolding page_stored_def by blast
  qed
  show ?thesis
  proof (cases "pq_page_index q = 0")
    case True
    then have "hbind (new_session env ?d (pq_identity q) state) (\<lambda>i. hbind (raise_if_query_expired env ?d) (\<lambda>_.
        answer_page fuel env q started (the ?d) i)) m = (r, m')"
      using h by (simp add: serve_page_def Let_def)
    then show ?thesis
    proof (cases rule: hbind_cases)
      case (raised err)
      then show ?thesis using managing.safeD [OF new_session_safe ok] by blast
    next
      case (continued i m1)
      have r1: "?rel m m1" using managing.safeD [OF new_session_safe ok continued(1)] .
      obtain ss where ss: "map_of (pm_sessions m1) i = Some ss" "ss_frozen_pages ss = []" "ss_identity ss = pq_identity q"
        using new_session_result [OF ok continued(1)] by blast
      from continued(2) show ?thesis
      proof (cases rule: hbind_cases)
        case (raised err)
        then show ?thesis using managing.safeD [OF tables_safe [OF tables_raise] managing.rel_ok [OF r1]] managing.rel_trans [OF r1] by blast
      next
        case (continued u m2)
        have "?rel m m2" "map_of (pm_sessions m2) i = Some ss"
          using managing.rel_trans [OF r1 managing.safeD [OF tables_safe [OF tables_raise] managing.rel_ok [OF r1] continued(1)]]
            tables.safeD [OF tables_raise TrueI continued(1)] ss(1) by (auto simp: same_tables_def)
        then show ?thesis using answered continued(2) ss(2,3) True by simp
      qed
    qed
  next
    case False
    show ?thesis
    proof (cases "lookup_session q m")
      case (Inl err)
      then have "r = Inl err" "m' = m" using h False by (auto simp: serve_page_def Let_def hbind_def)
      then show ?thesis using managing.rel_refl [OF ok] by simp
    next
      case (Inr x)
      obtain i known where x: "x = (i, known)" by (cases x)
      obtain ss where ss: "map_of (pm_sessions m) i = Some ss" "ss_identity ss = pq_identity q" "session_ok (px_db env) ss"
          "known = map_of (ss_frozen_pages ss) (nat (pq_page_index q))" "pq_candidate_set_id q = Some i"
          "known = None \<longrightarrow> nat (pq_page_index q) = length (ss_frozen_pages ss)"
        by (rule lookup_cases [OF Inr [unfolded x] ok])
      show ?thesis
      proof (cases known)
        case None
        then show ?thesis
          using answered [OF managing.rel_refl [OF ok] ss(1) ss(6) [rule_format] ss(2)] h False Inr x by (simp add: serve_page_def Let_def hbind_def ss(5))
      next
        case (Some page)
        obtain m1 ss' where t: "touch_session env i m = (Inr (), m1)" "puts_session i ss' m m1" "\<exists>t. ss' = ss\<lparr>ss_last_used := t\<rparr>"
          using touch_result [OF ss(1)] .
        have m': "r = Inr page" "m' = m1" using h False Inr x Some t(1) by (auto simp: serve_page_def Let_def hbind_def lift_result_def)
        have "page_stored q page m1"
          using puts_session_at [OF t(2)] t(3) ss(2,4,5) Some by (fastforce simp: page_stored_def dest: map_of_SomeD)
        then show ?thesis using touch_safe [OF ok ss(1) t(1)] m' by simp
      qed
    qed
  qed
qed


section \<open>A history of the manager\<close>

text \<open>
  The calls on the manager; the backend is shared with the rest of the engine, so it may change in
  between.
\<close>

inductive page_move :: "('b, 's, 'r) page_env \<Rightarrow> ('b, 'r) page_manager \<Rightarrow> ('b, 'r) page_manager \<Rightarrow> bool" for env where
  query: "query_page fuel env q state m = (r, m') \<Longrightarrow> page_move env m m'"
| clear: "page_move env m (clear_page_sessions m)"
| install: "install_baseline_scores scores start m = (r, m') \<Longrightarrow> page_move env m m'"
| prewarm: "prewarm_single_letter_pages env m = (r, m') \<Longrightarrow> page_move env m m'"
| shared: "page_move env m (m\<lparr>pm_backend := b\<rparr>)"

lemma started_tables: "tables.safe (case pq_deadline_started q of None \<Rightarrow> read_clock env | Some started \<Rightarrow> lift_result (Inr started))"
  by (auto intro: tables_clock tables.safe_lift split: option.split)

lemma query_page_result:
  assumes ok: "manager_ok (px_uuid env) (px_db env) m" and h: "query_page fuel env q state m = (r, m')"
  shows "manager_rel (px_uuid env) (px_db env) m m' \<and> (\<forall>page. r = Inr page \<longrightarrow> page_stored q page m')"
proof -
  have serve: "managing.safe (px_uuid env) (px_db env) (serve_page fuel env q state started)" for started
    by (rule managing.safeI) (use serve_page_result in blast)
  have "managing.safe (px_uuid env) (px_db env) (query_page fuel env q state)"
    unfolding query_serve
    by (intro managing.safe_bind tables_safe [OF started_tables] managing.safe_lift tables_safe [OF tables_raise] expire_safe serve)
  then have rel: "manager_rel (px_uuid env) (px_db env) m m'" using managing.safeD ok h by blast
  have "page_stored q page m'" if r: "r = Inr page" for page
  proof -
    obtain started m1 m2 m3 where m:
        "(case pq_deadline_started q of None \<Rightarrow> read_clock env | Some started \<Rightarrow> lift_result (Inr started)) m = (Inr started, m1)"
        "raise_if_query_expired env (Some (started + page_deadline_ms q / 1000)) m1 = (Inr (), m2)"
        "expire_sessions env m2 = (Inr (), m3)" "serve_page fuel env q state started m3 = (Inr page, m')"
      using h r by (auto simp: query_serve hbind_Inr lift_result_def)
    have "manager_ok (px_uuid env) (px_db env) m3"
      using managing.safeD [OF tables_safe [OF started_tables] ok m(1)]
        managing.safeD [OF tables_safe [OF tables_raise] _ m(2)] managing.safeD [OF expire_safe _ m(3)] managing.rel_ok by metis
    then show ?thesis using serve_page_result [OF _ m(4)] by blast
  qed
  with rel show ?thesis by blast
qed

lemma page_move_rel:
  assumes "page_move env m m'" "manager_ok (px_uuid env) (px_db env) m"
  shows "manager_rel (px_uuid env) (px_db env) m m'"
  using assms
proof cases
  case (query fuel q state r)
  then show ?thesis using query_page_result [OF assms(2)] by blast
next
  case clear
  then show ?thesis using clear_rel [OF assms(2)] by simp
next
  case (install scores start r)
  then show ?thesis using managing.safeD [OF install_safe assms(2)] by blast
next
  case (prewarm r)
  then show ?thesis using managing.safeD [OF prewarm_safe assms(2)] by blast
next
  case (shared b)
  then show ?thesis using tables_manager [OF _ assms(2), of m'] by (simp add: same_tables_def)
qed

lemma history_rel:
  assumes "(page_move env)\<^sup>*\<^sup>* m m'" "manager_ok (px_uuid env) (px_db env) m"
  shows "manager_rel (px_uuid env) (px_db env) m m'"
  by (rule managing.rel_steps [OF assms]) (rule page_move_rel)

text \<open>An index that was loaded spells every entry, so the tables of the manager do.\<close>

lemma group_by_token_spelled:
  assumes "spelled es"
  shows "\<forall>(t, es') \<in> set (group_by_token es). spelled es'"
proof -
  have "\<forall>(t, es') \<in> set (fold (\<lambda>e grouped. case e_token_id e of None \<Rightarrow> grouped | Some t \<Rightarrow>
      if e_coverage e \<or> length (e_text e) > PAGE_HAN_CHARACTERS then grouped
      else od_set t ((case map_of grouped t of None \<Rightarrow> [] | Some es \<Rightarrow> es) @ [e]) grouped) es d). spelled es'"
    if "\<forall>(t, es') \<in> set d. spelled es'" for d
    using assms that
  proof (induction es arbitrary: d)
    case (Cons e es)
    have step: "\<forall>(t, es') \<in> set (od_set k ((case map_of d k of None \<Rightarrow> [] | Some es \<Rightarrow> es) @ [e]) d). spelled es'" for k
      using Cons.prems set_od_set_subset [of k _ d] by (fastforce simp: spelled_def split: option.splits dest: map_of_SomeD)
    have "spelled es" using Cons.prems(1) by (simp add: spelled_def)
    from Cons.IH [OF this Cons.prems(2)] Cons.IH [OF this step] show ?case by (simp split: option.split)
  qed simp
  from this [of "[]"] show ?thesis by (simp add: group_by_token_def)
qed

lemma rmap_Inr_set: "rmap f xs = Inr ys \<Longrightarrow> y \<in> set ys \<Longrightarrow> \<exists>x \<in> set xs. f x = Inr y"
  by (metis in_set_conv_nth rmap_Inr_length rmap_Inr_nth)

lemma loaded_spelled:
  assumes "load_index db simplified v rows = Inr ix"
  shows "spelled (mt_entries (new_matcher ix))"
proof -
  obtain es where es: "rmap (row_entry db) (filter (\<lambda>r. simplified (r_text r)) rows) = Inr es" "index_entries ix = mset es"
    using load_index_spec [OF assms] by blast
  have "e_syllable_path e \<noteq> []" if "row_entry db r = Inr e" for r e
    using that by (auto simp: row_entry_def make_entry_def Let_def split: if_splits option.splits)
  then have "\<forall>e \<in> set es. e_syllable_path e \<noteq> []" using rmap_Inr_set [OF es(1)] by blast
  then show ?thesis using matcher_entries [of ix] es(2) by (auto simp: spelled_def list_all_iff)
qed

lemma new_manager_ok:
  assumes "inj (px_uuid env)" "load_index db simplified v rows = Inr ix"
  shows "manager_ok (px_uuid env) (px_db env) (new_page_manager b (Some ix) completions)"
  using assms(1) group_by_token_spelled [OF loaded_spelled [OF assms(2)]]
  by (simp add: manager_ok_def new_page_manager_def Let_def tables_ok_def)

end
