(* ===== verification/Page_Termination.thy ===== *)
theory Page_Termination
  imports Page_Protocol
begin

text \<open>
  The fuel of the expansion loop never decides a query: from some amount on, every amount gives the
  same answer, and that answer is not the marker of an exhausted fuel.
\<close>

section \<open>Errors a method cannot raise\<close>

abbreviation out_of_fuel :: py_error where
  "out_of_fuel \<equiv> RuntimeError ''out of fuel''"

definition avoids :: "py_error \<Rightarrow> ('s, 'a) handler \<Rightarrow> bool" where
  "avoids err h \<longleftrightarrow> (\<forall>s. fst (h s) \<noteq> Inl err)"

lemma avoidsI: "(\<And>s r t. h s = (r, t) \<Longrightarrow> r \<noteq> Inl err) \<Longrightarrow> avoids err h"
  by (metis avoids_def prod.collapse)

lemma avoidsD: "avoids err h \<Longrightarrow> h s = (r, t) \<Longrightarrow> r \<noteq> Inl err"
  by (metis avoids_def fst_conv)

lemma avoids_lift: "r \<noteq> Inl err \<Longrightarrow> avoids err (lift_result r)"
  by (simp add: avoids_def lift_result_def)

lemma avoids_require: "e \<noteq> err \<Longrightarrow> avoids err (lift_result (require b e))"
  by (simp add: avoids_lift require_def)

lemma avoids_reads: "avoids err (reads_state f)"
  by (simp add: avoids_def reads_state_def)

lemma avoids_updates: "avoids err (updates_state f)"
  by (simp add: avoids_def updates_state_def)

lemma avoids_bind: "avoids err m \<Longrightarrow> (\<And>x. avoids err (f x)) \<Longrightarrow> avoids err (hbind m f)"
  by (rule avoidsI) (auto elim!: hbind_cases dest: avoidsD)

lemma avoids_if: "avoids err f \<Longrightarrow> avoids err g \<Longrightarrow> avoids err (if b then f else g)"
  by simp

named_theorems avoiding \<open>methods that raise no out-of-fuel error\<close>

lemmas [avoiding] = avoids_bind avoids_reads avoids_updates avoids_if

lemma avoids_done [avoiding]: "avoids err (lift_result (Inr x))"
  by (simp add: avoids_lift)

lemma avoids_clock [avoiding]: "avoids out_of_fuel (read_clock env)"
  by (simp add: avoids_def read_clock_def)

lemma avoids_raise [avoiding]: "avoids out_of_fuel (raise_if_query_expired env d)"
  unfolding raise_if_query_expired_def
  by (cases d) (auto intro!: avoiding avoids_require)

lemma avoids_checkpoint [avoiding]: "avoids out_of_fuel (checkpoint env d i)"
  unfolding checkpoint_def by (intro avoiding)

lemma avoids_score [avoiding]: "avoids out_of_fuel (score_root env st ids)"
  by (rule avoidsI) (auto simp: score_root_def Let_def caught_while_scoring_def split: if_splits option.splits prod.splits sum.splits)

lemma avoids_zip [avoiding]: "avoids out_of_fuel (lift_result (zip_strict xs ys))"
  by (rule avoids_lift) (simp add: zip_strict_def)

lemma avoids_best [avoiding]: "avoids out_of_fuel (best_plan_entries env d i ps best)"
  by (induction ps arbitrary: i best) (auto intro!: avoiding)

lemma avoids_finite_latin [avoiding]: "avoids out_of_fuel (finite_latin env d raw e i ls)"
  by (induction ls arbitrary: i) (auto intro!: avoiding)

lemma avoids_plan [avoiding]: "avoids out_of_fuel (root_han_plan env d raw)"
proof (rule avoidsI)
  fix m r m'
  assume h: "root_han_plan env d raw m = (r, m')"
  have "avoids out_of_fuel (hbind (raise_if_query_expired env d) (\<lambda>_. hbind (updates_state f) (\<lambda>_. lift_result (Inr plan))))" for f plan
    by (intro avoiding)
  note this [THEN avoidsD]
  then show "r \<noteq> Inl out_of_fuel"
    using h by (fastforce simp: root_han_plan_def Let_def split: option.splits sum.splits if_splits prod.splits)
qed

lemma avoids_fresh [avoiding]: "avoids out_of_fuel (fresh_root_candidates env d raw mode st e)"
  unfolding fresh_root_candidates_def root_han_candidates_def materialize_root_han_candidates_def root_latin_candidates_def Let_def
  by (cases mode) (auto intro!: avoiding)

lemma avoids_root [avoiding]: "avoids out_of_fuel (root_candidates env d raw mode st e cached)"
  unfolding root_candidates_def Let_def by (auto intro!: avoiding split: option.split)

lemma avoids_open [avoiding]: "avoids out_of_fuel (open_session env f)"
  unfolding open_session_def by (intro avoiding)

lemma avoids_new [avoiding]: "avoids out_of_fuel (new_session env d identity st)"
  unfolding new_session_def Let_def by (auto intro!: avoiding split: prod.split)

lemma avoids_expire [avoiding]: "avoids out_of_fuel (expire_sessions env)"
  unfolding expire_sessions_def by (intro avoiding)

lemma avoids_with_session [avoiding]: "avoids out_of_fuel h \<Longrightarrow> avoids out_of_fuel (with_session i h)"
  by (rule avoidsI) (auto simp: with_session_def Let_def dest: avoidsD split: option.splits prod.splits)

lemma avoids_on_session [avoiding]: "avoids err (on_session f)"
  unfolding on_session_def by (rule avoids_updates)

lemma avoids_reads_session [avoiding]: "avoids err (reads_session f)"
  unfolding reads_session_def by (rule avoids_reads)

lemma avoids_on_manager [avoiding]: "avoids err h \<Longrightarrow> avoids err (on_manager h)"
  by (rule avoidsI) (auto simp: on_manager_def dest: avoidsD split: prod.splits)

lemma avoids_settle [avoiding]: "avoids out_of_fuel (settle env started k i page)"
  unfolding settle_def touch_session_def Let_def by (intro avoiding)

lemma rmap_error: "rmap f xs = Inl err \<Longrightarrow> \<exists>x \<in> set xs. f x = Inl err"
proof (induction xs)
  case (Cons x xs)
  then show ?case by (cases "f x"; cases "rmap f xs") auto
qed simp

lemma avoids_freeze_selected [avoiding]: "avoids out_of_fuel (freeze_selected env k n cs)"
proof -
  have "page_candidate_id env i k offset c \<noteq> Inl out_of_fuel" for i offset c
    by (simp add: page_candidate_id_def utf8_encode_def)
  then have "rmap (\<lambda>(offset, c). page_candidate_id env i k offset c) xs \<noteq> Inl out_of_fuel" for i xs
    using rmap_error by fastforce
  then show ?thesis
    unfolding freeze_selected_def Let_def by (auto intro!: avoiding intro: avoids_lift)
qed

section \<open>One expansion raises what the backend raises\<close>

definition quiet_backend :: "('b, 's, 'r) page_env \<Rightarrow> bool" where
  "quiet_backend env \<longleftrightarrow> (\<forall>continuation. px_continue_from_root env = Some continuation
     \<longrightarrow> (\<forall>r parents tokens ms. avoids out_of_fuel (continuation r parents tokens ms)))"

lemma avoids_expand_tokens [avoiding]: "avoids out_of_fuel (expand_tokens env deadline identity entries parent scored x)"
proof (induction scored arbitrary: x)
  case (Cons tv scored)
  obtain t v where "tv = (t, v)" by (cases tv)
  then show ?case by (auto simp: Let_def intro!: avoiding Cons.IH avoids_lift split: option.split)
qed (simp add: avoiding)

lemma avoids_on_backend [avoiding]: "avoids err h \<Longrightarrow> avoids err (on_backend h)"
  by (rule avoidsI) (auto simp: on_backend_def dest: avoidsD split: prod.splits)

lemma avoids_expand_parent:
  assumes "\<And>r parents tokens ms. avoids out_of_fuel (continuation r parents tokens ms)"
  shows "avoids out_of_fuel (expand_parent env deadline parent continuation r0)"
  unfolding expand_parent_def
  by (auto intro!: avoiding assms avoids_lift split: option.split)

lemma avoids_expand_one:
  assumes "quiet_backend env"
  shows "avoids out_of_fuel (expand_one_frontier env deadline)"
proof (rule avoidsI)
  fix s r t
  assume h: "expand_one_frontier env deadline s = (r, t)"
  obtain ss m where s: "s = (ss, m)" by (cases s)
  from h [unfolded s] show "r \<noteq> Inl out_of_fuel"
  proof (cases rule: expand_one_cases)
    case (continued parent others continuation r0)
    have "avoids out_of_fuel (expand_parent env deadline parent continuation r0)"
      by (rule avoids_expand_parent) (use assms continued(3) in \<open>simp add: quiet_backend_def\<close>)
    then show ?thesis using continued(1) by (rule avoidsD)
  qed simp
qed

section \<open>Fuel-indexed methods\<close>

text \<open>
  A method with fuel settles on a state when all sufficiently large amounts give one and the same
  answer, which is not the out-of-fuel marker.
\<close>

definition settles :: "('s \<Rightarrow> bool) \<Rightarrow> (nat \<Rightarrow> ('s, 'a) handler) \<Rightarrow> bool" where
  "settles P h \<longleftrightarrow> (\<forall>s. P s \<longrightarrow> (\<exists>n y. fst y \<noteq> Inl out_of_fuel \<and> (\<forall>k \<ge> n. h k s = y)))"

lemma settles_const: "avoids out_of_fuel h \<Longrightarrow> settles P (\<lambda>_. h)"
  unfolding settles_def avoids_def by (intro allI impI exI [of _ "0 :: nat"] exI) auto

lemma settles_before:
  assumes "settles P h" "\<And>x. avoids out_of_fuel (f x)"
  shows "settles P (\<lambda>k. hbind (h k) f)"
  unfolding settles_def
proof (intro allI impI)
  fix s
  assume "P s"
  then obtain n y where y: "fst y \<noteq> Inl out_of_fuel" "\<forall>k \<ge> n. h k s = y"
    using assms(1) by (auto simp: settles_def)
  obtain r t where rt: "y = (r, t)" by (cases y)
  have n: "r \<noteq> Inl out_of_fuel" "\<forall>k \<ge> n. h k s = (r, t)" using y rt by simp_all
  let ?y = "case r of Inl err \<Rightarrow> (Inl err, t) | Inr x \<Rightarrow> f x t"
  have "fst ?y \<noteq> Inl out_of_fuel" using n(1) assms(2) by (auto simp: avoids_def split: sum.split)
  moreover have "\<forall>k \<ge> n. hbind (h k) f s = ?y" using n(2) by (simp add: hbind_def split: sum.split)
  ultimately show "\<exists>n y. fst y \<noteq> Inl out_of_fuel \<and> (\<forall>k \<ge> n. hbind (h k) f s = y)" by blast
qed

lemma settles_after:
  assumes "avoids out_of_fuel h" "\<And>s x t. P s \<Longrightarrow> h s = (Inr x, t) \<Longrightarrow> P t" "\<And>x. settles P (\<lambda>k. f k x)"
  shows "settles P (\<lambda>k. hbind h (f k))"
  unfolding settles_def
proof (intro allI impI)
  fix s
  assume s: "P s"
  obtain r t where h: "h s = (r, t)" by fastforce
  show "\<exists>n y. fst y \<noteq> Inl out_of_fuel \<and> (\<forall>k \<ge> n. hbind h (f k) s = y)"
  proof (cases r)
    case (Inl err)
    then show ?thesis using h avoidsD [OF assms(1) h] by (intro exI [of _ 0] exI [of _ "(Inl err, t)"]) (simp add: hbind_def)
  next
    case (Inr x)
    then show ?thesis using h assms(2) [OF s] assms(3) [of x] by (auto simp: settles_def hbind_def)
  qed
qed

lemma settles_ensure:
  fixes env :: "('b, 's, 'r) page_env"
  assumes "quiet_backend env"
  shows "settles (\<lambda>(ss, m). tables_ok m) (\<lambda>fuel. ensure_freezable fuel env page_size deadline)"
proof -
  have answer: "fst (ensure_freezable fuel env page_size deadline s) \<noteq> Inl out_of_fuel"
    if "paths_within T L s" "unmarked T L s \<le> fuel" for T L fuel s
    using that
  proof (induction fuel arbitrary: s rule: less_induct)
    case (less fuel)
    obtain ss m where s: "s = (ss, m)" by (cases s)
    let ?m = "m\<lparr>pm_readings := pm_readings m + 1\<rparr>"
    have quiet: "r \<noteq> Inl out_of_fuel" if "after_expansion env deadline (ss, m) = (r, t)" for r t
      using that avoidsD [OF avoids_expand_one [OF assms]] by (auto simp: after_expansion_def split: prod.splits sum.splits)
    have smaller: "paths_within T L t \<and> unmarked T L t < unmarked T L s"
      if "after_expansion env deadline (ss, m) = (Inr n, t)" "n > 0" for n t
      using expansion_decreases [OF less.prems(1) [unfolded s] that] s by simp
    show ?case
    proof (cases fuel)
      case 0
      have "n = 0" if "after_expansion env deadline (ss, m) = (Inr n, t)" for n t
        using smaller [OF that] less.prems(2) 0 by (cases n) auto
      then show ?thesis using quiet 0 unfolding s by (auto simp: ensure_step split: sum.splits prod.splits)
    next
      case (Suc f)
      have "fst (ensure_freezable f env page_size deadline t) \<noteq> Inl out_of_fuel"
        if "after_expansion env deadline (ss, m) = (Inr n, t)" "n > 0" for n t
        using smaller [OF that] less.prems(2) less.IH [of f t] Suc by simp
      then show ?thesis using quiet unfolding s Suc by (auto simp: ensure_step split: sum.splits prod.splits)
    qed
  qed
  show ?thesis
    unfolding settles_def
  proof (intro allI impI)
    fix s :: "('b, 'r) paged"
    assume "case s of (ss, m) \<Rightarrow> tables_ok m"
    then have "\<exists>T L. paths_within T L s" by (cases s) (auto intro: within_some)
    then obtain T L where w: "paths_within T L s" by blast
    have "ensure_freezable k env page_size deadline s = ensure_freezable (unmarked T L s) env page_size deadline s"
      if "k \<ge> unmarked T L s" for k
      using ensure_fuel [OF w order_refl, of "k - unmarked T L s"] that by simp
    then show "\<exists>n y. fst y \<noteq> Inl out_of_fuel \<and> (\<forall>k \<ge> n. ensure_freezable k env page_size deadline s = y)"
      using answer [OF w order_refl] by blast
  qed
qed


lemma settles_with_session:
  fixes h :: "nat \<Rightarrow> (('b, 'r) paged, 'a) handler"
  assumes "settles (\<lambda>(ss, m). tables_ok m) h"
  shows "settles (manager_ok uuid db) (\<lambda>k. with_session i (h k))"
  unfolding settles_def
proof (intro allI impI)
  fix m :: "('b, 'r) page_manager"
  assume "manager_ok uuid db m"
  then have tok: "tables_ok m" by (simp add: manager_ok_def)
  show "\<exists>n y. fst y \<noteq> Inl out_of_fuel \<and> (\<forall>k \<ge> n. with_session i (h k) m = y)"
  proof (cases "map_of (pm_sessions m) i")
    case None
    then show ?thesis by (intro exI [of _ "0 :: nat"] exI [of _ "(Inl KeyError, m)"]) (simp add: with_session_def)
  next
    case (Some ss)
    have "\<exists>n y. fst y \<noteq> Inl out_of_fuel \<and> (\<forall>k \<ge> n. h k (ss, m) = y)" using assms tok by (simp add: settles_def)
    then obtain n y where y: "fst y \<noteq> Inl out_of_fuel" "\<forall>k \<ge> n. h k (ss, m) = y" by blast
    obtain r ss' m' where r: "y = (r, (ss', m'))" by (cases y) auto
    let ?z = "(r, m'\<lparr>pm_sessions := od_set i ss' (pm_sessions m')\<rparr>)"
    have "with_session i (h k) m = ?z" if "n \<le> k" for k
      using y(2) that Some r by (simp add: with_session_def)
    moreover have "fst ?z \<noteq> Inl out_of_fuel" using y(1) r by simp
    ultimately show ?thesis by blast
  qed
qed

lemma settles_freeze:
  assumes "quiet_backend env"
  shows "settles (\<lambda>(ss, m). tables_ok m) (\<lambda>fuel. freeze_next_page fuel env k n deadline)"
proof -
  have "settles (\<lambda>(ss, m). tables_ok m) (\<lambda>fuel. take_next_page fuel env n deadline)"
    unfolding take_next_page_def
  proof (rule settles_before [OF settles_ensure [OF assms]])
    show "avoids out_of_fuel (hbind (reads_session (\<lambda>ss. (freezable_candidates ss, ss_exhausted ss))) (\<lambda>(freezable, exhausted).
        if length freezable < n \<and> \<not> exhausted then hbind (updates_state count_timeout) (\<lambda>_.
          lift_result (Inl (CandidatePageTimeout ''candidate page search exceeded its absolute deadline'')))
        else take_pending (take n freezable)))" for x
      unfolding take_pending_def by (auto intro!: avoiding avoids_lift split: prod.split)
  qed
  moreover have "settles (\<lambda>(ss, m). tables_ok m) (\<lambda>fuel. take_page0 n)"
    unfolding take_page0_def take_pending_def by (intro settles_const avoiding)
  ultimately show ?thesis
    unfolding freeze_next_page_def by (cases "k = 0") (auto intro!: settles_before avoids_freeze_selected)
qed

lemma manager_after: "managing.safe uuid db h \<Longrightarrow> manager_ok uuid db m \<Longrightarrow> h m = (Inr x, m') \<Longrightarrow> manager_ok uuid db m'"
  using managing.safeD managing.rel_ok by blast

lemma settles_answer:
  assumes "quiet_backend env"
  shows "settles (manager_ok uuid db) (\<lambda>fuel. answer_page fuel env q started deadline i)"
  unfolding answer_settle
  by (intro settles_after settles_before settles_with_session settles_freeze assms avoids_raise avoids_settle)
    (rule manager_after [OF tables_safe [OF tables_raise]])

lemma settles_serve:
  assumes "quiet_backend env"
  shows "settles (manager_ok (px_uuid env) (px_db env)) (\<lambda>fuel. serve_page fuel env q state started)"
proof (cases "pq_page_index q = 0")
  case True
  show ?thesis
    unfolding serve_page_def Let_def if_P [OF True]
    by (intro settles_after settles_answer assms avoids_new avoids_raise)
      (blast intro: manager_after new_session_safe tables_safe [OF tables_raise])+
next
  case False
  have "settles (manager_ok (px_uuid env) (px_db env)) (\<lambda>fuel. case x of (i, known) \<Rightarrow> (case known of
      Some page \<Rightarrow> hbind (touch_session env i) (\<lambda>_. lift_result (Inr page))
    | None \<Rightarrow> answer_page fuel env q started (started + page_deadline_ms q / 1000) i))" for x
  proof -
    obtain i known where "x = (i, known)" by (cases x)
    then show ?thesis
      by (cases known) (auto intro!: settles_const settles_answer assms avoiding simp: touch_session_def)
  qed
  moreover have "avoids out_of_fuel (\<lambda>m. (lookup_session q m, m))"
    by (rule avoidsI) (auto simp: lookup_session_def split: option.splits if_splits)
  ultimately show ?thesis
    unfolding serve_page_def Let_def if_not_P [OF False] by (intro settles_after) auto
qed

lemma settles_query:
  assumes "quiet_backend env"
  shows "settles (manager_ok (px_uuid env) (px_db env)) (\<lambda>fuel. query_page fuel env q state)"
proof -
  have "validate_query q \<noteq> Inl out_of_fuel" by (simp add: validate_query_def)
  then show ?thesis
    unfolding query_serve
    by (intro settles_after settles_serve assms avoids_raise avoids_expire)
      (auto intro!: avoiding avoids_lift simp: lift_result_def split: option.split
        intro: manager_after [OF tables_safe [OF started_tables]] manager_after [OF tables_safe [OF tables_raise]] manager_after [OF expire_safe])
qed

end
