(* ===== verification/Page_Properties.thy ===== *)
theory Page_Properties
  imports Page_Termination
begin

text \<open>
  What a client of the paging protocol may rely on, for every history of calls on a manager that was
  built over a loaded index; and a concrete session in which it asks for two pages.
\<close>

section \<open>A concrete session\<close>

text \<open>The typed letters have one finite root score, and only the token itself continues it, once.\<close>

definition demo_env :: "(unit, unit, unit) page_env" where
  "demo_env = \<lparr>px_clock = (\<lambda>_. 0), px_uuid = (\<lambda>n. [n]), px_sha256_hex = (\<lambda>_. []), px_db = ascii_db,
     px_score_allowed_tokens = (\<lambda>_ _ b. (Inr [], b)), px_state_root = (\<lambda>_. None),
     px_continue_from_root = Some (\<lambda>_ parents groups _ b. (Inr (Some (map (\<lambda>(p, ts).
        map (\<lambda>t. if t = 7 \<and> length p = 1 then Fin (- 1) else NInf) ts) (zip parents groups))), b))\<rparr>"

definition demo_manager :: "(unit, unit) page_manager" where
  "demo_manager = new_page_manager () (Some demo_index) []"

definition demo_ready :: "(unit, unit) page_manager" where
  "demo_ready = snd (install_baseline_scores (replicate 9 (Fin 0) @ [NInf]) (Some ()) demo_manager)"

definition demo_page_query :: "int \<Rightarrow> pystr option \<Rightarrow> page_query" where
  "demo_page_query k i = \<lparr>pq_identity = \<lparr>si_client_session_id = [], si_composition_revision = 0, si_context_epoch = 0,
     si_context_session = None, si_source_revision = None, si_mode = ChineseFirst, si_raw_keys = asc ''xian''\<rparr>,
     pq_page_index = k, pq_candidate_set_id = i, pq_deadline_ms = None, pq_deadline_started = None\<rparr>"

definition demo_page0 :: "candidate_page result \<times> (unit, unit) page_manager" where
  "demo_page0 = query_page 1 demo_env (demo_page_query 0 None) None demo_ready"

definition demo_page1 :: "candidate_page result \<times> (unit, unit) page_manager" where
  "demo_page1 = query_page 1 demo_env (demo_page_query 1 (Some [0])) None (snd demo_page0)"

lemma demo_env_uuid: "inj (px_uuid demo_env)"
  by (simp add: demo_env_def inj_def)

lemma demo_ready_history: "(page_move demo_env)\<^sup>*\<^sup>* demo_manager demo_ready"
proof -
  have "page_move demo_env demo_manager demo_ready"
    unfolding demo_ready_def by (rule page_move.install [OF prod.collapse [symmetric]])
  then show ?thesis by blast
qed

lemma demo_page0_move: "page_move demo_env demo_ready (snd demo_page0)"
  unfolding demo_page0_def by (rule page_move.query [OF prod.collapse [symmetric]])

lemma demo_page1_move: "page_move demo_env (snd demo_page0) (snd demo_page1)"
  unfolding demo_page1_def by (rule page_move.query [OF prod.collapse [symmetric]])

lemma demo_history0: "(page_move demo_env)\<^sup>*\<^sup>* demo_manager (snd demo_page0)"
  using demo_ready_history demo_page0_move by (rule rtranclp.rtrancl_into_rtrancl)

lemma demo_history1: "(page_move demo_env)\<^sup>*\<^sup>* demo_manager (snd demo_page1)"
  using demo_history0 demo_page1_move by (rule rtranclp.rtrancl_into_rtrancl)

section \<open>The frozen pages\<close>

text \<open>
  Claim C10. At every moment at most four sessions are kept, and in each the frozen pages are numbered
  from zero without gaps; a page is not empty, has at most seven (Chinese first) or five (Latin
  first) candidates and one identifier for each; no candidate is on two pages, and a session never
  shows more than 180.
\<close>

theorem frozen_pages_invariant:
  assumes "inj (px_uuid env)" "load_index db simplified v rows = Inr ix"
    and "(page_move env)\<^sup>*\<^sup>* (new_page_manager b (Some ix) completions) m"
  shows "length (pm_sessions m) \<le> MAX_ACTIVE_SEARCH_SESSIONS
     \<and> list_all (\<lambda>(i, ss). ss_candidate_set_id ss = i \<and> pages_ok ss) (pm_sessions m)"
proof -
  have "manager_ok (px_uuid env) (px_db env) m"
    using history_rel [OF assms(3) new_manager_ok [OF assms(1,2)]] by (simp add: manager_rel_def)
  then show ?thesis by (auto simp: manager_ok_def session_ok_def list_all_iff)
qed

theorem frozen_pages_invariant_witness:
  "map (\<lambda>(i, ss). length (ss_frozen_pages ss)) (pm_sessions (snd demo_page1)) = [2]
   \<and> list_all (\<lambda>(i, ss). ss_candidate_set_id ss = i \<and> pages_ok ss) (pm_sessions (snd demo_page1))"
proof -
  have "map (\<lambda>(i, ss). length (ss_frozen_pages ss)) (pm_sessions (snd demo_page1)) = [2]" by code_simp
  then show ?thesis
    using frozen_pages_invariant [OF demo_env_uuid demo_index_load demo_history1 [unfolded demo_manager_def]] by blast
qed

text \<open>
  Claim C5. A page that was answered once is answered the same way as long as its session lives:
  whatever happens in between, a later query for the same page of the same candidate set returns the
  same candidates, identifiers and timing, or fails.
\<close>

theorem page_answers_stable:
  assumes "inj (px_uuid env)" "load_index db simplified v rows = Inr ix"
    and "(page_move env)\<^sup>*\<^sup>* (new_page_manager b (Some ix) completions) m"
    and "query_page fuel env q state m = (Inr page, m1)" "(page_move env)\<^sup>*\<^sup>* m1 m2"
    and "query_page fuel' env q' state' m2 = (Inr page', m3)"
    and "pq_identity q' = pq_identity q" "pq_page_index q' = pq_page_index q" "pq_page_index q \<noteq> 0"
    and "pq_candidate_set_id q' = Some (cp_candidate_set_id page)"
  shows "page' = page"
proof -
  let ?rel = "manager_rel (px_uuid env) (px_db env)" and ?k = "nat (pq_page_index q)"
  have ok: "manager_ok (px_uuid env) (px_db env) m"
    using history_rel [OF assms(3) new_manager_ok [OF assms(1,2)]] by (rule managing.rel_ok)
  have first: "?rel m m1" "page_stored q page m1" using query_page_result [OF ok assms(4)] by auto
  have ok1: "manager_ok (px_uuid env) (px_db env) m1" using first(1) by (rule managing.rel_ok)
  have between: "?rel m1 m2" using history_rel [OF assms(5) ok1] .
  then have second: "?rel m2 m3" "page_stored q' page' m3"
    using query_page_result [OF managing.rel_ok assms(6)] by auto
  have later: "?rel m1 m3" using managing.rel_trans [OF between second(1)] .
  obtain i ss where i: "map_of (pm_sessions m1) i = Some ss" "(?k, page) \<in> set (ss_frozen_pages ss)"
    using first(2) by (auto simp: page_stored_def)
  have "page_ok ss ?k page" "ss_candidate_set_id ss = i"
    using session_of [OF ok1 i(1)] i(2) by (auto simp: session_ok_def pages_ok_def list_all_iff)
  then have "pq_candidate_set_id q' = Some i" using assms(10) by (simp add: page_ok_def)
  then obtain ss' where ss': "map_of (pm_sessions m3) i = Some ss'" "(?k, page') \<in> set (ss_frozen_pages ss')"
    using second(2) assms(8,9) by (auto simp: page_stored_def)
  have "i \<in> px_uuid env ` {..<pm_drawn m1}" using ok1 i(1) by (force simp: manager_ok_def dest: map_of_SomeD)
  then have "evolves ss ss'" using later ss'(1) i(1) by (fastforce simp: manager_rel_def)
  then have "(?k, page) \<in> set (ss_frozen_pages ss')" using i(2) by (auto simp: evolves_def prefix_def)
  moreover have "distinct (map fst (ss_frozen_pages ss'))"
    using session_of [OF managing.rel_ok [OF later] ss'(1)] by (simp add: session_ok_def pages_ok_def)
  ultimately show ?thesis using ss'(2) by (metis eq_key_imp_eq_value)
qed

definition page_texts :: "candidate_page result \<Rightarrow> pystr list" where
  "page_texts r = (case r of Inl _ \<Rightarrow> [] | Inr page \<Rightarrow> map c_text (cp_candidates page))"

lemma answer_of: "\<not> isl (fst x) \<Longrightarrow> x = (Inr (projr (fst x)), snd x)"
  by (cases x) (auto simp: Inr_projr [symmetric])

lemma demo_page1_answer:
  "query_page 1 demo_env (demo_page_query 1 (Some [0])) None (snd demo_page0) = (Inr (projr (fst demo_page1)), snd demo_page1)"
proof -
  have "\<not> isl (fst demo_page1)" by code_simp
  then show ?thesis using answer_of [of demo_page1] by (simp add: demo_page1_def)
qed

theorem page_answers_stable_witness:
  "page_texts (fst demo_page1) = [[20808, 20808]]
   \<and> fst (query_page 0 demo_env (demo_page_query 1 (Some [0])) None (snd demo_page1)) = fst demo_page1"
proof -
  let ?again = "query_page 0 demo_env (demo_page_query 1 (Some [0])) None (snd demo_page1)"
  have "\<not> isl (fst ?again)" by code_simp
  then have again: "?again = (Inr (projr (fst ?again)), snd ?again)" by (rule answer_of)
  have i: "pq_candidate_set_id (demo_page_query 1 (Some [0])) = Some (cp_candidate_set_id (projr (fst demo_page1)))"
    by code_simp
  have "projr (fst ?again) = projr (fst demo_page1)"
    by (rule page_answers_stable [OF demo_env_uuid demo_index_load demo_history0 [unfolded demo_manager_def]
      demo_page1_answer rtranclp.rtrancl_refl again refl refl _ i])
      (simp add: demo_page_query_def)
  moreover have "page_texts (fst demo_page1) = [[20808, 20808]]" by code_simp
  ultimately show ?thesis using again demo_page1_answer by (metis demo_page1_def fst_conv)
qed

text \<open>
  Claim C6. Short before long: once a complete Han candidate is on a page, every candidate that
  the search finds afterwards, and that is not already waiting, predicts strictly more syllables.
\<close>

theorem later_candidates_are_longer:
  assumes "inj (px_uuid env)" "load_index db simplified v rows = Inr ix"
    and "(page_move env)\<^sup>*\<^sup>* (new_page_manager b (Some ix) completions) m" "(page_move env)\<^sup>*\<^sup>* m m'"
    and "map_of (pm_sessions m) i = Some ss" "map_of (pm_sessions m') i = Some ss'"
    and "d \<in> frozen ss" "c_script d = ''han''" "c_completes_input d"
    and "c \<in> frozen ss'" "c \<notin> frozen ss" "c \<notin> set (ss_pending ss)"
  shows "c_predicted_syllables d < c_predicted_syllables c"
proof -
  have ok: "manager_ok (px_uuid env) (px_db env) m"
    using history_rel [OF assms(3) new_manager_ok [OF assms(1,2)]] by (rule managing.rel_ok)
  have "i \<in> px_uuid env ` {..<pm_drawn m}" using ok assms(5) by (force simp: manager_ok_def dest: map_of_SomeD)
  then have "evolves ss ss'" using history_rel [OF assms(4) ok] assms(5,6) by (fastforce simp: manager_rel_def)
  then have "behind (frozen ss) c" using assms(10-12) unfolding evolves_def by blast
  then show ?thesis using assms(7-9) by (simp add: behind_def bucketed_def)
qed

definition demo_session :: "(unit, unit) page_manager \<Rightarrow> unit search_session" where
  "demo_session m = snd (hd (pm_sessions m))"

definition shown_candidate :: "nat \<Rightarrow> unit search_session \<Rightarrow> candidate" where
  "shown_candidate k ss = hd (cp_candidates (snd (ss_frozen_pages ss ! k)))"

lemma shown_frozen:
  assumes "k < length (ss_frozen_pages ss)" "cp_candidates (snd (ss_frozen_pages ss ! k)) \<noteq> []"
  shows "shown_candidate k ss \<in> frozen ss"
proof -
  have "ss_frozen_pages ss ! k \<in> set (ss_frozen_pages ss)" using assms(1) by (rule nth_mem)
  moreover obtain j page where page: "ss_frozen_pages ss ! k = (j, page)" by fastforce
  moreover have "hd (cp_candidates page) \<in> set (cp_candidates page)" using assms(2) page by simp
  ultimately show ?thesis unfolding frozen_def shown_candidate_def by (auto intro!: bexI [of _ "(j, page)"])
qed

theorem later_candidates_are_longer_witness:
  "c_predicted_syllables (shown_candidate 0 (demo_session (snd demo_page0)))
     < c_predicted_syllables (shown_candidate 1 (demo_session (snd demo_page1)))"
proof -
  let ?s0 = "demo_session (snd demo_page0)" and ?s1 = "demo_session (snd demo_page1)"
  have demo_step: "(page_move demo_env)\<^sup>*\<^sup>* (snd demo_page0) (snd demo_page1)"
    using demo_page1_move by (rule r_into_rtranclp [where r = "page_move demo_env"])
  have n: "length (ss_frozen_pages ?s0) = 1" "length (ss_frozen_pages ?s1) = 2" by code_simp+
  have s: "map_of (pm_sessions (snd demo_page0)) [0] = Some ?s0" "map_of (pm_sessions (snd demo_page1)) [0] = Some ?s1"
    by code_simp+
  have ne: "cp_candidates (snd (ss_frozen_pages ?s0 ! 0)) \<noteq> []" "cp_candidates (snd (ss_frozen_pages ?s1 ! 1)) \<noteq> []"
    by code_simp+
  have shown: "shown_candidate 0 ?s0 \<in> frozen ?s0" "shown_candidate 1 ?s1 \<in> frozen ?s1"
    using shown_frozen n ne by simp_all
  have kind: "c_script (shown_candidate 0 ?s0) = ''han''" "c_completes_input (shown_candidate 0 ?s0)" by code_simp+
  have "frozen ?s0 = set (concat (map (\<lambda>(k, page). cp_candidates page) (ss_frozen_pages ?s0)))" by (auto simp: frozen_def)
  moreover have "shown_candidate 1 ?s1 \<notin> set (concat (map (\<lambda>(k, page). cp_candidates page) (ss_frozen_pages ?s0)))" by code_simp
  moreover have "shown_candidate 1 ?s1 \<notin> set (ss_pending ?s0)" by code_simp
  ultimately show ?thesis
    using later_candidates_are_longer [OF demo_env_uuid demo_index_load demo_history0 [unfolded demo_manager_def]
      demo_step s shown(1) kind shown(2)] by simp
qed

text \<open>
  Claim C39. A query ends: unless the backend itself raises the marker error, there is an amount
  of rounds from which on the answer and the new state no longer depend on it, and the answer is not
  that the rounds ran out.
\<close>

theorem paging_terminates:
  assumes "inj (px_uuid env)" "load_index db simplified v rows = Inr ix"
    and "(page_move env)\<^sup>*\<^sup>* (new_page_manager b (Some ix) completions) m" "quiet_backend env"
  shows "\<exists>n answer. fst answer \<noteq> Inl (RuntimeError ''out of fuel'') \<and> (\<forall>fuel \<ge> n. query_page fuel env q state m = answer)"
proof -
  have "manager_ok (px_uuid env) (px_db env) m"
    using history_rel [OF assms(3) new_manager_ok [OF assms(1,2)]] by (rule managing.rel_ok)
  then show ?thesis using settles_query [OF assms(4)] by (simp add: settles_def)
qed

theorem paging_terminates_witness:
  "\<exists>n answer. fst answer \<noteq> Inl (RuntimeError ''out of fuel'')
     \<and> (\<forall>fuel \<ge> n. query_page fuel demo_env (demo_page_query 1 (Some [0])) None (snd demo_page0) = answer)"
proof -
  have "quiet_backend demo_env" by (simp add: quiet_backend_def demo_env_def avoids_def)
  then show ?thesis
    by (rule paging_terminates [OF demo_env_uuid demo_index_load demo_history0 [unfolded demo_manager_def]])
qed


section \<open>A longer candidate in front of a shorter one\<close>

text \<open>
  Continuations have ranking tier 0 whatever they predict, so among the candidates of closed buckets
  they come before every waiting candidate of a higher tier, also before one that predicts fewer
  syllables: the exception for waiting candidates above is needed.
\<close>

lemma longer_page_first:
  "0 < c_ranking_tier c \<Longrightarrow> page_candidate_key db (continued_candidate identity p) < page_candidate_key db c"
  by (simp add: page_candidate_key_def continued_candidate_def)

end
