(* ===== verification/Production_Pipe.thy ===== *)
theory Production_Pipe
  imports Pipe_Server Candidate_Pages
begin

text \<open>
  \<open>ProductionNamedPipeServer\<close> (\<open>production_pipe.py\<close>): the pipe service of production adds candidate
  pages, runtime diagnostics and an override of focus to the base server.  A page request checks its
  binding before and after the engine's query, so it is three steps here: \<open>prepare_page\<close>, the query,
  \<open>finish_page\<close>.  The wall clock is an argument.
\<close>

section \<open>What the server calls on the engine\<close>

text \<open>The page manager's provider of \<open>background_pending\<close>, in the order in which the code looks for it.\<close>

datatype 'e pending_provider =
    BoundedPending "pystr \<Rightarrow> real \<Rightarrow> ('e, bool) handler"
  | PlainPending "pystr \<Rightarrow> ('e, bool) handler"
  | BackgroundSearches "'e \<Rightarrow> pystr list"
  | NoPages

record 'e production_engine =
  pn_query_page :: "page_query \<Rightarrow> bool \<Rightarrow> ('e, candidate_page) handler"
  pn_invalidate_sessions :: "('e, unit) handler option"
  pn_performance_diagnostics :: "('e, json) handler option"
  pn_pending :: "'e pending_provider"

section \<open>Runtime diagnostics\<close>

definition gc_keys :: "string list \<Rightarrow> string list" where
  "gc_keys metrics = concat (map (\<lambda>generation. map (\<lambda>metric. ''service_gc_gen'' @ generation @ ''_'' @ metric) metrics)
     [''0'', ''1'', ''2''])"

definition RUNTIME_COUNT_KEYS :: "string list" where
  "RUNTIME_COUNT_KEYS =
     [''max_after_tokens'', ''continuation_reserve_tokens'', ''max_before_tokens'', ''n_ctx'', ''n_batch'',
      ''last_refresh_context_tokens'', ''last_refresh_evaluated_tokens'', ''last_candidate_page_index'',
      ''last_candidate_count'', ''last_candidate_search_depth'', ''last_candidate_length_bucket'',
      ''candidate_page_timeout_count'', ''page_zero_lexical_attempt_count'', ''last_page_zero_lexical_result_count'',
      ''last_page_zero_lexical_freezable_count'', ''last_continuation_requested_branches'',
      ''last_continuation_completed_branches'', ''last_continuation_returned_tokens'', ''last_candidate_target_count'',
      ''last_candidate_generated_count'', ''last_candidate_pending_count'', ''last_candidate_freezable_count'',
      ''last_candidate_frontier_count'', ''last_candidate_frozen_count'', ''last_candidate_published_count'']
     @ gc_keys [''count'', ''start_ns'', ''end_ns'']"

definition RUNTIME_LATENCY_KEYS :: "string list" where
  "RUNTIME_LATENCY_KEYS =
     [''last_refresh_latency_ms'', ''last_refresh_queue_wait_ms'', ''last_refresh_compute_ms'',
      ''last_continuation_queue_wait_ms'', ''last_continuation_elapsed_ms'', ''last_candidate_search_elapsed_ms'',
      ''last_candidate_background_elapsed_ms'', ''last_page_zero_lexical_elapsed_ms'', ''last_page_zero_lexical_budget_ms'']
     @ gc_keys [''elapsed_ms'', ''max_ms'']"

definition RUNTIME_BOOLEAN_KEYS :: "string list" where
  "RUNTIME_BOOLEAN_KEYS = [''last_continuation_cache_preserved'', ''last_candidate_background_timed_out'']"

definition RUNTIME_ENUM_KEYS :: "string list" where
  "RUNTIME_ENUM_KEYS = [''last_continuation_outcome'', ''context_mode'']"

definition CONTINUATION_OUTCOMES :: "string list" where
  "CONTINUATION_OUTCOMES = [''completed'', ''deadline'', ''lock_timeout'', ''preempted'', ''error'']"

text \<open>\<open>value < 0\<close> on a float: false for NaN.\<close>

definition float_negative :: "pyfloat \<Rightarrow> bool" where
  "float_negative v = (case v of NInf \<Rightarrow> True | Fin r \<Rightarrow> r < 0 | _ \<Rightarrow> False)"

definition safe_runtime_metric :: "string \<Rightarrow> json \<Rightarrow> json result" where
  "safe_runtime_metric key v =
     (if v = JNull then Inr JNull
      else if key \<in> set RUNTIME_LATENCY_KEYS
      then (case v of
              JInt i \<Rightarrow> if i < 0 then Inl (RuntimeError ''invalid cached runtime latency metric'') else Inr (JFloat (Fin (of_int i)))
            | JFloat f \<Rightarrow> if float_negative f then Inl (RuntimeError ''invalid cached runtime latency metric'') else Inr (JFloat f)
            | _ \<Rightarrow> Inl (RuntimeError ''invalid cached runtime latency metric''))
      else if key \<in> set RUNTIME_BOOLEAN_KEYS
      then (case v of JBool b \<Rightarrow> Inr v | _ \<Rightarrow> Inl (RuntimeError ''invalid cached runtime boolean metric''))
      else if key \<in> set RUNTIME_ENUM_KEYS
      then (let allowed = (if key = ''context_mode'' then [''continuation'', ''fim''] else CONTINUATION_OUTCOMES) in
            case v of
              JStr s \<Rightarrow> if s \<in> set (map asc allowed) then Inr v else Inl (RuntimeError ''invalid cached runtime enum metric'')
            | _ \<Rightarrow> Inl (RuntimeError ''invalid cached runtime enum metric''))
      else (case v of
              JInt i \<Rightarrow> if i < 0 then Inl (RuntimeError ''invalid cached runtime count metric'') else Inr v
            | _ \<Rightarrow> Inl (RuntimeError ''invalid cached runtime count metric'')))"

definition runtime_keys :: "string list" where
  "runtime_keys = RUNTIME_COUNT_KEYS @ RUNTIME_LATENCY_KEYS @ RUNTIME_BOOLEAN_KEYS @ RUNTIME_ENUM_KEYS"

definition runtime_metrics :: "message \<Rightarrow> message result" where
  "runtime_metrics raw = rmap (\<lambda>key. rbind (safe_runtime_metric key (field raw key)) (\<lambda>v. Inr (asc key, v))) runtime_keys"

definition handle_diagnostics ::
  "'e pipe_engine \<Rightarrow> 'e production_engine \<Rightarrow> pystr option \<Rightarrow> message \<Rightarrow> ('e server, message) handler" where
  "handle_diagnostics en pr request_id m =
     hbind (lift_result (reject_unknown_fields m [''type'', ''request_id''])) (\<lambda>_.
     case pn_performance_diagnostics pr of
       None \<Rightarrow> lift_result (Inr (error_response ''diagnostics_unavailable'' ''runtime performance diagnostics are unavailable''
                 (optional_str request_id) False))
     | Some provider \<Rightarrow>
         hbind (on_engine provider) (\<lambda>raw.
         case raw of
           JDict raw \<Rightarrow>
             hbind (reads_state (\<lambda>s. (pe_context_epoch en (sv_engine s), sv_requested_context_epoch s))) (\<lambda>(ready, requested).
             hbind (lift_result (runtime_metrics raw)) (\<lambda>metrics.
             lift_result (Inr (with_request_id request_id
               (obj [(''type'', jstr ''diagnostics''), (''ok'', JBool True), (''context_epoch'', JInt ready),
                     (''requested_context_epoch'', JInt requested), (''context_updating'', JBool (requested > ready))]
                @ metrics)))))
         | _ \<Rightarrow> lift_result (Inl (RuntimeError ''runtime performance diagnostics must be a mapping''))))"

section \<open>Focus\<close>

definition production_focus :: "'e pipe_engine \<Rightarrow> 'e production_engine \<Rightarrow> message \<Rightarrow> ('e server, message) handler" where
  "production_focus en pr m = hbind (handle_focus en m) (\<lambda>r.
     if field r ''ok'' = JBool True
     then hbind (optionally (pn_invalidate_sessions pr)) (\<lambda>_. lift_result (Inr r))
     else lift_result (Inr r))"

section \<open>Candidate pages\<close>

record page_plan =
  pg_session_id :: pystr
  pg_revision :: int
  pg_epoch :: int
  pg_identity :: "(pystr \<times> int) option"
  pg_mode :: language_mode
  pg_raw_keys :: pystr
  pg_page_index :: int
  pg_candidate_set_id :: "pystr option"
  pg_refresh :: bool

definition is_page_key :: "nat \<Rightarrow> bool" where
  "is_page_key c \<longleftrightarrow> (48 \<le> c \<and> c \<le> 57) \<or> (65 \<le> c \<and> c \<le> 90) \<or> (97 \<le> c \<and> c \<le> 122) \<or> c \<in> {39, 45}"

definition require_page_keys :: "message \<Rightarrow> pystr result" where
  "require_page_keys m =
     (let bad = Inl (ProtocolError ''raw_keys must contain only ASCII letters, digits, apostrophes, or hyphens and be at most 512 characters'') in
      case field m ''raw_keys'' of
        JStr s \<Rightarrow> if s = [] \<or> length s > MAX_PINYIN_KEYS \<or> \<not> list_all is_page_key s then bad else Inr s
      | _ \<Rightarrow> bad)"

definition mode_value :: "language_mode \<Rightarrow> string" where
  "mode_value mode = (case mode of ChineseFirst \<Rightarrow> ''chinese_first'' | LatinFirst \<Rightarrow> ''latin_first'')"

definition require_language_mode :: "message \<Rightarrow> language_mode result" where
  "require_language_mode m =
     (if field m ''language_mode'' = jstr ''chinese_first'' then Inr ChineseFirst
      else if field m ''language_mode'' = jstr ''latin_first'' then Inr LatinFirst
      else Inl (ProtocolError ''language_mode must be chinese_first or latin_first''))"

definition presentation_refresh_flag :: "message \<Rightarrow> bool result" where
  "presentation_refresh_flag m =
     (if \<not> has_field m ''presentation_refresh'' then Inr False else require_bool m ''presentation_refresh'')"

definition parse_page_request :: "message \<Rightarrow> page_plan result" where
  "parse_page_request m =
     rbind (reject_unknown_fields m [''type'', ''request_id'', ''session_id'', ''composition_revision'', ''context_epoch'',
              ''context_session'', ''source_revision'', ''language_mode'', ''raw_keys'', ''page_index'', ''candidate_set_id'',
              ''presentation_refresh'']) (\<lambda>_.
     rbind (require_session_id m) (\<lambda>session_id.
     rbind (require_int m ''composition_revision'' 0) (\<lambda>revision.
     rbind (require_int m ''context_epoch'' 0) (\<lambda>epoch.
     rbind (require_int m ''page_index'' 0) (\<lambda>page_index.
     rbind (optional_identifier m ''candidate_set_id'') (\<lambda>set_id.
     rbind (presentation_refresh_flag m) (\<lambda>refresh.
     rbind (require_page_keys m) (\<lambda>raw_keys.
     rbind (require_language_mode m) (\<lambda>mode.
     rbind (optional_query_identity m) (\<lambda>identity.
     if epoch = 0 \<and> identity \<noteq> None then Inl (ProtocolError ''context identity must be omitted for context_epoch 0'')
     else if epoch > 0 \<and> identity = None then Inl (ProtocolError ''nonzero context_epoch requires context identity'')
     else Inr \<lparr>pg_session_id = session_id, pg_revision = revision, pg_epoch = epoch, pg_identity = identity, pg_mode = mode,
               pg_raw_keys = raw_keys, pg_page_index = page_index, pg_candidate_set_id = set_id, pg_refresh = refresh\<rparr>))))))))))"

definition check_page_position :: "page_plan \<Rightarrow> unit result" where
  "check_page_position plan =
     (if pg_page_index plan = 0 \<and> pg_candidate_set_id plan \<noteq> None \<and> \<not> pg_refresh plan
      then Inl (ProtocolError ''candidate_set_id must be omitted for page 0'')
      else if pg_page_index plan > 0 \<and> pg_candidate_set_id plan = None
      then Inl (ProtocolError ''candidate_set_id is required after page 0'')
      else if pg_refresh plan \<and> pg_page_index plan \<noteq> 0
      then Inl (ProtocolError ''presentation_refresh is only valid for page 0'')
      else Inr ())"

text \<open>Up to the query: the left summand is the answer of a failed binding check.\<close>

definition prepare_page :: "message \<Rightarrow> ('e server, message + page_plan) handler" where
  "prepare_page m =
     hbind (lift_result (parse_page_request m)) (\<lambda>plan.
     hbind (binding_error m (pg_epoch plan)) (\<lambda>err.
     case err of
       Some err \<Rightarrow> lift_result (Inr (Inl err))
     | None \<Rightarrow> hbind (lift_result (check_page_position plan)) (\<lambda>_. lift_result (Inr (Inr plan)))))"

lemma prepare_page_state: "snd (prepare_page m s) = s"
  by (auto simp: prepare_page_def hbind_def lift_result_def binding_error_def split: sum.split prod.split option.split)

definition page_budget_ms :: "page_plan \<Rightarrow> real" where
  "page_budget_ms plan = (if pg_page_index plan = 0 then PAGE0_DEADLINE_MS else NEXT_PAGE_DEADLINE_MS)"

definition page_query_of :: "real \<Rightarrow> page_plan \<Rightarrow> page_query" where
  "page_query_of started plan =
     \<lparr>pq_identity = \<lparr>si_client_session_id = pg_session_id plan, si_composition_revision = pg_revision plan,
        si_context_epoch = pg_epoch plan, si_context_session = map_option fst (pg_identity plan),
        si_source_revision = map_option snd (pg_identity plan), si_mode = pg_mode plan, si_raw_keys = pg_raw_keys plan\<rparr>,
      pq_page_index = pg_page_index plan, pq_candidate_set_id = pg_candidate_set_id plan,
      pq_deadline_ms = Some (page_budget_ms plan), pq_deadline_started = Some started\<rparr>"

definition ask_page :: "'e production_engine \<Rightarrow> real \<Rightarrow> page_plan \<Rightarrow> ('e server, candidate_page) handler" where
  "ask_page pr started plan = on_engine (pn_query_page pr (page_query_of started plan) (pg_refresh plan))"

text \<open>\<open>zip(..., strict=True)\<close> raises when the lengths differ.\<close>

definition page_candidate_values :: "int \<Rightarrow> candidate_page \<Rightarrow> json list result" where
  "page_candidate_values epoch page =
     (if length (cp_candidate_ids page) \<noteq> length (cp_candidates page)
      then Inl (ValueError ''zip() arguments have different lengths'')
      else Inr (map (\<lambda>(i, c). JDict (od_set (asc ''context_epoch'') (JInt epoch)
                  (od_set (asc ''candidate_id'') (JStr i) (candidate_to_dict c))))
                (zip (cp_candidate_ids page) (cp_candidates page))))"

definition background_pending :: "'e production_engine \<Rightarrow> real \<Rightarrow> page_plan \<Rightarrow> pystr \<Rightarrow> ('e server, bool) handler" where
  "background_pending pr started plan set_id = (case pn_pending pr of
       BoundedPending f \<Rightarrow> on_engine (f set_id (started + page_budget_ms plan / 1000))
     | PlainPending f \<Rightarrow> on_engine (f set_id)
     | BackgroundSearches f \<Rightarrow> reads_state (\<lambda>s. set_id \<in> set (f (sv_engine s)))
     | NoPages \<Rightarrow> lift_result (Inr False))"

definition page_response :: "page_plan \<Rightarrow> candidate_page \<Rightarrow> json list \<Rightarrow> bool \<Rightarrow> message" where
  "page_response plan page candidates pending = obj
     ([(''type'', jstr ''candidate_page''), (''ok'', JBool True), (''session_id'', JStr (pg_session_id plan)),
       (''composition_revision'', JInt (pg_revision plan)), (''context_epoch'', JInt (pg_epoch plan)),
       (''language_mode'', jstr (mode_value (pg_mode plan))), (''candidate_set_id'', JStr (cp_candidate_set_id page)),
       (''page_index'', JInt (int (cp_page_index page))), (''page_size'', JInt (int (cp_page_size page))),
       (''has_more'', JBool (cp_has_more page)), (''background_pending'', JBool pending),
       (''presentation_refresh'', JBool (pg_refresh plan)), (''score_source'', jstr (cp_score_source page)),
       (''candidates'', JList candidates)]
      @ (case pg_identity plan of None \<Rightarrow> []
         | Some (context_session, source_revision) \<Rightarrow>
             [(''context_session'', JStr context_session), (''source_revision'', JInt source_revision)]))"

text \<open>After the query: the binding is checked again before anything is serialised.\<close>

definition finish_page ::
  "'e production_engine \<Rightarrow> pystr option \<Rightarrow> real \<Rightarrow> message \<Rightarrow> page_plan \<Rightarrow> candidate_page \<Rightarrow> ('e server, message) handler" where
  "finish_page pr request_id started m plan page =
     hbind (binding_error m (pg_epoch plan)) (\<lambda>err.
     case err of
       Some err \<Rightarrow> lift_result (Inr err)
     | None \<Rightarrow>
         hbind (lift_result (page_candidate_values (pg_epoch plan) page)) (\<lambda>candidates.
         hbind (background_pending pr started plan (cp_candidate_set_id page)) (\<lambda>pending.
         lift_result (Inr (with_request_id request_id (page_response plan page candidates pending))))))"

definition handle_page :: "'e production_engine \<Rightarrow> pystr option \<Rightarrow> real \<Rightarrow> message \<Rightarrow> ('e server, message) handler" where
  "handle_page pr request_id started m =
     hbind (prepare_page m) (\<lambda>prepared.
     case prepared of
       Inl err \<Rightarrow> lift_result (Inr err)
     | Inr plan \<Rightarrow> hbind (ask_page pr started plan) (finish_page pr request_id started m plan))"

definition page_exception :: "pystr option \<Rightarrow> py_error \<Rightarrow> message" where
  "page_exception request_id err = (case err of
     ProtocolError msg \<Rightarrow> error_response ''invalid_request'' msg (optional_str request_id) False
   | CandidatePageTimeout msg \<Rightarrow> error_response ''candidate_page_timeout'' ''candidate page search exceeded its absolute deadline''
       (optional_str request_id) True
   | CandidatePageError msg \<Rightarrow> error_response ''candidate_set_invalid'' msg (optional_str request_id) False
   | _ \<Rightarrow> error_response ''internal_error'' ''request processing failed'' (optional_str request_id) True)"

section \<open>Dispatch\<close>

text \<open>A handler of the production server runs after its own parse of \<open>request_id\<close>.\<close>

definition serve_with ::
  "(pystr option \<Rightarrow> py_error \<Rightarrow> message) \<Rightarrow> (pystr option \<Rightarrow> ('e server, message) handler) \<Rightarrow> message \<Rightarrow> 'e server \<Rightarrow> message \<times> 'e server" where
  "serve_with exception h m s = (case optional_identifier m ''request_id'' of
     Inl err \<Rightarrow> (exception None err, s)
   | Inr request_id \<Rightarrow> (case h request_id s of
       (Inl err, s) \<Rightarrow> (exception request_id err, s) | (Inr r, s) \<Rightarrow> (r, s)))"

definition production_handlers ::
  "'e pipe_engine \<Rightarrow> 'e production_engine \<Rightarrow> (string \<times> (message \<Rightarrow> ('e server, message) handler)) list" where
  "production_handlers en pr = map (\<lambda>(k, h). (k, if k = ''focus'' then production_focus en pr else h)) (handlers en)"

definition production_message ::
  "'e pipe_engine \<Rightarrow> 'e production_engine \<Rightarrow> real \<Rightarrow> message \<Rightarrow> 'e server \<Rightarrow> message \<times> 'e server" where
  "production_message en pr started m =
     (if field m ''type'' = jstr ''query_candidate_page''
      then serve_with page_exception (\<lambda>request_id. handle_page pr request_id started m) m
      else if field m ''type'' = jstr ''diagnostics''
      then serve_with exception_response (\<lambda>request_id. handle_diagnostics en pr request_id m) m
      else serve (production_handlers en pr) m)"

section \<open>Moves\<close>

text \<open>
  A page request may be in flight while other messages are handled: its query and its finish are moves
  of their own.
\<close>

inductive production_moves ::
  "'e pipe_engine \<Rightarrow> 'e production_engine \<Rightarrow> ('e \<Rightarrow> 'e \<Rightarrow> bool) \<Rightarrow> 'e server \<Rightarrow> 'e server \<Rightarrow> bool" for en pr background where
  message: "production_moves en pr background s (snd (production_message en pr started m s))"
| asked: "production_moves en pr background s (snd (ask_page pr started plan s))"
| finished: "production_moves en pr background s (snd (finish_page pr request_id started m plan page s))"
| engine: "background (sv_engine s) e \<Longrightarrow> production_moves en pr background s (s\<lparr>sv_engine := e\<rparr>)"

locale production_service = context_engine +
  fixes pr :: "'a production_engine"
  assumes page_law: "keeps live newest (pn_query_page pr q refresh)"
    and invalidate_law: "pn_invalidate_sessions pr = Some h \<Longrightarrow> keeps live newest h"
    and diagnostics_law: "pn_performance_diagnostics pr = Some d \<Longrightarrow> keeps live newest d"
    and bounded_law: "pn_pending pr = BoundedPending f \<Longrightarrow> keeps live newest (f i deadline)"
    and plain_law: "pn_pending pr = PlainPending g \<Longrightarrow> keeps live newest (g i)"

lemma production_handlersE:
  assumes "(k, h) \<in> set (production_handlers en pr)"
  obtains "k \<noteq> ''focus''" "(k, h) \<in> set (handlers en)" | "k = ''focus''" "h = production_focus en pr"
  using assms by (auto simp: production_handlers_def split: if_splits)

context production_service begin

lemma finish_page_safe: "safe (finish_page pr request_id started m plan page)"
proof -
  have "safe (background_pending pr started plan i)" for i
    using bounded_law plain_law
    by (cases "pn_pending pr") (auto simp: background_pending_def intro!: safe_rules safe_engine)
  then show ?thesis
    unfolding finish_page_def by (intro safe_rules) (auto intro!: safe_rules split: option.split)
qed

lemma ask_page_safe: "safe (ask_page pr started plan)"
  unfolding ask_page_def by (intro safe_engine page_law)

lemma handle_page_safe: "safe (handle_page pr request_id started m)"
proof -
  have "safe (prepare_page m)"
    unfolding prepare_page_def by (intro safe_rules) (auto intro!: safe_rules split: option.split)
  then show ?thesis
    unfolding handle_page_def
    by (intro safe_bind) (auto intro!: safe_rules ask_page_safe finish_page_safe split: sum.split)
qed

lemma handle_diagnostics_safe: "safe (handle_diagnostics en pr request_id m)"
  unfolding handle_diagnostics_def
  by (auto intro!: safe_rules safe_engine diagnostics_law split: option.split json.split prod.split)

lemma production_handler_safe: "(k, h) \<in> set (production_handlers en pr) \<Longrightarrow> safe (h m)"
proof (erule production_handlersE)
  assume "h = production_focus en pr"
  moreover have "safe (handle_focus en m)" by (rule handler_safe [of "''focus''"]) (simp add: handlers_def)
  ultimately show "safe (h m)"
    unfolding production_focus_def by (auto intro!: safe_rules safe_optionally invalidate_law)
qed (rule handler_safe)

lemma serve_with_advances:
  "(\<And>i. safe (h i)) \<Longrightarrow> server_ok s \<Longrightarrow> advances s (snd (serve_with exception h m s))"
  by (auto simp: serve_with_def rel_refl dest: safeD split: sum.split prod.split)

lemma production_message_advances: "server_ok s \<Longrightarrow> advances s (snd (production_message en pr started m s))"
proof -
  assume ok: "server_ok s"
  have "safe (dispatch (production_handlers en pr) i m)" for i
    unfolding dispatch_def
    by (auto intro!: safe_rules dest!: map_of_SomeD intro: production_handler_safe split: json.split option.split)
  then have "advances s (snd (serve (production_handlers en pr) m s))"
    using ok by (auto simp: serve_def guarded_def rel_refl dest: safeD split: sum.split prod.split)
  then show ?thesis
    unfolding production_message_def
    using ok serve_with_advances handle_page_safe handle_diagnostics_safe by simp
qed

lemma production_moves_advances: "production_moves en pr background s t \<Longrightarrow> server_ok s \<Longrightarrow> advances s t"
proof (induction rule: production_moves.induct)
  case (engine s e)
  then show ?case using server_moves_advances server_moves.engine by metis
next
  case (message s started m)
  then show ?case by (rule production_message_advances)
qed (use safeD ask_page_safe finish_page_safe in \<open>metis prod.collapse\<close>)+

lemma production_steps_advance: "(production_moves en pr background)\<^sup>*\<^sup>* s t \<Longrightarrow> server_ok s \<Longrightarrow> advances s t"
  using rel_steps production_moves_advances by blast

end

section \<open>Secure focus and pages in flight\<close>

lemma dispatch_production_focus:
  "field m ''type'' = jstr ''focus''
     \<Longrightarrow> dispatch (production_handlers en pr) i m = hbind (production_focus en pr m) (\<lambda>r. lift_result (Inr (with_request_id i r)))"
  by (simp add: dispatch_def production_handlers_def handlers_def jstr_def)

lemma handle_focus_clears:
  "parse_focus m = Inr (sid, focused, True) \<Longrightarrow> handle_focus en m s = (r, s') \<Longrightarrow> sv_context_bindings s' = []"
  using secure_cleanup_clears [of en s]
  by (auto simp: handle_focus_def hbind_def lift_result_def split: prod.splits sum.splits)

lemma production_focus_clears:
  assumes "parse_focus m = Inr (sid, focused, True)" "production_focus en pr m s = (r, s')"
  shows "sv_context_bindings s' = []"
proof (cases "handle_focus en m s")
  case (Pair r1 s1)
  have clear: "sv_context_bindings s1 = []" using handle_focus_clears [OF assms(1) Pair] .
  have keep: "optionally h s1 = (r2, s2) \<Longrightarrow> sv_context_bindings s2 = []" for h :: "('a, unit) handler option" and r2 s2
    using clear by (auto simp: optionally_def lift_result_def dest: on_engine_bindings split: option.splits)
  show ?thesis
    using assms(2) Pair clear keep
    by (auto simp: production_focus_def hbind_def lift_result_def split: sum.splits prod.splits if_splits)
qed

lemma production_focus_message:
  assumes "is_secure_focus m"
  shows "sv_context_bindings (snd (production_message en pr started m s)) = []"
proof -
  obtain i where i: "optional_identifier m ''request_id'' = Inr i" "field m ''type'' = jstr ''focus''"
    using assms by (auto simp: is_secure_focus_def split: sum.splits)
  obtain sid foc where p: "parse_focus m = Inr (sid, foc, True)"
    using assms by (auto simp: is_secure_focus_def split: sum.splits)
  have "production_message en pr started m s = guarded i (hbind (production_focus en pr m) (\<lambda>r. lift_result (Inr (with_request_id i r)))) s"
    by (simp add: production_message_def i(2) jstr_def serve_def i(1) dispatch_production_focus [unfolded jstr_def])
  then show ?thesis
    using production_focus_clears [OF p, of en pr s]
    by (auto simp: guarded_def hbind_def lift_result_def split: prod.split sum.split)
qed

text \<open>A plan for a nonzero epoch carries an identity, and was bound to its epoch when it was made.\<close>

lemma parse_page_identity:
  assumes "parse_page_request m = Inr plan"
  shows "optional_query_identity m = Inr (pg_identity plan)" "pg_epoch plan > 0 \<Longrightarrow> pg_identity plan \<noteq> None"
  using assms by (auto simp: parse_page_request_def result_splits split: if_splits)

lemma prepare_page_bound:
  assumes "prepare_page m s = (Inr (Inr plan), s')" "pg_epoch plan > 0"
  shows "parse_page_request m = Inr plan" "map_of (sv_context_bindings s) (pg_epoch plan) \<noteq> None" "s' = s"
proof -
  from assms(1) obtain plan' where p: "parse_page_request m = Inr plan'"
    by (cases "parse_page_request m") (auto simp: prepare_page_def lift_result_def)
  from assms(1) have e: "plan' = plan" "binding_error m (pg_epoch plan) s = (Inr None, s)" "s' = s"
    by (auto simp: prepare_page_def p hbind_def lift_result_def binding_error_def split: prod.splits sum.splits option.splits)
  show "parse_page_request m = Inr plan" "s' = s" using p e by simp_all
  obtain cs sr where "pg_identity plan = Some (cs, sr)"
    using parse_page_identity(2) [OF p] e(1) assms(2) by (metis not_None_eq surj_pair)
  then show "map_of (sv_context_bindings s) (pg_epoch plan) \<noteq> None"
    using e(2) parse_page_identity(1) [OF p] assms(2) e(1) by (auto simp: binding_error_def bound_to_def split: if_splits)
qed

definition mismatch :: "message \<Rightarrow> message" where
  "mismatch m = error_response ''context_session_mismatch'' ''requested editor context identity does not match model epoch''
     (field m ''request_id'') False"

lemma finish_unbound:
  assumes "parse_page_request m = Inr plan" "pg_epoch plan > 0" "map_of (sv_context_bindings s) (pg_epoch plan) = None"
  shows "finish_page pr request_id started m plan page s = (Inr (mismatch m), s)"
proof -
  obtain cs sr where "pg_identity plan = Some (cs, sr)"
    using parse_page_identity(2) [OF assms(1,2)] by (metis not_None_eq surj_pair)
  then show ?thesis
    using parse_page_identity(1) [OF assms(1)] assms(2,3)
    by (simp add: finish_page_def hbind_def binding_error_def bound_to_def lift_result_def mismatch_def)
qed

context production_service begin

lemma in_flight_page_refused:
  assumes "server_ok s" "prepare_page m s = (Inr (Inr plan), s0)" "pg_epoch plan > 0"
    and "(production_moves en pr background)\<^sup>*\<^sup>* s s1" "is_secure_focus f" "s2 = snd (production_message en pr now f s1)"
    and "(production_moves en pr background)\<^sup>*\<^sup>* s2 t"
  shows "finish_page pr request_id started m plan page t = (Inr (mismatch m), t)"
proof (rule finish_unbound)
  note p = prepare_page_bound [OF assms(2,3)]
  show "parse_page_request m = Inr plan" "pg_epoch plan > 0" using p(1) assms(3) .
  have "pg_epoch plan \<in> fst ` set (sv_context_bindings s)" using p(2) by (simp add: map_of_eq_None_iff)
  then have "pg_epoch plan \<le> newest (sv_engine s)" using assms(1) unfolding server_ok_def by blast
  moreover have a1: "advances s s1" using production_steps_advance [OF assms(4,1)] .
  moreover have a2: "advances s1 s2" using a1 production_message_advances assms(6) by (simp add: advances_def)
  moreover have a3: "advances s2 t" using a2 production_steps_advance [OF assms(7)] by (simp add: advances_def)
  ultimately have "pg_epoch plan \<le> newest (sv_engine s2)" by (auto simp: advances_def)
  moreover have "sv_context_bindings s2 = []" using production_focus_message [OF assms(5)] assms(6) by simp
  ultimately show "map_of (sv_context_bindings t) (pg_epoch plan) = None"
    using a3 unfolding advances_def by (metis map_of.simps(1) not_None_eq)
qed

end

section \<open>Diagnostics\<close>

text \<open>What a reported value may be: nothing, a flag, a number that is not negative, or one of seven words.\<close>

definition harmless_metric :: "json \<Rightarrow> bool" where
  "harmless_metric v = (case v of
       JNull \<Rightarrow> True | JBool _ \<Rightarrow> True | JInt i \<Rightarrow> 0 \<le> i | JFloat f \<Rightarrow> \<not> float_negative f
     | JStr s \<Rightarrow> s \<in> set (map asc ([''continuation'', ''fim''] @ CONTINUATION_OUTCOMES)) | _ \<Rightarrow> False)"

lemma safe_metric_harmless: "safe_runtime_metric key v = Inr w \<Longrightarrow> harmless_metric w"
  by (auto simp: safe_runtime_metric_def harmless_metric_def float_negative_def Let_def split: if_splits json.splits)

lemma runtime_metrics_harmless:
  assumes "runtime_metrics raw = Inr metrics"
  shows "map fst metrics = map asc runtime_keys" "(k, v) \<in> set metrics \<Longrightarrow> harmless_metric v"
proof -
  have "rmap (\<lambda>key. rbind (safe_runtime_metric key (field raw key)) (\<lambda>v. Inr (asc key, v))) keys = Inr ms
     \<Longrightarrow> map fst ms = map asc keys \<and> (\<forall>(k, v) \<in> set ms. harmless_metric v)" for keys ms
    by (induction keys arbitrary: ms) (auto simp: result_splits safe_metric_harmless)
  from this [OF assms [unfolded runtime_metrics_def]] show "map fst metrics = map asc runtime_keys"
    "(k, v) \<in> set metrics \<Longrightarrow> harmless_metric v" by auto
qed

definition diagnostic_fields :: "string list" where
  "diagnostic_fields = [''type'', ''ok'', ''context_epoch'', ''requested_context_epoch'', ''context_updating''] @ runtime_keys @ [''request_id'']"

lemma distinct_diagnostic_fields: "distinct diagnostic_fields"
  by code_simp

lemma diagnostics_shape:
  assumes "handle_diagnostics en pr request_id m s = (Inr r, s')"
  obtains (refused) "r = error_response ''diagnostics_unavailable'' ''runtime performance diagnostics are unavailable'' (optional_str request_id) False"
    | (reported) ready asked updating metrics raw where "runtime_metrics raw = Inr metrics"
      "r = with_request_id request_id (obj [(''type'', jstr ''diagnostics''), (''ok'', JBool True), (''context_epoch'', JInt ready),
             (''requested_context_epoch'', JInt asked), (''context_updating'', JBool updating)] @ metrics)"
  using assms
  by (fastforce simp: handle_diagnostics_def hbind_def lift_result_def reads_state_def split: sum.splits prod.splits option.splits json.splits)

text \<open>A float that is not a number passes the check for negative values.\<close>

lemma nan_latency_accepted: "safe_runtime_metric ''last_refresh_latency_ms'' (JFloat NaN) = Inr (JFloat NaN)"
  by code_simp

section \<open>Responses\<close>

definition well_answered :: "pystr option \<Rightarrow> message \<Rightarrow> bool" where
  "well_answered i r \<longleftrightarrow> well_formed_response r \<and> echoes (optional_str i) r"

lemma error_answers: "well_answered i (error_response code msg (optional_str i) retry)"
  by (simp add: well_answered_def message_simps error_response_def)

lemma exception_answers: "well_answered i (exception_response i err)" "well_answered i (page_exception i err)"
  by (cases err; simp add: exception_response_def page_exception_def error_answers)+

lemma with_id_answers: "good_response (optional_str i) r \<Longrightarrow> well_answered i (with_request_id i r)"
  using good_with_request_id by (simp add: well_answered_def)

lemma binding_error_answers:
  assumes "optional_identifier m ''request_id'' = Inr i"
  shows "answers (\<lambda>err. case err of None \<Rightarrow> True | Some r \<Rightarrow> well_answered i r) (binding_error m epoch)"
  by (rule answersI, cases "optional_query_identity m")
    (auto simp: binding_error_def error_answers optional_identifier_field [OF assms] split: option.splits if_splits)

lemma page_answers:
  assumes "optional_identifier m ''request_id'' = Inr i"
  shows "answers (well_answered i) (handle_page pr i started m)"
proof -
  have response: "good_response (optional_str i) (page_response plan page candidates pending)" for plan page candidates pending
  proof (cases "pg_identity plan")
    case (Some identity)
    then show ?thesis by (cases identity) (simp add: page_response_def message_simps)
  qed (simp add: page_response_def message_simps)
  have finish: "answers (well_answered i) (finish_page pr i started m plan page)" for plan page
    unfolding finish_page_def
    by (rule answers_bind [OF binding_error_answers [OF assms]])
      (auto intro!: answers_lift answers_then with_id_answers response split: option.splits)
  have "answers (\<lambda>p. case p of Inl r \<Rightarrow> well_answered i r | Inr plan \<Rightarrow> True) (prepare_page m)"
    unfolding prepare_page_def
    by (rule answers_then, rule answers_bind [OF binding_error_answers [OF assms]])
      (auto intro!: answers_lift answers_then split: option.splits)
  then show ?thesis
    unfolding handle_page_def
    by (rule answers_bind) (auto intro!: answers_lift answers_then finish split: sum.splits)
qed

lemma diagnostics_answers: "answers (well_answered i) (handle_diagnostics en pr i m)"
proof (rule answersI)
  fix s r s'
  assume "handle_diagnostics en pr i m s = (Inr r, s')"
  then show "well_answered i r"
  proof (cases rule: diagnostics_shape)
    case refused
    then show ?thesis by (simp add: error_answers)
  next
    case (reported ready asked updating metrics raw)
    let ?r = "obj [(''type'', jstr ''diagnostics''), (''ok'', JBool True), (''context_epoch'', JInt ready),
        (''requested_context_epoch'', JInt asked), (''context_updating'', JBool updating)] @ metrics"
    have keys: "map fst ?r @ [asc ''request_id''] = map asc diagnostic_fields"
      using runtime_metrics_harmless(1) [OF reported(1)] by (simp add: diagnostic_fields_def obj_def)
    have "inj asc" by (simp add: inj_def)
    then have d: "distinct (map fst ?r @ [asc ''request_id''])"
      unfolding keys using distinct_diagnostic_fields by (simp add: distinct_map inj_on_subset [OF \<open>inj asc\<close> subset_UNIV])
    have "asc ''error'' \<notin> set (map asc diagnostic_fields)" by code_simp
    then have "map_of ?r (asc ''error'') = None" "map_of ?r (asc ''request_id'') = None"
      using d unfolding keys [symmetric] by (auto simp: map_of_eq_None_iff)
    moreover have "field ?r ''ok'' = JBool True" by (simp add: field_def obj_def)
    ultimately have "good_response (optional_str i) ?r"
      using d by (simp add: good_response_def well_formed_response_def has_field_def)
    then show ?thesis unfolding reported(2) by (rule with_id_answers)
  qed
qed

lemma production_handler_answers:
  "(k, h) \<in> set (production_handlers en pr) \<Longrightarrow> answers (good_response (field m ''request_id'')) (h m)"
proof (erule production_handlersE)
  assume h: "h = production_focus en pr"
  have focus: "answers (good_response (field m ''request_id'')) (handle_focus en m)"
    by (rule handler_answers [of "''focus''"]) (simp add: handlers_def)
  show "answers (good_response (field m ''request_id'')) (h m)"
    unfolding h production_focus_def
    by (rule answers_bind [OF focus]) (auto intro: answers_then answers_lift)
qed (rule handler_answers)

lemma serve_production_answers:
  assumes "optional_identifier m ''request_id'' = Inr i"
  shows "answers (well_answered i) (dispatch (production_handlers en pr) i m)"
proof -
  have "answers (well_answered i) (hbind (h m) (\<lambda>r. lift_result (Inr (with_request_id i r))))"
    if "(k, h) \<in> set (production_handlers en pr)" for k h
    using production_handler_answers [OF that, of m]
    by (rule answers_bind) (auto intro!: answers_lift with_id_answers simp: optional_identifier_field [OF assms])
  then show ?thesis
    unfolding dispatch_def by (auto intro!: answers_lift error_answers dest!: map_of_SomeD split: json.split option.split)
qed

text \<open>
  Claim C40. Every message to the production server, page and diagnostics requests included, is answered
  with a well-formed response, whatever the message holds and whatever engine and page manager do: a
  success or an error object that carries the request's own valid \<open>request_id\<close> and no other.
\<close>

theorem production_responses_well_formed:
  "well_formed_response (fst (production_message en pr started m s))
   \<and> echoes (case optional_identifier m ''request_id'' of Inl _ \<Rightarrow> JNull | Inr i \<Rightarrow> optional_str i)
       (fst (production_message en pr started m s))"
proof -
  have serve_with: "well_answered (case optional_identifier m ''request_id'' of Inl _ \<Rightarrow> None | Inr i \<Rightarrow> i) (fst (serve_with exception h m s))"
    if "\<And>i. optional_identifier m ''request_id'' = Inr i \<Longrightarrow> answers (well_answered i) (h i)"
      "\<And>i err. well_answered i (exception i err)" for exception and h :: "pystr option \<Rightarrow> ('a server, message) handler"
    using that by (auto simp: serve_with_def dest: answersD split: sum.split prod.split)
  have "well_answered (case optional_identifier m ''request_id'' of Inl _ \<Rightarrow> None | Inr i \<Rightarrow> i) (fst (serve (production_handlers en pr) m s))"
    by (auto simp: serve_def exception_answers guarded_def dest: answersD [OF serve_production_answers] split: sum.split prod.split)
  then have "well_answered (case optional_identifier m ''request_id'' of Inl _ \<Rightarrow> None | Inr i \<Rightarrow> i) (fst (production_message en pr started m s))"
    using serve_with [OF page_answers exception_answers(2)] serve_with [OF diagnostics_answers exception_answers(1)]
    by (simp add: production_message_def)
  then show ?thesis by (simp add: well_answered_def optional_str_def split: sum.splits)
qed

end
