(* ===== verification/Epoch_Tasks.thy ===== *)
theory Epoch_Tasks
  imports Realtime
begin

text \<open>
  Every requested epoch of \<open>SnapshotCoordinator\<close> is held by one task at a time: the pending slot, the
  worker or one caller.  A task gives its epoch up when it publishes, so no epoch is published twice,
  and the state stored under an epoch never changes, however the threads interleave.  This is what
  makes a cache keyed by epochs safe.
\<close>

datatype task_slot = PendingSlot | WorkerSlot | CallerSlot nat

fun worker_epoch :: "('p, 'r) worker_pc \<Rightarrow> nat option" where
  "worker_epoch (Waiting (e, _, _)) = Some e"
| "worker_epoch (Forwarding (e, _, _)) = Some e"
| "worker_epoch (Publishing e _) = Some e"
| "worker_epoch _ = None"

fun caller_epoch :: "('p, 'r) caller_pc option \<Rightarrow> nat option" where
  "caller_epoch (Some (UpdateWaiting (e, _, _))) = Some e"
| "caller_epoch (Some (UpdateForwarding (e, _, _))) = Some e"
| "caller_epoch (Some (UpdatePublishing e _)) = Some e"
| "caller_epoch _ = None"

fun task_epoch :: "('b, 'p, 'r) coordinator \<Rightarrow> task_slot \<Rightarrow> nat option" where
  "task_epoch c PendingSlot = map_option fst (co_pending c)"
| "task_epoch c WorkerSlot = worker_epoch (co_worker c)"
| "task_epoch c (CallerSlot t) = caller_epoch (co_callers c t)"

section \<open>How one event moves the tasks\<close>

text \<open>Tasks end, one new task starts under a fresh epoch, or the worker takes the pending request.\<close>

definition tasks_end :: "('b, 'p, 'r) coordinator \<Rightarrow> ('b, 'p, 'r) coordinator \<Rightarrow> bool" where
  "tasks_end c c' \<longleftrightarrow> co_requested_epoch c' \<ge> co_requested_epoch c
     \<and> (\<forall>i e. task_epoch c' i = Some e \<longrightarrow> task_epoch c i = Some e)"

definition task_starts :: "('b, 'p, 'r) coordinator \<Rightarrow> ('b, 'p, 'r) coordinator \<Rightarrow> bool" where
  "task_starts c c' \<longleftrightarrow> co_requested_epoch c' = Suc (co_requested_epoch c)
     \<and> (\<exists>k. \<forall>i e. task_epoch c' i = Some e \<longrightarrow> i = k \<and> e = Suc (co_requested_epoch c) \<or> i \<noteq> k \<and> task_epoch c i = Some e)"

definition task_taken :: "('b, 'p, 'r) coordinator \<Rightarrow> ('b, 'p, 'r) coordinator \<Rightarrow> bool" where
  "task_taken c c' \<longleftrightarrow> co_requested_epoch c' = co_requested_epoch c \<and> task_epoch c' PendingSlot = None
     \<and> task_epoch c' WorkerSlot = task_epoch c PendingSlot
     \<and> (\<forall>t. task_epoch c' (CallerSlot t) = task_epoch c (CallerSlot t))"

lemma all_slots: "(\<forall>i. P i) \<longleftrightarrow> P PendingSlot \<and> P WorkerSlot \<and> (\<forall>t. P (CallerSlot t))"
  by (metis task_slot.exhaust)

lemma caller_free_epoch: "caller_free pc \<Longrightarrow> caller_epoch pc = None"
  by (auto simp: caller_free_def split: option.splits caller_pc.splits)

lemma step_tasks:
  assumes "coordinator_step api ev c = Some c'"
  shows "tasks_end c c' \<or> task_starts c c' \<or> task_taken c c'"
proof (cases ev)
  case (RequestUpdate before after)
  have "worker_epoch (case w of NoWorker \<Rightarrow> Polling | w \<Rightarrow> w) = worker_epoch w" for w :: "('b, 'c) worker_pc"
    by (cases w) auto
  with RequestUpdate assms have "task_starts c c'"
    unfolding task_starts_def by (intro conjI exI [of _ PendingSlot]) (auto simp: Let_def all_slots)
  then show ?thesis by simp
next
  case (BeginUpdate t before after)
  with assms have "task_starts c c'"
    unfolding task_starts_def by (intro conjI exI [of _ "CallerSlot t"]) (auto simp: Let_def all_slots split: if_splits)
  then show ?thesis by simp
next
  case WorkerPoll
  with assms show ?thesis
    by (auto simp: tasks_end_def task_taken_def all_slots split: worker_pc.splits option.splits)
qed (use assms in \<open>auto simp: tasks_end_def all_slots Let_def publish_state_def
  split: worker_pc.splits caller_pc.splits option.splits if_splits prod.splits sum.splits\<close>)

text \<open>A publication stores the state of a task that ends with it.\<close>

lemma step_publishes:
  assumes "coordinator_step api ev c = Some c'" "coordinator_ok api c"
  shows "co_states c' = co_states c \<or> co_states c' = [] \<or> (\<exists>i s. task_epoch c i = Some (bs_epoch s)
     \<and> tasks_end c c' \<and> task_epoch c' i = None
     \<and> co_states c' = retain (co_retained_states c) (od_set (bs_epoch s) s (co_states c)))"
proof (cases "ev = WorkerPublish \<or> (\<exists>t. ev = PublishUpdate t)")
  case True
  then consider "ev = WorkerPublish" | t where "ev = PublishUpdate t" by blast
  then show ?thesis
  proof cases
    case 1
    with assms(1) obtain e s where pc: "co_worker c = Publishing e s" by (auto split: worker_pc.splits)
    then have "bs_epoch s = e" using assms(2) by (simp add: coordinator_ok_def tasks_ok_def answers_def)
    with 1 pc assms(1) show ?thesis
      by (auto simp: Let_def publish_state_def tasks_end_def all_slots split: if_splits intro!: exI [of _ WorkerSlot] exI [of _ s])
  next
    case 2
    with assms(1) obtain e s where pc: "co_callers c t = Some (UpdatePublishing e s)"
      by (auto split: caller_pc.splits option.splits)
    then have "bs_epoch s = e" using assms(2) by (force simp: coordinator_ok_def tasks_ok_def answers_def)
    with 2 pc assms(1) show ?thesis
      by (auto simp: Let_def publish_state_def tasks_end_def all_slots split: if_splits intro!: exI [of _ "CallerSlot t"] exI [of _ s])
  qed
next
  case False
  with assms(1) have "co_states c' = co_states c \<or> co_states c' = []"
    by (cases ev) (auto simp: Let_def split: worker_pc.splits caller_pc.splits option.splits if_splits prod.splits sum.splits)
  then show ?thesis by blast
qed

section \<open>An epoch is used once\<close>

text \<open>\<open>used\<close> holds every epoch that has been published; no task holds a used epoch.\<close>

definition single_tasks :: "('b, 'p, 'r) coordinator \<Rightarrow> nat set \<Rightarrow> bool" where
  "single_tasks c used \<longleftrightarrow> (\<forall>i j e. task_epoch c i = Some e \<longrightarrow> task_epoch c j = Some e \<longrightarrow> i = j)
     \<and> (\<forall>i e. task_epoch c i = Some e \<longrightarrow> e \<notin> used \<and> e \<le> co_requested_epoch c)
     \<and> (\<forall>e \<in> used. e \<le> co_requested_epoch c) \<and> fst ` set (co_states c) \<subseteq> used"

lemma single_tasksI:
  assumes "\<And>i j e. task_epoch c i = Some e \<Longrightarrow> task_epoch c j = Some e \<Longrightarrow> i = j"
    and "\<And>i e. task_epoch c i = Some e \<Longrightarrow> e \<notin> used \<and> e \<le> co_requested_epoch c"
    and "\<And>e. e \<in> used \<Longrightarrow> e \<le> co_requested_epoch c" "fst ` set (co_states c) \<subseteq> used"
  shows "single_tasks c used"
  using assms unfolding single_tasks_def by blast

lemma single_tasksD:
  assumes "single_tasks c used"
  shows "task_epoch c i = Some e \<Longrightarrow> task_epoch c j = Some e \<Longrightarrow> i = j"
    and "task_epoch c i = Some e \<Longrightarrow> e \<notin> used \<and> e \<le> co_requested_epoch c"
    and "e \<in> used \<Longrightarrow> e \<le> co_requested_epoch c" and "fst ` set (co_states c) \<subseteq> used"
  using assms unfolding single_tasks_def by blast+

lemma single_tasks_new: "new_coordinator backend n = Inr c \<Longrightarrow> single_tasks c {}"
  by (auto simp: new_coordinator_def single_tasks_def all_slots split: if_splits)

lemma map_of_retain: "od_ok d \<Longrightarrow> map_of (retain n d) k = Some v \<Longrightarrow> map_of d k = Some v"
  by (meson map_of_SomeD map_of_is_SomeI od_ok_def retain_subset subsetD)

lemma single_tasks_moved:
  assumes "tasks_end c c' \<or> task_starts c c' \<or> task_taken c c'" "single_tasks c used"
    and "fst ` set (co_states c') \<subseteq> fst ` set (co_states c)"
  shows "single_tasks c' used"
  using assms(1)
proof (elim disjE)
  assume "tasks_end c c'"
  then show ?thesis using assms(2,3) unfolding tasks_end_def single_tasks_def by (meson order_trans)
next
  assume "task_starts c c'"
  then obtain k where k: "co_requested_epoch c' = Suc (co_requested_epoch c)"
    "\<And>i e. task_epoch c' i = Some e \<Longrightarrow> i = k \<and> e = Suc (co_requested_epoch c) \<or> i \<noteq> k \<and> task_epoch c i = Some e"
    unfolding task_starts_def by blast
  have old: "\<And>i e. task_epoch c i = Some e \<Longrightarrow> e \<le> co_requested_epoch c" "\<And>e. e \<in> used \<Longrightarrow> e \<le> co_requested_epoch c"
    using assms(2) unfolding single_tasks_def by blast+
  have "i = j" if "task_epoch c' i = Some e" "task_epoch c' j = Some e" for i j e
    using k(2) [OF that(1)] k(2) [OF that(2)] old(1) assms(2) unfolding single_tasks_def by (metis Suc_n_not_le_n)
  moreover have "e \<notin> used \<and> e \<le> co_requested_epoch c'" if "task_epoch c' i = Some e" for i e
    using k(2) [OF that] old assms(2) unfolding single_tasks_def k(1) by (metis Suc_n_not_le_n le_Suc_eq)
  ultimately show ?thesis using assms(2,3) old(2) unfolding single_tasks_def k(1) by (meson le_SucI order_trans)
next
  assume t: "task_taken c c'"
  have held: "\<exists>k. task_epoch c k = Some e \<and> (k = PendingSlot \<longleftrightarrow> i = WorkerSlot) \<and> (k \<noteq> PendingSlot \<longrightarrow> k = i)"
    if "task_epoch c' i = Some e" for i e
    using t that unfolding task_taken_def
    by (cases i) (auto intro: exI [of _ PendingSlot], metis task_epoch.simps(3) task_slot.distinct(3))
  then have "i = j" if "task_epoch c' i = Some e" "task_epoch c' j = Some e" for i j e
    using held [OF that(1)] held [OF that(2)] single_tasksD(1) [OF assms(2)] by metis
  moreover have "e \<notin> used \<and> e \<le> co_requested_epoch c" if "task_epoch c' i = Some e" for i e
    using held [OF that] single_tasksD(2) [OF assms(2)] by blast
  ultimately show ?thesis using t assms(3) single_tasksD(3,4) [OF assms(2)]
    by (intro single_tasksI) (auto simp: task_taken_def)
qed

text \<open>One event uses at most one more epoch, and leaves the states of the used ones alone.\<close>

lemma single_tasks_step:
  assumes "coordinator_step api ev c = Some c'" "coordinator_ok api c" "single_tasks c used"
  shows "\<exists>used'. single_tasks c' used' \<and> used \<subseteq> used'
     \<and> (\<forall>e \<in> used. \<forall>s. map_of (co_states c') e = Some s \<longrightarrow> map_of (co_states c) e = Some s)"
  using step_publishes [OF assms(1,2)]
proof (elim disjE exE conjE)
  fix i s
  assume p: "task_epoch c i = Some (bs_epoch s)" "tasks_end c c'" "task_epoch c' i = None"
    "co_states c' = retain (co_retained_states c) (od_set (bs_epoch s) s (co_states c))"
  let ?d = "od_set (bs_epoch s) s (co_states c)"
  have od: "od_ok ?d" using assms(2) by (simp add: coordinator_ok_def store_ok_def)
  have grow: "co_requested_epoch c \<le> co_requested_epoch c'" using p(2) by (simp add: tasks_end_def)
  have kept: "task_epoch c j = Some e" if "task_epoch c' j = Some e" for j e
    using that p(2) by (simp add: tasks_end_def)
  have old: "j = k" if "task_epoch c' j = Some e" "task_epoch c' k = Some e" for j k e
    using single_tasksD(1) [OF assms(3) kept [OF that(1)] kept [OF that(2)]] .
  have fresh: "bs_epoch s \<notin> used" "bs_epoch s \<le> co_requested_epoch c" using assms(3) p(1) unfolding single_tasks_def by blast+
  have stored: "fst ` set (co_states c') \<subseteq> insert (bs_epoch s) used"
  proof -
    have "fst ` set (co_states c') \<subseteq> fst ` set ?d" unfolding p(4) by (rule image_mono [OF retain_subset])
    also have "\<dots> \<subseteq> insert (bs_epoch s) used" using assms(3) by (auto simp: single_tasks_def)
    finally show ?thesis .
  qed
  have held: "e \<notin> insert (bs_epoch s) used \<and> e \<le> co_requested_epoch c'" if "task_epoch c' j = Some e" for j e
  proof -
    have "e \<noteq> bs_epoch s"
      using single_tasksD(1) [OF assms(3) kept [OF that], of i] p(1,3) that by auto
    then show ?thesis using single_tasksD(2) [OF assms(3) kept [OF that]] grow by auto
  qed
  have bound: "e \<le> co_requested_epoch c'" if "e \<in> insert (bs_epoch s) used" for e
    using that fresh(2) single_tasksD(3) [OF assms(3), of e] grow by auto
  have "single_tasks c' (insert (bs_epoch s) used)"
    by (rule single_tasksI [OF old held bound stored])
  moreover have "map_of (co_states c) e = Some u" if "e \<in> used" "map_of (co_states c') e = Some u" for e u
    using map_of_retain [OF od that(2) [unfolded p(4)]] that(1) fresh(1) by (auto simp: map_of_od_set split: if_splits)
  ultimately show ?thesis by blast
qed (use single_tasks_moved [OF step_tasks [OF assms(1)] assms(3)] in auto)

end
