(* ===== verification/Bilingual_Engine.thy ===== *)
theory Bilingual_Engine
  imports Epoch_Tasks Unified Candidate_Pages Bounded_Cache
begin

text \<open>
  \<open>BilingualImeEngine\<close> (\<open>bilingual_engine.py\<close>): the service-facing engine.  It couples the snapshot
  coordinator with the unified constraint engine, retains the editor context of each epoch, memoises
  query results per epoch, input, limit and stable script, and forwards page queries to a page
  manager.  The page manager of production (\<open>neural_candidate_pages.py\<close>) is an argument, as are the
  backend and the constraints.  A method is one move; between methods the coordinator's worker thread
  moves on its own.  Callers use thread \<open>0\<close> of the coordinator.
\<close>

section \<open>The engine\<close>

type_synonym cache_key = "nat \<times> pystr \<times> int \<times> string option"

text \<open>What the engine calls on the page manager, which shares the backend.\<close>

record ('g, 'b, 'p, 'r) page_service =
  ps_query_page :: "page_query \<Rightarrow> bool \<Rightarrow> ('p, 'r) backend_state option \<Rightarrow> ('g \<times> 'b, candidate_page) handler"
  ps_clear_sessions :: "'g \<Rightarrow> 'g"
  ps_baseline_ready :: "'g \<Rightarrow> bool"
  ps_install_baseline_scores :: "pyfloat list \<Rightarrow> 'r option \<Rightarrow> ('g \<times> 'b, unit) handler"
  ps_prewarm_single_letter_pages :: "('g \<times> 'b, unit) handler"

text \<open>
  \<open>be_scores\<close> is \<open>np.asarray(payload, dtype=np.float32)\<close>; \<open>warm_candidate_continuation\<close> is looked up
  with \<open>getattr\<close>.
\<close>

record ('g, 'b, 'p, 'r) bilingual_env =
  be_db :: unicode_db
  be_api :: "('b, 'p, 'r) model_api"
  be_latest_state :: "'b \<Rightarrow> ('p, 'r) backend_state option"
  be_pinyin_constraint :: "('p, 'r) backend_state constraint option"
  be_latin_prefix_constraint :: "('p, 'r) backend_state constraint"
  be_pages :: "('g, 'b, 'p, 'r) page_service"
  be_scores :: "'p \<Rightarrow> pyfloat array result"
  be_warm_candidate_continuation :: "('r option \<Rightarrow> real \<Rightarrow> ('b, bool) handler) option"

record ('g, 'b, 'p, 'r) bilingual =
  bi_coordinator :: "('b, 'p, 'r) coordinator"
  bi_policy :: policy
  bi_contexts :: "(nat, pystr \<times> pystr) odict"
  bi_retained_contexts :: nat
  bi_query_cache :: "(cache_key, candidate list) odict"
  bi_pages :: 'g

definition BASELINE_CONTINUATION_WARMUP_DEADLINE_MS :: real where
  "BASELINE_CONTINUATION_WARMUP_DEADLINE_MS = 20000"

definition QUERY_CACHE_ENTRIES :: nat where "QUERY_CACHE_ENTRIES = 256"

definition new_bilingual :: "'b \<Rightarrow> 'g \<Rightarrow> nat \<Rightarrow> ('g, 'b, 'p, 'r) bilingual result" where
  "new_bilingual backend pages retained_contexts =
     rbind (new_coordinator backend retained_contexts) (\<lambda>c.
       Inr \<lparr>bi_coordinator = c, bi_policy = default_policy, bi_contexts = [],
            bi_retained_contexts = retained_contexts, bi_query_cache = [], bi_pages = pages\<rparr>)"

definition constraint_engine ::
  "('g, 'b, 'p, 'r) bilingual_env \<Rightarrow> ('g, 'b, 'p, 'r) bilingual \<Rightarrow> ('p, 'r) backend_state unified_engine" where
  "constraint_engine env en =
     \<lparr>ue_epoch = (\<lambda>s. int (bs_epoch s)), ue_latest_state = be_latest_state env (co_backend (bi_coordinator en)),
      ue_pinyin_constraint = be_pinyin_constraint env, ue_latin_prefix_constraint = be_latin_prefix_constraint env,
      ue_script_policy = bi_policy en\<rparr>"

section \<open>Retained contexts and the query cache\<close>

definition remember_context ::
  "nat \<Rightarrow> pystr \<Rightarrow> pystr \<Rightarrow> ('g, 'b, 'p, 'r) bilingual \<Rightarrow> ('g, 'b, 'p, 'r) bilingual" where
  "remember_context epoch before after en =
     (let contexts = od_set epoch (before, after) (bi_contexts en);
          kept = retain (bi_retained_contexts en) contexts;
          expired = filter (\<lambda>e. e \<notin> set (od_keys kept)) (od_keys contexts)
      in en\<lparr>bi_contexts := kept,
            bi_query_cache := filter (\<lambda>(k, v). fst k \<notin> set expired) (bi_query_cache en)\<rparr>)"

definition context_of :: "('g, 'b, 'p, 'r) bilingual \<Rightarrow> nat \<Rightarrow> pystr \<times> pystr" where
  "context_of en epoch = (case map_of (bi_contexts en) epoch of None \<Rightarrow> ([], []) | Some c \<Rightarrow> c)"

definition cache_key_of :: "('g, 'b, 'p, 'r) bilingual \<Rightarrow> ('p, 'r) backend_state \<Rightarrow> pystr \<Rightarrow> int \<Rightarrow> cache_key" where
  "cache_key_of en s raw_keys limit =
     (bs_epoch s, raw_keys, limit, map_option script_value (stable_script (bi_policy en)))"

text \<open>\<open>_query_state\<close>: an exception of the constraint engine leaves the cache as it was.\<close>

definition query_state ::
  "('g, 'b, 'p, 'r) bilingual_env \<Rightarrow> pystr \<Rightarrow> pystr \<Rightarrow> ('p, 'r) backend_state \<Rightarrow> pystr \<Rightarrow> int
     \<Rightarrow> (('g, 'b, 'p, 'r) bilingual, candidate list) handler" where
  "query_state env before raw_keys s after_text limit en =
     (let key = cache_key_of en s raw_keys limit in
      case map_of (bi_query_cache en) key of
        Some cached \<Rightarrow> (Inr cached, en\<lparr>bi_query_cache := od_move_to_end key (bi_query_cache en)\<rparr>)
      | None \<Rightarrow>
          (case unified_query (be_db env) (constraint_engine env en) before raw_keys (Some s) after_text limit of
             Inl err \<Rightarrow> (Inl err, en)
           | Inr candidates \<Rightarrow> (Inr candidates,
               en\<lparr>bi_query_cache := od_put QUERY_CACHE_ENTRIES key candidates (bi_query_cache en)\<rparr>)))"

definition clear_query_cache :: "('g, 'b, 'p, 'r) bilingual \<Rightarrow> ('g, 'b, 'p, 'r) bilingual" where
  "clear_query_cache en = en\<lparr>bi_query_cache := []\<rparr>"

definition clear_page_manager ::
  "('g, 'b, 'p, 'r) bilingual_env \<Rightarrow> ('g, 'b, 'p, 'r) bilingual \<Rightarrow> ('g, 'b, 'p, 'r) bilingual" where
  "clear_page_manager env en = en\<lparr>bi_pages := ps_clear_sessions (be_pages env) (bi_pages en)\<rparr>"

section \<open>Context updates\<close>

text \<open>An event that is not enabled does nothing: the wait for the update lock lets the worker finish.\<close>

definition perform :: "('b, 'p, 'r) model_api \<Rightarrow> coordinator_event \<Rightarrow> ('b, 'p, 'r) coordinator \<Rightarrow> ('b, 'p, 'r) coordinator" where
  "perform api ev c = (case coordinator_step api ev c of None \<Rightarrow> c | Some c' \<Rightarrow> c')"

definition await_update_lock :: "('b, 'p, 'r) model_api \<Rightarrow> ('b, 'p, 'r) coordinator \<Rightarrow> ('b, 'p, 'r) coordinator" where
  "await_update_lock api c = perform api WorkerPublish (perform api WorkerForward c)"

definition coordinator_update ::
  "('b, 'p, 'r) model_api \<Rightarrow> pystr \<Rightarrow> pystr \<Rightarrow> ('b, 'p, 'r) coordinator
     \<Rightarrow> ('p, 'r) backend_state result \<times> ('b, 'p, 'r) coordinator" where
  "coordinator_update api before after c =
     (let c = fold (perform api) [AcquireUpdate 0, ForwardUpdate 0, PublishUpdate 0]
                (await_update_lock api (perform api (BeginUpdate 0 before after) c))
      in (case co_callers c 0 of Some (UpdateReturned r) \<Rightarrow> r
          | _ \<Rightarrow> Inl (RuntimeError ''context update was invalidated before execution''), c))"

definition coordinator_reset :: "('b, 'p, 'r) model_api \<Rightarrow> ('b, 'p, 'r) coordinator \<Rightarrow> ('b, 'p, 'r) coordinator" where
  "coordinator_reset api c =
     perform api (WipeReset 0) (await_update_lock api (fold (perform api) [BeginReset 0, ClearReset 0] c))"

definition bilingual_update_context ::
  "('g, 'b, 'p, 'r) bilingual_env \<Rightarrow> pystr \<Rightarrow> pystr
     \<Rightarrow> (('g, 'b, 'p, 'r) bilingual, ('p, 'r) backend_state) handler" where
  "bilingual_update_context env before after en =
     (let through = (case coordinator_update (be_api env) before after (bi_coordinator en) of
            (Inl err, c) \<Rightarrow> (Inl err, en\<lparr>bi_coordinator := c\<rparr>)
          | (Inr s, c) \<Rightarrow> (Inr s, remember_context (bs_epoch s) before after (en\<lparr>bi_coordinator := c\<rparr>)))
      in if before = [] \<and> after = [] \<and> ps_baseline_ready (be_pages env) (bi_pages en)
            \<and> coordinator_context_epoch (bi_coordinator en) = 0
         then (case be_latest_state env (co_backend (bi_coordinator en)) of
                 Some s \<Rightarrow> (Inr s, en) | None \<Rightarrow> through)
         else through)"

definition bilingual_request_update ::
  "('g, 'b, 'p, 'r) bilingual_env \<Rightarrow> pystr \<Rightarrow> pystr \<Rightarrow> (('g, 'b, 'p, 'r) bilingual, nat) handler" where
  "bilingual_request_update env before after en =
     (let c = perform (be_api env) (RequestUpdate before after) (bi_coordinator en);
          epoch = co_requested_epoch c
      in (Inr epoch, remember_context epoch before after (en\<lparr>bi_coordinator := c\<rparr>)))"

section \<open>Queries\<close>

text \<open>The state a query addresses; \<open>None\<close>: the named epoch has no snapshot.\<close>

definition addressed_state ::
  "nat option \<Rightarrow> ('g, 'b, 'p, 'r) bilingual \<Rightarrow> ('p, 'r) backend_state option option" where
  "addressed_state context_epoch en =
     (if context_epoch = None \<or> context_epoch = Some 0 then Some (co_state (bi_coordinator en))
      else case state_for_epoch (bi_coordinator en) (the context_epoch) of None \<Rightarrow> None | Some s \<Rightarrow> Some (Some s))"

definition bilingual_query ::
  "('g, 'b, 'p, 'r) bilingual_env \<Rightarrow> pystr \<Rightarrow> int \<Rightarrow> nat option
     \<Rightarrow> (('g, 'b, 'p, 'r) bilingual, candidate list) handler" where
  "bilingual_query env raw_keys limit context_epoch en = (case addressed_state context_epoch en of
       None \<Rightarrow> (Inr [], en)
     | Some None \<Rightarrow> (unified_query (be_db env) (constraint_engine env en) [] raw_keys None [] limit, en)
     | Some (Some s) \<Rightarrow> (case context_of en (bs_epoch s) of
         (before, after) \<Rightarrow> query_state env before raw_keys s after limit en))"

definition bilingual_query_pinyin ::
  "('g, 'b, 'p, 'r) bilingual_env \<Rightarrow> pystr \<Rightarrow> int \<Rightarrow> nat option \<Rightarrow> ('g, 'b, 'p, 'r) bilingual \<Rightarrow> candidate list result" where
  "bilingual_query_pinyin env raw_keys limit context_epoch en = (case addressed_state context_epoch en of
       None \<Rightarrow> Inr []
     | Some None \<Rightarrow> Inr []
     | Some (Some s) \<Rightarrow> (case context_of en (bs_epoch s) of
         (before, after) \<Rightarrow> query_pinyin (be_db env) (constraint_engine env en) before raw_keys (Some s) after limit))"

definition on_pages :: "('g \<times> 'b, 'a) handler \<Rightarrow> (('g, 'b, 'p, 'r) bilingual, 'a) handler" where
  "on_pages h en = (case h (bi_pages en, co_backend (bi_coordinator en)) of
     (r, g, b) \<Rightarrow> (r, en\<lparr>bi_pages := g, bi_coordinator := (bi_coordinator en)\<lparr>co_backend := b\<rparr>\<rparr>))"

definition on_model :: "('b, 'a) handler \<Rightarrow> (('g, 'b, 'p, 'r) bilingual, 'a) handler" where
  "on_model h = on_pages (\<lambda>(g, b). case h b of (r, b) \<Rightarrow> (r, g, b))"

definition bilingual_query_page ::
  "('g, 'b, 'p, 'r) bilingual_env \<Rightarrow> page_query \<Rightarrow> bool \<Rightarrow> (('g, 'b, 'p, 'r) bilingual, candidate_page) handler" where
  "bilingual_query_page env q presentation_refresh en =
     (let epoch = si_context_epoch (pq_identity q);
          s = (if epoch > 0 then state_for_epoch (bi_coordinator en) (nat epoch) else None)
      in on_pages (ps_query_page (be_pages env) q presentation_refresh s) en)"

definition bilingual_has_snapshot :: "('g, 'b, 'p, 'r) bilingual \<Rightarrow> nat \<Rightarrow> bool" where
  "bilingual_has_snapshot en epoch \<longleftrightarrow> state_for_epoch (bi_coordinator en) epoch \<noteq> None"

definition bilingual_context_kind :: "('g, 'b, 'p, 'r) bilingual \<Rightarrow> nat \<Rightarrow> string" where
  "bilingual_context_kind en epoch = classify (fst (context_of en epoch))"

definition bilingual_context_epoch :: "('g, 'b, 'p, 'r) bilingual \<Rightarrow> nat" where
  "bilingual_context_epoch en = coordinator_context_epoch (bi_coordinator en)"

section \<open>Commits and resets\<close>

definition bilingual_commit :: "('g, 'b, 'p, 'r) bilingual_env \<Rightarrow> pystr \<Rightarrow> ('g, 'b, 'p, 'r) bilingual \<Rightarrow> ('g, 'b, 'p, 'r) bilingual" where
  "bilingual_commit env committed en =
     clear_page_manager env (clear_query_cache (en\<lparr>bi_policy := record_commit (bi_policy en) committed\<rparr>))"

definition invalidate_candidate_sessions :: "('g, 'b, 'p, 'r) bilingual_env \<Rightarrow> ('g, 'b, 'p, 'r) bilingual \<Rightarrow> ('g, 'b, 'p, 'r) bilingual" where
  "invalidate_candidate_sessions env en = clear_page_manager env en"

definition forget_query_artifacts :: "('g, 'b, 'p, 'r) bilingual_env \<Rightarrow> ('g, 'b, 'p, 'r) bilingual \<Rightarrow> ('g, 'b, 'p, 'r) bilingual" where
  "forget_query_artifacts env en = clear_query_cache ((clear_page_manager env en)\<lparr>bi_contexts := []\<rparr>)"

definition bilingual_reset_private ::
  "('g, 'b, 'p, 'r) bilingual_env \<Rightarrow> ('g, 'b, 'p, 'r) bilingual \<Rightarrow> ('g, 'b, 'p, 'r) bilingual" where
  "bilingual_reset_private env en =
     (let en = forget_query_artifacts env en
      in en\<lparr>bi_coordinator := coordinator_reset (be_api env) (bi_coordinator en)\<rparr>)"

definition bilingual_clear_history :: "('g, 'b, 'p, 'r) bilingual_env \<Rightarrow> ('g, 'b, 'p, 'r) bilingual \<Rightarrow> ('g, 'b, 'p, 'r) bilingual" where
  "bilingual_clear_history env en =
     clear_page_manager env (clear_query_cache (en\<lparr>bi_policy := (bi_policy en)\<lparr>stable_script := None\<rparr>\<rparr>))"

section \<open>The baseline\<close>

definition initialize_neural_baseline :: "('g, 'b, 'p, 'r) bilingual_env \<Rightarrow> (('g, 'b, 'p, 'r) bilingual, unit) handler" where
  "initialize_neural_baseline env =
     hbind (on_model (api_update_context (be_api env) [] [])) (\<lambda>s.
     hbind (lift_result (be_scores env (bs_payload s))) (\<lambda>scores.
     case scores of
       Array1 scores \<Rightarrow>
         hbind (on_pages (ps_install_baseline_scores (be_pages env) scores (bs_continuation_root s))) (\<lambda>_.
         hbind (on_pages (ps_prewarm_single_letter_pages (be_pages env))) (\<lambda>_.
         case be_warm_candidate_continuation env of
           None \<Rightarrow> lift_result (Inr ())
         | Some warm \<Rightarrow>
             hbind (on_model (warm (bs_continuation_root s) BASELINE_CONTINUATION_WARMUP_DEADLINE_MS)) (\<lambda>warmed.
               lift_result (require warmed (RuntimeError ''baseline candidate continuation warmup did not complete'')))))
     | _ \<Rightarrow> lift_result (Inl (RuntimeError ''empty-context baseline requires a full-vocabulary score vector''))))"

section \<open>The engine between two moves\<close>

inductive bilingual_moves ::
  "('g, 'b, 'p, 'r) bilingual_env \<Rightarrow> ('g, 'b, 'p, 'r) bilingual \<Rightarrow> ('g, 'b, 'p, 'r) bilingual \<Rightarrow> bool" for env where
  worker: "ev \<in> worker_events \<Longrightarrow> coordinator_step (be_api env) ev (bi_coordinator en) = Some c
     \<Longrightarrow> bilingual_moves env en (en\<lparr>bi_coordinator := c\<rparr>)"
| request: "bilingual_moves env en (snd (bilingual_request_update env before after en))"
| update: "bilingual_moves env en (snd (bilingual_update_context env before after en))"
| query: "bilingual_moves env en (snd (bilingual_query env raw_keys limit context_epoch en))"
| page: "bilingual_moves env en (snd (bilingual_query_page env q refresh en))"
| commit: "bilingual_moves env en (bilingual_commit env committed en)"
| invalidate: "bilingual_moves env en (invalidate_candidate_sessions env en)"
| reset: "bilingual_moves env en (bilingual_reset_private env en)"
| history: "bilingual_moves env en (bilingual_clear_history env en)"
| baseline: "bilingual_moves env en (snd (initialize_neural_baseline env en))"

text \<open>What the constraint engine answers for a captured state: the backend is not consulted.\<close>

definition state_query ::
  "('g, 'b, 'p, 'r) bilingual_env \<Rightarrow> policy \<Rightarrow> pystr \<times> pystr \<Rightarrow> pystr \<Rightarrow> ('p, 'r) backend_state \<Rightarrow> int \<Rightarrow> candidate list result" where
  "state_query env p context raw_keys s limit =
     unified_query (be_db env) \<lparr>ue_epoch = (\<lambda>s. int (bs_epoch s)), ue_latest_state = None,
        ue_pinyin_constraint = be_pinyin_constraint env, ue_latin_prefix_constraint = be_latin_prefix_constraint env,
        ue_script_policy = p\<rparr> (fst context) raw_keys (Some s) (snd context) limit"

lemma query_of_state:
  "unified_query (be_db env) (constraint_engine env en) before raw_keys (Some s) after limit
     = state_query env (bi_policy en) (before, after) raw_keys s limit"
  by (simp only: state_query_def constraint_engine_def unified_query_def state_or_latest_def option.case
    unified_engine.simps fst_conv snd_conv)

definition policy_of :: "string option \<Rightarrow> policy" where
  "policy_of script = default_policy\<lparr>stable_script := map_option (\<lambda>v. projr (script_of v)) script\<rparr>"

definition plain_policy :: "policy \<Rightarrow> bool" where
  "plain_policy p \<longleftrightarrow> (\<exists>v. p = default_policy\<lparr>stable_script := v\<rparr>)"

lemma policy_of_key: "plain_policy p \<Longrightarrow> policy_of (map_option script_value (stable_script p)) = p"
  by (auto simp: plain_policy_def policy_of_def option.map_comp comp_def option.map_ident)

lemma plain_policy_updates [simp]:
  "plain_policy default_policy" "plain_policy p \<Longrightarrow> plain_policy (p\<lparr>stable_script := v\<rparr>)"
  "plain_policy p \<Longrightarrow> plain_policy (record_commit p s)"
  by (auto simp: plain_policy_def default_policy_def record_commit_def Let_def)

text \<open>Every cached answer is the answer that the constraint engine would give now.\<close>

definition cache_sound :: "('g, 'b, 'p, 'r) bilingual_env \<Rightarrow> nat set \<Rightarrow> ('g, 'b, 'p, 'r) bilingual \<Rightarrow> bool" where
  "cache_sound env used en \<longleftrightarrow> (\<forall>e raw_keys limit script cs. ((e, raw_keys, limit, script), cs) \<in> set (bi_query_cache en)
     \<longrightarrow> e \<in> used \<and> (\<forall>s. map_of (co_states (bi_coordinator en)) e = Some s
           \<longrightarrow> state_query env (policy_of script) (context_of en e) raw_keys s limit = Inr cs))"

definition contexts_ok :: "('g, 'b, 'p, 'r) bilingual \<Rightarrow> bool" where
  "contexts_ok en \<longleftrightarrow> od_ok (bi_contexts en) \<and> length (bi_contexts en) \<le> bi_retained_contexts en
     \<and> bi_retained_contexts en = co_retained_states (bi_coordinator en)
     \<and> (\<forall>e c. map_of (bi_contexts en) e = Some c \<longrightarrow> co_texts (bi_coordinator en) e = Some c)"

definition sound :: "('g, 'b, 'p, 'r) bilingual_env \<Rightarrow> nat set \<Rightarrow> ('g, 'b, 'p, 'r) bilingual \<Rightarrow> bool" where
  "sound env used en \<longleftrightarrow> coordinator_ok (be_api env) (bi_coordinator en) \<and> lock_ok (bi_coordinator en)
     \<and> single_tasks (bi_coordinator en) used \<and> plain_policy (bi_policy en) \<and> contexts_ok en
     \<and> od_ok (bi_query_cache en) \<and> length (bi_query_cache en) \<le> QUERY_CACHE_ENTRIES \<and> cache_sound env used en"

lemma cache_soundD:
  assumes "cache_sound env used en" "((e, raw_keys, limit, script), cs) \<in> set (bi_query_cache en)"
  shows "e \<in> used" and "map_of (co_states (bi_coordinator en)) e = Some s
     \<Longrightarrow> state_query env (policy_of script) (context_of en e) raw_keys s limit = Inr cs"
  using assms unfolding cache_sound_def by blast+

lemma context_of_coordinator [simp]: "context_of (en\<lparr>bi_coordinator := c\<rparr>) e = context_of en e"
  by (simp add: context_of_def)

text \<open>The coordinator's own moves.\<close>

lemma sound_coordinator_move:
  assumes "sound env used en" "coordinator_moves (be_api env) (bi_coordinator en) c"
  shows "\<exists>used'. used \<subseteq> used' \<and> sound env used' (en\<lparr>bi_coordinator := c\<rparr>)"
proof -
  let ?c = "bi_coordinator en"
  from assms(2) obtain ev where st: "coordinator_step (be_api env) ev ?c = Some c" by (rule coordinator_movesE)
  have ok: "coordinator_ok (be_api env) ?c" "single_tasks ?c used" "lock_ok ?c" using assms(1) by (simp_all add: sound_def)
  from single_tasks_step [OF st ok(1,2)] obtain used' where u: "single_tasks c used'" "used \<subseteq> used'"
    "\<And>e s. e \<in> used \<Longrightarrow> map_of (co_states c) e = Some s \<Longrightarrow> map_of (co_states ?c) e = Some s" by blast
  have grow: "co_texts ?c \<subseteq>\<^sub>m co_texts c" using step_grows [OF st] ok(1) by (simp add: coordinator_ok_def grows_def)
  have "contexts_ok (en\<lparr>bi_coordinator := c\<rparr>)"
  proof -
    have "co_retained_states c = co_retained_states ?c" using step_store [OF st ok(1)] by simp
    moreover have "co_texts c e = Some x" if "map_of (bi_contexts en) e = Some x" for e x
    proof -
      have "co_texts ?c e = Some x" using that assms(1) unfolding sound_def contexts_ok_def by blast
      then show ?thesis using grow by (metis domI map_le_def)
    qed
    ultimately show ?thesis using assms(1) by (simp add: sound_def contexts_ok_def)
  qed
  moreover have "cache_sound env used' (en\<lparr>bi_coordinator := c\<rparr>)"
    unfolding cache_sound_def
  proof (intro allI impI conjI)
    fix e raw_keys limit script cs
    assume "((e, raw_keys, limit, script), cs) \<in> set (bi_query_cache (en\<lparr>bi_coordinator := c\<rparr>))"
    then have hit: "((e, raw_keys, limit, script), cs) \<in> set (bi_query_cache en)" by simp
    have cs: "cache_sound env used en" using assms(1) by (simp add: sound_def)
    show "e \<in> used'" using cache_soundD(1) [OF cs hit] u(2) by blast
    show "state_query env (policy_of script) (context_of (en\<lparr>bi_coordinator := c\<rparr>) e) raw_keys s limit = Inr cs"
      if "map_of (co_states (bi_coordinator (en\<lparr>bi_coordinator := c\<rparr>))) e = Some s" for s
      using cache_soundD(2) [OF cs hit] u(3) [OF cache_soundD(1) [OF cs hit]] that by simp
  qed
  ultimately have "sound env used' (en\<lparr>bi_coordinator := c\<rparr>)"
    using assms(1) u(1) step_ok [OF st ok(1)] step_lock_ok [OF st ok(3)] by (simp add: sound_def)
  then show ?thesis using u(2) by blast
qed

lemma sound_moves:
  assumes "(coordinator_moves (be_api env))\<^sup>*\<^sup>* (bi_coordinator en) c" "sound env used en"
  shows "\<exists>used'. used \<subseteq> used' \<and> sound env used' (en\<lparr>bi_coordinator := c\<rparr>)"
  using assms(1)
proof (induction rule: rtranclp_induct)
  case base
  then show ?case using assms(2) by (intro exI [of _ used]) simp
next
  case (step c d)
  then obtain used' where u: "used \<subseteq> used'" "sound env used' (en\<lparr>bi_coordinator := c\<rparr>)" by blast
  from sound_coordinator_move [OF u(2), of d] step(2) obtain used'' where
    "used' \<subseteq> used''" "sound env used'' (en\<lparr>bi_coordinator := d\<rparr>)" by auto
  then show ?case using u(1) by (meson order_trans)
qed

lemma perform_moves: "(coordinator_moves api)\<^sup>*\<^sup>* c (perform api ev c)"
  by (cases "coordinator_step api ev c") (auto simp: perform_def intro: coordinator_moves.intros)

lemma fold_perform_moves: "(coordinator_moves api)\<^sup>*\<^sup>* c (fold (perform api) evs c)"
proof (induction evs arbitrary: c)
  case (Cons ev evs)
  from Cons [of "perform api ev c"] perform_moves [of api c ev] show ?case by simp
qed simp

lemma await_moves: "(coordinator_moves api)\<^sup>*\<^sup>* c (await_update_lock api c)"
  unfolding await_update_lock_def using perform_moves rtranclp_trans by metis

lemma coordinator_reset_moves: "(coordinator_moves api)\<^sup>*\<^sup>* c (coordinator_reset api c)"
  unfolding coordinator_reset_def using perform_moves fold_perform_moves await_moves rtranclp_trans by metis

lemma coordinator_update_moves: "(coordinator_moves api)\<^sup>*\<^sup>* c (snd (coordinator_update api before after c))"
  unfolding coordinator_update_def Let_def snd_conv
  using perform_moves fold_perform_moves await_moves rtranclp_trans by metis

section \<open>Waiting for the update lock\<close>

definition callers_idle :: "('b, 'p, 'r) coordinator \<Rightarrow> bool" where
  "callers_idle c \<longleftrightarrow> (\<forall>t. caller_free (co_callers c t))"

text \<open>The calling thread \<open>0\<close> is somewhere, the others are idle.\<close>

definition others_idle :: "('b, 'p, 'r) coordinator \<Rightarrow> bool" where
  "others_idle c \<longleftrightarrow> (\<forall>t. t \<noteq> 0 \<longrightarrow> caller_free (co_callers c t))"

lemma callers_idle_iff: "callers_idle c \<longleftrightarrow> caller_free (co_callers c 0) \<and> others_idle c"
  unfolding callers_idle_def others_idle_def by metis

lemma worker_keeps_callers:
  "ev \<in> worker_events \<Longrightarrow> coordinator_step api ev c = Some c'
     \<Longrightarrow> co_callers c' = co_callers c \<and> co_requested_epoch c' = co_requested_epoch c"
  by (auto simp: worker_events_def Let_def split: worker_pc.splits option.splits if_splits prod.splits sum.splits)

lemma perform_worker [simp]:
  assumes "ev \<in> worker_events"
  shows "co_callers (perform api ev c) = co_callers c" "co_requested_epoch (perform api ev c) = co_requested_epoch c"
  using worker_keeps_callers [OF assms] by (cases "coordinator_step api ev c"; auto simp: perform_def)+

lemma await_keeps [simp]:
  "co_callers (await_update_lock api c) = co_callers c"
  "co_requested_epoch (await_update_lock api c) = co_requested_epoch c"
  by (simp_all add: await_update_lock_def worker_events_def)

lemma await_frees:
  assumes "lock_ok c" "\<forall>t. caller_forwards (co_callers c t) = {}"
  shows "co_update_lock (await_update_lock api c) = None"
proof -
  let ?d = "await_update_lock api c"
  have "(coordinator_moves api)\<^sup>*\<^sup>* c ?d" by (rule await_moves)
  then have ok: "lock_ok ?d" using reachable_lock_ok assms(1) by blast
  have "worker_forwards (co_worker ?d) = {}"
  proof (cases "co_worker c")
    case (Forwarding q)
    obtain e before after where q: "q = (e, before, after)" by (cases q)
    obtain r b where "api_update_context api before after (co_backend c) = (r, b)" by fastforce
    then show ?thesis
      using Forwarding q by (cases r) (auto simp: await_update_lock_def perform_def Let_def)
  qed (auto simp: await_update_lock_def perform_def Let_def)
  moreover have "\<forall>t. caller_forwards (co_callers ?d t) = {}" using assms(2) by simp
  ultimately show ?thesis using ok unfolding lock_ok_def by (metis lock_owner.exhaust not_None_eq)
qed

lemma idle_forwards: "others_idle c \<Longrightarrow> caller_forwards (co_callers c 0) = {} \<Longrightarrow> \<forall>t. caller_forwards (co_callers c t) = {}"
  unfolding others_idle_def using caller_free_forwards by metis

text \<open>A synchronous update of an otherwise idle coordinator publishes under the epoch it requested.\<close>

lemma coordinator_update_result:
  assumes "callers_idle c" "lock_ok c" "coordinator_update api before after c = (r, d)"
  shows "callers_idle d" "co_requested_epoch d = Suc (co_requested_epoch c)"
    "co_texts d (Suc (co_requested_epoch c)) = Some (before, after)" "r = Inr s \<Longrightarrow> bs_epoch s = Suc (co_requested_epoch c)"
proof -
  let ?e = "Suc (co_requested_epoch c)"
  define c1 where "c1 = perform api (BeginUpdate 0 before after) c"
  define c2 where "c2 = await_update_lock api c1"
  have c1: "co_callers c1 = (co_callers c)(0 \<mapsto> UpdateWaiting (?e, before, after))" "co_requested_epoch c1 = ?e"
    "co_texts c1 ?e = Some (before, after)"
    using assms(1) by (simp_all add: c1_def perform_def callers_idle_def Let_def)
  have "lock_ok c1" using reachable_lock_ok [OF perform_moves] assms(2) by (simp add: c1_def)
  moreover have "others_idle c1" using assms(1) c1(1) by (simp add: others_idle_def callers_idle_def)
  ultimately have free: "co_update_lock c2 = None"
    unfolding c2_def by (intro await_frees idle_forwards) (simp_all add: c1(1))
  have c2: "co_callers c2 0 = Some (UpdateWaiting (?e, before, after))" "co_requested_epoch c2 = ?e"
    "\<forall>t. t \<noteq> 0 \<longrightarrow> caller_free (co_callers c2 t)"
    using assms(1) c1 by (simp_all add: c2_def callers_idle_def)
  have d: "(r, d) = (case co_callers d 0 of Some (UpdateReturned r) \<Rightarrow> r
      | _ \<Rightarrow> Inl (RuntimeError ''context update was invalidated before execution''), d)"
    and dd: "d = perform api (PublishUpdate 0) (perform api (ForwardUpdate 0) (perform api (AcquireUpdate 0) c2))"
    using assms(3) by (auto simp: coordinator_update_def c1_def c2_def Let_def)
  obtain r0 b where u: "api_update_context api before after (co_backend c2) = (r0, b)" by fastforce
  have "co_callers d = (co_callers c2)(0 \<mapsto> UpdateReturned (map_sum id (\<lambda>s. s\<lparr>bs_epoch := ?e\<rparr>) r0)) \<and> co_requested_epoch d = ?e"
    unfolding dd using c2(1,2) free u
    by (cases r0) (simp_all add: perform_def Let_def)
  moreover from this have "r = map_sum id (\<lambda>s. s\<lparr>bs_epoch := ?e\<rparr>) r0" using d by simp
  moreover have "co_texts d ?e = Some (before, after)"
  proof -
    have "co_texts (perform api ev x) e = Some y" if "co_texts x e = Some y" "ev \<in> worker_events \<union> {AcquireUpdate 0, ForwardUpdate 0, PublishUpdate 0}" for ev x e y
      using that by (auto simp: perform_def worker_events_def Let_def publish_state_def
        split: option.splits worker_pc.splits caller_pc.splits if_splits prod.splits sum.splits)
    then show ?thesis using c1(3) by (simp add: dd c2_def await_update_lock_def worker_events_def)
  qed
  ultimately show "callers_idle d" "co_requested_epoch d = ?e" "co_texts d ?e = Some (before, after)"
    "r = Inr s \<Longrightarrow> bs_epoch s = ?e"
    using c2(3) by (cases r0; auto simp: callers_idle_def caller_free_def)+
qed

text \<open>The reset of an otherwise idle coordinator returns, with nothing published and its epoch barred.\<close>

lemma coordinator_reset_result:
  assumes "callers_idle c" "lock_ok c" "coordinator_ok api c"
  shows "callers_idle (coordinator_reset api c)" "co_requested_epoch (coordinator_reset api c) = Suc (co_requested_epoch c)"
    "Suc (co_requested_epoch c) \<in> co_resets (coordinator_reset api c)"
    "\<forall>e \<in> fst ` set (co_states (coordinator_reset api c)). Suc (co_requested_epoch c) < e"
proof -
  let ?e = "Suc (co_requested_epoch c)"
  define c1 where "c1 = fold (perform api) [BeginReset 0, ClearReset 0] c"
  define c2 where "c2 = await_update_lock api c1"
  have c1: "co_callers c1 = (co_callers c)(0 \<mapsto> ResetWaiting ?e)" "co_requested_epoch c1 = ?e"
    "?e \<in> co_resets c1" "co_states c1 = []"
    using assms(1) by (simp_all add: c1_def perform_def callers_idle_def Let_def)
  have mv: "(coordinator_moves api)\<^sup>*\<^sup>* c c1" unfolding c1_def by (rule fold_perform_moves)
  have "others_idle c1" using assms(1) c1(1) by (simp add: others_idle_def callers_idle_def)
  then have free: "co_update_lock c2 = None"
    unfolding c2_def using reachable_lock_ok [OF mv assms(2)]
    by (intro await_frees idle_forwards) (simp_all add: c1(1))
  have c2: "co_callers c2 0 = Some (ResetWaiting ?e)" "co_requested_epoch c2 = ?e" "\<forall>t. t \<noteq> 0 \<longrightarrow> caller_free (co_callers c2 t)"
    using assms(1) c1 by (simp_all add: c2_def callers_idle_def)
  have r: "coordinator_reset api c = perform api (WipeReset 0) c2" by (simp add: coordinator_reset_def c1_def c2_def)
  then show "callers_idle (coordinator_reset api c)" "co_requested_epoch (coordinator_reset api c) = ?e"
    using c2 free by (auto simp: perform_def callers_idle_def caller_free_def)
  have later: "(coordinator_moves api)\<^sup>*\<^sup>* c1 (coordinator_reset api c)"
    unfolding r c2_def using await_moves perform_moves rtranclp_trans by metis
  have ok1: "coordinator_ok api c1" using coordinator.inv_steps [OF mv assms(3)] .
  show "?e \<in> co_resets (coordinator_reset api c)" using coordinator.resets_steps [OF later ok1] c1(3) by blast
  show "\<forall>e \<in> fst ` set (co_states (coordinator_reset api c)). ?e < e"
    using coordinator.barrier [OF later ok1 c1(3)] c1(4) by simp
qed

section \<open>What every method keeps\<close>

lemma context_of_remember:
  assumes "od_ok (bi_contexts en)" "e \<noteq> epoch" "e \<notin> fst ` set (bi_contexts en) \<or> e \<in> fst ` set (bi_contexts (remember_context epoch before after en))"
  shows "context_of (remember_context epoch before after en) e = context_of en e"
proof -
  let ?d = "od_set epoch (before, after) (bi_contexts en)"
  have "map_of (retain (bi_retained_contexts en) ?d) e = map_of (bi_contexts en) e"
  proof (cases "map_of (retain (bi_retained_contexts en) ?d) e")
    case None
    then have "e \<notin> fst ` set (bi_contexts (remember_context epoch before after en))"
      by (simp add: remember_context_def Let_def map_of_eq_None_iff)
    then have "e \<notin> fst ` set (bi_contexts en)" using assms(3) by blast
    then have "map_of (bi_contexts en) e = None" by (simp add: map_of_eq_None_iff)
    then show ?thesis using None by simp
  next
    case (Some c)
    then show ?thesis using map_of_retain [of ?d] assms(1,2) by (fastforce simp: map_of_od_set)
  qed
  then show ?thesis by (simp add: context_of_def remember_context_def Let_def)
qed

lemma sound_remember:
  assumes "sound env used en" "co_texts (bi_coordinator en) epoch = Some (before, after)"
    and "\<forall>k \<in> fst ` set (bi_query_cache en). fst k \<noteq> epoch"
  shows "sound env used (remember_context epoch before after en)"
proof -
  let ?m = "remember_context epoch before after en"
  let ?d = "od_set epoch (before, after) (bi_contexts en)"
  have ok: "od_ok (bi_contexts en)" "cache_sound env used en" "od_ok (bi_query_cache en)"
    using assms(1) by (simp_all add: sound_def contexts_ok_def)
  have same: "bi_coordinator ?m = bi_coordinator en" "bi_policy ?m = bi_policy en" "bi_retained_contexts ?m = bi_retained_contexts en"
    by (simp_all add: remember_context_def Let_def)
  have ctx: "bi_contexts ?m = retain (bi_retained_contexts en) ?d" by (simp add: remember_context_def Let_def)
  have "contexts_ok ?m"
  proof -
    have od: "od_ok ?d" using ok(1) by simp
    have "co_texts (bi_coordinator en) e = Some c" if "map_of (bi_contexts ?m) e = Some c" for e c
    proof -
      have "map_of ?d e = Some c" using map_of_retain [OF od] that unfolding ctx by blast
      then show ?thesis
        using assms(1,2) unfolding sound_def contexts_ok_def map_of_od_set by (metis option.inject)
    qed
    moreover have "od_ok (bi_contexts ?m)" "length (bi_contexts ?m) \<le> bi_retained_contexts en"
      using retain_keys [OF od, of "bi_retained_contexts en"] unfolding ctx by auto
    ultimately show ?thesis using assms(1) unfolding contexts_ok_def same by (simp add: sound_def contexts_ok_def)
  qed
  moreover have "cache_sound env used ?m"
    unfolding cache_sound_def same
  proof (intro allI impI)
    fix e raw_keys limit script cs
    assume "((e, raw_keys, limit, script), cs) \<in> set (bi_query_cache ?m)"
    then have hit: "((e, raw_keys, limit, script), cs) \<in> set (bi_query_cache en)"
      and kept: "e \<notin> fst ` set ?d \<or> e \<in> fst ` set (bi_contexts ?m)"
      by (auto simp: remember_context_def Let_def)
    have "e \<noteq> epoch" using hit assms(3) by force
    then have "context_of ?m e = context_of en e"
      using kept by (intro context_of_remember ok(1)) auto
    then show "e \<in> used \<and> (\<forall>s. map_of (co_states (bi_coordinator en)) e = Some s
        \<longrightarrow> state_query env (policy_of script) (context_of ?m e) raw_keys s limit = Inr cs)"
      using cache_soundD [OF ok(2) hit] by simp
  qed
  moreover have "od_ok (filter P (bi_query_cache en))" "length (filter P (bi_query_cache en)) \<le> length (bi_query_cache en)" for P
    using ok(3) by (simp_all add: od_ok_def distinct_map_filter)
  then have "od_ok (bi_query_cache ?m)" "length (bi_query_cache ?m) \<le> length (bi_query_cache en)"
    unfolding remember_context_def Let_def by simp_all
  ultimately show ?thesis using assms(1) by (simp add: sound_def same)
qed

text \<open>The cached and the computed answer to a query on a stored state.\<close>

lemma query_state_answer:
  assumes "sound env used en" "map_of (co_states (bi_coordinator en)) (bs_epoch s) = Some s"
    and "context_of en (bs_epoch s) = (before, after)"
  shows "fst (query_state env before raw_keys s after limit en) = state_query env (bi_policy en) (before, after) raw_keys s limit"
    and "sound env used (snd (query_state env before raw_keys s after limit en))"
    and "\<And>en'. snd (query_state env before raw_keys s after limit en) = en'
      \<Longrightarrow> bi_coordinator en' = bi_coordinator en \<and> bi_contexts en' = bi_contexts en
        \<and> fst ` set (bi_query_cache en') \<subseteq> insert (cache_key_of en s raw_keys limit) (fst ` set (bi_query_cache en))"
proof -
  let ?k = "cache_key_of en s raw_keys limit"
  let ?v = "state_query env (bi_policy en) (before, after) raw_keys s limit"
  let ?q = "query_state env before raw_keys s after limit en"
  have key: "?k = (bs_epoch s, raw_keys, limit, map_option script_value (stable_script (bi_policy en)))"
    by (simp add: cache_key_of_def)
  have pol: "policy_of (map_option script_value (stable_script (bi_policy en))) = bi_policy en"
    using assms(1) by (simp add: sound_def policy_of_key)
  have cs: "cache_sound env used en" and od: "od_ok (bi_query_cache en)" using assms(1) by (simp_all add: sound_def)
  have hit: "?v = Inr cs" if "map_of (bi_query_cache en) ?k = Some cs" for cs
    using cache_soundD(2) [OF cs map_of_SomeD [OF that [unfolded key]] assms(2)] by (simp add: pol assms(3))
  show "fst ?q = ?v"
    using hit by (auto simp: query_state_def Let_def query_of_state split: option.splits sum.splits)
  have used: "bs_epoch s \<in> used"
    using assms(1,2) single_tasksD(4) by (force simp: sound_def dest: map_of_SomeD)
  have fresh: "cache_sound env used (en\<lparr>bi_query_cache := od_put QUERY_CACHE_ENTRIES ?k cs (bi_query_cache en)\<rparr>)" if v: "?v = Inr cs" for cs
    unfolding cache_sound_def
  proof (intro allI impI)
    fix e raw limit' script cs'
    assume "((e, raw, limit', script), cs') \<in> set (bi_query_cache (en\<lparr>bi_query_cache := od_put QUERY_CACHE_ENTRIES ?k cs (bi_query_cache en)\<rparr>))"
    then have "map_of (od_put QUERY_CACHE_ENTRIES ?k cs (bi_query_cache en)) (e, raw, limit', script) = Some cs'"
      using od by (simp add: od_ok_def [symmetric] map_of_is_SomeI)
    then have "(e, raw, limit', script) = ?k \<and> cs' = cs \<or> map_of (bi_query_cache en) (e, raw, limit', script) = Some cs'"
      by (rule lru.get_put_hit [OF od])
    then show "e \<in> used \<and> (\<forall>u. map_of (co_states (bi_coordinator (en\<lparr>bi_query_cache := od_put QUERY_CACHE_ENTRIES ?k cs (bi_query_cache en)\<rparr>))) e = Some u
        \<longrightarrow> state_query env (policy_of script) (context_of (en\<lparr>bi_query_cache := od_put QUERY_CACHE_ENTRIES ?k cs (bi_query_cache en)\<rparr>) e) raw u limit' = Inr cs')"
    proof
      assume "(e, raw, limit', script) = ?k \<and> cs' = cs"
      then show ?thesis using v used assms(2,3) pol by (auto simp: key context_of_def)
    next
      assume "map_of (bi_query_cache en) (e, raw, limit', script) = Some cs'"
      from cache_soundD [OF cs map_of_SomeD [OF this]] show ?thesis by (simp add: context_of_def)
    qed
  qed
  have moved: "set (od_move_to_end ?k (bi_query_cache en)) = set (bi_query_cache en)" "length (od_move_to_end ?k (bi_query_cache en)) = length (bi_query_cache en)"
    using set_od_move [OF od] by (simp_all add: length_od_move od)
  show "sound env used (snd ?q)"
  proof (cases "map_of (bi_query_cache en) ?k")
    case (Some cs)
    then show ?thesis using assms(1) moved
      by (simp add: query_state_def Let_def sound_def contexts_ok_def cache_sound_def context_of_def)
  next
    case None
    then show ?thesis
      using assms(1) fresh length_put [of QUERY_CACHE_ENTRIES]
      by (cases ?v) (auto simp: query_state_def Let_def query_of_state sound_def contexts_ok_def)
  qed
  show "bi_coordinator en' = bi_coordinator en \<and> bi_contexts en' = bi_contexts en
        \<and> fst ` set (bi_query_cache en') \<subseteq> insert ?k (fst ` set (bi_query_cache en))" if "snd ?q = en'" for en'
  proof (cases "map_of (bi_query_cache en) ?k")
    case (Some cs)
    then show ?thesis using that [symmetric] moved(1) by (simp add: query_state_def Let_def subset_insertI)
  next
    case None
    then show ?thesis using that [symmetric] keys_put_subset [of QUERY_CACHE_ENTRIES ?k _ "bi_query_cache en"]
      by (cases ?v) (simp_all add: query_state_def Let_def query_of_state subset_insertI)
  qed
qed

text \<open>Past the resets \<open>B\<close>: everything a query can see was requested after them.\<close>

definition barred :: "nat set \<Rightarrow> ('g, 'b, 'p, 'r) bilingual \<Rightarrow> bool" where
  "barred B en \<longleftrightarrow> B \<subseteq> co_resets (bi_coordinator en) \<and> (\<forall>b \<in> B.
     (\<forall>e \<in> fst ` set (co_states (bi_coordinator en)). b < e) \<and> (\<forall>e \<in> fst ` set (bi_contexts en). b < e)
     \<and> (\<forall>k \<in> fst ` set (bi_query_cache en). b < fst k))"

definition steady :: "('g, 'b, 'p, 'r) bilingual_env \<Rightarrow> nat set \<Rightarrow> ('g, 'b, 'p, 'r) bilingual \<Rightarrow> bool" where
  "steady env B en \<longleftrightarrow> (\<exists>used. sound env used en) \<and> callers_idle (bi_coordinator en) \<and> barred B en"

abbreviation requested :: "('g, 'b, 'p, 'r) bilingual \<Rightarrow> nat" where
  "requested en \<equiv> co_requested_epoch (bi_coordinator en)"

lemma soundD:
  assumes "sound env used en"
  shows "coordinator_ok (be_api env) (bi_coordinator en)" "lock_ok (bi_coordinator en)" "single_tasks (bi_coordinator en) used"
    "plain_policy (bi_policy en)" "contexts_ok en" "od_ok (bi_query_cache en)"
    "length (bi_query_cache en) \<le> QUERY_CACHE_ENTRIES" "cache_sound env used en"
  using assms by (simp_all add: sound_def)

lemma sound_cache_keys: "sound env used en \<Longrightarrow> k \<in> fst ` set (bi_query_cache en) \<Longrightarrow> fst k \<le> requested en"
  using cache_soundD(1) [of env used en] single_tasksD(3) [of "bi_coordinator en" used] by (fastforce simp: sound_def)

lemma sound_pages [simp]: "sound env used (en\<lparr>bi_pages := g\<rparr>) = sound env used en"
  by (simp add: sound_def contexts_ok_def cache_sound_def context_of_def)

lemma sound_empty_cache:
  "sound env used en \<Longrightarrow> plain_policy p \<Longrightarrow> sound env used (en\<lparr>bi_query_cache := [], bi_policy := p\<rparr>)"
  by (simp add: sound_def contexts_ok_def cache_sound_def)

lemma sound_no_contexts: "sound env used en \<Longrightarrow> sound env used (en\<lparr>bi_query_cache := [], bi_contexts := []\<rparr>)"
  by (simp add: sound_def contexts_ok_def cache_sound_def)

lemma coordinator_ok_backend [simp]:
  "coordinator_ok api (c\<lparr>co_backend := b\<rparr>) = coordinator_ok api c" "lock_ok (c\<lparr>co_backend := b\<rparr>) = lock_ok c"
  "single_tasks (c\<lparr>co_backend := b\<rparr>) used = single_tasks c used" "callers_idle (c\<lparr>co_backend := b\<rparr>) = callers_idle c"
proof -
  have a: "Realtime.answers api (c\<lparr>co_backend := b\<rparr>) = Realtime.answers api c" "asked (c\<lparr>co_backend := b\<rparr>) = asked c"
    by (simp_all add: Realtime.answers_def asked_def fun_eq_iff)
  have w: "worker_ok api (c\<lparr>co_backend := b\<rparr>) w = worker_ok api c w" for w by (cases w) (simp_all add: a)
  have p: "caller_ok api (c\<lparr>co_backend := b\<rparr>) pc = caller_ok api c pc" for pc by (cases pc) (simp_all add: a)
  show "coordinator_ok api (c\<lparr>co_backend := b\<rparr>) = coordinator_ok api c"
    by (simp add: coordinator_ok_def epochs_ok_def tasks_ok_def store_ok_def a w p cong: option.case_cong)
  show "lock_ok (c\<lparr>co_backend := b\<rparr>) = lock_ok c" by (simp add: lock_ok_def)
  have t: "task_epoch (c\<lparr>co_backend := b\<rparr>) = task_epoch c" by (rule ext, rename_tac i, case_tac i) simp_all
  show "single_tasks (c\<lparr>co_backend := b\<rparr>) used = single_tasks c used" by (simp add: single_tasks_def t)
  show "callers_idle (c\<lparr>co_backend := b\<rparr>) = callers_idle c" by (simp add: callers_idle_def)
qed

lemma on_pages_steady:
  assumes "steady env B en"
  shows "steady env B (snd (on_pages h en)) \<and> requested (snd (on_pages h en)) = requested en"
proof -
  have "sound env used (en\<lparr>bi_pages := g, bi_coordinator := (bi_coordinator en)\<lparr>co_backend := b\<rparr>\<rparr>)" if "sound env used en" for used g b
    using that by (simp add: sound_def contexts_ok_def cache_sound_def context_of_def)
  then show ?thesis using assms by (auto simp: on_pages_def steady_def barred_def split: prod.splits)
qed

lemma barred_moves:
  assumes "(coordinator_moves api)\<^sup>*\<^sup>* (bi_coordinator en) c" "coordinator_ok api (bi_coordinator en)" "barred B en"
  shows "barred B (en\<lparr>bi_coordinator := c\<rparr>)"
  using coordinator.barrier [OF assms(1,2)] coordinator.resets_steps [OF assms(1,2)] assms(3)
  unfolding barred_def by simp blast

lemma barred_remember:
  assumes "barred B en" "\<forall>b \<in> B. b < epoch"
  shows "barred B (remember_context epoch before after en)"
proof -
  have "fst ` set (retain n (od_set epoch (before, after) (bi_contexts en))) \<subseteq> insert epoch (fst ` set (bi_contexts en))" for n
    using image_mono [OF retain_subset [of n "od_set epoch (before, after) (bi_contexts en)"], of fst] by simp
  then show ?thesis using assms by (fastforce simp: barred_def remember_context_def Let_def)
qed

lemma worker_steady:
  assumes "steady env B en" "ev \<in> worker_events" "coordinator_step (be_api env) ev (bi_coordinator en) = Some c"
  shows "steady env B (en\<lparr>bi_coordinator := c\<rparr>) \<and> requested en \<le> requested (en\<lparr>bi_coordinator := c\<rparr>)"
proof -
  obtain used where s: "sound env used en" using assms(1) by (auto simp: steady_def)
  have mv: "coordinator_moves (be_api env) (bi_coordinator en) c" using assms(3) by (rule coordinator_moves.intros)
  have "\<exists>used. sound env used (en\<lparr>bi_coordinator := c\<rparr>)" using sound_coordinator_move [OF s mv] by blast
  moreover have "callers_idle c" "co_requested_epoch c = requested en"
    using worker_keeps_callers [OF assms(2,3)] assms(1) by (simp_all add: steady_def callers_idle_def)
  ultimately show ?thesis
    using barred_moves [of "be_api env" en c B] mv soundD(1) [OF s] assms(1) by (auto simp: steady_def)
qed

lemma resets_below:
  assumes "sound env used en" "barred B en" "b \<in> B"
  shows "b \<le> requested en"
proof (rule coordinator.resets_bound)
  show "coordinator_ok (be_api env) (bi_coordinator en)" using assms(1) by (rule soundD)
  show "b \<in> co_resets (bi_coordinator en)" using assms(2,3) by (auto simp: barred_def)
qed

lemma request_steady:
  assumes "steady env B en" "bilingual_request_update env before after en = (r, en')"
  shows "steady env B en' \<and> requested en' = Suc (requested en) \<and> r = Inr (Suc (requested en))"
proof -
  obtain used where s: "sound env used en" and idle: "callers_idle (bi_coordinator en)" and bar: "barred B en"
    using assms(1) by (auto simp: steady_def)
  define c where "c = perform (be_api env) (RequestUpdate before after) (bi_coordinator en)"
  let ?e = "Suc (requested en)"
  let ?m = "en\<lparr>bi_coordinator := c\<rparr>"
  have c: "co_requested_epoch c = ?e" "co_callers c = co_callers (bi_coordinator en)" "co_texts c ?e = Some (before, after)"
    by (simp_all add: c_def perform_def Let_def)
  have mv: "(coordinator_moves (be_api env))\<^sup>*\<^sup>* (bi_coordinator en) c" unfolding c_def by (rule perform_moves)
  obtain used' where s': "sound env used' ?m" using sound_moves [OF mv s] by blast
  have "\<forall>k \<in> fst ` set (bi_query_cache ?m). fst k \<noteq> ?e" using sound_cache_keys [OF s] by force
  then have "sound env used' (remember_context ?e before after ?m)" by (intro sound_remember s') (simp_all add: c)
  moreover have "barred B (remember_context ?e before after ?m)"
    using barred_moves [OF mv soundD(1) [OF s] bar] resets_below [OF s bar] by (intro barred_remember) (auto simp: le_imp_less_Suc)
  moreover have "en' = remember_context ?e before after ?m" "r = Inr ?e"
    using assms(2) by (simp_all add: bilingual_request_update_def Let_def c_def [symmetric] c)
  ultimately show ?thesis
    using idle c by (auto simp: steady_def callers_idle_def remember_context_def Let_def)
qed

lemma update_steady:
  assumes "steady env B en" "bilingual_update_context env before after en = (r, en')"
  shows "steady env B en' \<and> requested en \<le> requested en'"
proof -
  obtain used where s: "sound env used en" and idle: "callers_idle (bi_coordinator en)" and bar: "barred B en"
    using assms(1) by (auto simp: steady_def)
  obtain r1 c where u: "coordinator_update (be_api env) before after (bi_coordinator en) = (r1, c)" by fastforce
  note c = coordinator_update_result [OF idle soundD(2) [OF s] u]
  let ?e = "Suc (requested en)"
  let ?m = "en\<lparr>bi_coordinator := c\<rparr>"
  have mv: "(coordinator_moves (be_api env))\<^sup>*\<^sup>* (bi_coordinator en) c"
    using coordinator_update_moves [of "be_api env" "bi_coordinator en" before after] u by simp
  obtain used' where s': "sound env used' ?m" using sound_moves [OF mv s] by blast
  have bar': "barred B ?m" by (rule barred_moves [OF mv soundD(1) [OF s] bar])
  have "\<forall>k \<in> fst ` set (bi_query_cache ?m). fst k \<noteq> ?e" using sound_cache_keys [OF s] by force
  then have "sound env used' (remember_context ?e before after ?m)" by (intro sound_remember s') (simp_all add: c)
  moreover have "barred B (remember_context ?e before after ?m)"
    using resets_below [OF s bar] by (intro barred_remember bar') (auto simp: le_imp_less_Suc)
  ultimately have "steady env B ?m" "steady env B (remember_context ?e before after ?m)"
    using s' bar' c(1) by (auto simp: steady_def remember_context_def Let_def)
  moreover have "en' = en \<or> en' = ?m \<or> en' = remember_context ?e before after ?m"
    using assms(2) u c(4) by (auto simp: bilingual_update_context_def Let_def split: if_splits option.splits sum.splits)
  ultimately show ?thesis using assms(1) c(2) by (auto simp: remember_context_def Let_def)
qed

text \<open>A state that a query addresses is stored under its epoch.\<close>

lemma addressed_stored:
  assumes "sound env used en" "addressed_state context_epoch en = Some (Some s)"
  shows "map_of (co_states (bi_coordinator en)) (bs_epoch s) = Some s"
proof -
  have ok: "store_ok (be_api env) (bi_coordinator en)" using soundD(1) [OF assms(1)] by (simp add: coordinator_ok_def)
  have "bs_epoch s = k" if "map_of (co_states (bi_coordinator en)) k = Some s" for k
    using ok map_of_SomeD [OF that] by (auto simp: store_ok_def Realtime.answers_def)
  then show ?thesis
    using ok assms(2) by (auto simp: addressed_state_def store_ok_def state_for_epoch_def split: if_splits option.splits)
qed

text \<open>The answer without the cache.\<close>

definition uncached_query ::
  "('g, 'b, 'p, 'r) bilingual_env \<Rightarrow> pystr \<Rightarrow> int \<Rightarrow> nat option \<Rightarrow> ('g, 'b, 'p, 'r) bilingual \<Rightarrow> candidate list result" where
  "uncached_query env raw_keys limit context_epoch en = (case addressed_state context_epoch en of
       None \<Rightarrow> Inr []
     | Some None \<Rightarrow> unified_query (be_db env) (constraint_engine env en) [] raw_keys None [] limit
     | Some (Some s) \<Rightarrow> unified_query (be_db env) (constraint_engine env en) (fst (context_of en (bs_epoch s))) raw_keys
         (Some s) (snd (context_of en (bs_epoch s))) limit)"

lemma query_steady:
  assumes "steady env B en"
  shows "fst (bilingual_query env raw_keys limit context_epoch en) = uncached_query env raw_keys limit context_epoch en"
    and "steady env B (snd (bilingual_query env raw_keys limit context_epoch en))"
    and "requested (snd (bilingual_query env raw_keys limit context_epoch en)) = requested en"
proof -
  let ?q = "bilingual_query env raw_keys limit context_epoch en"
  obtain used where s: "sound env used en" and idle: "callers_idle (bi_coordinator en)" and bar: "barred B en"
    using assms by (auto simp: steady_def)
  have "fst ?q = uncached_query env raw_keys limit context_epoch en \<and> steady env B (snd ?q) \<and> requested (snd ?q) = requested en"
  proof (cases "\<exists>st. addressed_state context_epoch en = Some (Some st)")
    case True
    then obtain st where st: "addressed_state context_epoch en = Some (Some st)" by blast
    obtain before after where ctx: "context_of en (bs_epoch st) = (before, after)" by fastforce
    note stored = addressed_stored [OF s st]
    let ?r = "query_state env before raw_keys st after limit en"
    have q: "?q = ?r" by (simp add: bilingual_query_def st ctx)
    note ans = query_state_answer [OF s stored ctx, of raw_keys limit]
    have same: "bi_coordinator (snd ?r) = bi_coordinator en" "bi_contexts (snd ?r) = bi_contexts en"
      "fst ` set (bi_query_cache (snd ?r)) \<subseteq> insert (cache_key_of en st raw_keys limit) (fst ` set (bi_query_cache en))"
      using ans(3) by blast+
    have "bs_epoch st \<in> fst ` set (co_states (bi_coordinator en))"
      using map_of_SomeD [OF stored] by (metis fst_conv image_eqI)
    then have "barred B (snd ?r)"
      using bar same(3) unfolding barred_def same(1,2) by (fastforce simp: cache_key_of_def)
    then show ?thesis
      using ans(1,2) idle by (auto simp: q steady_def same(1) uncached_query_def st ctx query_of_state)
  next
    case False
    then show ?thesis
      using assms by (auto simp: bilingual_query_def uncached_query_def split: option.split)
  qed
  then show "fst ?q = uncached_query env raw_keys limit context_epoch en" "steady env B (snd ?q)"
    "requested (snd ?q) = requested en" by blast+
qed

lemma policy_steady:
  assumes "steady env B en" "plain_policy (bi_policy en) \<Longrightarrow> plain_policy p"
  shows "steady env B (clear_page_manager env (clear_query_cache (en\<lparr>bi_policy := p\<rparr>)))"
proof -
  obtain used where s: "sound env used en" using assms(1) by (auto simp: steady_def)
  have e: "clear_query_cache (en\<lparr>bi_policy := p\<rparr>) = en\<lparr>bi_query_cache := [], bi_policy := p\<rparr>" by (simp add: clear_query_cache_def)
  have "sound env used (clear_page_manager env (clear_query_cache (en\<lparr>bi_policy := p\<rparr>)))"
    unfolding e clear_page_manager_def using sound_empty_cache [OF s assms(2) [OF soundD(4) [OF s]]] by simp
  then show ?thesis
    using assms(1) by (auto simp: steady_def barred_def clear_page_manager_def clear_query_cache_def)
qed

text \<open>A reset moves past its own epoch, whatever the worker was doing.\<close>

lemma reset_steady:
  assumes "steady env B en"
  shows "steady env (insert (Suc (requested en)) B) (bilingual_reset_private env en)"
    and "requested (bilingual_reset_private env en) = Suc (requested en)"
proof -
  obtain used where s: "sound env used en" and idle: "callers_idle (bi_coordinator en)" and bar: "barred B en"
    using assms by (auto simp: steady_def)
  let ?f = "forget_query_artifacts env en"
  let ?c = "coordinator_reset (be_api env) (bi_coordinator en)"
  have f: "bi_coordinator ?f = bi_coordinator en" "bi_contexts ?f = []" "bi_query_cache ?f = []"
    by (simp_all add: forget_query_artifacts_def clear_page_manager_def clear_query_cache_def)
  have "?f = (en\<lparr>bi_query_cache := [], bi_contexts := []\<rparr>)\<lparr>bi_pages := ps_clear_sessions (be_pages env) (bi_pages en)\<rparr>"
    by (simp add: forget_query_artifacts_def clear_page_manager_def clear_query_cache_def)
  then have sf: "sound env used ?f" using sound_no_contexts [OF s] by (simp only: sound_pages)
  have mv: "(coordinator_moves (be_api env))\<^sup>*\<^sup>* (bi_coordinator ?f) ?c" unfolding f(1) by (rule coordinator_reset_moves)
  obtain used' where s': "sound env used' (?f\<lparr>bi_coordinator := ?c\<rparr>)" using sound_moves [OF mv sf] by blast
  have r: "bilingual_reset_private env en = ?f\<lparr>bi_coordinator := ?c\<rparr>" by (simp add: bilingual_reset_private_def f Let_def)
  note c = coordinator_reset_result [OF idle soundD(2,1) [OF s]]
  have "barred B ?f" using bar by (simp add: barred_def f)
  then have "barred B (?f\<lparr>bi_coordinator := ?c\<rparr>)" using barred_moves [OF mv] soundD(1) [OF sf] by blast
  then have "barred (insert (Suc (requested en)) B) (?f\<lparr>bi_coordinator := ?c\<rparr>)"
    using c(3,4) by (simp add: barred_def f)
  then show "steady env (insert (Suc (requested en)) B) (bilingual_reset_private env en)"
    using s' c(1) unfolding r by (auto simp: steady_def)
  show "requested (bilingual_reset_private env en) = Suc (requested en)" by (simp add: r c(2))
qed

lemma barred_fewer: "barred B en \<Longrightarrow> B' \<subseteq> B \<Longrightarrow> barred B' en"
  by (auto simp: barred_def dest: subsetD)

lemma steady_fewer: "steady env B en \<Longrightarrow> B' \<subseteq> B \<Longrightarrow> steady env B' en"
  using barred_fewer [of B en B'] by (simp add: steady_def)

text \<open>Methods that may raise half-way: every path keeps the invariant.\<close>

interpretation engine_state: state_relation "steady env B"
  "\<lambda>en en'. steady env B en' \<and> requested en \<le> requested en'" for env :: "('g, 'b, 'p, 'r) bilingual_env" and B
  by unfold_locales auto

lemma on_pages_safe: "engine_state.safe env B (on_pages h)"
proof (rule engine_state.safeI)
  fix en r en'
  assume "steady env B en" "on_pages h en = (r, en')"
  then show "steady env B en' \<and> requested en \<le> requested en'" using on_pages_steady [of env B en h] by simp
qed

lemma baseline_safe: "engine_state.safe env B (initialize_neural_baseline env)"
  unfolding initialize_neural_baseline_def on_model_def
  by (auto intro!: engine_state.safe_bind on_pages_safe split: array.split option.split)

lemma page_safe: "engine_state.safe env B (bilingual_query_page env q refresh)"
proof (rule engine_state.safeI)
  fix en r en'
  assume "steady env B en" "bilingual_query_page env q refresh en = (r, en')"
  then show "steady env B en' \<and> requested en \<le> requested en'"
    unfolding bilingual_query_page_def Let_def by (rule engine_state.safeD [OF on_pages_safe])
qed

lemma steady_moves:
  assumes "bilingual_moves env en en'" "steady env B en"
  shows "steady env B en' \<and> requested en \<le> requested en'"
  using assms(1)
proof (cases rule: bilingual_moves.cases)
  case (worker ev c)
  then show ?thesis using worker_steady [OF assms(2)] by blast
next
  case (request before after)
  then show ?thesis using request_steady [OF assms(2)] by (metis le_SucI order_refl prod.collapse)
next
  case (update before after)
  then show ?thesis using update_steady [OF assms(2)] by (metis prod.collapse)
next
  case (query raw_keys limit context_epoch)
  then show ?thesis using query_steady [OF assms(2)] by simp
next
  case (page q refresh)
  then show ?thesis using engine_state.safeD [OF page_safe assms(2)] by (metis prod.collapse)
next
  case (commit committed)
  then show ?thesis
    using policy_steady [OF assms(2)] by (simp add: bilingual_commit_def clear_page_manager_def clear_query_cache_def)
next
  case invalidate
  then show ?thesis using assms(2)
    by (auto simp: invalidate_candidate_sessions_def clear_page_manager_def steady_def barred_def)
next
  case reset
  then show ?thesis using reset_steady [OF assms(2)] steady_fewer by (metis le_SucI order_refl subset_insertI)
next
  case history
  then show ?thesis
    using policy_steady [OF assms(2)] by (simp add: bilingual_clear_history_def clear_page_manager_def clear_query_cache_def)
next
  case baseline
  then show ?thesis using engine_state.safeD [OF baseline_safe assms(2)] by (metis prod.collapse)
qed

lemma steady_steps: "(bilingual_moves env)\<^sup>*\<^sup>* en en' \<Longrightarrow> steady env B en \<Longrightarrow> steady env B en' \<and> requested en \<le> requested en'"
  using engine_state.rel_steps [of "bilingual_moves env" en en' env B] steady_moves by blast

lemma new_bilingual_steady: "new_bilingual backend pages n = Inr en \<Longrightarrow> steady env {} en"
proof -
  assume "new_bilingual backend pages n = Inr en"
  then obtain c where c: "new_coordinator backend n = Inr c"
    "en = \<lparr>bi_coordinator = c, bi_policy = default_policy, bi_contexts = [], bi_retained_contexts = n, bi_query_cache = [],
       bi_pages = pages\<rparr>"
    by (auto simp: new_bilingual_def result_splits)
  then have "co_retained_states c = n" "lock_ok c" "callers_idle c"
    by (auto simp: new_coordinator_def lock_ok_def callers_idle_def caller_free_def split: if_splits)
  then have "sound env {} en"
    using c new_coordinator_ok [OF c(1)] single_tasks_new [OF c(1)] by (simp add: sound_def contexts_ok_def cache_sound_def)
  then show ?thesis using c \<open>callers_idle c\<close> by (auto simp: steady_def barred_def)
qed

end
