(* ===== verification/Production_Service.thy ===== *)
theory Production_Service
  imports Production_Pipe Bilingual_Properties
begin

text \<open>
  The production service: \<open>ProductionNamedPipeServer\<close> over \<open>BilingualImeEngine\<close>.  The engine satisfies
  the contract of the pipe handlers, and with it secure focus holds end to end: pages in flight are
  refused when they finish, and every snapshot, context and cached answer of before is gone.
\<close>

section \<open>The engine behind the pipe\<close>

type_synonym ('g, 'b, 'p, 'r) production_server = "('g, 'b, 'p, 'r) bilingual server"

definition bilingual_ops :: "('g, 'b, 'p, 'r) bilingual_env \<Rightarrow> ('g, 'b, 'p, 'r) bilingual pipe_engine" where
  "bilingual_ops env = \<lparr>
     pe_context_epoch = \<lambda>en. int (bilingual_context_epoch en),
     pe_request_context_update = \<lambda>before after.
       hbind (bilingual_request_update env before after) (\<lambda>epoch. lift_result (Inr (JInt (int epoch)))),
     pe_query = \<lambda>raw_keys limit epoch. bilingual_query env raw_keys limit (Some (nat epoch)),
     pe_has_snapshot = Some (\<lambda>en epoch. bilingual_has_snapshot en (nat epoch)),
     pe_context_kind = Some (\<lambda>en epoch. bilingual_context_kind en (nat epoch)),
     pe_reset = None,
     pe_commit = Some (\<lambda>committed. updates_state (bilingual_commit env committed)),
     pe_reset_private_context = Some (updates_state (bilingual_reset_private env)),
     pe_clear_history = Some (updates_state (bilingual_clear_history env))\<rparr>"

text \<open>
  Arguments of the diagnostics and of the pending flag: the runtime's cached metrics (\<open>None\<close> without a
  provider), those of the page manager and of the collector, and the page manager's bounded check.
\<close>

record ('g, 'b) production_env =
  pv_runtime_diagnostics :: "'b \<Rightarrow> json option"
  pv_pages_diagnostics :: "'g \<Rightarrow> message"
  pv_collection_diagnostics :: message
  pv_pending_until :: "pystr \<Rightarrow> real \<Rightarrow> ('g \<times> 'b, bool) handler"

definition dict_update :: "message \<Rightarrow> message \<Rightarrow> message" where
  "dict_update d updates = fold (\<lambda>(k, v). od_set k v) updates d"

definition runtime_performance_diagnostics :: "('g, 'b) production_env \<Rightarrow> ('g, 'b, 'p, 'r) bilingual \<Rightarrow> json" where
  "runtime_performance_diagnostics pv en =
     (let raw = (case pv_runtime_diagnostics pv (co_backend (bi_coordinator en)) of Some (JDict raw) \<Rightarrow> raw | _ \<Rightarrow> [])
      in JDict (dict_update (dict_update (dict_update [] raw) (pv_pages_diagnostics pv (bi_pages en)))
           (pv_collection_diagnostics pv)))"

definition production_ops ::
  "('g, 'b, 'p, 'r) bilingual_env \<Rightarrow> ('g, 'b) production_env \<Rightarrow> ('g, 'b, 'p, 'r) bilingual production_engine" where
  "production_ops env pv = \<lparr>
     pn_query_page = bilingual_query_page env,
     pn_invalidate_sessions = Some (updates_state (invalidate_candidate_sessions env)),
     pn_performance_diagnostics = Some (reads_state (runtime_performance_diagnostics pv)),
     pn_pending = BoundedPending (\<lambda>set_id deadline. on_pages (pv_pending_until pv set_id deadline))\<rparr>"

definition worker_moves :: "('g, 'b, 'p, 'r) bilingual_env \<Rightarrow> ('g, 'b, 'p, 'r) bilingual \<Rightarrow> ('g, 'b, 'p, 'r) bilingual \<Rightarrow> bool" where
  "worker_moves env en en' \<longleftrightarrow> (\<exists>ev \<in> worker_events. \<exists>c. coordinator_step (be_api env) ev (bi_coordinator en) = Some c
     \<and> en' = en\<lparr>bi_coordinator := c\<rparr>)"

definition production_step ::
  "('g, 'b, 'p, 'r) bilingual_env \<Rightarrow> ('g, 'b) production_env \<Rightarrow> ('g, 'b, 'p, 'r) production_server
     \<Rightarrow> ('g, 'b, 'p, 'r) production_server \<Rightarrow> bool" where
  "production_step env pv = production_moves (bilingual_ops env) (production_ops env pv) (worker_moves env)"

section \<open>The contract\<close>

lemma keeps_safe: "engine_state.safe env B h \<Longrightarrow> keeps (steady env B) (\<lambda>en. int (requested en)) h"
  by (auto simp: keeps_def engine_state.safe_def)

lemma keeps_update:
  "(\<And>en. bilingual_moves env en (f en)) \<Longrightarrow> keeps (steady env B) (\<lambda>en. int (requested en)) (updates_state f)"
  using steady_moves by (fastforce simp: keeps_def updates_state_def)

lemma query_safe: "engine_state.safe env B (bilingual_query env raw_keys limit context_epoch)"
proof (rule engine_state.safeI)
  fix en r en'
  assume "steady env B en" "bilingual_query env raw_keys limit context_epoch en = (r, en')"
  then show "steady env B en' \<and> requested en \<le> requested en'"
    using query_steady(2,3) [of env B en raw_keys limit context_epoch] by simp
qed

interpretation production: production_service "bilingual_ops env" "steady env B" "\<lambda>en. int (requested en)" "worker_moves env"
  "production_ops env pv" for env :: "('g, 'b, 'p, 'r) bilingual_env" and B and pv
proof unfold_locales
  fix en en' :: "('g, 'b, 'p, 'r) bilingual" and before after r
  assume st: "steady env B en"
  show "steady env B en' \<and> int (requested en) \<le> int (requested en')
     \<and> (\<forall>n. r = Inr (JInt n) \<longrightarrow> int (requested en) < n \<and> n \<le> int (requested en'))"
    if "pe_request_context_update (bilingual_ops env) before after en = (r, en')"
  proof -
    obtain r1 en1 where q: "bilingual_request_update env before after en = (r1, en1)" by fastforce
    then show ?thesis
      using that request_steady [OF st q] by (auto simp: bilingual_ops_def hbind_def lift_result_def)
  qed
  show "steady env B en' \<and> int (requested en) \<le> int (requested en')" if "worker_moves env en en'"
    using that worker_steady [OF st] by (auto simp: worker_moves_def)
qed (auto simp: bilingual_ops_def production_ops_def intro!: keeps_safe query_safe page_safe on_pages_safe keeps_update
    bilingual_moves.commit bilingual_moves.invalidate bilingual_moves.reset bilingual_moves.history)

section \<open>Secure focus\<close>

lemma new_production_ok:
  assumes "new_bilingual backend pages n = Inr en" "new_server en k = Inr s"
  shows "production.server_ok env {} s"
  using production.new_server_ok [OF new_bilingual_steady [OF assms(1)] assms(2)] .

lemma production_reached:
  assumes "new_bilingual backend pages n = Inr en" "new_server en k = Inr s0" "(production_step env pv)\<^sup>*\<^sup>* s0 s"
  shows "production.server_ok env {} s"
  using production.production_steps_advance [OF assms(3) [unfolded production_step_def] new_production_ok [OF assms(1,2)]]
  by (simp add: production.advances_def)

text \<open>
  Claim C1. A page in flight never crosses secure focus: if a secure focus message is handled after a page
  request for an editor context has passed its first binding check, then whatever the clients, the model
  and the worker do before and after, the request is answered with a mismatch error, and nothing of the
  page, whatever the model computed, is serialised.
\<close>

theorem page_in_flight_refused:
  assumes "new_bilingual backend pages n = Inr en" "new_server en k = Inr s0" "(production_step env pv)\<^sup>*\<^sup>* s0 s"
    and "prepare_page m s = (Inr (Inr plan), s1)" "pg_epoch plan > 0" "(production_step env pv)\<^sup>*\<^sup>* s s2"
    and "is_secure_focus f" "s3 = snd (production_message (bilingual_ops env) (production_ops env pv) now f s2)"
    and "(production_step env pv)\<^sup>*\<^sup>* s3 t"
  shows "finish_page (production_ops env pv) request_id started m plan page t = (Inr (mismatch m), t)"
  using production.in_flight_page_refused [OF production_reached [OF assms(1-3)] assms(4,5) _ assms(7) assms(8)] assms(6,9)
  by (simp add: production_step_def)

text \<open>The engine after a secure focus message.\<close>

lemma production_focus_engine:
  assumes "is_secure_focus f"
  shows "sv_engine (snd (production_message (bilingual_ops env) (production_ops env pv) now f s))
     = invalidate_candidate_sessions env (bilingual_clear_history env (bilingual_reset_private env (sv_engine s)))"
proof -
  obtain i where i: "optional_identifier f ''request_id'' = Inr i" "field f ''type'' = jstr ''focus''"
    using assms by (auto simp: is_secure_focus_def split: sum.splits)
  obtain sid foc where p: "parse_focus f = Inr (sid, foc, True)"
    using assms by (auto simp: is_secure_focus_def split: sum.splits)
  have cleanup: "secure_cleanup (bilingual_ops env) s = (Inr (), s\<lparr>sv_context_update_receipt := None, sv_context_bindings := [],
      sv_engine := bilingual_clear_history env (bilingual_reset_private env (sv_engine s))\<rparr>)"
    by (simp add: secure_cleanup_def hbind_def updates_state_def attempt_def optionally_def on_engine_def bilingual_ops_def
      lift_result_def)
  have "production_focus (bilingual_ops env) (production_ops env pv) f s =
     (Inr (obj [(''type'', jstr ''focus''), (''ok'', JBool True), (''accepted'', JBool True),
       (''session_id'', JStr sid), (''focused'', JBool foc), (''secure'', JBool True)]),
      s\<lparr>sv_context_update_receipt := None, sv_context_bindings := [],
        sv_engine := invalidate_candidate_sessions env (bilingual_clear_history env (bilingual_reset_private env (sv_engine s)))\<rparr>)"
    by (simp add: production_focus_def handle_focus_def p hbind_def cleanup lift_result_def field_def obj_def
      production_ops_def optionally_def on_engine_def updates_state_def)
  then show ?thesis
    by (simp add: production_message_def i(2) jstr_def serve_def i(1) dispatch_production_focus [unfolded jstr_def] guarded_def
      hbind_def lift_result_def)
qed


section \<open>A session\<close>

text \<open>A context is typed and published; a page is asked for and a secure field takes the focus before it is answered.\<close>

definition shown_page :: "(pystr, unit) backend_state option \<Rightarrow> candidate_page" where
  "shown_page s = \<lparr>cp_candidate_set_id = asc ''set'', cp_page_index = 0, cp_page_size = 7, cp_has_more = False,
     cp_candidates = (case s of None \<Rightarrow> [] | Some s \<Rightarrow> [literal_candidate (bs_payload s) (int (bs_epoch s))]),
     cp_candidate_ids = (case s of None \<Rightarrow> [] | Some s \<Rightarrow> [asc ''one'']), cp_score_source = ''snapshot'', cp_search_depth = 0,
     cp_length_bucket = None, cp_elapsed_ms = 0, cp_timeout_count = 0\<rparr>"

definition shown_env :: "(nat, demo_backend, pystr, unit) bilingual_env" where
  "shown_env = demo_bilingual\<lparr>be_pages := demo_pages\<lparr>ps_query_page := (\<lambda>q refresh s gb. (Inr (shown_page s), gb))\<rparr>\<rparr>"

definition shown_providers :: "(nat, demo_backend) production_env" where
  "shown_providers = \<lparr>pv_runtime_diagnostics = (\<lambda>b. Some (JDict (obj [(''n_ctx'', JInt 512), (''prompt'', jstr ''secret'')]))),
     pv_pages_diagnostics = (\<lambda>g. obj [(''last_candidate_count'', JInt 3)]), pv_collection_diagnostics = [],
     pv_pending_until = (\<lambda>i deadline gb. (Inr False, gb))\<rparr>"

abbreviation shown_message :: "message \<Rightarrow> (nat, demo_backend, pystr, unit) production_server \<Rightarrow> message \<times> (nat, demo_backend, pystr, unit) production_server" where
  "shown_message \<equiv> production_message (bilingual_ops shown_env) (production_ops shown_env shown_providers) 0"

definition let_worker_publish :: "(nat, demo_backend, pystr, unit) production_server \<Rightarrow> (nat, demo_backend, pystr, unit) production_server" where
  "let_worker_publish s = s\<lparr>sv_engine := (sv_engine s)\<lparr>bi_coordinator := fold (perform demo_model)
     [WorkerPoll, WorkerAcquire, WorkerForward, WorkerPublish] (bi_coordinator (sv_engine s))\<rparr>\<rparr>"

definition shown_update :: message where
  "shown_update = obj [(''type'', jstr ''context_update''), (''context_epoch'', JInt 1),
     (''context_session'', jstr ''0123456789abcdef0123456789abcdef''), (''source_revision'', JInt 1),
     (''security_label'', jstr ''normal''), (''before'', jstr ''secret'')]"

definition shown_request :: message where
  "shown_request = obj [(''type'', jstr ''query_candidate_page''), (''session_id'', jstr ''a''), (''composition_revision'', JInt 0),
     (''context_epoch'', JInt 1), (''context_session'', jstr ''0123456789abcdef0123456789abcdef''), (''source_revision'', JInt 1),
     (''language_mode'', jstr ''chinese_first''), (''raw_keys'', jstr ''ni''), (''page_index'', JInt 0)]"

definition shown_focus :: message where
  "shown_focus = obj [(''type'', jstr ''focus''), (''session_id'', jstr ''a''), (''focused'', JBool True), (''secure'', JBool True)]"

definition shown_start :: "(nat, demo_backend, pystr, unit) production_server" where
  "shown_start = projr (new_server demo_engine 4)"

definition shown_typed :: "(nat, demo_backend, pystr, unit) production_server" where
  "shown_typed = let_worker_publish (snd (shown_message shown_update shown_start))"

definition shown_secure :: "(nat, demo_backend, pystr, unit) production_server" where
  "shown_secure = snd (shown_message shown_focus shown_typed)"

definition shown_later :: "(nat, demo_backend, pystr, unit) production_server" where
  "shown_later = let_worker_publish (snd (shown_message (od_set (asc ''source_revision'') (JInt 2) shown_update) shown_secure))"

definition shown_plan :: page_plan where
  "shown_plan = (case prepare_page shown_request shown_typed of (Inr (Inr plan), s) \<Rightarrow> plan | _ \<Rightarrow> undefined)"

lemma shown_start_new: "new_server demo_engine 4 = Inr shown_start"
  by (simp add: shown_start_def new_server_def)

lemma worker_performs:
  assumes "set evs \<subseteq> worker_events"
  shows "(production_step shown_env pv)\<^sup>*\<^sup>* s (s\<lparr>sv_engine := (sv_engine s)\<lparr>bi_coordinator := fold (perform demo_model) evs (bi_coordinator (sv_engine s))\<rparr>\<rparr>)"
  using assms
proof (induction evs rule: rev_induct)
  case (snoc ev evs)
  let ?c = "fold (perform demo_model) evs (bi_coordinator (sv_engine s))"
  let ?t = "s\<lparr>sv_engine := (sv_engine s)\<lparr>bi_coordinator := ?c\<rparr>\<rparr>"
  let ?u = "s\<lparr>sv_engine := (sv_engine s)\<lparr>bi_coordinator := perform demo_model ev ?c\<rparr>\<rparr>"
  have "(production_step shown_env pv)\<^sup>*\<^sup>* ?t ?u"
  proof (cases "coordinator_step demo_model ev ?c")
    case (Some d)
    then have "worker_moves shown_env (sv_engine ?t) ((sv_engine s)\<lparr>bi_coordinator := d\<rparr>)"
      using snoc.prems by (auto simp: worker_moves_def shown_env_def demo_bilingual_def)
    then have "production_step shown_env pv ?t (?t\<lparr>sv_engine := (sv_engine s)\<lparr>bi_coordinator := d\<rparr>\<rparr>)"
      unfolding production_step_def by (rule production_moves.engine)
    then show ?thesis using Some by (simp add: perform_def)
  qed (simp add: perform_def)
  then show ?case using snoc by simp
qed simp

lemma shown_message_reached: "(production_step shown_env shown_providers)\<^sup>*\<^sup>* s (let_worker_publish (snd (shown_message m s)))"
proof -
  have "production_step shown_env shown_providers s (snd (shown_message m s))"
    unfolding production_step_def by (rule production_moves.message)
  moreover have "(production_step shown_env shown_providers)\<^sup>*\<^sup>* (snd (shown_message m s)) (let_worker_publish (snd (shown_message m s)))"
    unfolding let_worker_publish_def by (rule worker_performs) (simp add: worker_events_def)
  ultimately show ?thesis by (rule converse_rtranclp_into_rtranclp)
qed

lemmas shown_typed_reached = shown_message_reached [of shown_start shown_update, folded shown_typed_def]
lemmas shown_later_reached = shown_message_reached [of shown_secure "od_set (asc ''source_revision'') (JInt 2) shown_update", folded shown_later_def]

lemma shown_plan_made: "prepare_page shown_request shown_typed = (Inr (Inr shown_plan), shown_typed)" "pg_epoch shown_plan = 1"
proof -
  have "fst (prepare_page shown_request shown_typed) = Inr (Inr shown_plan) \<and> pg_epoch shown_plan = 1" by code_simp
  then show "prepare_page shown_request shown_typed = (Inr (Inr shown_plan), shown_typed)" "pg_epoch shown_plan = 1"
    by (metis prepare_page_state prod.collapse, simp)
qed

lemma shown_is_secure: "is_secure_focus shown_focus"
  by code_simp

theorem page_in_flight_refused_witness:
  "field (fst (shown_message shown_request shown_typed)) ''ok'' = JBool True
   \<and> finish_page (production_ops shown_env shown_providers) None 0 shown_request shown_plan (shown_page None) shown_later
       = (Inr (mismatch shown_request), shown_later)"
proof
  show "field (fst (shown_message shown_request shown_typed)) ''ok'' = JBool True" by code_simp
  have plan: "pg_epoch shown_plan > 0" using shown_plan_made(2) by simp
  show "finish_page (production_ops shown_env shown_providers) None 0 shown_request shown_plan (shown_page None) shown_later
       = (Inr (mismatch shown_request), shown_later)"
    using page_in_flight_refused [OF demo_bilingual_new shown_start_new shown_typed_reached
        shown_plan_made(1) plan rtranclp.rtrancl_refl shown_is_secure shown_secure_def shown_later_reached] .
qed


section \<open>Diagnostics\<close>

text \<open>
  Claim C13. Diagnostics leak nothing: whatever the engine's diagnostics provider returns, a successful
  diagnostics response holds only the listed fields, and besides the response type and the client's own
  request id each value is null, a flag, a number or one of seven fixed words.  No other text of the
  provider, editor text in particular, can reach the client.
\<close>

theorem diagnostics_leak_nothing:
  assumes "field m ''type'' = jstr ''diagnostics''" "production_message en pr started m s = (r, s')"
    and "field r ''ok'' = JBool True" "(k, v) \<in> set r"
  shows "k \<in> set (map asc diagnostic_fields)
     \<and> (k = asc ''type'' \<and> v = jstr ''diagnostics'' \<or> k = asc ''request_id'' \<and> v = field m ''request_id''
        \<or> (\<exists>b. v = JBool b) \<or> (\<exists>i. v = JInt i) \<or> harmless_metric v)"
proof -
  have run: "production_message en pr started m s = serve_with exception_response (\<lambda>i. handle_diagnostics en pr i m) m s"
    using assms(1) by (simp add: production_message_def jstr_def)
  obtain i where i: "optional_identifier m ''request_id'' = Inr i" "handle_diagnostics en pr i m s = (Inr r, s')"
    using assms(2,3) unfolding run
    by (auto simp: serve_with_def exception_response_ok split: sum.splits prod.splits)
  from i(2) show ?thesis
  proof (cases rule: diagnostics_shape)
    case refused
    then show ?thesis using assms(3) by (simp add: error_response_ok)
  next
    case (reported ready asked updating metrics raw)
    note metrics = runtime_metrics_harmless [OF reported(1)]
    let ?head = "obj [(''type'', jstr ''diagnostics''), (''ok'', JBool True), (''context_epoch'', JInt ready),
        (''requested_context_epoch'', JInt asked), (''context_updating'', JBool updating)]"
    have "(k, v) \<in> set (?head @ metrics) \<or> k = asc ''request_id'' \<and> v = field m ''request_id''"
      using assms(4) optional_identifier_field [OF i(1)] set_od_set_subset [of "asc ''request_id''" _ "?head @ metrics"]
      by (fastforce simp: reported(2) with_request_id_def optional_str_def split: option.splits)
    moreover have "k \<in> set (map asc runtime_keys)" if "(k, v) \<in> set metrics"
      using that metrics(1) by (metis fst_conv image_eqI list.set_map)
    ultimately show ?thesis
      using metrics(2) by (auto simp: obj_def diagnostic_fields_def)
  qed
qed

definition shown_diagnostics :: message where
  "shown_diagnostics = obj [(''type'', jstr ''diagnostics'')]"

text \<open>The provider of the session also offers a \<open>prompt\<close>, which is not reported.\<close>

theorem diagnostics_leak_nothing_witness:
  "(asc ''n_ctx'', JInt 512) \<in> set (fst (shown_message shown_diagnostics shown_start))
   \<and> has_field (fst (shown_message shown_diagnostics shown_start)) ''ok''
   \<and> asc ''prompt'' \<notin> fst ` set (fst (shown_message shown_diagnostics shown_start))"
proof (intro conjI)
  let ?r = "fst (shown_message shown_diagnostics shown_start)"
  have run: "shown_message shown_diagnostics shown_start = (?r, snd (shown_message shown_diagnostics shown_start))" by simp
  have d: "field shown_diagnostics ''type'' = jstr ''diagnostics''" by code_simp
  have ok: "field ?r ''ok'' = JBool True" by code_simp
  show "(asc ''n_ctx'', JInt 512) \<in> set ?r" by code_simp
  show "has_field ?r ''ok''" by code_simp
  have "asc ''prompt'' \<notin> set (map asc diagnostic_fields)" by code_simp
  then show "asc ''prompt'' \<notin> fst ` set ?r"
    using diagnostics_leak_nothing [OF d run ok] by fastforce
qed

end
