(* ===== verification/Spec2Isabelle.thy ===== *)
theory Spec2Isabelle
  imports Bounded_Cache Unified Beam Mixed_Pinyin Pinyin_Index Key_State Editor_Context Qwen_Bridge Realtime Ranker
    Pipe_Connection Neural_Service Page_Properties
    Production_Service
begin

text \<open>
  Neural Weasel is a Chinese input method: a Windows front end sends the typed letters and the text
  around the caret to a Python service (\<open>src/src/neural_weasel\<close>), which proposes candidates that a
  language model scores.  This development models the service's own logic; file names below are
  relative to that directory.

  \<^bold>\<open>How the parts interact.\<close>  A message reaches a pipe handler or the QwenIME bridge.  A context
  message makes the engine request a model state under a new epoch; a worker computes it and it is
  published only if it is still the newest request.  A query names an epoch, and the candidates are
  ranked over the immutable state published under it: by the index and the logits (\<open>ranker.py\<close>), or by
  the constraints of the unified engine (\<open>unified.py\<close>), the constrained beam (\<open>beam.py\<close>) and the mixed
  pinyin search.  Secure focus revokes all of it.

  \<^bold>\<open>Theories and code.\<close>
  \<^item> \<open>Prelude\<close>: the result type \<open>error + 'a\<close> of every fallible operation (one constructor per Python
    exception), ordered dictionaries as association lists, first-occurrence de-duplication, stable
    sorting.  \<open>Bounded_Cache\<close>: the locales of memoised and bounded caches, interpreted on the dictionaries.
  \<^item> \<open>Pinyin\<close> (\<open>pinyin.py\<close>, \<open>modern_han.py\<close>, \<open>simplified_chinese.py\<close>): parsing typed letters with their
    apostrophe boundaries, Han tests, readings.  Unicode tables, pypinyin and zhconv are arguments.
  \<^item> \<open>Pinyin_Index\<close> (\<open>index.py\<close>): loading rows into tries, compatible entries, query plans, abbreviation
    search; \<open>Ranker\<close> (\<open>ranker.py\<close>): exact top-k ranking by logits.
  \<^item> \<open>Partial_Matcher\<close> (\<open>pinyin_partial.py\<close>), \<open>Search_Batches\<close> (\<open>search_batches.py\<close>): abbreviated readings,
    their dynamic program, the exhaustive search, its memos, the interruptible sort.
  \<^item> \<open>Query_Variants\<close>, \<open>Pinyin_Constraint\<close>, \<open>Script_Policy\<close>, \<open>Latin_Prefix\<close>, \<open>Unified\<close> (\<open>unified.py\<close>,
    \<open>neural_latin.py\<close>): fuzzy respellings, the constraints, context scripts, prices, the ranking.
  \<^item> \<open>Beam\<close> (\<open>beam.py\<close>) and \<open>Mixed_Pinyin\<close> (\<open>pinyin_beam.py\<close>, \<open>pinyin_single.py\<close>, \<open>mixed_pinyin.py\<close>):
    multi-token searches.  The locales \<open>branching_backend\<close>, \<open>constraint_index\<close> and \<open>beam_search\<close> state
    what the search needs of the model and of the index.
  \<^item> \<open>Backends\<close> (\<open>backends.py\<close>, \<open>conditional_backend.py\<close>): published model states, revocation by
    generation, normalised scores, continuation slots.
  \<^item> \<open>Epoch_Publisher\<close>: the epoch contract as a locale, interpreted twice: \<open>Realtime\<close> (\<open>realtime.py\<close>)
    and \<open>Neural_Engine\<close> (\<open>engine.py\<close>), each a step function whose events are the critical sections.
  \<^item> \<open>Key_State\<close> (\<open>key_state.py\<close>), \<open>Editor_Context\<close> (\<open>context.py\<close>): the composition state machine and the
    clipping of context in UTF-16 units.
  \<^item> \<open>Json\<close>, \<open>Wire\<close> (\<open>protocol.py\<close>, \<open>qwenime_compat/wire.py\<close>): JSON as Python reads and writes it, UTF-8,
    both framings.  \<open>Qwen_Bridge\<close> (\<open>qwenime_compat/protocol.py\<close>, \<open>bridge_core.py\<close>): requests, sessions, keys.
  \<^item> \<open>Pipe_Server\<close>, \<open>Pipe_Connection\<close> (\<open>pipe_server.py\<close>): every handler as state passing with
    exceptions, the dispatch, the frame loop.  The locale \<open>context_engine\<close> is what the handlers need of
    an engine; \<open>Neural_Service\<close> interprets it on the index engine.
  \<^item> \<open>Epoch_Tasks\<close>: each requested epoch of the coordinator is held by one task and published at most
    once, so the state under an epoch never changes.  \<open>Bilingual_Engine\<close> (\<open>bilingual_engine.py\<close>): retained
    contexts, the query cache, updates, queries, resets and the baseline over the coordinator and the
    unified engine, with the invariant that every cached answer is the one that would be computed now;
    \<open>Bilingual_Properties\<close>: what it promises, and three runs in which contexts and resets fall short.
  \<^item> \<open>Production_Pipe\<close> (\<open>production_pipe.py\<close>): page requests with their two binding checks, diagnostics, the
    override of focus.  The locale \<open>production_service\<close> extends \<open>context_engine\<close> by the operations this server
    adds; \<open>Production_Service\<close> interprets it on the bilingual engine.

  \<^item> \<open>State_Result\<close>: methods that change an object and may raise, with the locale \<open>state_relation\<close> for what
    such a method does to the state; the pipe handlers and the page manager are interpretations.
  \<^item> \<open>Candidate_Pages\<close> (\<open>neural_candidates.py\<close>): the page manager: root candidates of one score origin,
    search sessions with a frontier, the closing of length buckets, freezing, queries with an absolute
    deadline, prewarmed single letters.  \<open>Page_Search\<close>: the invariant while a frontier is expanded and the
    measure of the expansion loop; \<open>Page_Queries\<close>, \<open>Page_Protocol\<close>: frozen pages and histories of calls;
    \<open>Page_Termination\<close>: fuel; \<open>Page_Properties\<close>: what a client may rely on, with a concrete session.

  \<^bold>\<open>What the lemmas show.\<close>  Per component: a well-formedness invariant that every operation keeps
  (\<open>index_ok\<close>, \<open>coordinator_ok\<close>, \<open>engine_ok\<close>, \<open>server_ok\<close>, the session invariant of the bridge), and exactness of
  the searches against a specification by filters and sorting.  Across components: the barrier of
  secure focus holds for interleaved threads, and through the pipe no older context can be queried or
  addressed; in the production service a page in flight is refused after secure focus, and no snapshot,
  context or cached answer of before is left; diagnostics carry no text of the provider; the query cache
  is invisible; candidates are legal for the typed keys; rankings are sorted duplicate-free selections;
  frames and packets round trip; connections answer in order;
  candidate pages never change once answered and what the search adds later is longer.

  \<^bold>\<open>Loops and fuel.\<close>  Searches are recursive functions with a measure, or carry fuel that a lemma shows
  to suffice: the trie walks use the number of nodes, the respelling search is a partial function that
  ends because no syllable is empty, the expansion loop of a page marks a new token path in every round
  and there are finitely many (\<open>paging_terminates\<close>), JSON parsing uses twice the length of the text, the beams run their fixed number of rounds.
  Events of the concurrent engines are finite lists; liveness is stated for schedules that let the
  worker run.

  \<^bold>\<open>Conventions.\<close>  A Python string is a list of code points, an int is \<open>int\<close>, a float score is a real
  (\<open>pyfloat\<close> where NaN and infinities matter), a dict that keeps order is an association list, an
  exception is \<open>Inl\<close>.  Clocks, deadlines and cancellation tests are arguments.  A lock-protected block is
  one event; a pipe handler is one move, because \<open>_context_forward_lock\<close> serialises the handlers that
  change bindings; a page request of the production server is three moves, so that others can come
  between its binding checks.  A method of the bilingual engine is one move; its wait for the update lock
  lets the worker finish its forward.

  \<^bold>\<open>Not modelled.\<close>  The threaded successors of the page manager with their GPU score batches
  (\<open>neural_candidate_pages*.py\<close>), which override methods of the modelled base class and are an argument
  of the bilingual engine; the ctypes runtime over llama.cpp, PyTorch and CUDA probing; Windows pipe creation,
  ACLs and threads; HTTP and command line glue; file hashing and installation scripts.
\<close>

end
